(* ===== verification/Prelude.thy ===== *)
theory Prelude
  imports Main "HOL-Library.Word"
begin

text \<open>
  Shared vocabulary of the development: C strings and their comparison, the ways a C function
  of Constable can leave (a value, or the process exit of \<open>fatal()\<close>), and the generic lemmas on
  lists that the component theories use.

  A C string is the list of its characters without the terminating NUL. \<open>malloc\<close> may fail, so an
  operation that allocates takes a flag that says whether the allocation succeeds. The messages
  printed by \<open>runtime()\<close>, \<open>error()\<close> and \<open>comm_error()\<close> are output only and are not part of a
  state; \<open>fatal()\<close> prints and then calls \<open>exit(-1)\<close>, which is the value \<open>Fatal\<close>.
\<close>

unbundle bit_operations_syntax

named_theorems vs_laws "what the operations on sets of virtual spaces do to the set of identifiers"

named_theorems frame_laws "what an operation leaves unchanged"

subsection \<open>Ways to leave a function\<close>

datatype 'a outcome = Ret 'a | Fatal string

fun bind_outcome :: "'a outcome \<Rightarrow> ('a \<Rightarrow> 'b outcome) \<Rightarrow> 'b outcome" where
  "bind_outcome (Ret a) f = f a"
| "bind_outcome (Fatal m) f = Fatal m"

lemma bind_outcome_Ret_iff [simp]:
  "bind_outcome m f = Ret b \<longleftrightarrow> (\<exists>a. m = Ret a \<and> f a = Ret b)"
  by (cases m) auto

text \<open>The same for operations that can also be undefined (\<open>None\<close>).\<close>

fun bind_res :: "'a outcome option \<Rightarrow> ('a \<Rightarrow> 'b outcome option) \<Rightarrow> 'b outcome option" where
  "bind_res None f = None"
| "bind_res (Some (Fatal m)) f = Some (Fatal m)"
| "bind_res (Some (Ret a)) f = f a"

definition Out_of_memory :: string where "Out_of_memory = ''Out of memory''"

lemma bind_res_Ret_iff [simp]:
  "bind_res m f = Some (Ret b) \<longleftrightarrow> (\<exists>a. m = Some (Ret a) \<and> f a = Some (Ret b))"
  by (cases "(m, f)" rule: bind_res.cases) auto

subsection \<open>Comparison of C strings\<close>

text \<open>\<open>strcmp\<close> compares byte by byte as unsigned characters, and the end of a string (the NUL)
  is below every character. Only the sign of the result is specified, so it is -1, 0 or 1.\<close>

fun strcmp :: "string \<Rightarrow> string \<Rightarrow> int" where
  "strcmp [] [] = 0"
| "strcmp [] (_ # _) = -1"
| "strcmp (_ # _) [] = 1"
| "strcmp (a # as) (b # bs) =
     (if (of_char a :: nat) < of_char b then -1
      else if (of_char b :: nat) < of_char a then 1 else strcmp as bs)"

definition strncmp :: "string \<Rightarrow> string \<Rightarrow> nat \<Rightarrow> int" where
  "strncmp a b n = strcmp (take n a) (take n b)"

lemma strcmp_0_iff [simp]: "strcmp a b = 0 \<longleftrightarrow> a = b"
  by (induction a b rule: strcmp.induct) (auto simp: not_less)

lemma strcmp_refl [simp]: "strcmp a a = 0"
  by simp

lemma strcmp_Nil [simp]: "strcmp [] c < 0 \<longleftrightarrow> c \<noteq> []" "\<not> strcmp c [] < 0"
  by (cases c; simp)+

lemma strcmp_cases: "strcmp a b = -1 \<or> strcmp a b = 0 \<or> strcmp a b = 1"
  by (induction a b rule: strcmp.induct) auto

lemma strcmp_antisym: "strcmp b a = - strcmp a b"
  by (induction a b rule: strcmp.induct) auto

lemma strcmp_less_iff: "strcmp a b < 0 \<longleftrightarrow> strcmp a b = -1"
  using strcmp_cases [of a b] by (auto simp del: strcmp_0_iff)

lemma strcmp_less_trans: "strcmp a b < 0 \<Longrightarrow> strcmp b c < 0 \<Longrightarrow> strcmp a c < 0"
proof (induction a b arbitrary: c rule: strcmp.induct)
  case (4 a as b bs)
  show ?case
  proof (cases c)
    case Nil
    with "4.prems" show ?thesis by simp
  next
    case (Cons d ds)
    with "4.prems" "4.IH" [of ds] show ?thesis
      by (auto split: if_splits)
  qed
qed auto

lemma strcmp_ge_iff: "0 \<le> strcmp a b \<longleftrightarrow> a = b \<or> strcmp b a < 0"
  using strcmp_cases [of a b] strcmp_antisym [of a b] by (auto simp del: strcmp_0_iff simp: strcmp_less_iff) (simp only: strcmp_0_iff)+

subsection \<open>Words\<close>

lemma word32_eq_iff: "(a :: 32 word) = b \<longleftrightarrow> (\<forall>j < 32. bit a j \<longleftrightarrow> bit b j)"
  by (auto intro: bit_word_eqI)

lemma and_exp_if: "(x :: 'a :: len word) AND 2 ^ n = (if bit x n then 2 ^ n else 0)"
  by (rule bit_word_eqI) (auto simp: bit_simps)

lemma bit_single: "j < LENGTH('a) \<Longrightarrow> bit (push_bit k (1 :: 'a :: len word)) j \<longleftrightarrow> j = k"
  by (auto simp: bit_push_bit_iff bit_1_iff simp del: push_bit_of_1)

subsection \<open>Generic lemmas on lists\<close>

lemma map_upt_nth [simp]: "i < n \<Longrightarrow> map f [0..<n] ! i = f i"
  by simp

lemma list_eq_upt: "length xs = n \<Longrightarrow> map (\<lambda>i. xs ! i) [0..<n] = xs"
  by (auto intro: nth_equalityI)

lemma find_Some_conv: "List.find P xs = Some x \<Longrightarrow> x \<in> set xs \<and> P x"
  by (auto simp: find_Some_iff)

end
