(* ===== verification/Virtual_Spaces.thy ===== *)
theory Virtual_Spaces
  imports Prelude
begin

text \<open>
  Sets of virtual spaces (\<open>vs.c\<close>, \<open>vs.h\<close>). A set is an array of \<open>VS_WORDS\<close> 32-bit words;
  identifier \<open>n\<close> is bit \<open>n mod 32\<close> of word \<open>n div 32\<close>. The loops of \<open>vs.c\<close> run over the indices
  \<open>0..<VS_WORDS\<close>. \<open>vs_ids\<close> reads an array as the set of identifiers it holds, which is what every
  operation is specified by; the locale \<open>vs_sets\<close> is the interface the other components use.
\<close>

type_synonym vs = "32 word list"

definition MAX_NUM_OF_VS :: nat where "MAX_NUM_OF_VS = 64"

definition BITS_PER_VS_WORD :: nat where "BITS_PER_VS_WORD = 32"

definition VS_WORDS :: nat where "VS_WORDS = MAX_NUM_OF_VS div BITS_PER_VS_WORD"

definition vs_ok :: "vs \<Rightarrow> bool" where "vs_ok v \<longleftrightarrow> length v = VS_WORDS"

lemmas vs_consts = MAX_NUM_OF_VS_def BITS_PER_VS_WORD_def VS_WORDS_def

subsection \<open>The operations of vs.c\<close>

definition vs_clear :: vs where
  "vs_clear = replicate VS_WORDS 0"

definition vs_fill :: vs where
  "vs_fill = replicate VS_WORDS (NOT 0)"

definition vs_invert :: "vs \<Rightarrow> vs" where
  "vs_invert t = map (\<lambda>i. NOT (t ! i)) [0..<VS_WORDS]"

definition vs_set :: "vs \<Rightarrow> vs \<Rightarrow> vs" where
  "vs_set f t = map (\<lambda>i. f ! i) [0..<VS_WORDS]"

definition vs_add :: "vs \<Rightarrow> vs \<Rightarrow> vs" where
  "vs_add f t = map (\<lambda>i. t ! i OR f ! i) [0..<VS_WORDS]"

definition vs_sub :: "vs \<Rightarrow> vs \<Rightarrow> vs" where
  "vs_sub f t = map (\<lambda>i. t ! i AND NOT (f ! i)) [0..<VS_WORDS]"

definition vs_mask :: "vs \<Rightarrow> vs \<Rightarrow> vs" where
  "vs_mask f t = map (\<lambda>i. t ! i AND f ! i) [0..<VS_WORDS]"

definition vs_test :: "vs \<Rightarrow> vs \<Rightarrow> bool" where
  "vs_test tst v = list_ex (\<lambda>i. v ! i AND tst ! i \<noteq> 0) [0..<VS_WORDS]"

definition vs_issub :: "vs \<Rightarrow> vs \<Rightarrow> bool" where
  "vs_issub sub st = list_all (\<lambda>i. st ! i AND sub ! i = sub ! i) [0..<VS_WORDS]"

definition vs_isclear :: "vs \<Rightarrow> bool" where
  "vs_isclear v = list_all (\<lambda>i. v ! i = 0) [0..<VS_WORDS]"

definition vs_isfull :: "vs \<Rightarrow> bool" where
  "vs_isfull v = list_all (\<lambda>i. v ! i = NOT 0) [0..<VS_WORDS]"

text \<open>The static counter \<open>vs_cnt\<close> is the state of the allocator. \<open>vs_alloc\<close> returns the new
  counter and the new identifier set, or \<open>None\<close> where it returns -1 (\<open>Out_of_vs\<close>).\<close>

definition vs_init :: nat where "vs_init = 0"

definition vs_alloc :: "nat \<Rightarrow> (nat \<times> vs) option" where
  "vs_alloc cnt =
     (if MAX_NUM_OF_VS \<le> cnt then None
      else (let i = cnt div BITS_PER_VS_WORD;
                v = vs_clear
            in Some (cnt + 1, v[i := v ! i OR push_bit (cnt mod BITS_PER_VS_WORD) 1])))"

definition vs_is_enough :: "nat \<Rightarrow> int \<Rightarrow> bool" where
  "vs_is_enough cnt bites = (\<not> bites < int cnt)"

subsection \<open>The set an array stands for\<close>

definition vs_ids :: "vs \<Rightarrow> nat set" where
  "vs_ids v = {n. n < MAX_NUM_OF_VS \<and> bit (v ! (n div BITS_PER_VS_WORD)) (n mod BITS_PER_VS_WORD)}"

lemma vs_idx: "n < MAX_NUM_OF_VS \<Longrightarrow> n div BITS_PER_VS_WORD < VS_WORDS \<and> n mod BITS_PER_VS_WORD < 32"
  by (simp add: vs_consts less_mult_imp_div_less)

lemma vs_bit_id:
  assumes "i < VS_WORDS" and "j < 32"
  shows "bit (v ! i) j \<longleftrightarrow> i * BITS_PER_VS_WORD + j \<in> vs_ids v"
    and "i * BITS_PER_VS_WORD + j < MAX_NUM_OF_VS"
  using assms by (auto simp: vs_ids_def vs_consts)

lemma vs_word_zero: "(w :: 32 word) = 0 \<longleftrightarrow> (\<forall>j < 32. \<not> bit w j)"
  by (auto simp: word32_eq_iff)

lemma ids_subset: "vs_ids v \<subseteq> {..<MAX_NUM_OF_VS}"
  by (auto simp: vs_ids_def)

lemma finite_ids [simp]: "finite (vs_ids v)"
  by (rule finite_subset [OF ids_subset]) simp

lemma ok_clear [simp]: "vs_ok vs_clear"
  and ok_fill [simp]: "vs_ok vs_fill"
  and ok_invert [simp]: "vs_ok (vs_invert t)"
  and ok_set [simp]: "vs_ok (vs_set f t)"
  and ok_add [simp]: "vs_ok (vs_add f t)"
  and ok_sub [simp]: "vs_ok (vs_sub f t)"
  and ok_mask [simp]: "vs_ok (vs_mask f t)"
  by (simp_all add: vs_ok_def vs_clear_def vs_fill_def vs_invert_def vs_set_def vs_add_def
      vs_sub_def vs_mask_def)

lemma ids_clear [simp]: "vs_ids vs_clear = {}"
  using vs_idx by (auto simp: vs_ids_def vs_clear_def)

lemma ids_fill [simp]: "vs_ids vs_fill = {..<MAX_NUM_OF_VS}"
  using vs_idx by (auto simp: vs_ids_def vs_fill_def bit_not_iff)

lemma ids_invert [simp]: "vs_ids (vs_invert t) = {..<MAX_NUM_OF_VS} - vs_ids t"
  using vs_idx by (auto simp: vs_ids_def vs_invert_def bit_not_iff)

lemma ids_set [simp]: "vs_ids (vs_set f t) = vs_ids f"
  using vs_idx by (auto simp: vs_ids_def vs_set_def)

lemma ids_add [simp]: "vs_ids (vs_add f t) = vs_ids t \<union> vs_ids f"
  using vs_idx by (auto simp: vs_ids_def vs_add_def bit_or_iff)

lemma ids_sub [simp]: "vs_ids (vs_sub f t) = vs_ids t - vs_ids f"
  using vs_idx by (auto simp: vs_ids_def vs_sub_def bit_and_iff bit_not_iff)

lemma ids_mask [simp]: "vs_ids (vs_mask f t) = vs_ids t \<inter> vs_ids f"
  using vs_idx by (auto simp: vs_ids_def vs_mask_def bit_and_iff)

lemma vs_ext:
  assumes "vs_ok a" and "vs_ok b" and "vs_ids a = vs_ids b"
  shows "a = b"
proof (rule nth_equalityI)
  show "length a = length b" using assms by (simp add: vs_ok_def)
  fix i assume "i < length a"
  then have "i < VS_WORDS" using assms by (simp add: vs_ok_def)
  then show "a ! i = b ! i"
    using assms(3) vs_bit_id(1) [of i _ a] vs_bit_id(1) [of i _ b] by (auto simp: word32_eq_iff)
qed

lemma vs_isclear_iff [vs_laws]: "vs_isclear v \<longleftrightarrow> vs_ids v = {}"
proof
  assume "vs_isclear v"
  then show "vs_ids v = {}"
    using vs_idx by (auto simp: vs_isclear_def vs_ids_def list_all_iff)
next
  assume "vs_ids v = {}"
  then have "\<And>i j. i < VS_WORDS \<Longrightarrow> j < 32 \<Longrightarrow> \<not> bit (v ! i) j"
    using vs_bit_id(1) by auto
  then show "vs_isclear v"
    by (auto simp: vs_isclear_def vs_word_zero list_all_iff)
qed

lemma vs_isfull_iff [vs_laws]: "vs_isfull v \<longleftrightarrow> vs_ids v = {..<MAX_NUM_OF_VS}"
proof
  assume "vs_isfull v"
  then show "vs_ids v = {..<MAX_NUM_OF_VS}"
    using vs_idx by (auto simp: vs_isfull_def vs_ids_def list_all_iff bit_not_iff)
next
  assume full: "vs_ids v = {..<MAX_NUM_OF_VS}"
  have "\<And>i j. i < VS_WORDS \<Longrightarrow> j < 32 \<Longrightarrow> bit (v ! i) j"
    using vs_bit_id full by auto
  then show "vs_isfull v"
    by (auto simp: vs_isfull_def list_all_iff word32_eq_iff bit_not_iff)
qed

lemma vs_test_iff [vs_laws]: "vs_test tst v \<longleftrightarrow> vs_ids tst \<inter> vs_ids v \<noteq> {}"
proof -
  have "vs_test tst v \<longleftrightarrow> \<not> vs_isclear (vs_mask tst v)"
    by (auto simp: vs_test_def vs_isclear_def vs_mask_def list_ex_iff list_all_iff)
  then show ?thesis by (auto simp: vs_isclear_iff)
qed

lemma vs_issub_iff [vs_laws]: "vs_issub sub st \<longleftrightarrow> vs_ids sub \<subseteq> vs_ids st"
proof
  assume "vs_issub sub st"
  then have sub: "\<And>i. i < VS_WORDS \<Longrightarrow> st ! i AND sub ! i = sub ! i"
    by (auto simp: vs_issub_def list_all_iff)
  show "vs_ids sub \<subseteq> vs_ids st"
  proof
    fix n assume "n \<in> vs_ids sub"
    then show "n \<in> vs_ids st"
      using sub vs_idx [of n] by (auto simp: vs_ids_def) (metis bit_and_iff)
  qed
next
  assume le: "vs_ids sub \<subseteq> vs_ids st"
  have "\<And>i j. i < VS_WORDS \<Longrightarrow> j < 32 \<Longrightarrow> bit (sub ! i) j \<Longrightarrow> bit (st ! i) j"
    using le by (auto simp: vs_bit_id(1))
  then show "vs_issub sub st"
    by (auto simp: vs_issub_def list_all_iff word32_eq_iff bit_and_iff)
qed

subsection \<open>Allocation of identifiers\<close>

lemma vs_alloc_Some:
  assumes "vs_alloc cnt = Some (cnt', v)"
  shows "cnt < MAX_NUM_OF_VS" and "cnt' = cnt + 1" and "vs_ok v" and "vs_ids v = {cnt}"
proof -
  from assms have lt: "cnt < MAX_NUM_OF_VS" and cnt': "cnt' = cnt + 1"
    and v: "v = vs_clear[cnt div BITS_PER_VS_WORD :=
                  vs_clear ! (cnt div BITS_PER_VS_WORD) OR push_bit (cnt mod BITS_PER_VS_WORD) 1]"
    by (auto simp: vs_alloc_def Let_def split: if_splits)
  show "cnt < MAX_NUM_OF_VS" "cnt' = cnt + 1" by fact+
  show "vs_ok v" by (simp add: v vs_ok_def vs_clear_def)
  show "vs_ids v = {cnt}"
  proof (rule set_eqI)
    fix n
    show "n \<in> vs_ids v \<longleftrightarrow> n \<in> {cnt}"
      using lt vs_idx [of n] vs_idx [of cnt] div_mult_mod_eq [of n BITS_PER_VS_WORD]
        div_mult_mod_eq [of cnt BITS_PER_VS_WORD] bit_single [where 'a=32, of "n mod BITS_PER_VS_WORD" "cnt mod BITS_PER_VS_WORD"]
      by (auto simp: v vs_ids_def vs_clear_def nth_list_update bit_or_iff simp del: push_bit_of_1)
        (metis div_mult_mod_eq)
  qed
qed

text \<open>The identifiers handed out by repeated allocation: the \<open>k\<close>-th call from \<open>cnt\<close>.\<close>

fun vs_alloc_n :: "nat \<Rightarrow> nat \<Rightarrow> (nat \<times> vs list) option" where
  "vs_alloc_n 0 cnt = Some (cnt, [])"
| "vs_alloc_n (Suc k) cnt =
     (case vs_alloc cnt of None \<Rightarrow> None
      | Some (cnt', v) \<Rightarrow> map_option (\<lambda>(c, vs). (c, v # vs)) (vs_alloc_n k cnt'))"

lemma vs_alloc_n_ids:
  "vs_alloc_n k cnt = Some (c, vs) \<Longrightarrow>
     c = cnt + k \<and> map vs_ids vs = map (\<lambda>i. {i}) [cnt..<cnt + k] \<and> (k = 0 \<or> c \<le> MAX_NUM_OF_VS)"
proof (induction k arbitrary: cnt vs c)
  case 0
  then show ?case by simp
next
  case (Suc k)
  then obtain c1 v vs' where a: "vs_alloc cnt = Some (c1, v)"
    and r: "vs_alloc_n k c1 = Some (c, vs')" and vs: "vs = v # vs'"
    by (auto split: option.splits)
  have "[cnt..<cnt + Suc k] = cnt # [c1..<c1 + k]"
    using vs_alloc_Some(2) [OF a] by (simp add: upt_conv_Cons del: upt_Suc)
  with Suc.IH [OF r] vs_alloc_Some [OF a] vs show ?case
    by (cases k) (simp_all del: upt_Suc)
qed

lemma vs_alloc_n_total: "cnt + k \<le> MAX_NUM_OF_VS \<Longrightarrow> \<exists>r. vs_alloc_n k cnt = Some r"
proof (induction k arbitrary: cnt)
  case 0
  then show ?case by simp
next
  case (Suc k)
  then have "cnt < MAX_NUM_OF_VS" by simp
  then obtain v where "vs_alloc cnt = Some (cnt + 1, v)"
    by (auto simp: vs_alloc_def Let_def)
  moreover have "\<exists>r. vs_alloc_n k (cnt + 1) = Some r"
    using Suc by simp
  ultimately show ?case by auto
qed

subsection \<open>The interface the other components use\<close>

locale vs_sets =
  fixes clear :: 'v and add :: "'v \<Rightarrow> 'v \<Rightarrow> 'v" and isclear :: "'v \<Rightarrow> bool"
    and test :: "'v \<Rightarrow> 'v \<Rightarrow> bool" and ok :: "'v \<Rightarrow> bool" and ids :: "'v \<Rightarrow> nat set"
  assumes clear_ok: "ok clear" and add_ok: "ok (add f t)"
    and clear_ids: "ids clear = {}" and add_ids: "ids (add f t) = ids t \<union> ids f"
    and isclear_ids: "isclear v \<longleftrightarrow> ids v = {}"
    and test_ids: "test a b \<longleftrightarrow> ids a \<inter> ids b \<noteq> {}"
    and ext: "ok a \<Longrightarrow> ok b \<Longrightarrow> ids a = ids b \<Longrightarrow> a = b"
begin

lemma add_comm: "add a b = add b a"
  by (rule ext) (auto simp: add_ok add_ids)

lemma add_left_comm: "add a (add b c) = add b (add a c)"
  by (rule ext) (auto simp: add_ok add_ids)

lemma add_absorb: "ok t \<Longrightarrow> ids f \<subseteq> ids t \<Longrightarrow> add f t = t"
  by (rule ext) (auto simp: add_ok add_ids)

lemma fold_add_ids: "ids (fold add xs t) = ids t \<union> \<Union> (ids ` set xs)"
  by (induction xs arbitrary: t) (auto simp: add_ids)

lemma fold_add_ok: "ok t \<Longrightarrow> ok (fold add xs t)"
  by (induction xs arbitrary: t) (auto simp: add_ok)

lemma test_fold: "test a (fold add xs t) \<longleftrightarrow> test a t \<or> (\<exists>x \<in> set xs. test a x)"
  by (auto simp: test_ids fold_add_ids)

end

interpretation vsets: vs_sets vs_clear vs_add vs_isclear vs_test vs_ok vs_ids
  by unfold_locales (auto simp: vs_laws intro: vs_ext)

subsection \<open>Properties\<close>

text \<open>C38. Every operation of \<open>vs.c\<close> is the set operation its comment names, on the sets of
  virtual-space identifiers that the arrays stand for: clear, fill, complement, copy, union,
  difference and intersection, and the tests for a common element, inclusion, emptiness and
  fullness. \<open>vs_add\<close> and its kin take the source first and the destination second.\<close>

theorem vs_operations_are_set_operations:
  "vs_ids vs_clear = {} \<and> vs_ids vs_fill = {..<MAX_NUM_OF_VS}
   \<and> vs_ids (vs_invert t) = {..<MAX_NUM_OF_VS} - vs_ids t
   \<and> vs_ids (vs_set f t) = vs_ids f
   \<and> vs_ids (vs_add f t) = vs_ids t \<union> vs_ids f
   \<and> vs_ids (vs_sub f t) = vs_ids t - vs_ids f
   \<and> vs_ids (vs_mask f t) = vs_ids t \<inter> vs_ids f
   \<and> (vs_test a b \<longleftrightarrow> vs_ids a \<inter> vs_ids b \<noteq> {})
   \<and> (vs_issub a b \<longleftrightarrow> vs_ids a \<subseteq> vs_ids b)
   \<and> (vs_isclear a \<longleftrightarrow> vs_ids a = {})
   \<and> (vs_isfull a \<longleftrightarrow> vs_ids a = {..<MAX_NUM_OF_VS})"
  by (simp add: vs_laws)

text \<open>From \<open>vs_init\<close> the allocator hands out exactly \<open>MAX_NUM_OF_VS\<close> identifier sets, the
  \<open>k\<close>-th one being the singleton \<open>{k}\<close>, so that no two spaces share an identifier, and the next
  call fails with \<open>Out_of_vs\<close>.\<close>

theorem vs_alloc_hands_out_distinct_ids:
  "\<exists>sets. vs_alloc_n MAX_NUM_OF_VS vs_init = Some (MAX_NUM_OF_VS, sets)
     \<and> map vs_ids sets = map (\<lambda>i. {i}) [0..<MAX_NUM_OF_VS] \<and> vs_alloc MAX_NUM_OF_VS = None"
proof -
  obtain c sets where r: "vs_alloc_n MAX_NUM_OF_VS vs_init = Some (c, sets)"
    using vs_alloc_n_total [of vs_init MAX_NUM_OF_VS] by (auto simp: vs_init_def)
  from vs_alloc_n_ids [OF r] r show ?thesis
    by (simp add: vs_init_def vs_alloc_def)
qed

end
