(* ===== verification/Hash_Table.thy ===== *)
theory Hash_Table
  imports Prelude
begin

text \<open>
  The hash table of \<open>hash.c\<close>, in which a connection keeps its classes and its event types by
  their protocol identifiers. A table has 256 chains; a chain is the list of its entries in the
  order of the \<open>next\<close> pointers, each with its key. The entry itself (a \<open>class_s\<close> or an
  \<open>event_type_s\<close>, both of which start with their \<open>hash_ent_s\<close>) is a value of the type variable.
  An entry is added while it is in no chain, as its callers do, so the chains do not share tails.
\<close>

type_synonym hkey = "64 word"

record 'e hash_s =
  table :: "(hkey \<times> 'e) list list"

definition hash_ok :: "'e hash_s \<Rightarrow> bool" where
  "hash_ok h \<longleftrightarrow> length (table h) = 256"

definition hash_empty :: "'e hash_s" where
  "hash_empty = \<lparr>table = replicate 256 []\<rparr>"

definition hash_func :: "hkey \<Rightarrow> nat" where
  "hash_func x = unat ((drop_bit 24 x XOR drop_bit 16 x XOR drop_bit 8 x XOR x) AND 0xff)"

definition hash_add :: "'e hash_s \<Rightarrow> 'e \<Rightarrow> hkey \<Rightarrow> 'e hash_s" where
  "hash_add h e key =
     (let i = hash_func key in h\<lparr>table := (table h)[i := (key, e) # table h ! i]\<rparr>)"

fun chain_find :: "(hkey \<times> 'e) list \<Rightarrow> hkey \<Rightarrow> 'e option" where
  "chain_find [] key = None"
| "chain_find ((k, e) # es) key = (if k = key then Some e else chain_find es key)"

definition hash_find :: "'e hash_s \<Rightarrow> hkey \<Rightarrow> 'e option" where
  "hash_find h key = chain_find (table h ! hash_func key) key"

text \<open>\<open>hash_del\<close> walks the chain with a pointer \<open>e\<close> to the link that holds the current entry.
  When it finds the key it assigns \<open>NULL\<close> to that local pointer, not to the link it points to,
  so the link (here: the rest of the chain from the entry on) stays as it was. The result is the
  chain after the walk and the entry returned.\<close>

fun chain_del :: "(hkey \<times> 'e) list \<Rightarrow> hkey \<Rightarrow> (hkey \<times> 'e) list \<times> 'e option" where
  "chain_del [] key = ([], None)"
| "chain_del ((k, e) # es) key =
     (if k = key then ((k, e) # es, Some e)
      else (let (es', r) = chain_del es key in ((k, e) # es', r)))"

definition hash_del :: "'e hash_s \<Rightarrow> hkey \<Rightarrow> 'e hash_s \<times> 'e option" where
  "hash_del h key =
     (let i = hash_func key; (es, r) = chain_del (table h ! i) key
      in (h\<lparr>table := (table h)[i := es]\<rparr>, r))"

lemma chain_del_eq: "chain_del es key = (es, chain_find es key)"
  by (induction es key rule: chain_del.induct) (auto simp: Let_def)

lemma hash_func_less: "hash_func x < 256"
proof -
  have "unat (y AND 0xff :: 64 word) \<le> unat (0xff :: 64 word)" for y :: "64 word"
    by (rule word_and_le1 [THEN word_le_nat_alt [THEN iffD1]])
  from this [of "drop_bit 24 x XOR drop_bit 16 x XOR drop_bit 8 x XOR x"] show ?thesis
    by (simp add: hash_func_def)
qed

lemma hash_ok_empty [simp]: "hash_ok hash_empty"
  by (simp add: hash_ok_def hash_empty_def)

lemma hash_ok_add [simp]: "hash_ok h \<Longrightarrow> hash_ok (hash_add h e key)"
  by (simp add: hash_ok_def hash_add_def Let_def)

lemma hash_find_empty [simp]: "hash_find hash_empty key = None"
  using hash_func_less [of key] by (simp add: hash_find_def hash_empty_def)

lemma hash_find_add:
  "hash_ok h \<Longrightarrow> hash_find (hash_add h e key) k = (if k = key then Some e else hash_find h k)"
  using hash_func_less [of k] hash_func_less [of key]
  by (auto simp: hash_find_def hash_add_def Let_def hash_ok_def nth_list_update)

subsection \<open>The registry interface\<close>

text \<open>What the readers of the protocol rely on: a table that answers with the entry last added
  under a key.\<close>

locale registry =
  fixes empty :: 'h and add :: "'h \<Rightarrow> 'e \<Rightarrow> 'k \<Rightarrow> 'h" and find :: "'h \<Rightarrow> 'k \<Rightarrow> 'e option"
    and ok :: "'h \<Rightarrow> bool"
  assumes ok_empty: "ok empty" and ok_add: "ok h \<Longrightarrow> ok (add h e k)"
    and find_empty: "find empty k = None"
    and find_add: "ok h \<Longrightarrow> find (add h e key) k = (if k = key then Some e else find h k)"
begin

definition add_all :: "'h \<Rightarrow> ('k \<times> 'e) list \<Rightarrow> 'h" where
  "add_all h kes = fold (\<lambda>(k, e) h. add h e k) kes h"

lemma ok_add_all: "ok h \<Longrightarrow> ok (add_all h kes)"
  unfolding add_all_def by (induction kes arbitrary: h) (auto simp: ok_add)

lemma find_add_all_gen:
  "ok h \<Longrightarrow> find (add_all h kes) k =
     (case map_of (rev kes) k of None \<Rightarrow> find h k | Some e \<Rightarrow> Some e)"
  unfolding add_all_def
  by (induction kes arbitrary: h)
    (auto simp: ok_add find_add map_add_def split: option.splits)

lemma find_add_all: "find (add_all empty kes) k = map_of (rev kes) k"
  by (simp add: find_add_all_gen ok_empty find_empty split: option.splits)

end

interpretation hreg: registry hash_empty hash_add hash_find hash_ok
  by unfold_locales (simp_all add: hash_find_add)

subsection \<open>Properties\<close>

definition hash_add_all :: "(hkey \<times> 'e) list \<Rightarrow> 'e hash_s" where
  "hash_add_all kes = fold (\<lambda>(k, e) h. hash_add h e k) kes hash_empty"

text \<open>C39. A table built by any sequence of \<open>hash_add\<close> calls answers \<open>hash_find\<close> for every 64-bit
  key with the entry last added under that key, and with \<open>NULL\<close> for a key never added, whatever
  keys collide in a chain.\<close>

theorem hash_find_after_adds:
  "hash_find (hash_add_all kes) k = map_of (rev kes) k"
  unfolding hash_add_all_def by (rule hreg.find_add_all [unfolded hreg.add_all_def])

text \<open>\<open>hash_del\<close> deletes nothing: it returns the entry that \<open>hash_find\<close> returns, and every
  key of the table, the deleted one included, is found afterwards as before. (Its comment says
  that it deletes the object from the table and that the caller then deallocates it.)\<close>

theorem hash_del_leaves_table:
  "hash_del h key = (h', r) \<longrightarrow> r = hash_find h key \<and> (\<forall>k. hash_find h' k = hash_find h k)"
  by (auto simp: hash_del_def hash_find_def chain_del_eq Let_def)

theorem hash_del_leaves_table_witness:
  "hash_find (fst (hash_del (hash_add hash_empty ''c'' 7) 7)) 7 = Some ''c''"
proof -
  let ?d = "hash_del (hash_add hash_empty ''c'' 7) 7"
  have "hash_find (fst ?d) 7 = hash_find (hash_add hash_empty ''c'' 7) 7"
    using hash_del_leaves_table [of "hash_add hash_empty ''c'' 7" 7 "fst ?d" "snd ?d"] by simp
  then show ?thesis by (simp add: hash_find_add)
qed

end
