(* ===== verification/Event_Mask.thy ===== *)
theory Event_Mask
  imports Prelude
begin

text \<open>
  The event bitmaps of \<open>event.c\<close> (\<open>event_mask_s\<close>, 8 bytes). Where an operation takes a pair
  (\<open>event_mask_clear2\<close>, \<open>event_mask_copy2\<close>, \<open>event_mask_or2\<close>) the code runs over 16 bytes from the
  first of two adjacent masks: the mask of the subject's events and the mask of the object's
  events. \<open>setbit\<close> and \<open>clrbit\<close> are the macros of \<open>sys/param.h\<close>.
\<close>

type_synonym event_mask = "8 word list"
type_synonym event_mask2 = "event_mask \<times> event_mask"

definition MASK_BYTES :: nat where "MASK_BYTES = 8"

definition mask_ok :: "event_mask \<Rightarrow> bool" where "mask_ok e \<longleftrightarrow> length e = MASK_BYTES"

definition setbit_map :: "8 word list \<Rightarrow> nat \<Rightarrow> 8 word list" where
  "setbit_map a i = a[i div 8 := a ! (i div 8) OR push_bit (i mod 8) 1]"

definition clrbit_map :: "8 word list \<Rightarrow> nat \<Rightarrow> 8 word list" where
  "clrbit_map a i = a[i div 8 := a ! (i div 8) AND NOT (push_bit (i mod 8) 1)]"

definition event_mask_clear :: event_mask where
  "event_mask_clear = replicate MASK_BYTES 0"

definition event_mask_clear2 :: event_mask2 where
  "event_mask_clear2 = (event_mask_clear, event_mask_clear)"

text \<open>\<open>None\<close> is the return value -1.\<close>

definition event_mask_setbit :: "event_mask \<Rightarrow> int \<Rightarrow> event_mask option" where
  "event_mask_setbit e b =
     (if b < 0 \<or> int (MASK_BYTES * 8) \<le> b then None else Some (setbit_map e (nat b)))"

definition event_mask_clrbit :: "event_mask \<Rightarrow> int \<Rightarrow> event_mask option" where
  "event_mask_clrbit e b =
     (if b < 0 \<or> int (MASK_BYTES * 8) \<le> b then None else Some (clrbit_map e (nat b)))"

definition event_mask_copy :: "event_mask \<Rightarrow> event_mask \<Rightarrow> event_mask" where
  "event_mask_copy e f = map (\<lambda>i. f ! i) [0..<MASK_BYTES]"

definition event_mask_copy2 :: "event_mask2 \<Rightarrow> event_mask2 \<Rightarrow> event_mask2" where
  "event_mask_copy2 e f = (event_mask_copy (fst e) (fst f), event_mask_copy (snd e) (snd f))"

definition event_mask_and :: "event_mask \<Rightarrow> event_mask \<Rightarrow> event_mask" where
  "event_mask_and e f = map (\<lambda>i. e ! i AND f ! i) [0..<MASK_BYTES]"

definition event_mask_or :: "event_mask \<Rightarrow> event_mask \<Rightarrow> event_mask" where
  "event_mask_or e f = map (\<lambda>i. e ! i OR f ! i) [0..<MASK_BYTES]"

definition event_mask_or2 :: "event_mask2 \<Rightarrow> event_mask2 \<Rightarrow> event_mask2" where
  "event_mask_or2 e f = (event_mask_or (fst e) (fst f), event_mask_or (snd e) (snd f))"

definition event_mask_sub :: "event_mask \<Rightarrow> event_mask \<Rightarrow> event_mask" where
  "event_mask_sub e f = map (\<lambda>i. e ! i AND NOT (f ! i)) [0..<MASK_BYTES]"

subsection \<open>The set of event numbers of a mask\<close>

definition mask_bits :: "event_mask \<Rightarrow> nat set" where
  "mask_bits e = {n. n < MASK_BYTES * 8 \<and> bit (e ! (n div 8)) (n mod 8)}"

lemma mask_idx: "n < MASK_BYTES * 8 \<Longrightarrow> n div 8 < MASK_BYTES \<and> n mod 8 < 8"
  by (simp add: less_mult_imp_div_less)

lemma mask_ok_simps [simp]:
  "mask_ok event_mask_clear" "mask_ok (event_mask_copy e f)" "mask_ok (event_mask_and e f)"
  "mask_ok (event_mask_or e f)" "mask_ok (event_mask_sub e f)"
  "mask_ok (setbit_map e i) = mask_ok e" "mask_ok (clrbit_map e i) = mask_ok e"
  by (simp_all add: mask_ok_def event_mask_clear_def event_mask_copy_def event_mask_and_def
      event_mask_or_def event_mask_sub_def setbit_map_def clrbit_map_def)

lemma bits_clear [simp]: "mask_bits event_mask_clear = {}"
  using mask_idx by (auto simp: mask_bits_def event_mask_clear_def)

lemma bits_copy [simp]: "mask_bits (event_mask_copy e f) = mask_bits f"
  using mask_idx by (auto simp: mask_bits_def event_mask_copy_def)

lemma bits_and [simp]: "mask_bits (event_mask_and e f) = mask_bits e \<inter> mask_bits f"
  using mask_idx by (auto simp: mask_bits_def event_mask_and_def bit_and_iff)

lemma bits_or [simp]: "mask_bits (event_mask_or e f) = mask_bits e \<union> mask_bits f"
  using mask_idx by (auto simp: mask_bits_def event_mask_or_def bit_or_iff)

lemma bits_sub [simp]: "mask_bits (event_mask_sub e f) = mask_bits e - mask_bits f"
  using mask_idx by (auto simp: mask_bits_def event_mask_sub_def bit_and_iff bit_not_iff)

lemma byte_single: "j < 8 \<Longrightarrow> bit (push_bit k (1 :: 8 word)) j \<longleftrightarrow> j = k"
  using bit_single [where 'a = 8, of j k] by simp

lemma div_mod_8_eq: "n div 8 = m div 8 \<Longrightarrow> n mod 8 = m mod 8 \<Longrightarrow> n = (m :: nat)"
  by (metis div_mult_mod_eq)

lemma bits_setbit:
  assumes "mask_ok e" and "b < MASK_BYTES * 8"
  shows "mask_bits (setbit_map e b) = insert b (mask_bits e)"
proof (rule set_eqI)
  fix n
  show "n \<in> mask_bits (setbit_map e b) \<longleftrightarrow> n \<in> insert b (mask_bits e)"
    using assms mask_idx [of n] mask_idx [of b] byte_single [of "n mod 8" "b mod 8"]
    by (auto simp: mask_bits_def setbit_map_def mask_ok_def nth_list_update bit_or_iff
        simp del: push_bit_of_1 dest: div_mod_8_eq)
qed

lemma bits_clrbit:
  assumes "mask_ok e" and "b < MASK_BYTES * 8"
  shows "mask_bits (clrbit_map e b) = mask_bits e - {b}"
proof (rule set_eqI)
  fix n
  show "n \<in> mask_bits (clrbit_map e b) \<longleftrightarrow> n \<in> mask_bits e - {b}"
    using assms mask_idx [of n] mask_idx [of b] byte_single [of "n mod 8" "b mod 8"]
    by (auto simp: mask_bits_def clrbit_map_def mask_ok_def nth_list_update bit_and_iff bit_not_iff
        simp del: push_bit_of_1 dest: div_mod_8_eq)
qed

subsection \<open>Properties\<close>

text \<open>The bit operations on event masks are exact and bounded: \<open>event_mask_setbit\<close> and
  \<open>event_mask_clrbit\<close> succeed on a number exactly when it is in \<open>0..63\<close>, then add or remove that
  event and no other, and the byte loops compute union, intersection and difference of the
  event sets.\<close>

theorem event_mask_operations:
  assumes "mask_ok e"
  shows "(\<forall>b. event_mask_setbit e b = None \<longleftrightarrow> \<not> (0 \<le> b \<and> b < 64))
    \<and> (\<forall>b e'. event_mask_setbit e b = Some e' \<longrightarrow> mask_ok e' \<and> mask_bits e' = insert (nat b) (mask_bits e))
    \<and> (\<forall>b e'. event_mask_clrbit e b = Some e' \<longrightarrow> mask_ok e' \<and> mask_bits e' = mask_bits e - {nat b})
    \<and> mask_bits (event_mask_or e f) = mask_bits e \<union> mask_bits f
    \<and> mask_bits (event_mask_and e f) = mask_bits e \<inter> mask_bits f
    \<and> mask_bits (event_mask_sub e f) = mask_bits e - mask_bits f"
  using assms
  by (auto simp: event_mask_setbit_def event_mask_clrbit_def bits_setbit bits_clrbit MASK_BYTES_def
      nat_less_iff split: if_splits)

theorem event_mask_operations_witness:
  "mask_ok event_mask_clear \<and> event_mask_setbit event_mask_clear 64 = None"
  using event_mask_operations [of event_mask_clear event_mask_clear] by auto

end
