(* ===== verification/Medusa_Object.thy ===== *)
theory Medusa_Object
  imports Prelude
begin

text \<open>
  The data layout of the protocol (\<open>medusa_object.h\<close>, \<open>object.h\<close>): attributes, classes and
  k-objects. An attribute list ends in the code with an entry of type \<open>MED_TYPE_END\<close>; here it is a
  list without that entry. The data of an object is the list of its bytes, and a class or an object
  refers to a class by its address, a number.
\<close>

type_synonym byte = "8 word"
type_synonym bytes = "byte list"

record attr =
  a_offset :: "16 word"
  a_length :: "16 word"
  a_type :: byte
  a_name :: string

definition MED_TYPE_END :: byte where "MED_TYPE_END = 0"
definition MED_TYPE_UNSIGNED :: byte where "MED_TYPE_UNSIGNED = 1"
definition MED_TYPE_SIGNED :: byte where "MED_TYPE_SIGNED = 2"
definition MED_TYPE_STRING :: byte where "MED_TYPE_STRING = 3"
definition MED_TYPE_BITMAP :: byte where "MED_TYPE_BITMAP = 4"
definition MED_TYPE_READ_ONLY :: byte where "MED_TYPE_READ_ONLY = 0x80"
definition MED_TYPE_PRIMARY_KEY :: byte where "MED_TYPE_PRIMARY_KEY = 0x40"
definition MEDUSA_ATTRNAME_MAX :: nat where "MEDUSA_ATTRNAME_MAX = 27"
definition MEDUSA_CLASSNAME_MAX :: nat where "MEDUSA_CLASSNAME_MAX = 30"
definition MEDUSA_OPNAME_MAX :: nat where "MEDUSA_OPNAME_MAX = 30"
definition OBJECT_FLAG_LOCAL :: "32 word" where "OBJECT_FLAG_LOCAL = 0x01"
definition OBJECT_FLAG_CHENDIAN :: "32 word" where "OBJECT_FLAG_CHENDIAN = 0x10"

lemmas med_consts = MED_TYPE_END_def MED_TYPE_UNSIGNED_def MED_TYPE_SIGNED_def
  MED_TYPE_STRING_def MED_TYPE_BITMAP_def MED_TYPE_READ_ONLY_def MED_TYPE_PRIMARY_KEY_def
  MEDUSA_ATTRNAME_MAX_def MEDUSA_CLASSNAME_MAX_def MEDUSA_OPNAME_MAX_def
  OBJECT_FLAG_LOCAL_def OBJECT_FLAG_CHENDIAN_def

definition aoff :: "attr \<Rightarrow> nat" where "aoff a = unat (a_offset a)"
definition alen :: "attr \<Rightarrow> nat" where "alen a = unat (a_length a)"

text \<open>The type nibble that every \<open>switch (a->type & 0x0f)\<close> looks at.\<close>

definition akind :: "attr \<Rightarrow> byte" where "akind a = a_type a AND 0x0f"

record medusa_class =
  m_classid :: "64 word"
  m_size :: "16 word"
  m_name :: string

record medusa_acctype =
  ac_opid :: "64 word"
  ac_size :: "16 word"
  ac_actbit :: "16 word"
  ac_op_class :: "64 word \<times> 64 word"
  ac_name :: string
  ac_op_name :: "string \<times> string"

record cinfo_part =
  event_offset :: "16 word"
  event_size :: "16 word"
  cinfo_offset :: "16 word"
  cinfo_size :: "16 word"
  cinfo_mask :: "64 word"

text \<open>\<open>class_s\<close>: the object part and the subject part have the same fields; \<open>c_vs_attr\<close> has one
  entry per access type, \<open>None\<close> for a null pointer.\<close>

record class_s =
  c_obj :: cinfo_part
  c_subject :: cinfo_part
  c_name_offset :: "16 word"
  c_name_size :: "16 word"
  c_classname :: nat
  c_comm :: nat
  c_vs_attr :: "attr option list"
  c_m :: medusa_class
  c_attr :: "attr list"

record object_s =
  o_attr :: attr
  o_flags :: "32 word"
  o_class :: "nat option"
  o_data :: bytes

definition chendian :: "32 word \<Rightarrow> bool" where
  "chendian flags \<longleftrightarrow> flags AND OBJECT_FLAG_CHENDIAN \<noteq> 0"

text \<open>An attribute whose bytes lie inside the data.\<close>

definition attr_in :: "attr \<Rightarrow> bytes \<Rightarrow> bool" where
  "attr_in a d \<longleftrightarrow> aoff a + alen a \<le> length d"

definition field :: "attr \<Rightarrow> bytes \<Rightarrow> bytes" where
  "field a d = take (alen a) (drop (aoff a) d)"

definition put_bytes :: "nat \<Rightarrow> bytes \<Rightarrow> bytes \<Rightarrow> bytes" where
  "put_bytes off bs d = take off d @ bs @ drop (off + length bs) d"

lemma length_field [simp]: "attr_in a d \<Longrightarrow> length (field a d) = alen a"
  by (simp add: field_def attr_in_def)

lemma length_put_bytes [simp]: "off + length bs \<le> length d \<Longrightarrow> length (put_bytes off bs d) = length d"
  by (simp add: put_bytes_def)

lemma attr_in_put [simp]:
  "off + length bs \<le> length d \<Longrightarrow> attr_in a (put_bytes off bs d) = attr_in a d"
  by (simp add: attr_in_def)

lemma field_put_same:
  "attr_in a d \<Longrightarrow> length bs = alen a \<Longrightarrow> field a (put_bytes (aoff a) bs d) = bs"
  by (simp add: field_def put_bytes_def attr_in_def)

lemma take_drop_put_other:
  assumes "off + n \<le> p \<or> p + length bs \<le> off" and "p + length bs \<le> length d"
  shows "take n (drop off (put_bytes p bs d)) = take n (drop off d)"
proof -
  have "length (take n (drop off (put_bytes p bs d))) = length (take n (drop off d))"
    using assms(2) by simp
  moreover have "take n (drop off (put_bytes p bs d)) ! i = take n (drop off d) ! i"
    if "i < length (take n (drop off d))" for i
    using that assms by (auto simp: put_bytes_def nth_append)
  ultimately show ?thesis by (auto intro: nth_equalityI)
qed

definition attr_disjoint :: "attr \<Rightarrow> attr \<Rightarrow> bool" where
  "attr_disjoint a b \<longleftrightarrow> aoff a + alen a \<le> aoff b \<or> aoff b + alen b \<le> aoff a"

lemma field_put_other:
  "attr_disjoint a b \<Longrightarrow> attr_in b d \<Longrightarrow> length bs = alen b \<Longrightarrow>
     field a (put_bytes (aoff b) bs d) = field a d"
  unfolding field_def attr_disjoint_def attr_in_def
  by (rule take_drop_put_other) auto

end
