(* ===== verification/Object_Endian.thy ===== *)
theory Object_Endian
  imports Medusa_Object
begin

text \<open>
  Access to the values of a k-object's attributes (\<open>object_endian.c\<close>), on a little-endian host (the
  \<open>__LITTLE_ENDIAN\<close> branches). A buffer is the list of its \<open>maxlen\<close> bytes. A function that would
  touch memory outside the object's data or outside the buffer has the value \<open>None\<close>; otherwise it is
  the C return value with the bytes it leaves behind.
\<close>

subsection \<open>Byte copying\<close>

fun memrcpy :: "bytes \<Rightarrow> nat \<Rightarrow> bytes" where
  "memrcpy src 0 = []"
| "memrcpy src (Suc n) = src ! n # memrcpy src n"

definition c_strncpy :: "bytes \<Rightarrow> nat \<Rightarrow> bytes" where
  "c_strncpy src n =
     (let s = takeWhile (\<lambda>b. b \<noteq> 0) (take n src) in s @ replicate (n - length s) 0)"

lemma memrcpy_rev: "n \<le> length src \<Longrightarrow> memrcpy src n = rev (take n src)"
  by (induction n) (simp_all add: take_Suc_conv_app_nth)

lemma length_memrcpy [simp]: "length (memrcpy src n) = n"
  by (induction n) simp_all

lemma length_strncpy [simp]: "length (c_strncpy src n) = n"
proof -
  have "length (takeWhile (\<lambda>b. b \<noteq> 0) (take n src)) \<le> n"
    using length_takeWhile_le [of "\<lambda>b. b \<noteq> 0" "take n src"] by simp
  then show ?thesis by (simp add: c_strncpy_def Let_def)
qed

subsection \<open>Reading and writing a value\<close>

definition msb_set :: "byte \<Rightarrow> bool" where "msb_set b \<longleftrightarrow> b AND 0x80 \<noteq> 0"

text \<open>The bytes that extend a value of \<open>n\<close> bytes whose last byte is \<open>b\<close>: the code reads \<open>b\<close> only for
  a signed type, and before the buffer when there is none.\<close>

definition extension :: "bool \<Rightarrow> bytes \<Rightarrow> nat \<Rightarrow> bytes option" where
  "extension s v k =
     (if k = 0 then Some []
      else if s then (if v = [] then None
                      else Some (replicate k (if msb_set (last v) then 0xff else 0)))
      else Some (replicate k 0))"

definition object_get_val :: "32 word \<Rightarrow> bytes \<Rightarrow> attr \<Rightarrow> bytes \<Rightarrow> (int \<times> bytes) option" where
  "object_get_val flags d a buf =
     (let maxlen = length buf; n = min (alen a) maxlen; src = drop (aoff a) d in
      if akind a = MED_TYPE_STRING then
        (if attr_in a d \<and> 0 < maxlen
         then Some (0, (c_strncpy src n @ drop n buf)[(if n < maxlen then n else n - 1) := 0])
         else None)
      else if akind a = MED_TYPE_BITMAP then
        (if attr_in a d then Some (0, take n src @ replicate (maxlen - n) 0) else None)
      else if akind a = MED_TYPE_SIGNED \<or> akind a = MED_TYPE_UNSIGNED then
        (if attr_in a d then
           (let v = (if chendian flags then memrcpy (drop (aoff a + alen a - n) d) n
                     else take n src)
            in map_option (\<lambda>x. (0, v @ x)) (extension (akind a = MED_TYPE_SIGNED) v (maxlen - n)))
         else None)
      else Some (-1, buf))"

definition object_set_val :: "32 word \<Rightarrow> bytes \<Rightarrow> attr \<Rightarrow> bytes \<Rightarrow> (int \<times> bytes) option" where
  "object_set_val flags d a buf =
     (let maxlen = length buf; n = min (alen a) maxlen in
      if akind a = MED_TYPE_STRING then
        (if attr_in a d \<and> 0 < alen a
         then Some (0, (put_bytes (aoff a) (c_strncpy buf n) d)
                         [aoff a + (if n < alen a then n else n - 1) := 0])
         else None)
      else if akind a = MED_TYPE_BITMAP then
        (if attr_in a d
         then Some (0, put_bytes (aoff a) (take n buf @ replicate (alen a - n) 0) d) else None)
      else if akind a = MED_TYPE_SIGNED \<or> akind a = MED_TYPE_UNSIGNED then
        (if attr_in a d then
           (case extension (akind a = MED_TYPE_SIGNED) buf (alen a - n) of
              None \<Rightarrow> None
            | Some x \<Rightarrow>
                Some (0, if chendian flags
                         then put_bytes (aoff a) x (put_bytes (aoff a + alen a - n) (memrcpy buf n) d)
                         else put_bytes (aoff a) (take n buf @ x) d))
         else None)
      else Some (-1, d))"

subsection \<open>Changing the byte order of an object\<close>

text \<open>The in-place loop of \<open>object_swap_endian\<close>: \<open>d\<close> points to byte \<open>p\<close>, \<open>n\<close> is the distance to the
  byte it is exchanged with.\<close>

function swap_loop :: "bytes \<Rightarrow> nat \<Rightarrow> int \<Rightarrow> bytes" where
  "swap_loop bs p n =
     (if 0 < n then swap_loop (bs[p := bs ! (p + nat n), p + nat n := bs ! p]) (p + 1) (n - 2)
      else bs)"
  by pat_completeness auto
termination
  by (relation "measure (\<lambda>(bs, p, n). nat n)") auto

declare swap_loop.simps [simp del]

definition object_swap_endian :: "bytes \<Rightarrow> attr \<Rightarrow> bytes" where
  "object_swap_endian d a =
     (if akind a = MED_TYPE_SIGNED \<or> akind a = MED_TYPE_UNSIGNED
      then swap_loop d (aoff a) (int (alen a) - 1) else d)"

definition swap_attrs :: "attr list \<Rightarrow> bytes \<Rightarrow> bytes" where
  "swap_attrs as d = fold (\<lambda>a d. object_swap_endian d a) as d"

definition object_set_byte_order :: "class_s \<Rightarrow> object_s \<Rightarrow> 32 word \<Rightarrow> object_s" where
  "object_set_byte_order c ob flags =
     (if flags AND OBJECT_FLAG_CHENDIAN \<noteq> o_flags ob AND OBJECT_FLAG_CHENDIAN
      then ob\<lparr>o_flags := (o_flags ob AND NOT OBJECT_FLAG_CHENDIAN) OR (flags AND OBJECT_FLAG_CHENDIAN),
              o_data := swap_attrs (c_attr c) (o_data ob)\<rparr>
      else ob)"

text \<open>\<open>object_copy\<close>: \<open>None\<close> where it returns -1 (the classes differ); \<open>c\<close> is the class of \<open>d\<close>.\<close>

definition object_copy :: "class_s \<Rightarrow> object_s \<Rightarrow> object_s \<Rightarrow> object_s option" where
  "object_copy c d s =
     (if o_class d \<noteq> o_class s then None
      else (let dat = put_bytes 0 (take (unat (m_size (c_m c))) (o_data s)) (o_data d)
            in Some (d\<lparr>o_data :=
                 (if o_flags d AND OBJECT_FLAG_CHENDIAN \<noteq> o_flags s AND OBJECT_FLAG_CHENDIAN
                  then swap_attrs (c_attr c) dat else dat)\<rparr>)))"

subsection \<open>Resizing a value in a register buffer\<close>

definition object_resize_data_short :: "bytes \<Rightarrow> attr \<Rightarrow> nat \<Rightarrow> (int \<times> bytes) option" where
  "object_resize_data_short buf a newlen =
     (if akind a = MED_TYPE_STRING then
        (if 0 < newlen \<and> newlen \<le> length buf then Some (0, buf[newlen - 1 := 0]) else None)
      else if akind a = MED_TYPE_BITMAP \<or> akind a = MED_TYPE_SIGNED \<or> akind a = MED_TYPE_UNSIGNED
      then Some (0, buf)
      else Some (-1, buf))"

text \<open>In the little-endian branch the fill byte is \<open>s\<close> itself, which is 1 for a signed value whose
  sign bit is clear.\<close>

definition object_resize_data :: "bytes \<Rightarrow> attr \<Rightarrow> nat \<Rightarrow> (int \<times> bytes) option" where
  "object_resize_data buf a newlen =
     (if alen a = newlen then Some (0, buf)
      else if newlen < alen a then object_resize_data_short buf a newlen
      else if akind a = MED_TYPE_STRING then Some (0, buf)
      else if length buf < newlen then None
      else if akind a = MED_TYPE_BITMAP
      then Some (0, put_bytes (alen a) (replicate (newlen - alen a) 0) buf)
      else if akind a = MED_TYPE_SIGNED then
        (if alen a = 0 then None
         else Some (0, put_bytes (alen a)
                (replicate (newlen - alen a) (if msb_set (buf ! (alen a - 1)) then 0xff else 1)) buf))
      else if akind a = MED_TYPE_UNSIGNED
      then Some (0, put_bytes (alen a) (replicate (newlen - alen a) 0) buf)
      else Some (-1, buf))"

subsection \<open>Byte order of the protocol's descriptors\<close>

definition bswap_16 :: "16 word \<Rightarrow> 16 word" where
  "bswap_16 x = push_bit 8 x OR drop_bit 8 x"

definition byte_reorder_attrs :: "32 word \<Rightarrow> attr list \<Rightarrow> attr list" where
  "byte_reorder_attrs flags as =
     (if chendian flags
      then map (\<lambda>a. a\<lparr>a_offset := bswap_16 (a_offset a), a_length := bswap_16 (a_length a)\<rparr>) as
      else as)"

definition byte_reorder_class :: "32 word \<Rightarrow> medusa_class \<Rightarrow> medusa_class" where
  "byte_reorder_class flags c =
     (if chendian flags then c\<lparr>m_size := bswap_16 (m_size c)\<rparr> else c)"

definition byte_reorder_acctype :: "32 word \<Rightarrow> medusa_acctype \<Rightarrow> medusa_acctype" where
  "byte_reorder_acctype flags a =
     (if chendian flags
      then a\<lparr>ac_size := bswap_16 (ac_size a), ac_actbit := bswap_16 (ac_actbit a)\<rparr> else a)"

subsection \<open>The swap loop reverses a field\<close>

lemma swap_loop_rev:
  "swap_loop (xs @ ys @ zs) (length xs) (int (length ys) - 1) = xs @ rev ys @ zs"
proof (induction "length ys" arbitrary: xs ys zs rule: less_induct)
  case less
  show ?case
  proof (cases "length ys \<le> 1")
    case True
    then show ?thesis by (cases ys) (auto simp: swap_loop.simps [of _ _ "int _ - 1"] swap_loop.simps)
  next
    case False
    then obtain y m z where ys: "ys = y # m @ [z]"
      by (metis append_butlast_last_id length_0_conv length_Cons le_refl list.exhaust
          list.size(3) not_less_eq_eq One_nat_def le_SucI)
    have z: "(xs @ ys @ zs) ! (length xs + nat (int (length ys) - 1)) = z"
      by (simp add: ys nth_append nat_add_distrib)
    have upd: "(xs @ ys @ zs)[length xs := z, length xs + nat (int (length ys) - 1) := y]
        = (xs @ [z]) @ m @ (y # zs)"
      by (simp add: ys list_update_append nat_add_distrib)
    have "swap_loop (xs @ ys @ zs) (length xs) (int (length ys) - 1)
        = swap_loop ((xs @ [z]) @ m @ (y # zs)) (length (xs @ [z])) (int (length m) - 1)"
      using False z upd by (subst swap_loop.simps) (simp add: ys)
    also have "\<dots> = (xs @ [z]) @ rev m @ (y # zs)"
      by (rule less) (simp add: ys)
    finally show ?thesis by (simp add: ys)
  qed
qed

definition int_kind :: "attr \<Rightarrow> bool" where
  "int_kind a \<longleftrightarrow> akind a = MED_TYPE_SIGNED \<or> akind a = MED_TYPE_UNSIGNED"

lemma swap_endian_put:
  assumes "attr_in a d"
  shows "object_swap_endian d a =
    (if int_kind a then put_bytes (aoff a) (rev (field a d)) d else d)"
proof -
  have split: "d = take (aoff a) d @ field a d @ drop (aoff a + alen a) d"
    by (metis append_take_drop_id drop_drop field_def add.commute)
  have "swap_loop d (aoff a) (int (alen a) - 1) = take (aoff a) d @ rev (field a d) @ drop (aoff a + alen a) d"
    using swap_loop_rev [of "take (aoff a) d" "field a d" "drop (aoff a + alen a) d"] assms
    by (simp add: split [symmetric] attr_in_def min_absorb1 min_absorb2)
  then show ?thesis
    using assms by (simp add: object_swap_endian_def int_kind_def put_bytes_def)
qed

lemma length_swap_endian [simp]: "attr_in a d \<Longrightarrow> length (object_swap_endian d a) = length d"
  by (simp add: swap_endian_put) (simp add: attr_in_def)

lemma field_swap_same:
  "attr_in a d \<Longrightarrow> field a (object_swap_endian d a) = (if int_kind a then rev (field a d) else field a d)"
  by (simp add: swap_endian_put field_put_same)

lemma field_swap_other:
  "attr_in b d \<Longrightarrow> attr_disjoint a b \<Longrightarrow> field a (object_swap_endian d b) = field a d"
  by (simp add: swap_endian_put field_put_other)

text \<open>The attribute list of a class: inside the data and pairwise disjoint.\<close>

definition attrs_ok :: "attr list \<Rightarrow> bytes \<Rightarrow> bool" where
  "attrs_ok as d \<longleftrightarrow> (\<forall>a \<in> set as. attr_in a d) \<and> sorted_wrt attr_disjoint as"

lemma attr_disjoint_sym: "attr_disjoint a b \<longleftrightarrow> attr_disjoint b a"
  by (auto simp: attr_disjoint_def)

lemma attr_in_swap [simp]: "attr_in b d \<Longrightarrow> attr_in a (object_swap_endian d b) = attr_in a d"
  by (simp add: attr_in_def [of a])

lemma swap_attrs_Cons: "swap_attrs (a # as) d = swap_attrs as (object_swap_endian d a)"
  by (simp add: swap_attrs_def)

lemma swap_attrs_field:
  assumes "attrs_ok as d" and "b \<in> set as \<or> (\<forall>a \<in> set as. attr_disjoint b a)"
  shows "length (swap_attrs as d) = length d
    \<and> field b (swap_attrs as d) = (if b \<in> set as \<and> int_kind b \<and> \<not> (\<forall>a \<in> set as. attr_disjoint b a)
         then rev (field b d) else field b d)"
  using assms
proof (induction as arbitrary: d)
  case Nil
  then show ?case by (simp add: swap_attrs_def)
next
  case (Cons a as)
  have ok: "attrs_ok as (object_swap_endian d a)" and a: "attr_in a d"
    and dis: "\<forall>x \<in> set as. attr_disjoint a x"
    using Cons.prems(1) by (auto simp: attrs_ok_def)
  show ?case
  proof (cases "\<forall>x \<in> set (a # as). attr_disjoint b x")
    case True
    then show ?thesis
      using Cons.IH [OF ok] a by (simp add: swap_attrs_Cons field_swap_other)
  next
    case F: False
    show ?thesis
    proof (cases "b = a")
      case True
      then have "\<not> attr_disjoint a a" using F dis by auto
      then show ?thesis
        using True Cons.IH [OF ok] a dis by (auto simp: swap_attrs_Cons field_swap_same)
    next
      case False
      then have "b \<in> set as" using Cons.prems(2) F by auto
      moreover from this have "attr_disjoint b a" using dis attr_disjoint_sym by blast
      ultimately show ?thesis
        using Cons.IH [OF ok] a F by (auto simp: swap_attrs_Cons field_swap_other)
    qed
  qed
qed

lemma swap_attrs_member:
  assumes "attrs_ok as d" and "b \<in> set as"
  shows "field b (swap_attrs as d) = (if int_kind b then rev (field b d) else field b d)"
proof (cases "attr_disjoint b b")
  case True
  then have "alen b = 0" by (auto simp: attr_disjoint_def)
  then show ?thesis by (simp add: field_def)
next
  case False
  then show ?thesis using swap_attrs_field [OF assms(1), of b] assms(2) by auto
qed

lemma length_swap_attrs [simp]: "attrs_ok as d \<Longrightarrow> length (swap_attrs as d) = length d"
proof -
  assume ok: "attrs_ok as d"
  let ?z = "\<lparr>a_offset = 0, a_length = 0, a_type = 0, a_name = []\<rparr>"
  show ?thesis
    using swap_attrs_field [OF ok, of ?z] by (auto simp: attr_disjoint_def aoff_def alen_def)
qed

subsection \<open>Reading and writing an integer attribute\<close>

text \<open>The value of a field as the host's little-endian bytes, and the resizing of a little-endian
  value to \<open>n\<close> bytes: truncation, or extension by the sign for a signed type and by zero else.\<close>

definition value_bytes :: "32 word \<Rightarrow> bytes \<Rightarrow> attr \<Rightarrow> bytes" where
  "value_bytes flags d a = (if chendian flags then rev (field a d) else field a d)"

definition le_resize :: "bool \<Rightarrow> nat \<Rightarrow> bytes \<Rightarrow> bytes" where
  "le_resize s n v =
     take n v @ replicate (n - length v) (if s \<and> msb_set (last v) then 0xff else 0)"

lemma length_le_resize [simp]: "length (le_resize s n v) = n"
  by (simp add: le_resize_def)

lemma le_resize_id: "length v = n \<Longrightarrow> le_resize s n v = v"
  by (simp add: le_resize_def)

lemma le_resize_back: "length v \<le> n \<Longrightarrow> le_resize s (length v) (le_resize s n v) = v"
  by (simp add: le_resize_def)

lemma kind_distinct [simp]:
  "MED_TYPE_SIGNED \<noteq> MED_TYPE_STRING" "MED_TYPE_SIGNED \<noteq> MED_TYPE_BITMAP"
  "MED_TYPE_UNSIGNED \<noteq> MED_TYPE_STRING" "MED_TYPE_UNSIGNED \<noteq> MED_TYPE_BITMAP"
  "MED_TYPE_UNSIGNED \<noteq> MED_TYPE_SIGNED" "MED_TYPE_BITMAP \<noteq> MED_TYPE_STRING"
  by (simp_all add: med_consts)

lemmas kind_distinct_sym [simp] = kind_distinct [symmetric]

lemma extension_eq:
  "v \<noteq> [] \<Longrightarrow> extension s v k = Some (replicate k (if s \<and> msb_set (last v) then 0xff else 0))"
  by (simp add: extension_def)

lemma rev_field_tail:
  assumes "attr_in a d" and "n \<le> alen a"
  shows "memrcpy (drop (aoff a + alen a - n) d) n = take n (rev (field a d))"
proof -
  have "take n (drop (aoff a + alen a - n) d) = drop (alen a - n) (field a d)"
    using assms(2) by (simp add: field_def drop_take add.commute)
  moreover have "n \<le> length (drop (aoff a + alen a - n) d)"
    using assms by (simp add: attr_in_def)
  ultimately show ?thesis
    using assms by (simp add: memrcpy_rev take_rev)
qed

lemma object_get_val_int:
  assumes "int_kind a" and "attr_in a d" and "0 < alen a"
  shows "object_get_val flags d a buf =
    Some (0, le_resize (akind a = MED_TYPE_SIGNED) (length buf) (value_bytes flags d a))"
proof -
  define n where "n = min (alen a) (length buf)"
  define v where "v = take n (value_bytes flags d a)"
  have len: "length (value_bytes flags d a) = alen a"
    using assms(2) by (simp add: value_bytes_def)
  have v: "(if chendian flags then memrcpy (drop (aoff a + alen a - n) d) n
            else take n (drop (aoff a) d)) = v"
    using rev_field_tail [OF assms(2), of n]
    by (simp add: v_def n_def value_bytes_def field_def min_absorb1)
  have ext: "extension s v (length buf - n) =
      Some (replicate (length buf - alen a) (if s \<and> msb_set (last (value_bytes flags d a)) then 0xff else 0))"
    for s
  proof (cases "length buf \<le> alen a")
    case True
    then show ?thesis by (simp add: n_def extension_def)
  next
    case False
    then have "v = value_bytes flags d a" by (simp add: v_def n_def len)
    moreover have "v \<noteq> []" using False assms(3) len by (auto simp: v_def n_def)
    ultimately show ?thesis using False by (simp add: extension_eq n_def)
  qed
  have tk: "v = take (length buf) (value_bytes flags d a)"
    by (simp add: v_def n_def len min_def)
  have "object_get_val flags d a buf = map_option (\<lambda>x. (0, v @ x))
      (extension (akind a = MED_TYPE_SIGNED) v (length buf - n))"
    unfolding object_get_val_def Let_def n_def [symmetric] v
    using assms(1,2) by (auto simp: int_kind_def)
  then have "object_get_val flags d a buf = Some (0, v @ replicate (length buf - alen a)
      (if akind a = MED_TYPE_SIGNED \<and> msb_set (last (value_bytes flags d a)) then 0xff else 0))"
    by (simp only: ext option.map)
  then show ?thesis by (simp only: tk le_resize_def len)
qed

lemma put_bytes_two:
  assumes "off + length x + length y \<le> length d"
  shows "put_bytes off x (put_bytes (off + length x) y d) = put_bytes off (x @ y) d"
  using assms by (simp add: put_bytes_def min_absorb1 min_absorb2 add.assoc)

lemma object_set_val_int:
  assumes "int_kind a" and "attr_in a d" and "buf \<noteq> []"
  shows "object_set_val flags d a buf =
    Some (0, put_bytes (aoff a)
      (let v = le_resize (akind a = MED_TYPE_SIGNED) (alen a) buf in if chendian flags then rev v else v) d)"
proof -
  define n where "n = min (alen a) (length buf)"
  define s where "s = (akind a = MED_TYPE_SIGNED)"
  define x where "x = replicate (alen a - n) (if s \<and> msb_set (last buf) then 0xff else (0 :: byte))"
  have ext: "extension s buf (alen a - n) = Some x"
    using assms(3) by (simp add: extension_eq x_def)
  have v: "le_resize s (alen a) buf = take n buf @ x"
    by (simp add: le_resize_def x_def n_def min_def)
  have "put_bytes (aoff a) x (put_bytes (aoff a + alen a - n) (memrcpy buf n) d)
      = put_bytes (aoff a) (x @ rev (take n buf)) d"
    using put_bytes_two [of "aoff a" x "memrcpy buf n" d] assms(2)
    by (simp add: attr_in_def x_def n_def memrcpy_rev)
  moreover have "rev x = x" by (simp add: x_def)
  moreover have "object_set_val flags d a buf = (case extension s buf (alen a - n) of
        None \<Rightarrow> None
      | Some x \<Rightarrow> Some (0, if chendian flags
          then put_bytes (aoff a) x (put_bytes (aoff a + alen a - n) (memrcpy buf n) d)
          else put_bytes (aoff a) (take n buf @ x) d))"
    unfolding object_set_val_def Let_def n_def [symmetric] s_def
    using assms(1,2) by (auto simp: int_kind_def)
  ultimately show ?thesis
    by (simp add: ext v s_def [symmetric] Let_def)
qed

subsection \<open>Properties\<close>

text \<open>C12. Writing an integer with \<open>object_set_val\<close> and reading it with \<open>object_get_val\<close> gives the
  value back, in either byte order of the object: the read value is the written one, resized to
  the attribute (truncated, or extended by sign or zero as the attribute's type says) and then to
  the reader's buffer. Attributes that do not overlap the written one keep their bytes.\<close>

theorem object_val_roundtrip:
  assumes "int_kind a" and "attr_in a d" and "0 < alen a" and "buf \<noteq> []"
  shows "\<exists>d'. object_set_val flags d a buf = Some (0, d') \<and> length d' = length d
    \<and> object_get_val flags d' a out =
        Some (0, le_resize (akind a = MED_TYPE_SIGNED) (length out)
                   (le_resize (akind a = MED_TYPE_SIGNED) (alen a) buf))
    \<and> (length buf \<le> alen a \<and> length out = length buf \<longrightarrow> object_get_val flags d' a out = Some (0, buf))
    \<and> (\<forall>b. attr_disjoint b a \<longrightarrow> field b d' = field b d)"
proof -
  define v where "v = le_resize (akind a = MED_TYPE_SIGNED) (alen a) buf"
  define d' where "d' = put_bytes (aoff a) (if chendian flags then rev v else v) d"
  have set: "object_set_val flags d a buf = Some (0, d')"
    by (simp add: object_set_val_int assms d'_def v_def Let_def)
  have len: "length d' = length d" and "in'": "attr_in a d'"
    using assms(2) by (simp_all add: d'_def v_def attr_in_def)
  have "value_bytes flags d' a = v"
    using field_put_same [OF assms(2), of v] field_put_same [OF assms(2), of "rev v"]
    by (simp add: value_bytes_def d'_def v_def)
  then have get: "object_get_val flags d' a out = Some (0, le_resize (akind a = MED_TYPE_SIGNED) (length out) v)"
    by (simp add: object_get_val_int assms "in'")
  have "field b d' = field b d" if "attr_disjoint b a" for b
    using field_put_other [OF that assms(2)] by (simp add: d'_def v_def)
  with set len get show ?thesis
    by (auto simp: v_def le_resize_back)
qed

theorem object_val_roundtrip_witness:
  "object_get_val 0x10 [0, 0, 1, 2, 0]
     \<lparr>a_offset = 2, a_length = 2, a_type = MED_TYPE_SIGNED, a_name = ''x''\<rparr> [9, 9, 9] = Some (0, [2, 1, 0])
   \<and> (\<exists>d'. object_set_val 0x10 [0, 0, 0, 0, 0]
     \<lparr>a_offset = 2, a_length = 2, a_type = MED_TYPE_SIGNED, a_name = ''x''\<rparr> [2, 1] = Some (0, d'))"
proof -
  let ?a = "\<lparr>a_offset = 2, a_length = 2, a_type = MED_TYPE_SIGNED, a_name = ''x''\<rparr>"
  have "int_kind ?a" "attr_in ?a [0, 0, 0, 0, 0]" "0 < alen ?a"
    by (simp_all add: int_kind_def akind_def med_consts attr_in_def aoff_def alen_def)
  from object_val_roundtrip [OF this, of "[2, 1]" "0x10" "[9, 9]"]
  have "\<exists>d'. object_set_val 0x10 [0, 0, 0, 0, 0] ?a [2, 1] = Some (0, d')" by auto
  moreover have "object_get_val 0x10 [0, 0, 1, 2, 0] ?a [9, 9, 9] = Some (0, [2, 1, 0])"
    by code_simp
  ultimately show ?thesis by simp
qed

text \<open>C16. \<open>object_set_byte_order\<close> changes the representation of an object and none of its values:
  for a class whose attributes lie in the data and do not overlap, every integer attribute reads
  the same before and after, every other attribute keeps its bytes, and the flag is the requested
  byte order.\<close>

theorem object_set_byte_order_keeps_values:
  assumes "attrs_ok (c_attr c) (o_data ob)" and "a \<in> set (c_attr c)" and "0 < alen a"
  shows "(int_kind a \<longrightarrow> object_get_val (o_flags (object_set_byte_order c ob flags))
            (o_data (object_set_byte_order c ob flags)) a buf
          = object_get_val (o_flags ob) (o_data ob) a buf)
    \<and> (\<not> int_kind a \<longrightarrow> field a (o_data (object_set_byte_order c ob flags)) = field a (o_data ob))
    \<and> chendian (o_flags (object_set_byte_order c ob flags)) = chendian flags"
proof -
  have flag: "chendian ((f AND NOT OBJECT_FLAG_CHENDIAN) OR (g AND OBJECT_FLAG_CHENDIAN)) = chendian g"
    for f g :: "32 word"
  proof -
    have "((f AND NOT OBJECT_FLAG_CHENDIAN) OR (g AND OBJECT_FLAG_CHENDIAN)) AND OBJECT_FLAG_CHENDIAN
        = g AND OBJECT_FLAG_CHENDIAN"
      by (auto simp: bit_eq_iff bit_simps)
    then show ?thesis by (simp add: chendian_def)
  qed
  have bit: "f AND OBJECT_FLAG_CHENDIAN = g AND OBJECT_FLAG_CHENDIAN \<longleftrightarrow> chendian f = chendian g"
    for f g :: "32 word"
  proof -
    have "x AND OBJECT_FLAG_CHENDIAN = (if bit x 4 then OBJECT_FLAG_CHENDIAN else 0)" for x :: "32 word"
      using and_exp_if [of x 4] by (simp add: OBJECT_FLAG_CHENDIAN_def)
    then show ?thesis by (simp add: chendian_def OBJECT_FLAG_CHENDIAN_def)
  qed
  have a: "attr_in a (o_data ob)" using assms(1,2) by (auto simp: attrs_ok_def)
  show ?thesis
  proof (cases "chendian flags = chendian (o_flags ob)")
    case True
    then show ?thesis by (simp add: object_set_byte_order_def bit)
  next
    case False
    have "attr_in a (swap_attrs (c_attr c) (o_data ob))"
      using a assms(1) by (simp add: attr_in_def)
    with False a show ?thesis
      using swap_attrs_member [OF assms(1,2)]
      by (auto simp: object_set_byte_order_def bit flag object_get_val_int assms(3) value_bytes_def)
  qed
qed

theorem object_set_byte_order_keeps_values_witness:
  "object_set_byte_order
     \<lparr>c_obj = undefined, c_subject = undefined, c_name_offset = 0, c_name_size = 0, c_classname = 0,
      c_comm = 0, c_vs_attr = [], c_m = undefined,
      c_attr = [\<lparr>a_offset = 1, a_length = 2, a_type = MED_TYPE_UNSIGNED, a_name = ''x''\<rparr>]\<rparr>
     \<lparr>o_attr = undefined, o_flags = 0, o_class = None, o_data = [7, 1, 2]\<rparr> 0x10
   = \<lparr>o_attr = undefined, o_flags = 0x10, o_class = None, o_data = [7, 2, 1]\<rparr>
   \<and> object_get_val 0x10 [7, 2, 1]
       \<lparr>a_offset = 1, a_length = 2, a_type = MED_TYPE_UNSIGNED, a_name = ''x''\<rparr> [0, 0]
     = object_get_val 0 [7, 1, 2]
       \<lparr>a_offset = 1, a_length = 2, a_type = MED_TYPE_UNSIGNED, a_name = ''x''\<rparr> [0, 0]"
proof -
  let ?a = "\<lparr>a_offset = 1, a_length = 2, a_type = MED_TYPE_UNSIGNED, a_name = ''x''\<rparr>"
  let ?c = "\<lparr>c_obj = undefined, c_subject = undefined, c_name_offset = 0, c_name_size = 0,
    c_classname = 0, c_comm = 0, c_vs_attr = [], c_m = undefined, c_attr = [?a]\<rparr> :: class_s"
  let ?o = "\<lparr>o_attr = undefined, o_flags = 0, o_class = None, o_data = [7, 1, 2]\<rparr> :: object_s"
  have swap: "swap_loop [7, 1, 2] 1 1 = [7, 2, 1 :: byte]" by code_simp
  have r: "object_set_byte_order ?c ?o 0x10
      = \<lparr>o_attr = undefined, o_flags = 0x10, o_class = None, o_data = [7, 2, 1]\<rparr>"
    using swap by (simp add: object_set_byte_order_def OBJECT_FLAG_CHENDIAN_def swap_attrs_def
        object_swap_endian_def akind_def med_consts aoff_def alen_def)
  have "attrs_ok (c_attr ?c) (o_data ?o)" "?a \<in> set (c_attr ?c)" "0 < alen ?a" "int_kind ?a"
    by (simp_all add: attrs_ok_def attr_in_def aoff_def alen_def int_kind_def akind_def med_consts)
  with object_set_byte_order_keeps_values [of ?c ?o ?a "0x10" "[0, 0]"] r
  show ?thesis by simp
qed

text \<open>\<open>object_resize_data\<close> does not keep the value of a signed number that it widens: the fill
  byte is the flag \<open>s\<close>, so a value whose sign bit is clear is followed by bytes 1 instead of 0
  (a four-byte 5 widened to eight bytes reads as 0x0101010100000005). Negative and unsigned values
  are extended as \<open>object_get_val\<close> extends them.\<close>

theorem object_resize_data_widening:
  assumes "int_kind a" and "0 < alen a" and "alen a < newlen" and "newlen \<le> length buf"
  shows "\<exists>buf'. object_resize_data buf a newlen = Some (0, buf')
    \<and> (take newlen buf' = le_resize (akind a = MED_TYPE_SIGNED) newlen (take (alen a) buf)
       \<longleftrightarrow> \<not> (akind a = MED_TYPE_SIGNED \<and> \<not> msb_set (buf ! (alen a - 1))))
    \<and> (akind a = MED_TYPE_SIGNED \<and> \<not> msb_set (buf ! (alen a - 1)) \<longrightarrow>
         take newlen buf' = take (alen a) buf @ replicate (newlen - alen a) 1)"
proof -
  let ?b = "if akind a = MED_TYPE_SIGNED then (if msb_set (buf ! (alen a - 1)) then 0xff else 1) else (0 :: byte)"
  have r: "object_resize_data buf a newlen =
      Some (0, put_bytes (alen a) (replicate (newlen - alen a) ?b) buf)"
    using assms by (auto simp: object_resize_data_def int_kind_def)
  have t: "take newlen (put_bytes (alen a) (replicate (newlen - alen a) ?b) buf)
      = take (alen a) buf @ replicate (newlen - alen a) ?b"
    using assms by (simp add: put_bytes_def)
  have l: "last (take (alen a) buf) = buf ! (alen a - 1)"
    using assms by (subst last_conv_nth) (auto simp: min_def)
  have le: "le_resize s newlen (take (alen a) buf) = take (alen a) buf
      @ replicate (newlen - alen a) (if s \<and> msb_set (buf ! (alen a - 1)) then 0xff else 0)" for s
    using assms l by (simp add: le_resize_def min_def)
  have "replicate (newlen - alen a) (1 :: byte) \<noteq> replicate (newlen - alen a) 0"
    using assms by simp
  with r t le show ?thesis by auto
qed

theorem object_resize_data_widening_witness:
  "object_resize_data [5, 0, 0, 0, 0, 0, 0, 0]
     \<lparr>a_offset = 0, a_length = 4, a_type = MED_TYPE_SIGNED, a_name = []\<rparr> 8
   = Some (0, [5, 0, 0, 0, 1, 1, 1, 1])"
proof -
  let ?a = "\<lparr>a_offset = 0, a_length = 4, a_type = MED_TYPE_SIGNED, a_name = []\<rparr>"
  let ?b = "[5, 0, 0, 0, 0, 0, 0, 0] :: bytes"
  have "int_kind ?a" "0 < alen ?a" "alen ?a < 8" "8 \<le> length ?b"
    by (simp_all add: int_kind_def akind_def med_consts alen_def)
  from object_resize_data_widening [OF this]
  obtain b where "object_resize_data ?b ?a 8 = Some (0, b)" by blast
  moreover have "object_resize_data ?b ?a 8 = Some (0, [5, 0, 0, 0, 1, 1, 1, 1])"
    by code_simp
  ultimately show ?thesis by simp
qed

end
