(* ===== verification/Objects.thy ===== *)
theory Objects
  imports Object_Endian Virtual_Spaces Event_Mask
begin

text \<open>
  Operations on k-objects (\<open>object.c\<close>): the sets of virtual spaces and the event masks that an object
  carries in its data, the identity of objects and the dispatch to the handlers of its class. The
  class of the object is an argument \<open>c\<close>; the handlers of the class name are a list of records with
  the functions that \<open>class_handler_s\<close> points to, \<open>None\<close> for a null pointer. A function that would
  touch memory outside the object's data has the value \<open>None\<close>.
\<close>

definition NR_ACCESS_TYPES :: nat where "NR_ACCESS_TYPES = 8"
definition AT_MEMBER :: nat where "AT_MEMBER = 0"

text \<open>A virtual-space word in the data: four bytes, the least significant one first.\<close>

definition word_of_bytes :: "bytes \<Rightarrow> 32 word" where
  "word_of_bytes bs = foldr (\<lambda>b w. ucast b OR push_bit 8 w) bs 0"

definition bytes_of_word :: "32 word \<Rightarrow> bytes" where
  "bytes_of_word w = map (\<lambda>i. ucast (drop_bit (8 * i) w)) [0..<4]"

definition word_at :: "nat \<Rightarrow> bytes \<Rightarrow> 32 word" where
  "word_at p d = word_of_bytes (take 4 (drop p d))"

subsection \<open>Handlers of a class\<close>

record 'st class_handler =
  h_set_handler :: "('st \<Rightarrow> object_s \<Rightarrow> ('st \<times> object_s) option) option"
  h_get_vs :: "('st \<Rightarrow> object_s \<Rightarrow> vs \<Rightarrow> nat \<Rightarrow> vs) option"

subsection \<open>Virtual spaces of an object\<close>

definition vs_words :: "attr \<Rightarrow> nat" where
  "vs_words a = min (alen a div 4) VS_WORDS"

text \<open>The loops count the index down from \<open>vs_words\<close> to 0.\<close>

fun or_words :: "nat \<Rightarrow> nat \<Rightarrow> vs \<Rightarrow> bytes \<Rightarrow> bytes" where
  "or_words 0 off v d = d"
| "or_words (Suc i) off v d =
     or_words i off v (put_bytes (off + 4 * i) (bytes_of_word (word_at (off + 4 * i) d OR v ! i)) d)"

fun test_words :: "nat \<Rightarrow> nat \<Rightarrow> vs \<Rightarrow> bytes \<Rightarrow> bool" where
  "test_words 0 off v d = False"
| "test_words (Suc i) off v d =
     (if word_at (off + 4 * i) d AND v ! i \<noteq> 0 then True else test_words i off v d)"

definition object_add_vs :: "class_s \<Rightarrow> object_s \<Rightarrow> int \<Rightarrow> vs \<Rightarrow> (int \<times> object_s) option" where
  "object_add_vs c ob n v =
     (if n < 0 \<or> int NR_ACCESS_TYPES \<le> n then Some (-1, ob)
      else (case c_vs_attr c ! nat n of
              None \<Rightarrow> Some (-1, ob)
            | Some a \<Rightarrow>
                if aoff a + 4 * vs_words a \<le> length (o_data ob)
                then Some (0, ob\<lparr>o_data := or_words (vs_words a) (aoff a) v (o_data ob)\<rparr>)
                else None))"

text \<open>\<open>buf\<close> is the content of the caller's buffer, which stays where \<open>object_get_val\<close> rejects the type
  of the attribute; its return value is not looked at.\<close>

definition object_get_vs ::
  "'st class_handler list \<Rightarrow> 'st \<Rightarrow> bytes \<Rightarrow> class_s \<Rightarrow> object_s \<Rightarrow> int \<Rightarrow> (int \<times> vs) option" where
  "object_get_vs hs st buf c ob n =
     (if n < 0 \<or> int NR_ACCESS_TYPES \<le> n then Some (-1, vs_clear)
      else (case c_vs_attr c ! nat n of
              Some a \<Rightarrow>
                map_option (\<lambda>(r, b). (0, map (\<lambda>i. word_at (4 * i) b) [0..<VS_WORDS]))
                  (object_get_val (o_flags ob) (o_data ob) a buf)
            | None \<Rightarrow>
                Some (0, fold (\<lambda>h v. case h_get_vs h of None \<Rightarrow> v | Some g \<Rightarrow> g st ob v (nat n)) hs vs_clear)))"

definition object_cmp_vs :: "'st class_handler list \<Rightarrow> 'st \<Rightarrow> class_s \<Rightarrow> vs \<Rightarrow> int \<Rightarrow> object_s \<Rightarrow> bool option" where
  "object_cmp_vs hs st c v n ob =
     (if n < 0 \<or> int NR_ACCESS_TYPES \<le> n then Some False
      else (case c_vs_attr c ! nat n of
              Some a \<Rightarrow>
                if aoff a + 4 * vs_words a \<le> length (o_data ob)
                then Some (test_words (vs_words a) (aoff a) v (o_data ob)) else None
            | None \<Rightarrow>
                Some (vs_test v
                  (fold (\<lambda>h t. case h_get_vs h of None \<Rightarrow> t | Some g \<Rightarrow> g st ob t (nat n)) hs vs_clear))))"

definition zero_bytes :: "nat \<Rightarrow> nat \<Rightarrow> bytes \<Rightarrow> bytes option" where
  "zero_bytes off n d = (if off + n \<le> length d then Some (put_bytes off (replicate n 0) d) else None)"

definition object_clear_all_vs :: "class_s \<Rightarrow> object_s \<Rightarrow> object_s option" where
  "object_clear_all_vs c ob =
     map_option (\<lambda>d. ob\<lparr>o_data := d\<rparr>)
       (fold (\<lambda>n d. case c_vs_attr c ! n of
                None \<Rightarrow> d
              | Some a \<Rightarrow> Option.bind d (zero_bytes (aoff a) (alen a)))
          [0..<NR_ACCESS_TYPES] (Some (o_data ob)))"

subsection \<open>Events of an object\<close>

text \<open>The memory of the two event fields: the object's own and, when the class has one, the
  subject's.\<close>

definition object_clear_event :: "class_s \<Rightarrow> object_s \<Rightarrow> object_s option" where
  "object_clear_event c ob =
     map_option (\<lambda>d. ob\<lparr>o_data := d\<rparr>)
       (Option.bind
         (if 0 < event_size (c_obj c)
          then zero_bytes (unat (event_offset (c_obj c))) (unat (event_size (c_obj c))) (o_data ob)
          else Some (o_data ob))
         (\<lambda>d. if 0 < event_size (c_subject c)
              then zero_bytes (unat (event_offset (c_subject c))) (unat (event_size (c_subject c))) d
              else Some d))"

definition or_mask :: "cinfo_part \<Rightarrow> event_mask \<Rightarrow> bytes \<Rightarrow> bytes option" where
  "or_mask p f d =
     (let n = min (unat (event_size p)) MASK_BYTES; off = unat (event_offset p) in
      if off + n \<le> length d
      then Some (put_bytes off (map (\<lambda>i. d ! (off + i) OR f ! i) [0..<n]) d) else None)"

text \<open>The argument \<open>e\<close> is a pair of masks: \<open>e[0]\<close>, for the subject, and \<open>e[1]\<close>, for the object.\<close>

definition object_add_event :: "class_s \<Rightarrow> object_s \<Rightarrow> event_mask2 \<Rightarrow> (int \<times> object_s) option" where
  "object_add_event c ob e =
     map_option (\<lambda>d. (if 0 < event_size (c_obj c) \<or> 0 < event_size (c_subject c) then 0 else -1,
                      ob\<lparr>o_data := d\<rparr>))
       (Option.bind
         (if 0 < event_size (c_obj c) then or_mask (c_obj c) (snd e) (o_data ob) else Some (o_data ob))
         (\<lambda>d. if 0 < event_size (c_subject c) then or_mask (c_subject c) (fst e) d else Some d))"

subsection \<open>Identity and handlers\<close>

text \<open>A cinfo field holds a pointer: eight bytes.\<close>

definition cinfo_nonzero :: "nat \<Rightarrow> bytes \<Rightarrow> bool option" where
  "cinfo_nonzero off d =
     (if off + 8 \<le> length d then Some (list_ex (\<lambda>b. b \<noteq> 0) (take 8 (drop off d))) else None)"

definition object_is_invalid :: "class_s \<Rightarrow> object_s \<Rightarrow> bool option" where
  "object_is_invalid c ob =
     Option.bind
       (if 0 < cinfo_size (c_obj c) then cinfo_nonzero (unat (cinfo_offset (c_obj c))) (o_data ob)
        else Some False)
       (\<lambda>b. if b then Some False
            else map_option Not
              (if 0 < cinfo_size (c_subject c)
               then cinfo_nonzero (unat (cinfo_offset (c_subject c))) (o_data ob) else Some False))"

definition object_do_sethandler :: "'st class_handler list \<Rightarrow> class_s \<Rightarrow> 'st \<Rightarrow> object_s \<Rightarrow> ('st \<times> object_s) option" where
  "object_do_sethandler hs c st ob =
     Option.bind (Option.bind (object_clear_all_vs c ob) (object_clear_event c))
       (\<lambda>ob. fold (\<lambda>h m. Option.bind m (\<lambda>(st, ob). case h_set_handler h of None \<Rightarrow> Some (st, ob) | Some f \<Rightarrow> f st ob))
                hs (Some (st, ob)))"

text \<open>\<open>c\<close> is the class of \<open>a\<close>; the loop over its attributes stops at the first primary-key
  attribute that differs.\<close>

fun same_keys :: "attr list \<Rightarrow> bytes \<Rightarrow> bytes \<Rightarrow> bool option" where
  "same_keys [] d e = Some True"
| "same_keys (t # ts) d e =
     (if a_type t AND MED_TYPE_PRIMARY_KEY \<noteq> 0 then
        (if \<not> (attr_in t d \<and> attr_in t e) then None
         else if field t d \<noteq> field t e then Some False else same_keys ts d e)
      else same_keys ts d e)"

definition object_is_same :: "class_s \<Rightarrow> object_s \<Rightarrow> object_s \<Rightarrow> bool option" where
  "object_is_same c a b =
     (if o_class a \<noteq> o_class b then Some False else same_keys (c_attr c) (o_data a) (o_data b))"

subsection \<open>Words of the data\<close>

lemma bit_word_of_bytes:
  "bit (word_of_bytes bs) n \<longleftrightarrow> n < 32 \<and> n div 8 < length bs \<and> bit (bs ! (n div 8)) (n mod 8)"
proof (induction bs arbitrary: n)
  case Nil
  then show ?case by (simp add: word_of_bytes_def)
next
  case (Cons b bs)
  have c: "word_of_bytes (b # bs) = ucast b OR push_bit 8 (word_of_bytes bs)"
    by (simp add: word_of_bytes_def)
  show ?case
  proof (cases "n < 8")
    case True
    then show ?thesis by (auto simp: c bit_simps)
  next
    case False
    then obtain m where m: "n = m + 8" by (metis add.commute le_Suc_ex not_less)
    then have d: "n div 8 = Suc (m div 8)" by simp
    then have "(b # bs) ! (n div 8) = bs ! (m div 8)" by simp
    note this d
    moreover have "\<not> bit b (m + 8)" using bit_imp_le_length [of b "m + 8"] by auto
    ultimately show ?thesis by (auto simp: c m bit_simps Cons.IH)
  qed
qed

lemma length_bytes_of_word [simp]: "length (bytes_of_word w) = 4"
  by (simp add: bytes_of_word_def)

lemma word_of_bytes_of_word [simp]: "word_of_bytes (bytes_of_word w) = w"
proof (rule bit_word_eqI)
  fix n assume "n < LENGTH(32)"
  then have n: "n < 32" "n div 8 < 4" by (auto simp: less_mult_imp_div_less)
  then have "bytes_of_word w ! (n div 8) = ucast (drop_bit (8 * (n div 8)) w)"
    by (simp add: bytes_of_word_def del: upt_Suc)
  with n show "bit (word_of_bytes (bytes_of_word w)) n \<longleftrightarrow> bit w n"
    by (auto simp: bit_word_of_bytes bit_simps)
qed

lemma word_at_put_same [simp]:
  "p + 4 \<le> length d \<Longrightarrow> word_at p (put_bytes p (bytes_of_word w) d) = w"
  by (simp add: word_at_def put_bytes_def)

lemma word_at_put_other:
  assumes "q + 4 \<le> p \<or> p + length bs \<le> q" and "p + length bs \<le> length d"
  shows "word_at q (put_bytes p bs d) = word_at q d"
  using take_drop_put_other [OF assms] by (simp add: word_at_def)

lemma length_or_words [simp]: "off + 4 * n \<le> length d \<Longrightarrow> length (or_words n off v d) = length d"
  by (induction n off v d rule: or_words.induct) simp_all

lemma word_at_or_words:
  "off + 4 * n \<le> length d \<Longrightarrow>
     word_at (off + 4 * j) (or_words n off v d) =
       (if j < n then word_at (off + 4 * j) d OR v ! j else word_at (off + 4 * j) d)"
proof (induction n off v d rule: or_words.induct)
  case (2 i off v d)
  have "word_at (off + 4 * j) (put_bytes (off + 4 * i) (bytes_of_word x) d)
      = (if j = i then x else word_at (off + 4 * j) d)" for x
    using "2.prems" by (auto intro: word_at_put_other)
  with 2 show ?case by (cases "j = i") auto
qed simp

lemma field_or_words:
  assumes "off + 4 * n \<le> length d" and "aoff b + alen b \<le> off \<or> off + 4 * n \<le> aoff b"
  shows "field b (or_words n off v d) = field b d"
  using assms
proof (induction n off v d rule: or_words.induct)
  case (2 i off v d)
  then show ?case
    using take_drop_put_other [of "aoff b" "alen b" "off + 4 * i" "bytes_of_word (word_at (off + 4 * i) d OR v ! i)" d]
    by (auto simp: field_def)
qed simp

lemma test_words_iff: "test_words n off v d \<longleftrightarrow> (\<exists>i < n. word_at (off + 4 * i) d AND v ! i \<noteq> 0)"
  by (induction n) (auto simp: less_Suc_eq)

subsection \<open>The identifiers an attribute holds\<close>

definition attr_vs_ids :: "attr \<Rightarrow> bytes \<Rightarrow> nat set" where
  "attr_vs_ids a d = {n. n < 32 * vs_words a \<and> bit (word_at (aoff a + 4 * (n div 32)) d) (n mod 32)}"

lemma vs_words_le: "32 * vs_words a \<le> MAX_NUM_OF_VS"
  by (auto simp: vs_words_def vs_consts)

lemma test_words_ids:
  "test_words (vs_words a) (aoff a) v d \<longleftrightarrow> vs_ids v \<inter> attr_vs_ids a d \<noteq> {}"
proof
  assume "test_words (vs_words a) (aoff a) v d"
  then obtain i j where "i < vs_words a" "j < 32" "bit (word_at (aoff a + 4 * i) d) j" "bit (v ! i) j"
    by (auto simp: test_words_iff vs_word_zero bit_and_iff)
  moreover from this have "i * 32 + j \<in> vs_ids v" "i * 32 + j < 32 * vs_words a"
    using vs_words_le [of a] by (auto simp: vs_ids_def vs_consts)
  ultimately show "vs_ids v \<inter> attr_vs_ids a d \<noteq> {}"
    by (auto simp: attr_vs_ids_def intro!: exI [of _ "i * 32 + j"])
next
  assume "vs_ids v \<inter> attr_vs_ids a d \<noteq> {}"
  then obtain n where n: "n \<in> vs_ids v" "n < 32 * vs_words a"
      "bit (word_at (aoff a + 4 * (n div 32)) d) (n mod 32)"
    by (auto simp: attr_vs_ids_def)
  then have "n div 32 < vs_words a" by (simp add: less_mult_imp_div_less mult.commute)
  moreover have "word_at (aoff a + 4 * (n div 32)) d AND v ! (n div 32) \<noteq> 0"
    using n by (auto simp: vs_ids_def vs_consts vs_word_zero bit_and_iff intro!: exI [of _ "n mod 32"])
  ultimately show "test_words (vs_words a) (aoff a) v d"
    by (auto simp: test_words_iff)
qed

lemma attr_vs_ids_or:
  assumes "aoff a + 4 * vs_words a \<le> length d"
  shows "attr_vs_ids a (or_words (vs_words a) (aoff a) v d)
    = attr_vs_ids a d \<union> (vs_ids v \<inter> {..<32 * vs_words a})"
proof (rule set_eqI)
  fix n
  show "n \<in> attr_vs_ids a (or_words (vs_words a) (aoff a) v d)
    \<longleftrightarrow> n \<in> attr_vs_ids a d \<union> (vs_ids v \<inter> {..<32 * vs_words a})"
    using word_at_or_words [OF assms, of "n div 32" v] vs_words_le [of a]
    by (auto simp: attr_vs_ids_def vs_ids_def vs_consts bit_or_iff less_mult_imp_div_less mult.commute)
qed

subsection \<open>Clearing and adding\<close>

lemma zero_bytes_Some:
  "zero_bytes off n d = Some d' \<Longrightarrow> off + n \<le> length d \<and> length d' = length d
     \<and> d' = put_bytes off (replicate n 0) d"
  by (auto simp: zero_bytes_def split: if_splits)

lemma put_zero_nth:
  assumes "off + n \<le> length d" and "k < length d"
  shows "put_bytes off (replicate n 0) d ! k = (if off \<le> k \<and> k < off + n then 0 else d ! k)"
  using assms by (auto simp: put_bytes_def nth_append)

lemma clear_fold:
  assumes "fold (\<lambda>n d. case c_vs_attr c ! n of None \<Rightarrow> d
              | Some a \<Rightarrow> Option.bind d (zero_bytes (aoff a) (alen a))) ns (Some d) = Some d'"
  shows "length d' = length d
    \<and> (\<forall>k < length d. d' ! k =
         (if \<exists>n \<in> set ns. \<exists>a. c_vs_attr c ! n = Some a \<and> aoff a \<le> k \<and> k < aoff a + alen a then 0 else d ! k))
    \<and> (\<forall>n \<in> set ns. \<forall>a. c_vs_attr c ! n = Some a \<longrightarrow> attr_in a d)"
  using assms
proof (induction ns arbitrary: d)
  case (Cons m ns)
  show ?case
  proof (cases "c_vs_attr c ! m")
    case None
    with Cons show ?thesis by simp
  next
    case (Some a)
    obtain d1 where d1: "zero_bytes (aoff a) (alen a) d = Some d1"
    proof (cases "zero_bytes (aoff a) (alen a) d")
      case None
      have "fold (\<lambda>n d. case c_vs_attr c ! n of None \<Rightarrow> d
              | Some a \<Rightarrow> Option.bind d (zero_bytes (aoff a) (alen a))) ns None = None"
        by (induction ns) (auto split: option.splits)
      with None Some Cons.prems show ?thesis by simp
    qed (use that in blast)
    with Some Cons.prems have r: "fold (\<lambda>n d. case c_vs_attr c ! n of None \<Rightarrow> d
              | Some a \<Rightarrow> Option.bind d (zero_bytes (aoff a) (alen a))) ns (Some d1) = Some d'"
      by simp
    show ?thesis
      using Cons.IH [OF r] zero_bytes_Some [OF d1] put_zero_nth [of "aoff a" "alen a" d] Some
      by (auto simp: attr_in_def)
  qed
qed simp

lemma clear_all_vs_field:
  assumes "object_clear_all_vs c ob = Some ob'" and "n < NR_ACCESS_TYPES" and "c_vs_attr c ! n = Some a"
  shows "attr_in a (o_data ob)" and "length (o_data ob') = length (o_data ob)"
    and "field a (o_data ob') = replicate (alen a) 0"
proof -
  note c = clear_fold [of c "[0..<NR_ACCESS_TYPES]" "o_data ob" "o_data ob'"]
  have f: "fold (\<lambda>n d. case c_vs_attr c ! n of None \<Rightarrow> d
              | Some a \<Rightarrow> Option.bind d (zero_bytes (aoff a) (alen a))) [0..<NR_ACCESS_TYPES] (Some (o_data ob))
      = Some (o_data ob')"
    using assms(1) by (auto simp: object_clear_all_vs_def)
  show "attr_in a (o_data ob)" "length (o_data ob') = length (o_data ob)"
    using c [OF f] assms(2,3) by auto
  then have le: "aoff a + alen a \<le> length (o_data ob')" by (simp add: attr_in_def)
  have "o_data ob' ! (aoff a + i) = 0" if "i < alen a" for i
  proof -
    have "aoff a + i < length (o_data ob)"
      using le that \<open>length (o_data ob') = length (o_data ob)\<close> by simp
    moreover have "\<exists>m \<in> set [0..<NR_ACCESS_TYPES]. \<exists>b. c_vs_attr c ! m = Some b
        \<and> aoff b \<le> aoff a + i \<and> aoff a + i < aoff b + alen b"
      using assms(2,3) that by (intro bexI [of _ n] exI [of _ a]) auto
    ultimately show ?thesis using c [OF f] by auto
  qed
  with le show "field a (o_data ob') = replicate (alen a) 0"
    by (auto simp: field_def intro!: nth_equalityI)
qed

lemma vs_words_bytes: "4 * vs_words a \<le> alen a"
  by (simp add: vs_words_def)

lemma attr_vs_ids_zero:
  assumes "attr_in a d" and "field a d = replicate (alen a) 0"
  shows "attr_vs_ids a d = {}"
proof -
  have "\<not> bit (word_at (aoff a + 4 * (n div 32)) d) (n mod 32)" if "n < 32 * vs_words a" for n
  proof -
    define p where "p = 4 * (n div 32) + (n mod 32) div 8"
    have "n div 32 < vs_words a" using that by (simp add: less_mult_imp_div_less mult.commute)
    then have "4 * (n div 32) + 3 < alen a" using vs_words_bytes [of a] by simp
    moreover have "(n mod 32) div 8 < 4" by (simp add: less_mult_imp_div_less)
    ultimately have p: "p < alen a" by (simp add: p_def)
    then have "d ! (aoff a + p) = field a d ! p" using assms(1) by (simp add: field_def attr_in_def)
    then have "d ! (aoff a + p) = 0" using assms(2) p by simp
    then show ?thesis by (auto simp: word_at_def bit_word_of_bytes p_def add.assoc)
  qed
  then show ?thesis by (auto simp: attr_vs_ids_def)
qed

lemma object_add_vs_Some:
  assumes "n < NR_ACCESS_TYPES" and "c_vs_attr c ! n = Some a" and "attr_in a (o_data ob)"
  shows "\<exists>ob'. object_add_vs c ob (int n) v = Some (0, ob')
    \<and> length (o_data ob') = length (o_data ob)
    \<and> attr_vs_ids a (o_data ob') = attr_vs_ids a (o_data ob) \<union> (vs_ids v \<inter> {..<32 * vs_words a})
    \<and> (\<forall>b. attr_disjoint b a \<longrightarrow> field b (o_data ob') = field b (o_data ob))
    \<and> ob' = ob\<lparr>o_data := o_data ob'\<rparr>"
proof -
  have le: "aoff a + 4 * vs_words a \<le> length (o_data ob)"
    using assms(3) vs_words_bytes [of a] by (simp add: attr_in_def)
  have "field b (or_words (vs_words a) (aoff a) v (o_data ob)) = field b (o_data ob)"
    if "attr_disjoint b a" for b
    using that vs_words_bytes [of a] by (intro field_or_words [OF le]) (auto simp: attr_disjoint_def)
  with assms le show ?thesis
    by (auto simp: object_add_vs_def attr_vs_ids_or)
qed

definition object_add_all :: "class_s \<Rightarrow> int \<Rightarrow> vs list \<Rightarrow> object_s \<Rightarrow> object_s option" where
  "object_add_all c n vss ob =
     fold (\<lambda>v m. Option.bind m (\<lambda>ob. map_option snd (object_add_vs c ob n v))) vss (Some ob)"

lemma object_add_all_ids:
  assumes "n < NR_ACCESS_TYPES" and "c_vs_attr c ! n = Some a" and "attr_in a (o_data ob)"
  shows "\<exists>ob'. object_add_all c (int n) vss ob = Some ob' \<and> length (o_data ob') = length (o_data ob)
    \<and> attr_vs_ids a (o_data ob') = attr_vs_ids a (o_data ob) \<union> (\<Union> (vs_ids ` set vss) \<inter> {..<32 * vs_words a})
    \<and> (\<forall>b. attr_disjoint b a \<longrightarrow> field b (o_data ob') = field b (o_data ob))"
  using assms(3)
proof (induction vss arbitrary: ob)
  case Nil
  then show ?case by (simp add: object_add_all_def)
next
  case (Cons v vss)
  from object_add_vs_Some [OF assms(1,2) Cons.prems, of v]
  obtain ob1 where 1: "object_add_vs c ob (int n) v = Some (0, ob1)"
      "length (o_data ob1) = length (o_data ob)"
      "attr_vs_ids a (o_data ob1) = attr_vs_ids a (o_data ob) \<union> (vs_ids v \<inter> {..<32 * vs_words a})"
      "\<forall>b. attr_disjoint b a \<longrightarrow> field b (o_data ob1) = field b (o_data ob)"
    by auto
  then have "attr_in a (o_data ob1)" using Cons.prems by (simp add: attr_in_def)
  from Cons.IH [OF this] 1 show ?case
    by (auto simp: object_add_all_def)
qed

subsection \<open>Properties\<close>


definition demo_class :: class_s where
  "demo_class =
     \<lparr>c_obj = \<lparr>event_offset = 8, event_size = 2, cinfo_offset = 0, cinfo_size = 0, cinfo_mask = 0\<rparr>,
      c_subject = \<lparr>event_offset = 10, event_size = 2, cinfo_offset = 0, cinfo_size = 0, cinfo_mask = 0\<rparr>,
      c_name_offset = 0, c_name_size = 0, c_classname = 0, c_comm = 0,
      c_vs_attr = Some \<lparr>a_offset = 0, a_length = 8, a_type = MED_TYPE_BITMAP, a_name = ''vs''\<rparr> # replicate 7 None,
      c_m = \<lparr>m_classid = 1, m_size = 12, m_name = ''c''\<rparr>,
      c_attr = [\<lparr>a_offset = 0, a_length = 8, a_type = MED_TYPE_BITMAP, a_name = ''vs''\<rparr>]\<rparr>"

definition demo_object :: object_s where
  "demo_object = \<lparr>o_attr = \<lparr>a_offset = 0, a_length = 12, a_type = 0, a_name = ''o''\<rparr>, o_flags = 0,
     o_class = Some 0, o_data = replicate 12 0xff\<rparr>"


text \<open>The byte of event field \<open>p\<close> at position \<open>i\<close>.\<close>

definition event_byte :: "cinfo_part \<Rightarrow> bytes \<Rightarrow> nat \<Rightarrow> byte" where
  "event_byte p d i = d ! (unat (event_offset p) + i)"

definition event_in :: "cinfo_part \<Rightarrow> bytes \<Rightarrow> bool" where
  "event_in p d \<longleftrightarrow> unat (event_offset p) + unat (event_size p) \<le> length d"

definition event_disjoint :: "cinfo_part \<Rightarrow> cinfo_part \<Rightarrow> bool" where
  "event_disjoint p q \<longleftrightarrow>
     unat (event_offset p) + unat (event_size p) \<le> unat (event_offset q)
     \<or> unat (event_offset q) + unat (event_size q) \<le> unat (event_offset p)"

lemma put_bytes_nth:
  assumes "off + length bs \<le> length d" and "k < length d"
  shows "put_bytes off bs d ! k = (if off \<le> k \<and> k < off + length bs then bs ! (k - off) else d ! k)"
  using assms by (auto simp: put_bytes_def nth_append)

lemma or_mask_Some:
  assumes "event_in p d"
  shows "\<exists>d'. or_mask p f d = Some d' \<and> length d' = length d
    \<and> (\<forall>k < length d. d' ! k =
         (if unat (event_offset p) \<le> k \<and> k < unat (event_offset p) + min (unat (event_size p)) MASK_BYTES
          then d ! k OR f ! (k - unat (event_offset p)) else d ! k))"
proof -
  let ?n = "min (unat (event_size p)) MASK_BYTES" and ?o = "unat (event_offset p)"
  have le: "?o + ?n \<le> length d" using assms by (simp add: event_in_def)
  define ys where "ys = map (\<lambda>i. d ! (?o + i) OR f ! i) [0..<?n]"
  have "length ys = ?n" by (simp add: ys_def)
  moreover have "ys ! (k - ?o) = d ! k OR f ! (k - ?o)" if "?o \<le> k" "k < ?o + ?n" for k
  proof -
    have "k - ?o < ?n" using that by linarith
    then show ?thesis using that(1) by (simp add: ys_def nth_map_upt del: min_less_iff_conj)
  qed
  moreover have "or_mask p f d = Some (put_bytes ?o ys d)"
    using le by (simp add: or_mask_def Let_def ys_def)
  ultimately show ?thesis
    using put_bytes_nth [of ?o ys d] le by auto
qed

text \<open>\<open>object_add_event\<close> after \<open>object_clear_event\<close> leaves exactly the requested masks: the
  object part of the class gets the object's mask \<open>e[1]\<close> and the subject part the subject's mask
  \<open>e[0]\<close>, each cut to the size of its field, and it returns -1 exactly when the class has neither
  field.\<close>

theorem object_event_masks:
  assumes "event_in (c_obj c) (o_data ob)" and "event_in (c_subject c) (o_data ob)"
    and "event_disjoint (c_obj c) (c_subject c)"
  shows "\<exists>ob0 r ob'. object_clear_event c ob = Some ob0 \<and> object_add_event c ob0 e = Some (r, ob')
    \<and> (\<forall>i < unat (event_size (c_obj c)).
         event_byte (c_obj c) (o_data ob') i = (if i < MASK_BYTES then snd e ! i else 0))
    \<and> (\<forall>i < unat (event_size (c_subject c)).
         event_byte (c_subject c) (o_data ob') i = (if i < MASK_BYTES then fst e ! i else 0))
    \<and> (r = -1 \<longleftrightarrow> event_size (c_obj c) = 0 \<and> event_size (c_subject c) = 0)"
proof -
  let ?p = "c_obj c" and ?q = "c_subject c"
  have nz: "0 < event_size x \<longleftrightarrow> 0 < unat (event_size x)" "event_size x = 0 \<longleftrightarrow> unat (event_size x) = 0" for x
    by (auto simp: unat_gt_0 unat_eq_zero word_gt_0)
  define clr where "clr p d = (if 0 < event_size p
      then zero_bytes (unat (event_offset p)) (unat (event_size p)) d else Some d)" for p :: cinfo_part and d
  have clr: "\<exists>d'. clr p d = Some d' \<and> length d' = length d
      \<and> (\<forall>k < length d. d' ! k = (if unat (event_offset p) \<le> k \<and> k < unat (event_offset p) + unat (event_size p)
           then 0 else d ! k))" if "event_in p d" for p d
    using that put_zero_nth [of "unat (event_offset p)" "unat (event_size p)" d]
    by (auto simp: clr_def zero_bytes_def event_in_def nz)
  define orm where "orm p f d = (if 0 < event_size p then or_mask p f d else Some d)" for p :: cinfo_part and f d
  have orm: "\<exists>d'. orm p f d = Some d' \<and> length d' = length d
      \<and> (\<forall>k < length d. d' ! k =
         (if unat (event_offset p) \<le> k \<and> k < unat (event_offset p) + min (unat (event_size p)) MASK_BYTES
          then d ! k OR f ! (k - unat (event_offset p)) else d ! k))" if "event_in p d" for p f d
    using or_mask_Some [OF that, of f] by (auto simp: orm_def nz)
  obtain d1 where d1: "clr ?p (o_data ob) = Some d1" "length d1 = length (o_data ob)"
    "\<forall>k < length (o_data ob). d1 ! k = (if unat (event_offset ?p) \<le> k
        \<and> k < unat (event_offset ?p) + unat (event_size ?p) then 0 else o_data ob ! k)"
    using clr [OF assms(1)] by blast
  obtain d2 where d2: "clr ?q d1 = Some d2" "length d2 = length (o_data ob)"
    "\<forall>k < length (o_data ob). d2 ! k = (if unat (event_offset ?q) \<le> k
        \<and> k < unat (event_offset ?q) + unat (event_size ?q) then 0 else d1 ! k)"
    using clr [of ?q d1] assms(2) d1(2) by (auto simp: event_in_def)
  obtain d3 where d3: "orm ?p (snd e) d2 = Some d3" "length d3 = length (o_data ob)"
    "\<forall>k < length (o_data ob). d3 ! k = (if unat (event_offset ?p) \<le> k
        \<and> k < unat (event_offset ?p) + min (unat (event_size ?p)) MASK_BYTES
        then d2 ! k OR snd e ! (k - unat (event_offset ?p)) else d2 ! k)"
    using orm [of ?p d2] assms(1) d2(2) by (auto simp: event_in_def)
  obtain d4 where d4: "orm ?q (fst e) d3 = Some d4"
    "\<forall>k < length (o_data ob). d4 ! k = (if unat (event_offset ?q) \<le> k
        \<and> k < unat (event_offset ?q) + min (unat (event_size ?q)) MASK_BYTES
        then d3 ! k OR fst e ! (k - unat (event_offset ?q)) else d3 ! k)"
    using orm [of ?q d3] assms(2) d3(2) by (auto simp: event_in_def)
  have c: "object_clear_event c ob = Some (ob\<lparr>o_data := d2\<rparr>)"
    using d1(1) d2(1) by (simp add: object_clear_event_def clr_def)
  have a: "object_add_event c (ob\<lparr>o_data := d2\<rparr>) e
      = Some (if 0 < event_size ?p \<or> 0 < event_size ?q then 0 else -1, ob\<lparr>o_data := d4\<rparr>)"
    using d3(1) d4(1) by (auto simp: object_add_event_def orm_def)
  have ob: "event_byte ?p d4 i = (if i < MASK_BYTES then snd e ! i else 0)"
    if i: "i < unat (event_size ?p)" for i
  proof -
    define k where "k = unat (event_offset ?p) + i"
    have k: "k < length (o_data ob)" and q: "\<not> (unat (event_offset ?q) \<le> k \<and> k < unat (event_offset ?q) + unat (event_size ?q))"
      using i assms by (auto simp: k_def event_in_def event_disjoint_def)
    have "d4 ! k = d3 ! k" using d4(2) [rule_format, OF k] q by auto
    also have "\<dots> = (if i < MASK_BYTES then d2 ! k OR snd e ! i else d2 ! k)"
      using d3(3) [rule_format, OF k] i by (simp add: k_def)
    also have "d2 ! k = d1 ! k" using d2(3) [rule_format, OF k] q by auto
    also have "d1 ! k = 0" using d1(3) [rule_format, OF k] i by (simp add: k_def)
    finally show ?thesis by (simp add: event_byte_def k_def)
  qed
  have sb: "event_byte ?q d4 i = (if i < MASK_BYTES then fst e ! i else 0)"
    if i: "i < unat (event_size ?q)" for i
  proof -
    define k where "k = unat (event_offset ?q) + i"
    have k: "k < length (o_data ob)" and p: "\<not> (unat (event_offset ?p) \<le> k \<and> k < unat (event_offset ?p) + unat (event_size ?p))"
      using i assms by (auto simp: k_def event_in_def event_disjoint_def)
    have "d4 ! k = (if i < MASK_BYTES then d3 ! k OR fst e ! i else d3 ! k)"
      using d4(2) [rule_format, OF k] i by (simp add: k_def)
    also have "d3 ! k = d2 ! k" using d3(3) [rule_format, OF k] p by auto
    also have "d2 ! k = 0" using d2(3) [rule_format, OF k] i by (simp add: k_def)
    finally show ?thesis by (simp add: event_byte_def k_def)
  qed
  show ?thesis
    by (rule exI [of _ "ob\<lparr>o_data := d2\<rparr>"],
        rule exI [of _ "if 0 < event_size ?p \<or> 0 < event_size ?q then 0 else -1"], rule exI [of _ "ob\<lparr>o_data := d4\<rparr>"])
      (use c a ob sb in \<open>auto simp: nz\<close>)
qed

theorem object_event_masks_witness:
  "\<exists>ob0 r ob'. object_clear_event demo_class demo_object = Some ob0
     \<and> object_add_event demo_class ob0 ([1, 2, 0, 0, 0, 0, 0, 0], [3, 4, 0, 0, 0, 0, 0, 0]) = Some (r, ob')
     \<and> event_byte (c_obj demo_class) (o_data ob') 1 = 4"
proof -
  have "event_in (c_obj demo_class) (o_data demo_object)" "event_in (c_subject demo_class) (o_data demo_object)"
    "event_disjoint (c_obj demo_class) (c_subject demo_class)"
    by (simp_all add: event_in_def event_disjoint_def demo_class_def demo_object_def)
  from object_event_masks [OF this, of "([1, 2, 0, 0, 0, 0, 0, 0], [3, 4, 0, 0, 0, 0, 0, 0])"]
  have "\<exists>ob0 r ob'. object_clear_event demo_class demo_object = Some ob0
     \<and> object_add_event demo_class ob0 ([1, 2, 0, 0, 0, 0, 0, 0], [3, 4, 0, 0, 0, 0, 0, 0]) = Some (r, ob')
     \<and> (\<forall>i < unat (event_size (c_obj demo_class)).
         event_byte (c_obj demo_class) (o_data ob') i
           = (if i < MASK_BYTES then [3, 4, 0, 0, 0, 0, 0, 0] ! i else 0))"
    by auto
  moreover have "1 < unat (event_size (c_obj demo_class))" by (simp add: demo_class_def)
  ultimately show ?thesis by (fastforce simp: MASK_BYTES_def)
qed

end
