(* ===== verification/Classes.thy ===== *)
theory Classes
  imports Objects Hash_Table
begin

text \<open>
  Class names and classes (\<open>class.c\<close>). The list \<open>classes\<close> of class names only grows at its head; it
  is kept here in the order of creation and searched from the last name, and the pointer to a class
  name is its position. Classes are malloc'ed, so they are cells of a heap; a freed cell is \<open>None\<close>.
  The class tables of the connections are the tables of \<open>Hash_Table\<close>.
\<close>

record 'h class_names_s =
  cn_name :: string
  cn_classes :: "nat \<Rightarrow> nat option"
  cn_handlers :: "'h list"

record 'h class_state =
  cs_names :: "'h class_names_s list"
  cs_heap :: "nat \<Rightarrow> class_s option"
  cs_next :: nat

definition newest :: "nat \<Rightarrow> nat list" where "newest n = rev [0..<n]"

text \<open>\<open>ok\<close>: the two allocations succeed.\<close>

definition get_class_by_name :: "string \<Rightarrow> bool \<Rightarrow> 'h class_state \<Rightarrow> 'h class_state \<times> nat option" where
  "get_class_by_name name ok st =
     (case List.find (\<lambda>i. strncmp (cn_name (cs_names st ! i)) name MEDUSA_CLASSNAME_MAX = 0)
             (newest (length (cs_names st))) of
        Some i \<Rightarrow> (st, Some i)
      | None \<Rightarrow>
          if ok
          then (st\<lparr>cs_names := cs_names st @ [\<lparr>cn_name = name, cn_classes = \<lambda>_. None, cn_handlers = []\<rparr>]\<rparr>,
                Some (length (cs_names st)))
          else (st, None))"

definition class_free_all_clases :: "nat \<Rightarrow> 'h class_state \<Rightarrow> 'h class_state" where
  "class_free_all_clases conn st =
     fold (\<lambda>i st. case cn_classes (cs_names st ! i) conn of
                    None \<Rightarrow> st
                  | Some a \<Rightarrow>
                      st\<lparr>cs_heap := (cs_heap st)(a := None),
                         cs_names := (cs_names st)[i := (cs_names st ! i)
                             \<lparr>cn_classes := (cn_classes (cs_names st ! i))(conn := None)\<rparr>]\<rparr>)
       (newest (length (cs_names st))) st"

definition get_attribute :: "attr list \<Rightarrow> string \<Rightarrow> attr option" where
  "get_attribute as name = List.find (\<lambda>a. strncmp (a_name a) name MEDUSA_ATTRNAME_MAX = 0) as"

text \<open>The offset and size that \<open>add_class\<close> stores for an attribute, 0 and 0 when there is none; a
  \<open>cinfo\<close> size is counted in 32-bit words.\<close>

definition attr_part :: "attr option \<Rightarrow> 16 word \<times> 16 word" where
  "attr_part ci = (case ci of None \<Rightarrow> (0, 0) | Some a \<Rightarrow> (a_offset a, a_length a))"

definition build_class :: "nat \<Rightarrow> nat \<Rightarrow> medusa_class \<Rightarrow> attr list \<Rightarrow> class_s" where
  "build_class comm name mc as =
     (let g = get_attribute as; part = (\<lambda>n. attr_part (g n)) in
      \<lparr>c_obj = \<lparr>event_offset = fst (part ''med_oact''), event_size = snd (part ''med_oact''),
                cinfo_offset = fst (part ''o_cinfo''), cinfo_size = snd (part ''o_cinfo'') div 4,
                cinfo_mask = 0\<rparr>,
       c_subject = \<lparr>event_offset = fst (part ''med_sact''), event_size = snd (part ''med_sact''),
                cinfo_offset = fst (part ''s_cinfo''), cinfo_size = snd (part ''s_cinfo'') div 4,
                cinfo_mask = 0\<rparr>,
       c_name_offset = fst (part ''name''), c_name_size = snd (part ''name''),
       c_classname = name, c_comm = comm,
       c_vs_attr = [g ''vs'', g ''vsr'', g ''vsw'', g ''vss'', g ''vsc'', g ''vsd'', g ''vse'', g ''vsx''],
       c_m = mc, c_attr = as\<rparr>)"

text \<open>\<open>add_class\<close> for connection \<open>conn\<close>, whose class table is \<open>tab\<close>. \<open>okc\<close>: the class is allocated;
  \<open>okn\<close>: a new class name can be. The message "Not enough VSs" changes nothing.\<close>

definition add_class ::
  "nat \<Rightarrow> medusa_class \<Rightarrow> attr list \<Rightarrow> bool \<Rightarrow> bool \<Rightarrow> 'h class_state \<Rightarrow> nat hash_s
     \<Rightarrow> 'h class_state \<times> nat hash_s \<times> nat option" where
  "add_class conn mc as okc okn st tab =
     (if \<not> okc then (st, tab, None)
      else (case get_class_by_name (m_name mc) okn st of
              (st1, None) \<Rightarrow> (st1, tab, None)
            | (st1, Some p) \<Rightarrow>
                let a = cs_next st1 in
                (st1\<lparr>cs_heap := (cs_heap st1)(a := Some (build_class conn p mc as)),
                     cs_next := a + 1,
                     cs_names := (cs_names st1)[p := (cs_names st1 ! p)
                         \<lparr>cn_classes := (cn_classes (cs_names st1 ! p))(conn := Some a)\<rparr>]\<rparr>,
                 hash_add tab a (m_classid mc), Some a)))"

definition class_add_handler :: "nat \<Rightarrow> 'h \<Rightarrow> 'h class_state \<Rightarrow> 'h class_state" where
  "class_add_handler i h st =
     st\<lparr>cs_names := (cs_names st)[i := (cs_names st ! i)\<lparr>cn_handlers := cn_handlers (cs_names st ! i) @ [h]\<rparr>]\<rparr>"

text \<open>\<open>class_comm_init\<close>: \<open>init_comm\<close> runs the handler's function on the rest of the program's state;
  it is \<open>None\<close> for a null pointer. The walk stops at the first negative result.\<close>

fun run_inits :: "('h \<Rightarrow> ('s \<Rightarrow> 's \<times> int) option) \<Rightarrow> 'h list \<Rightarrow> 's \<Rightarrow> 's \<times> int" where
  "run_inits init_comm [] s = (s, 0)"
| "run_inits init_comm (h # hs) s =
     (case init_comm h of
        None \<Rightarrow> run_inits init_comm hs s
      | Some f \<Rightarrow> (case f s of (s', r) \<Rightarrow> if r < 0 then (s', -1) else run_inits init_comm hs s'))"

definition class_comm_init :: "('h \<Rightarrow> ('s \<Rightarrow> 's \<times> int) option) \<Rightarrow> 'h class_state \<Rightarrow> 's \<Rightarrow> 's \<times> int" where
  "class_comm_init init_comm st s =
     run_inits init_comm (concat (map cn_handlers (rev (cs_names st)))) s"

subsection \<open>Allocation of cinfo blocks\<close>

text \<open>\<open>1 << i\<close> shifts an \<open>int\<close>, so it is undefined from \<open>i = 31\<close> on: the value \<open>None\<close>. Otherwise the
  result is the new mask and the offset returned, or -1.\<close>

fun find_block :: "nat list \<Rightarrow> 64 word \<Rightarrow> nat option option" where
  "find_block [] m = Some None"
| "find_block (i # is) m =
     (if 31 \<le> i then None
      else if m AND push_bit i 1 = 0 then Some (Some i) else find_block is m)"

definition class_alloc_cinfo :: "16 word \<Rightarrow> 64 word \<Rightarrow> 16 word \<Rightarrow> (64 word \<times> int) option" where
  "class_alloc_cinfo sz m off =
     map_option (\<lambda>r. case r of
                       None \<Rightarrow> (m, -1)
                     | Some i \<Rightarrow> (m OR push_bit i 1, uint off + int i * 8))
       (find_block [0..<min (unat sz div 2) 64] m)"

definition class_alloc_object_cinfo :: "class_s \<Rightarrow> (class_s \<times> int) option" where
  "class_alloc_object_cinfo c =
     map_option (\<lambda>(m, r). (c\<lparr>c_obj := (c_obj c)\<lparr>cinfo_mask := m\<rparr>\<rparr>, r))
       (class_alloc_cinfo (cinfo_size (c_obj c)) (cinfo_mask (c_obj c)) (cinfo_offset (c_obj c)))"

definition class_alloc_subject_cinfo :: "class_s \<Rightarrow> (class_s \<times> int) option" where
  "class_alloc_subject_cinfo c =
     map_option (\<lambda>(m, r). (c\<lparr>c_subject := (c_subject c)\<lparr>cinfo_mask := m\<rparr>\<rparr>, r))
       (class_alloc_cinfo (cinfo_size (c_subject c)) (cinfo_mask (c_subject c)) (cinfo_offset (c_subject c)))"

subsection \<open>Class names are unique\<close>

definition same_name :: "string \<Rightarrow> string \<Rightarrow> bool" where
  "same_name a b \<longleftrightarrow> take MEDUSA_CLASSNAME_MAX a = take MEDUSA_CLASSNAME_MAX b"

lemma strncmp_0: "strncmp a b n = 0 \<longleftrightarrow> take n a = take n b"
  by (simp add: strncmp_def)

definition names_ok :: "'h class_state \<Rightarrow> bool" where
  "names_ok st \<longleftrightarrow> distinct (map (\<lambda>c. take MEDUSA_CLASSNAME_MAX (cn_name c)) (cs_names st))"

lemma names_ok_unique:
  "names_ok st \<Longrightarrow> i < length (cs_names st) \<Longrightarrow> j < length (cs_names st) \<Longrightarrow>
     same_name (cn_name (cs_names st ! i)) (cn_name (cs_names st ! j)) \<longleftrightarrow> i = j"
  unfolding names_ok_def same_name_def
  using nth_eq_iff_index_eq [of "map (\<lambda>c. take MEDUSA_CLASSNAME_MAX (cn_name c)) (cs_names st)" i j] by auto

lemma set_newest [simp]: "set (newest n) = {..<n}"
  by (auto simp: newest_def)

lemma get_class_by_name_cases:
  assumes "names_ok st"
  shows "(\<exists>i < length (cs_names st). same_name (cn_name (cs_names st ! i)) name
            \<and> get_class_by_name name ok st = (st, Some i))
       \<or> ((\<forall>i < length (cs_names st). \<not> same_name (cn_name (cs_names st ! i)) name)
            \<and> get_class_by_name name ok st =
                (if ok then (st\<lparr>cs_names := cs_names st @ [\<lparr>cn_name = name, cn_classes = \<lambda>_. None, cn_handlers = []\<rparr>]\<rparr>,
                             Some (length (cs_names st)))
                 else (st, None)))"
proof (cases "List.find (\<lambda>i. strncmp (cn_name (cs_names st ! i)) name MEDUSA_CLASSNAME_MAX = 0)
             (newest (length (cs_names st)))")
  case None
  then have "get_class_by_name name ok st =
      (if ok then (st\<lparr>cs_names := cs_names st @ [\<lparr>cn_name = name, cn_classes = \<lambda>_. None, cn_handlers = []\<rparr>]\<rparr>,
                   Some (length (cs_names st)))
       else (st, None))"
    by (simp only: get_class_by_name_def option.simps)
  moreover have "\<forall>i < length (cs_names st). \<not> same_name (cn_name (cs_names st ! i)) name"
    using None by (auto simp: find_None_iff strncmp_0 same_name_def)
  ultimately show ?thesis by blast
next
  case (Some i)
  then have "get_class_by_name name ok st = (st, Some i)"
    by (simp only: get_class_by_name_def option.simps)
  moreover have "i < length (cs_names st) \<and> same_name (cn_name (cs_names st ! i)) name"
    using find_Some_conv [OF Some] by (auto simp: strncmp_0 same_name_def)
  ultimately show ?thesis by blast
qed

lemma names_ok_get:
  assumes "names_ok st"
  shows "names_ok (fst (get_class_by_name name ok st))"
  using get_class_by_name_cases [OF assms, of name ok] assms
  by (cases ok) (auto simp: names_ok_def same_name_def in_set_conv_nth, metis)

lemma get_class_by_name_again:
  assumes "names_ok st" and "get_class_by_name name ok st = (st', Some i)"
  shows "names_ok st'" and "i < length (cs_names st')" and "same_name (cn_name (cs_names st' ! i)) name"
    and "same_name name name' \<Longrightarrow> get_class_by_name name' ok' st' = (st', Some i)"
    and "\<not> same_name name name' \<Longrightarrow> snd (get_class_by_name name' ok' st') \<noteq> Some i"
proof -
  show ok: "names_ok st'" using names_ok_get [OF assms(1), of name ok] assms(2) by simp
  show "i < length (cs_names st')" and n: "same_name (cn_name (cs_names st' ! i)) name"
    using get_class_by_name_cases [OF assms(1), of name ok] assms(2)
    by (auto simp: same_name_def split: if_splits)
  note c = get_class_by_name_cases [OF ok, of name' ok']
  show "get_class_by_name name' ok' st' = (st', Some i)" if "same_name name name'"
    using c that n \<open>i < length (cs_names st')\<close> names_ok_unique [OF ok, of i]
    by (auto simp: same_name_def) (metis)
  show "snd (get_class_by_name name' ok' st') \<noteq> Some i" if "\<not> same_name name name'"
    using c that n \<open>i < length (cs_names st')\<close> by (auto simp: same_name_def split: if_splits)
qed

subsection \<open>Properties\<close>



text \<open>A class name is a unique key up to its first 30 characters: a second request for the same
  name returns the same entry and allocates nothing, a request for another name returns another
  one, and the names in the list stay pairwise distinct.\<close>

theorem class_names_unique:
  assumes "names_ok st" and "get_class_by_name name ok st = (st', Some i)"
  shows "names_ok st' \<and> same_name (cn_name (cs_names st' ! i)) name
    \<and> (\<forall>name' ok'. if same_name name name' then get_class_by_name name' ok' st' = (st', Some i)
         else snd (get_class_by_name name' ok' st') \<noteq> Some i)"
  using get_class_by_name_again [OF assms] by auto

theorem class_names_unique_witness:
  "\<exists>st' i. get_class_by_name ''file'' True
       \<lparr>cs_names = [] :: nat class_names_s list, cs_heap = \<lambda>_. None, cs_next = 0\<rparr> = (st', Some i)
     \<and> get_class_by_name ''file'' False st' = (st', Some i)"
proof -
  let ?st = "\<lparr>cs_names = [] :: nat class_names_s list, cs_heap = \<lambda>_. None, cs_next = 0\<rparr>"
  have ok: "names_ok ?st" by (simp add: names_ok_def)
  obtain st' i where g: "get_class_by_name ''file'' True ?st = (st', Some i)"
    using get_class_by_name_cases [OF ok, of "''file''" True] by auto
  with class_names_unique [OF ok g] show ?thesis by (fastforce simp: same_name_def)
qed

text \<open>The offsets that \<open>k\<close> successive allocations return.\<close>

fun alloc_blocks :: "nat \<Rightarrow> 16 word \<Rightarrow> 64 word \<Rightarrow> 16 word \<Rightarrow> (64 word \<times> int list) option" where
  "alloc_blocks 0 sz m off = Some (m, [])"
| "alloc_blocks (Suc k) sz m off =
     Option.bind (class_alloc_cinfo sz m off)
       (\<lambda>(m', r). map_option (\<lambda>(m'', rs). (m'', r # rs)) (alloc_blocks k sz m' off))"


lemma find_block_low:
  assumes "\<forall>i < n. bit (m :: 64 word) i" and "n \<le> k" and "k \<le> 31" and "\<forall>i < 31. n \<le> i \<longrightarrow> \<not> bit m i"
  shows "find_block [0..<k] m = Some (if n < k then Some n else None)"
proof -
  have b: "m AND 2 ^ i = 0 \<longleftrightarrow> \<not> bit m i" for i
    using and_exp_if [of m i] by (auto dest: bit_imp_le_length)
  have low: "find_block (xs @ ys) m = find_block ys m" if "\<forall>i \<in> set xs. i < 31 \<and> bit m i" for xs ys
    using that by (induction xs) (auto simp: b)
  have "[0..<k] = [0..<n] @ [n..<k]" using assms(2) by (metis le_add_diff_inverse upt_add_eq_append zero_le)
  then have "find_block [0..<k] m = find_block [n..<k] m"
    using low [of "[0..<n]" "[n..<k]"] assms(1-3) by auto
  also have "\<dots> = Some (if n < k then Some n else None)"
    using assms(3,4) by (cases "n < k") (auto simp: upt_conv_Cons b)
  finally show ?thesis .
qed

definition low_mask :: "nat \<Rightarrow> 64 word \<Rightarrow> bool" where
  "low_mask n m \<longleftrightarrow> (\<forall>i < 31. bit m i \<longleftrightarrow> i < n)"

lemma alloc_step:
  assumes "low_mask n m" and "n \<le> k" and "k \<le> 31" and "k = unat sz div 2"
  shows "\<exists>m'. class_alloc_cinfo sz m off = Some (m', if n < k then uint off + int n * 8 else -1)
    \<and> (if n < k then low_mask (Suc n) m' else m' = m)"
proof -
  have "find_block [0..<min (unat sz div 2) 64] m = Some (if n < k then Some n else None)"
    using find_block_low [of n m k] assms by (auto simp: low_mask_def)
  moreover have "low_mask (Suc n) (m OR push_bit n 1)" if "n < k"
    using that assms(1,3) bit_single [where 'a = 64, of _ n]
    by (auto simp: low_mask_def bit_or_iff less_Suc_eq simp del: push_bit_of_1)
  ultimately show ?thesis by (auto simp: class_alloc_cinfo_def)
qed

lemma alloc_blocks_low:
  assumes "low_mask n m" and "n + j \<le> k" and "k \<le> 31" and "k = unat sz div 2"
  shows "\<exists>m'. alloc_blocks j sz m off = Some (m', map (\<lambda>i. uint off + int i * 8) [n..<n + j])
    \<and> low_mask (n + j) m'"
  using assms(1,2)
proof (induction j arbitrary: n m)
  case (Suc j)
  then obtain m1 where 1: "class_alloc_cinfo sz m off = Some (m1, uint off + int n * 8)" "low_mask (Suc n) m1"
    using alloc_step [OF Suc.prems(1) _ assms(3,4), of off] by (auto split: if_splits)
  from Suc.IH [OF 1(2)] Suc.prems(2) obtain m2 where
    2: "alloc_blocks j sz m1 off = Some (m2, map (\<lambda>i. uint off + int i * 8) [Suc n..<Suc n + j])"
      "low_mask (Suc n + j) m2"
    by auto
  have "[n..<n + Suc j] = n # [Suc n..<Suc n + j]" by (simp add: upt_conv_Cons del: upt_Suc)
  with 1(1) 2 show ?case by (simp del: upt_Suc)
qed simp

text \<open>C31. The blocks that \<open>class_alloc_cinfo\<close> hands out of a field of up to 31 pointers are pairwise
  distinct and lie inside the field: the \<open>j\<close>-th call returns the field's offset plus \<open>8 * j\<close>, and once
  the field is full the next call returns -1 and leaves the mask alone.\<close>

theorem class_alloc_cinfo_blocks:
  assumes "unat sz div 2 \<le> 31"
  shows "\<exists>m. alloc_blocks (unat sz div 2) sz 0 off = Some (m, map (\<lambda>j. uint off + int j * 8) [0..<unat sz div 2])
    \<and> class_alloc_cinfo sz m off = Some (m, -1)
    \<and> (\<forall>j < unat sz div 2. uint off + int j * 8 + 8 \<le> uint off + 4 * uint sz)"
proof -
  let ?k = "unat sz div 2"
  have "low_mask 0 0" by (simp add: low_mask_def)
  from alloc_blocks_low [OF this _ assms refl, of ?k off] obtain m where
    m: "alloc_blocks ?k sz 0 off = Some (m, map (\<lambda>i. uint off + int i * 8) [0..<?k])" "low_mask ?k m"
    by auto
  with alloc_step [OF m(2) _ assms refl, of off] have "class_alloc_cinfo sz m off = Some (m, -1)"
    by auto
  moreover have "int j * 8 + 8 \<le> 4 * uint sz" if "j < ?k" for j
  proof -
    have "j < x div 2 \<Longrightarrow> 2 * (j + 1) \<le> x" for x :: nat by presburger
    from this [OF that] have "2 * (j + 1) \<le> unat sz" .
    then have "int (2 * (j + 1)) \<le> int (unat sz)" by (simp only: of_nat_le_iff)
    then have "2 * (int j + 1) \<le> uint sz" by simp
    then show ?thesis by simp
  qed
  ultimately show ?thesis using m by auto
qed

theorem class_alloc_cinfo_blocks_witness:
  "\<exists>m. alloc_blocks 3 6 0 16 = Some (m, [16, 24, 32]) \<and> class_alloc_cinfo 6 m 16 = Some (m, -1)"
  using class_alloc_cinfo_blocks [of 6 16] by (simp add: numeral_3_eq_3)

end
