(* ===== verification/Event_Types.thy ===== *)
theory Event_Types
  imports Classes
begin

text \<open>
  Event names, event types and the lists of event handlers (\<open>event.c\<close>, \<open>event.h\<close>). As with classes,
  the list \<open>events\<close> of names is kept in the order of creation and searched from its newest entry; a
  pointer to a name is its position, and event types are cells of a heap. A handler list is the list
  of its entries in the order of the \<open>next\<close> pointers; handlers are numbers.
\<close>

record event_hadler_hash_s =
  hh_handler :: nat
  hh_evname :: nat
  hh_subject_vs :: vs
  hh_object_vs :: vs

record event_names_s =
  en_name :: string
  en_events :: "nat \<Rightarrow> nat option"
  en_handlers :: "nat \<Rightarrow> event_hadler_hash_s list"

record event_type_s =
  et_evname :: nat
  et_op0 :: "nat option"
  et_op1 :: "nat option"
  et_monitored :: "nat option"
  et_mask :: event_mask2
  et_acctype :: medusa_acctype
  et_class :: class_s

record event_state =
  es_names :: "event_names_s list"
  es_heap :: "nat \<Rightarrow> event_type_s option"
  es_next :: nat

definition EHH_VS_ALLOW :: nat where "EHH_VS_ALLOW = 0"
definition EHH_VS_DENY :: nat where "EHH_VS_DENY = 1"
definition EHH_NOTIFY_ALLOW :: nat where "EHH_NOTIFY_ALLOW = 2"
definition EHH_NOTIFY_DENY :: nat where "EHH_NOTIFY_DENY = 3"
definition EHH_LISTS :: nat where "EHH_LISTS = 4"

lemmas ehh_consts = EHH_VS_ALLOW_def EHH_VS_DENY_def EHH_NOTIFY_ALLOW_def EHH_NOTIFY_DENY_def EHH_LISTS_def

subsection \<open>Names\<close>

definition event_type_find_name :: "string \<Rightarrow> bool \<Rightarrow> bool \<Rightarrow> event_state \<Rightarrow> event_state \<times> nat option" where
  "event_type_find_name name alloc_new ok st =
     (case List.find (\<lambda>i. strcmp (en_name (es_names st ! i)) name = 0) (newest (length (es_names st))) of
        Some i \<Rightarrow> (st, Some i)
      | None \<Rightarrow>
          if alloc_new \<and> ok
          then (st\<lparr>es_names := es_names st @ [\<lparr>en_name = name, en_events = \<lambda>_. None, en_handlers = \<lambda>_. []\<rparr>]\<rparr>,
                Some (length (es_names st)))
          else (st, None))"

definition event_free_all_events :: "nat \<Rightarrow> event_state \<Rightarrow> event_state" where
  "event_free_all_events conn st =
     fold (\<lambda>i st. case en_events (es_names st ! i) conn of
                    None \<Rightarrow> st
                  | Some a \<Rightarrow>
                      st\<lparr>es_heap := (es_heap st)(a := None),
                         es_names := (es_names st)[i := (es_names st ! i)
                             \<lparr>en_events := (en_events (es_names st ! i))(conn := None)\<rparr>]\<rparr>)
       (newest (length (es_names st))) st"

subsection \<open>Event types\<close>

text \<open>\<open>strncpy\<close> into a field: the first \<open>n\<close> characters.\<close>

definition operation_class :: "nat \<Rightarrow> medusa_acctype \<Rightarrow> attr list \<Rightarrow> class_s" where
  "operation_class comm m as =
     (let z = \<lparr>event_offset = 0, event_size = 0, cinfo_offset = 0, cinfo_size = 0, cinfo_mask = 0\<rparr> in
      \<lparr>c_obj = z, c_subject = z, c_name_offset = 0, c_name_size = 0, c_classname = 0, c_comm = comm,
       c_vs_attr = replicate NR_ACCESS_TYPES None,
       c_m = \<lparr>m_classid = 0, m_size = ac_size m,
              m_name = take (min MEDUSA_CLASSNAME_MAX MEDUSA_OPNAME_MAX) (ac_name m)\<rparr>,
       c_attr = as\<rparr>)"

text \<open>The two masks: the bit of the event goes into the object's mask when bit 0x4000 of \<open>actbit\<close>
  is set, else into the subject's; a number above 63 is rejected by \<open>event_mask_setbit\<close>, whose result
  is not looked at.\<close>

definition event_masks :: "16 word \<Rightarrow> event_mask2" where
  "event_masks actbit =
     (let b = uint (actbit AND 0x00ff); m = event_mask_clear2;
          set = (\<lambda>e. case event_mask_setbit e b of Some e' \<Rightarrow> e' | None \<Rightarrow> e)
      in if actbit AND 0x4000 \<noteq> 0 then (fst m, set (snd m)) else (set (fst m), snd m))"

definition build_event_type :: "nat \<Rightarrow> medusa_acctype \<Rightarrow> attr list \<Rightarrow> nat hash_s \<Rightarrow> nat \<Rightarrow> event_type_s" where
  "build_event_type comm m as classes evname =
     (let op0 = hash_find classes (fst (ac_op_class m));
          op1 = (if fst (ac_op_class m) = snd (ac_op_class m)
                    \<and> strncmp (fst (ac_op_name m)) (snd (ac_op_name m)) MEDUSA_ATTRNAME_MAX = 0
                 then None else hash_find classes (snd (ac_op_class m)))
      in \<lparr>et_evname = evname, et_op0 = op0, et_op1 = op1,
          et_monitored = (if ac_actbit m AND 0x8000 \<noteq> 0 then op1 else op0),
          et_mask = event_masks (ac_actbit m), et_acctype = m, et_class = operation_class comm m as\<rparr>)"

definition event_type_add ::
  "nat \<Rightarrow> medusa_acctype \<Rightarrow> attr list \<Rightarrow> bool \<Rightarrow> bool \<Rightarrow> nat hash_s \<Rightarrow> event_state \<Rightarrow> nat hash_s
     \<Rightarrow> event_state \<times> nat hash_s \<times> nat option" where
  "event_type_add conn m as oke okn classes st events =
     (if \<not> oke then (st, events, None)
      else (case event_type_find_name (ac_name m) True okn st of
              (st1, None) \<Rightarrow> (st1, events, None)
            | (st1, Some n) \<Rightarrow>
                let a = es_next st1 in
                (st1\<lparr>es_heap := (es_heap st1)(a := Some (build_event_type conn m as classes n)),
                     es_next := a + 1,
                     es_names := (es_names st1)[n := (es_names st1 ! n)
                         \<lparr>en_events := (en_events (es_names st1 ! n))(conn := Some a)\<rparr>]\<rparr>,
                 hash_add events a (ac_opid m), Some a)))"

subsection \<open>Handler lists\<close>

text \<open>A pointer to a set of virtual spaces may also be \<open>NULL\<close> or the special value \<open>ALL_OBJ\<close>.\<close>

datatype vs_ref = NoVs | AllObj | Vs vs

definition evhash_add :: "bool \<Rightarrow> event_hadler_hash_s list \<Rightarrow> nat \<Rightarrow> nat \<Rightarrow> event_hadler_hash_s list option" where
  "evhash_add ok hash handler evname =
     (if ok then Some (hash @ [\<lparr>hh_handler = handler, hh_evname = evname,
                               hh_subject_vs = vs_clear, hh_object_vs = vs_clear\<rparr>])
      else None)"

definition add_vs_ref :: "vs_ref \<Rightarrow> vs \<Rightarrow> vs" where
  "add_vs_ref r v = (case r of AllObj \<Rightarrow> vs_fill | Vs w \<Rightarrow> vs_add w v | NoVs \<Rightarrow> v)"

text \<open>\<open>evhash_add\<close> returns the entry it appended, the last one, which \<open>register_event_handler\<close> fills.
  The result is the list and the return value.\<close>

definition register_event_handler ::
  "bool \<Rightarrow> nat \<Rightarrow> nat \<Rightarrow> event_hadler_hash_s list \<Rightarrow> vs_ref \<Rightarrow> vs_ref \<Rightarrow> event_hadler_hash_s list \<times> int" where
  "register_event_handler ok h evname hash subject_vs object_vs =
     (case evhash_add ok hash h evname of
        None \<Rightarrow> (hash, -1)
      | Some l \<Rightarrow>
          (butlast l @ [(last l)\<lparr>hh_subject_vs := add_vs_ref subject_vs (hh_subject_vs (last l)),
                                 hh_object_vs := add_vs_ref object_vs (hh_object_vs (last l))\<rparr>], 0))"

subsection \<open>Event names are unique\<close>

definition evnames_ok :: "event_state \<Rightarrow> bool" where
  "evnames_ok st \<longleftrightarrow> distinct (map en_name (es_names st))"

lemma event_type_find_name_cases:
  assumes "evnames_ok st"
  shows "(\<exists>i < length (es_names st). en_name (es_names st ! i) = name
            \<and> event_type_find_name name alloc_new ok st = (st, Some i))
       \<or> (name \<notin> en_name ` set (es_names st)
            \<and> event_type_find_name name alloc_new ok st =
                (if alloc_new \<and> ok
                 then (st\<lparr>es_names := es_names st @ [\<lparr>en_name = name, en_events = \<lambda>_. None, en_handlers = \<lambda>_. []\<rparr>]\<rparr>,
                       Some (length (es_names st)))
                 else (st, None)))"
proof (cases "List.find (\<lambda>i. strcmp (en_name (es_names st ! i)) name = 0) (newest (length (es_names st)))")
  case None
  then have "event_type_find_name name alloc_new ok st =
      (if alloc_new \<and> ok
       then (st\<lparr>es_names := es_names st @ [\<lparr>en_name = name, en_events = \<lambda>_. None, en_handlers = \<lambda>_. []\<rparr>]\<rparr>,
             Some (length (es_names st)))
       else (st, None))"
    by (simp only: event_type_find_name_def option.simps)
  moreover have "name \<notin> en_name ` set (es_names st)"
    using None by (auto simp: find_None_iff in_set_conv_nth)
  ultimately show ?thesis by blast
next
  case (Some i)
  then have "event_type_find_name name alloc_new ok st = (st, Some i)"
    by (simp only: event_type_find_name_def option.simps)
  moreover have "i < length (es_names st) \<and> en_name (es_names st ! i) = name"
    using find_Some_conv [OF Some] by auto
  ultimately show ?thesis by blast
qed

lemma event_type_find_name_Some:
  assumes "evnames_ok st" and "event_type_find_name name alloc_new ok st = (st', Some i)"
  shows "evnames_ok st'" and "i < length (es_names st')" and "en_name (es_names st' ! i) = name"
    and "es_heap st' = es_heap st" and "es_next st' = es_next st"
  using event_type_find_name_cases [OF assms(1), of name alloc_new ok] assms
  by (auto simp: evnames_ok_def split: if_splits)

subsection \<open>Properties\<close>

text \<open>A protocol event type is registered with exactly one bit in one of its masks when its
  number, the low byte of \<open>actbit\<close>, is below 64: in the mask of the object's events if bit 0x4000
  is set and of the subject's otherwise. The comment at the code allows numbers up to 255; from 64 on
  both masks stay empty, so that such an event is never switched on.\<close>

theorem event_masks_single_bit:
  "mask_bits (if actbit AND 0x4000 \<noteq> 0 then snd (event_masks actbit) else fst (event_masks actbit))
     = (if unat (actbit AND 0xff) < 64 then {unat (actbit AND 0xff)} else {})
   \<and> mask_bits (if actbit AND 0x4000 \<noteq> 0 then fst (event_masks actbit) else snd (event_masks actbit)) = {}"
proof -
  have "mask_ok event_mask_clear" by simp
  then have "mask_bits (case event_mask_setbit event_mask_clear (uint x) of Some e' \<Rightarrow> e' | None \<Rightarrow> event_mask_clear)
      = (if unat x < 64 then {unat x} else {})" for x :: "16 word"
  proof -
    have "64 \<le> uint x \<longleftrightarrow> \<not> unat x < 64"
      using of_nat_less_iff [where 'a = int, of "unat x" 64] by (simp add: linorder_not_less [symmetric] del: linorder_not_less)
    with \<open>mask_ok event_mask_clear\<close> show ?thesis
      by (auto simp: event_mask_setbit_def MASK_BYTES_def bits_setbit)
  qed
  then show ?thesis
    by (simp add: event_masks_def event_mask_clear2_def Let_def cong: option.case_cong)
qed

text \<open>C35. \<open>event_type_add\<close> registers the event that the protocol describes under its operation
  identifier and, for the connection, under its name; the classes of subject and object are those
  registered for the identifiers it carries (no object when both operands are the same one), and
  the monitored operand is the object exactly when bit 0x8000 of \<open>actbit\<close> is set.\<close>

theorem event_type_add_registers:
  assumes "evnames_ok st" and "hash_ok events"
    and "event_type_add conn m as True True classes st events = (st', events', r)"
  shows "\<exists>a n t. r = Some a \<and> es_heap st' a = Some t \<and> et_evname t = n
    \<and> (\<forall>k. hash_find events' k = (if k = ac_opid m then Some a else hash_find events k))
    \<and> en_name (es_names st' ! n) = ac_name m \<and> en_events (es_names st' ! n) conn = Some a
    \<and> et_op0 t = hash_find classes (fst (ac_op_class m))
    \<and> (et_op1 t = hash_find classes (snd (ac_op_class m)) \<or> et_op1 t = None)
    \<and> et_monitored t = (if ac_actbit m AND 0x8000 \<noteq> 0 then et_op1 t else et_op0 t)
    \<and> et_mask t = event_masks (ac_actbit m) \<and> evnames_ok st'"
proof -
  obtain st1 n where g: "event_type_find_name (ac_name m) True True st = (st1, Some n)"
    using event_type_find_name_cases [OF assms(1), of "ac_name m" True True] by auto
  note f = event_type_find_name_Some [OF assms(1) g]
  let ?a = "es_next st1" and ?t = "build_event_type conn m as classes n"
  have st': "st' = st1\<lparr>es_heap := (es_heap st1)(?a := Some ?t), es_next := ?a + 1,
      es_names := (es_names st1)[n := (es_names st1 ! n)
        \<lparr>en_events := (en_events (es_names st1 ! n))(conn := Some ?a)\<rparr>]\<rparr>"
    and ev: "events' = hash_add events ?a (ac_opid m)" and r: "r = Some ?a"
    using assms(3) by (auto simp: event_type_add_def g Let_def)
  have "map en_name (es_names st') = map en_name (es_names st1)"
    using f(2) by (simp add: st' map_update list_update_same_conv)
  then have "evnames_ok st'" using f(1) by (simp add: evnames_ok_def)
  moreover have "hash_find events' k = (if k = ac_opid m then Some ?a else hash_find events k)" for k
    by (simp add: ev hash_find_add assms(2))
  ultimately show ?thesis
    using f(2,3)
    by (intro exI [of _ ?a] exI [of _ n] exI [of _ ?t]) (auto simp: r st' build_event_type_def Let_def)
qed

theorem event_type_add_registers_witness:
  "\<exists>st' events' a. event_type_add 0
       \<lparr>ac_opid = 9, ac_size = 0, ac_actbit = 0x4001, ac_op_class = (1, 2), ac_name = ''getfile'',
        ac_op_name = (''process'', ''file'')\<rparr> [] True True hash_empty
       \<lparr>es_names = [], es_heap = \<lambda>_. None, es_next = 0\<rparr> hash_empty = (st', events', Some a)
     \<and> hash_find events' 9 = Some a"
proof -
  let ?m = "\<lparr>ac_opid = 9, ac_size = 0, ac_actbit = 0x4001, ac_op_class = (1, 2), ac_name = ''getfile'',
        ac_op_name = (''process'', ''file'')\<rparr>"
  let ?st = "\<lparr>es_names = [], es_heap = \<lambda>_. None, es_next = 0\<rparr>"
  obtain st' events' r where a: "event_type_add 0 ?m [] True True hash_empty ?st hash_empty = (st', events', r)"
    by (metis prod_cases3)
  have "evnames_ok ?st" "hash_ok (hash_empty :: nat hash_s)"
    by (simp_all add: evnames_ok_def hash_ok_def hash_empty_def)
  from event_type_add_registers [OF this a] a show ?thesis by fastforce
qed

end
