(* ===== verification/Name_Tree.thy ===== *)
theory Name_Tree
  imports Event_Types
begin

text \<open>
  The Unified Name Space Tree (\<open>tree.c\<close>, \<open>tree.h\<close>). Nodes are cells of a store, numbered in the order
  of their allocation; \<open>global_root\<close> is node 0. The lists of children (\<open>child\<close>, for plain names, and
  \<open>regex_child\<close>, for names that are regular expressions) grow at their heads and are lists of node
  numbers. \<open>ts_mem\<close> is the number of nodes, each with its array of event masks, that can still be
  allocated; when it is 0 the allocation fails. The \<open>init\<close> function of a tree type is a null pointer
  wherever the program creates a type, so it is not part of the model.

  The matching of regular expressions is the C library's: \<open>regex_lib\<close> has what \<open>regcomp\<close> accepts and
  what \<open>regexec\<close> answers for an accepted pattern. \<open>regexec\<close> on a null pointer is undefined; whatever
  it does is \<open>re_null\<close>.
\<close>

record regex_lib =
  re_comp :: "string \<Rightarrow> bool"
  re_exec :: "string \<Rightarrow> string \<Rightarrow> bool"
  re_null :: "string \<Rightarrow> bool"

text \<open>The three values of \<open>compiled_regex\<close>: \<open>NULL\<close>, the special value 1 for \<open>.*\<close>, and a pointer to
  the compiled form of a pattern.\<close>

datatype cregex = NullRegex | AnyRegex | Compiled string

record tree_type_s =
  tt_name :: string
  tt_handler :: nat
  tt_child_type :: "nat option"

record tree_s =
  t_parent :: "nat option"
  t_child :: "nat list"
  t_regex :: "nat list"
  t_type :: nat
  t_comp :: cregex
  t_primary :: "nat option"
  t_events :: "nat \<Rightarrow> event_mask2"
  t_vs :: "nat \<Rightarrow> vs"
  t_subject_handlers :: "nat \<Rightarrow> event_hadler_hash_s list"
  t_object_handlers :: "nat \<Rightarrow> event_hadler_hash_s list"
  t_visited :: bool
  t_name :: string

record tree_state =
  ts_node :: "nat \<Rightarrow> tree_s"
  ts_next :: nat
  ts_mem :: nat
  ts_type :: "nat \<Rightarrow> tree_type_s"
  ts_default :: "string option"

definition upd_node :: "nat \<Rightarrow> (tree_s \<Rightarrow> tree_s) \<Rightarrow> tree_state \<Rightarrow> tree_state" where
  "upd_node n f st = st\<lparr>ts_node := (ts_node st)(n := f (ts_node st n))\<rparr>"

definition fresh_node :: "nat option \<Rightarrow> nat \<Rightarrow> string \<Rightarrow> tree_s" where
  "fresh_node parent ty name =
     \<lparr>t_parent = parent, t_child = [], t_regex = [], t_type = ty, t_comp = NullRegex, t_primary = None,
      t_events = \<lambda>_. event_mask_clear2, t_vs = \<lambda>_. vs_clear, t_subject_handlers = \<lambda>_. [],
      t_object_handlers = \<lambda>_. [], t_visited = False, t_name = name\<rparr>"

definition global_root :: nat where "global_root = 0"

text \<open>\<open>tree_init\<close>, when its allocations succeed; type 0 is \<open>global_root_type\<close>.\<close>

definition tree_init :: "nat \<Rightarrow> tree_state" where
  "tree_init mem =
     \<lparr>ts_node = (\<lambda>_. fresh_node None 0 ''/''), ts_next = 1, ts_mem = mem,
      ts_type = (\<lambda>_. \<lparr>tt_name = ''/'', tt_handler = 0, tt_child_type = None\<rparr>), ts_default = None\<rparr>"

definition tree_set_default_path :: "bool \<Rightarrow> string \<Rightarrow> tree_state \<Rightarrow> tree_state \<times> int" where
  "tree_set_default_path ok new st =
     (if ok then (st\<lparr>ts_default := Some new\<rparr>, 0) else (st\<lparr>ts_default := None\<rparr>, -1))"

subsection \<open>Regular expressions\<close>

definition backslash :: char where "backslash = CHR 0x5C"

definition reg_char :: "char \<Rightarrow> bool" where
  "reg_char c \<longleftrightarrow> c \<in> set ''()[]^$.*+?{}|''"

definition is_letter :: "char \<Rightarrow> bool" where
  "is_letter c \<longleftrightarrow> (let n = of_char c :: nat in 65 \<le> n \<and> n \<le> 90 \<or> 97 \<le> n \<and> n \<le> 122)"

text \<open>The scan of \<open>isreg\<close>: whether it returns 1, and else the flag \<open>unbs\<close>.\<close>

fun isreg_scan :: "string \<Rightarrow> bool \<Rightarrow> bool option" where
  "isreg_scan [] unbs = Some unbs"
| "isreg_scan (c # cs) unbs =
     (if reg_char c then None
      else if c = backslash then
        (case cs of [] \<Rightarrow> None | d # ds \<Rightarrow> if is_letter d then None else isreg_scan ds True)
      else isreg_scan cs unbs)"

fun unescape :: "string \<Rightarrow> string" where
  "unescape [] = []"
| "unescape (c # cs) =
     (if c = backslash then (case cs of [] \<Rightarrow> [] | d # ds \<Rightarrow> d # unescape ds) else c # unescape cs)"

text \<open>The result of \<open>isreg\<close> and the name it leaves in its argument.\<close>

definition isreg :: "string \<Rightarrow> bool \<times> string" where
  "isreg name =
     (case isreg_scan name False of
        None \<Rightarrow> (True, name)
      | Some unbs \<Rightarrow> (False, if unbs then unescape name else name))"

text \<open>A failed allocation of the \<open>regex_t\<close> has the same result as a pattern that \<open>regcomp\<close> rejects.\<close>

definition regcompile :: "regex_lib \<Rightarrow> string \<Rightarrow> cregex" where
  "regcompile rx reg =
     (if reg = ''.*'' then AnyRegex
      else let tmp = ''^'' @ reg @ ''$'' in if re_comp rx tmp then Compiled tmp else NullRegex)"

definition regcmp :: "regex_lib \<Rightarrow> cregex \<Rightarrow> string \<Rightarrow> bool" where
  "regcmp rx r name =
     (case r of AnyRegex \<Rightarrow> True | Compiled p \<Rightarrow> re_exec rx p name | NullRegex \<Rightarrow> re_null rx name)"

subsection \<open>Creating nodes\<close>

definition alloc_node :: "nat \<Rightarrow> string \<Rightarrow> tree_state \<Rightarrow> tree_state" where
  "alloc_node base name st =
     (let bt = t_type (ts_node st base);
          ty = (case tt_child_type (ts_type st bt) of Some c \<Rightarrow> c | None \<Rightarrow> bt)
      in st\<lparr>ts_node := (ts_node st)(ts_next st := fresh_node (Some base) ty name),
            ts_next := Suc (ts_next st), ts_mem := ts_mem st - 1\<rparr>)"

definition link_node :: "regex_lib \<Rightarrow> nat \<Rightarrow> bool \<Rightarrow> nat \<Rightarrow> tree_state \<Rightarrow> tree_state" where
  "link_node rx base regexp p st =
     (if regexp
      then upd_node base (\<lambda>b. b\<lparr>t_regex := p # t_regex b\<rparr>)
             (upd_node p (\<lambda>n. n\<lparr>t_comp := regcompile rx (t_name n)\<rparr>) st)
      else upd_node base (\<lambda>b. b\<lparr>t_child := p # t_child b\<rparr>)
             (upd_node p (\<lambda>n. n\<lparr>t_comp := NullRegex\<rparr>) st))"

text \<open>One activation of \<open>create_one_i\<close>. Both of its recursive calls create the node \<open>.*\<close> (below \<open>base\<close>
  when \<open>base\<close> is a \<open>.*\<close> node without children, and below the new node); \<open>rec\<close> stands for them.\<close>

definition create_step ::
  "(nat \<Rightarrow> tree_state \<Rightarrow> tree_state \<times> nat option) \<Rightarrow> regex_lib \<Rightarrow> nat \<Rightarrow> string \<Rightarrow> bool \<Rightarrow> tree_state
     \<Rightarrow> tree_state \<times> nat option" where
  "create_step rec rx base name regexp st =
     (if name = [] then (st, Some base)
      else let b = ts_node st base in
        case List.find (\<lambda>p. strcmp (t_name (ts_node st p)) name = 0) (if regexp then t_regex b else t_child b) of
          Some p \<Rightarrow> (st, Some p)
        | None \<Rightarrow>
            if ts_mem st = 0 then (st, None)
            else let p = ts_next st; st1 = alloc_node base name st in
              case (if t_comp b = AnyRegex \<and> t_child b = [] \<and> t_regex b = [] \<and> \<not> (regexp \<and> name = ''.*'')
                    then rec base st1 else (st1, Some base)) of
                (st2, None) \<Rightarrow> (st2\<lparr>ts_mem := Suc (ts_mem st2)\<rparr>, None)
              | (st2, Some _) \<Rightarrow>
                  let st3 = link_node rx base regexp p st2 in
                  if \<not> regexp \<or> t_comp (ts_node st3 p) \<noteq> AnyRegex
                  then (case rec p st3 of (st4, None) \<Rightarrow> (st4, None) | (st4, Some _) \<Rightarrow> (st4, Some p))
                  else (st3, Some p))"

text \<open>For the name \<open>.*\<close> no recursive call is made, so the recursion is one level deep
  (\<open>create_one_i_rec\<close> below is the recursive equation of the source).\<close>

definition create_any :: "regex_lib \<Rightarrow> nat \<Rightarrow> tree_state \<Rightarrow> tree_state \<times> nat option" where
  "create_any rx base st = create_step (\<lambda>b s. (s, None)) rx base ''.*'' True st"

definition create_one_i :: "regex_lib \<Rightarrow> nat \<Rightarrow> string \<Rightarrow> bool \<Rightarrow> tree_state \<Rightarrow> tree_state \<times> nat option" where
  "create_one_i rx base name regexp st = create_step (create_any rx) rx base name regexp st"

definition slash :: char where "slash = CHR ''/''"

definition skip_slashes :: "string \<Rightarrow> string" where
  "skip_slashes path = dropWhile (\<lambda>c. c = slash) path"

definition first_comp :: "string \<Rightarrow> string" where
  "first_comp path = takeWhile (\<lambda>c. c \<noteq> slash) (skip_slashes path)"

definition rest_path :: "string \<Rightarrow> string" where
  "rest_path path = dropWhile (\<lambda>c. c \<noteq> slash) (skip_slashes path)"

text \<open>\<open>create_one\<close> also advances its path argument to \<open>rest_path path\<close>.\<close>

definition create_one :: "regex_lib \<Rightarrow> nat \<Rightarrow> string \<Rightarrow> tree_state \<Rightarrow> tree_state \<times> nat option" where
  "create_one rx base path st =
     (case isreg (first_comp path) of (r, tmp) \<Rightarrow> create_one_i rx base tmp r st)"

lemma rest_path_shorter: "path \<noteq> [] \<Longrightarrow> length (rest_path path) < length path"
proof -
  assume "path \<noteq> []"
  have "length (rest_path path) \<le> length (skip_slashes path)" "length (skip_slashes path) \<le> length path"
    by (simp_all add: rest_path_def skip_slashes_def length_dropWhile_le)
  moreover have "length (rest_path path) < length (skip_slashes path)" if "hd path \<noteq> slash"
    using that \<open>path \<noteq> []\<close> by (cases path) (auto simp: rest_path_def skip_slashes_def le_imp_less_Suc length_dropWhile_le)
  moreover have "length (skip_slashes path) < length path" if "hd path = slash"
    using that \<open>path \<noteq> []\<close> by (cases path) (auto simp: skip_slashes_def le_imp_less_Suc length_dropWhile_le)
  ultimately show ?thesis by fastforce
qed

function create_loop :: "regex_lib \<Rightarrow> nat option \<Rightarrow> string \<Rightarrow> tree_state \<Rightarrow> tree_state \<times> nat option" where
  "create_loop rx None path st = (st, None)"
| "create_loop rx (Some p) path st =
     (if path = [] then (st, Some p)
      else (case create_one rx p path st of (st', q) \<Rightarrow> create_loop rx q (rest_path path) st'))"
  by pat_completeness auto
termination
  by (relation "measure (\<lambda>(rx, p, path, st). length path)") (auto intro: rest_path_shorter)

definition create_path :: "regex_lib \<Rightarrow> string \<Rightarrow> tree_state \<Rightarrow> tree_state \<times> nat option" where
  "create_path rx path st =
     (if path \<noteq> [] \<and> hd path = slash
      then (case ts_default st of
              None \<Rightarrow> (st, None)
            | Some d \<Rightarrow>
                (case create_loop rx (Some global_root) d st of (st', p) \<Rightarrow> create_loop rx p path st'))
      else create_loop rx (Some global_root) path st)"

text \<open>\<open>register_tree_type\<close> of type \<open>ty\<close>: only the first component of the type's name is created.\<close>

definition register_tree_type :: "regex_lib \<Rightarrow> nat \<Rightarrow> tree_state \<Rightarrow> tree_state \<times> nat option" where
  "register_tree_type rx ty st =
     (let g = t_type (ts_node st global_root);
          set = (\<lambda>c st. st\<lparr>ts_type := (ts_type st)(g := (ts_type st g)\<lparr>tt_child_type := c\<rparr>)\<rparr>);
          (st', t) = create_one rx global_root (tt_name (ts_type st ty)) (set (Some ty) st)
      in (set None st', t))"

subsection \<open>Finding nodes\<close>

definition leaf :: "tree_s \<Rightarrow> bool" where "leaf b \<longleftrightarrow> t_child b = [] \<and> t_regex b = []"

definition find_one :: "regex_lib \<Rightarrow> tree_state \<Rightarrow> nat \<Rightarrow> string \<Rightarrow> nat option" where
  "find_one rx st base path =
     (let b = ts_node st base; name = skip_slashes path in
      if name = [] then Some base
      else (case List.find (\<lambda>p. strcmp (t_name (ts_node st p)) name = 0) (t_child b) of
              Some p \<Rightarrow> Some p
            | None \<Rightarrow>
                (case List.find (\<lambda>p. regcmp rx (t_comp (ts_node st p)) name) (t_regex b) of
                   Some p \<Rightarrow> Some p
                 | None \<Rightarrow> if leaf b then Some base else None)))"

text \<open>\<open>pathcmp\<close>: the rest of the path where it returns 0, \<open>None\<close> where it does not.\<close>

fun pathcmp :: "string \<Rightarrow> string \<Rightarrow> string option" where
  "pathcmp [] b = (if b = [] \<or> hd b = slash then Some b else None)"
| "pathcmp (c # cs) [] = None"
| "pathcmp (c # cs) (d # ds) = (if c = d then pathcmp cs ds else None)"

text \<open>The node and the rest of the path; where the code returns the base itself it has advanced the
  path over its slashes only.\<close>

definition find_one2 :: "regex_lib \<Rightarrow> tree_state \<Rightarrow> nat \<Rightarrow> string \<Rightarrow> nat option \<times> string" where
  "find_one2 rx st base path =
     (let b = ts_node st base; name = skip_slashes path in
      if name = [] then (Some base, name)
      else (case List.find (\<lambda>p. pathcmp (t_name (ts_node st p)) name \<noteq> None) (t_child b) of
              Some p \<Rightarrow> (Some p, the (pathcmp (t_name (ts_node st p)) name))
            | None \<Rightarrow>
                (case List.find (\<lambda>p. regcmp rx (t_comp (ts_node st p)) (takeWhile (\<lambda>c. c \<noteq> slash) name)) (t_regex b) of
                   Some p \<Rightarrow> (Some p, dropWhile (\<lambda>c. c \<noteq> slash) name)
                 | None \<Rightarrow> (if leaf b then Some base else None, name))))"

text \<open>The loop of \<open>find_path\<close>, with a bound on the number of its iterations; \<open>None\<close> when they are
  used up.\<close>

fun find_loop :: "nat \<Rightarrow> regex_lib \<Rightarrow> tree_state \<Rightarrow> nat option \<Rightarrow> string \<Rightarrow> nat option option" where
  "find_loop 0 rx st p path = None"
| "find_loop (Suc n) rx st p path =
     (case p of
        None \<Rightarrow> Some None
      | Some b \<Rightarrow>
          if path = [] then Some (Some b)
          else (case find_one2 rx st b path of (q, path') \<Rightarrow> find_loop n rx st q path'))"

definition find_path :: "nat \<Rightarrow> regex_lib \<Rightarrow> tree_state \<Rightarrow> string \<Rightarrow> nat option option" where
  "find_path n rx st path =
     (if path \<noteq> [] \<and> hd path = slash
      then (case ts_default st of
              None \<Rightarrow> Some None
            | Some d \<Rightarrow> Option.bind (find_loop n rx st (Some global_root) d) (\<lambda>p. find_loop n rx st p path))
      else find_loop n rx st (Some global_root) path)"

subsection \<open>Alternatives of a node\<close>

text \<open>The loops that count or follow \<open>parent\<close> pointers run at most as often as there are nodes, because
  a parent has a smaller number (\<open>tree_ok\<close> below); the first argument is that bound.\<close>

fun tree_depth :: "nat \<Rightarrow> tree_state \<Rightarrow> nat \<Rightarrow> nat" where
  "tree_depth 0 st p = 0"
| "tree_depth (Suc n) st p = (case t_parent (ts_node st p) of None \<Rightarrow> 0 | Some q \<Rightarrow> Suc (tree_depth n st q))"

fun tree_get_rnth :: "tree_state \<Rightarrow> nat \<Rightarrow> nat \<Rightarrow> nat" where
  "tree_get_rnth st t 0 = t"
| "tree_get_rnth st t (Suc n) = tree_get_rnth st (the (t_parent (ts_node st t))) n"

text \<open>\<open>tree_for_alt_i\<close> calls its function on these nodes in this order. The functions it is called
  with do not change the children of any node.\<close>

fun tree_for_alt_i :: "regex_lib \<Rightarrow> tree_state \<Rightarrow> nat \<Rightarrow> nat \<Rightarrow> nat \<Rightarrow> nat list" where
  "tree_for_alt_i rx st t p 0 = [t]"
| "tree_for_alt_i rx st t p (Suc n) =
     (let r = tree_get_rnth st p n; rn = ts_node st r; tn = ts_node st t;
          same = (\<lambda>a. strcmp (t_name rn) (t_name (ts_node st a)) = 0);
          go = (\<lambda>as. concat (map (\<lambda>a. tree_for_alt_i rx st a p n) as))
      in if t_comp rn = NullRegex then go (filter same (t_child tn))
         else go (filter (\<lambda>a. regcmp rx (t_comp rn) (t_name (ts_node st a))) (t_child tn)) @
              (if t_comp rn = AnyRegex then go (t_regex tn) else go (filter same (t_regex tn))))"

definition tree_for_alternatives :: "regex_lib \<Rightarrow> tree_state \<Rightarrow> nat \<Rightarrow> nat list" where
  "tree_for_alternatives rx st p =
     (let n = tree_depth (ts_next st) st p in tree_for_alt_i rx st (tree_get_rnth st p n) p n)"

definition tree_is_equal :: "regex_lib \<Rightarrow> tree_state \<Rightarrow> nat \<Rightarrow> nat \<Rightarrow> bool" where
  "tree_is_equal rx st test p = list_ex (\<lambda>a. a = test) (tree_for_alternatives rx st p)"

text \<open>The loop of \<open>tree_is_offspring_i\<close>: the node itself, its parent, and so on.\<close>

fun tree_ancestors :: "nat \<Rightarrow> tree_state \<Rightarrow> nat \<Rightarrow> nat list" where
  "tree_ancestors 0 st p = []"
| "tree_ancestors (Suc n) st p =
     p # (case t_parent (ts_node st p) of None \<Rightarrow> [] | Some q \<Rightarrow> tree_ancestors n st q)"

definition tree_is_offspring :: "regex_lib \<Rightarrow> tree_state \<Rightarrow> nat \<Rightarrow> nat \<Rightarrow> bool" where
  "tree_is_offspring rx st offspring ancestor =
     list_ex (\<lambda>a. a \<in> set (tree_ancestors (ts_next st) st offspring)) (tree_for_alternatives rx st ancestor)"

subsection \<open>Expanding alternatives\<close>

text \<open>\<open>_add_event_handlers\<close> appends a copy of each entry; \<open>ok\<close>: the allocations succeed, otherwise the
  program ends.\<close>

definition copy_entry :: "event_hadler_hash_s \<Rightarrow> event_hadler_hash_s" where
  "copy_entry h = h\<lparr>hh_subject_vs := vs_add (hh_subject_vs h) vs_clear, hh_object_vs := vs_add (hh_object_vs h) vs_clear\<rparr>"

definition add_event_handlers ::
  "(nat \<Rightarrow> event_hadler_hash_s list) \<Rightarrow> (nat \<Rightarrow> event_hadler_hash_s list) \<Rightarrow> nat \<Rightarrow> event_hadler_hash_s list" where
  "add_event_handlers from to l = (if l < EHH_LISTS then to l @ map copy_entry (from l) else to l)"

text \<open>The recursion of \<open>tree_node_merge\<close> and \<open>tree_apply_alts\<close> follows the children of a node while it
  creates nodes elsewhere; the first argument bounds its depth, \<open>None\<close> when it is used up.\<close>

fun tree_node_merge :: "nat \<Rightarrow> regex_lib \<Rightarrow> nat \<Rightarrow> nat \<Rightarrow> tree_state \<Rightarrow> tree_state option" where
  "tree_node_merge 0 rx r t st = None"
| "tree_node_merge (Suc n) rx r t st =
     (let rn = ts_node st r;
          st1 = upd_node t (\<lambda>x. x\<lparr>t_subject_handlers := add_event_handlers (t_subject_handlers rn) (t_subject_handlers x),
                                 t_object_handlers := add_event_handlers (t_object_handlers rn) (t_object_handlers x)\<rparr>) st;
          visit = (\<lambda>regexp rc m. Option.bind m (\<lambda>st.
                     case create_one_i rx t (t_name (ts_node st rc)) regexp st of
                       (st', None) \<Rightarrow> Some st'
                     | (st', Some tc) \<Rightarrow> tree_node_merge n rx rc tc st'))
      in fold (visit True) (t_regex rn) (fold (visit False) (t_child rn) (Some st1)))"

definition apply_regex_child :: "nat \<Rightarrow> regex_lib \<Rightarrow> nat \<Rightarrow> nat \<Rightarrow> tree_state option \<Rightarrow> tree_state option" where
  "apply_regex_child n rx dir r m =
     Option.bind m (\<lambda>st.
       fold (\<lambda>t m. Option.bind m (\<lambda>st.
               if regcmp rx (t_comp (ts_node st r)) (t_name (ts_node st t)) then tree_node_merge n rx r t st else Some st))
         (t_child (ts_node st dir)) (Some st))"

fun tree_apply_alts :: "nat \<Rightarrow> regex_lib \<Rightarrow> nat \<Rightarrow> tree_state \<Rightarrow> tree_state option" where
  "tree_apply_alts 0 rx dir st = None"
| "tree_apply_alts (Suc n) rx dir st =
     (let rs = t_regex (ts_node st dir);
          all = List.find (\<lambda>r. t_comp (ts_node st r) = AnyRegex) (rev rs);
          m1 = fold (apply_regex_child n rx dir) rs (Some st);
          m2 = (case all of
                  None \<Rightarrow> m1
                | Some a \<Rightarrow> fold (\<lambda>t m. if t \<noteq> a then Option.bind m (tree_node_merge n rx a t) else m) rs m1)
      in Option.bind m2 (\<lambda>st2.
           fold (\<lambda>t m. Option.bind m (tree_apply_alts n rx t)) (t_child (ts_node st2 dir) @ t_regex (ts_node st2 dir))
             (Some st2)))"

definition tree_expand_alternatives :: "nat \<Rightarrow> regex_lib \<Rightarrow> tree_state \<Rightarrow> tree_state option" where
  "tree_expand_alternatives n rx st = tree_apply_alts n rx global_root st"

subsection \<open>The path of a node\<close>

text \<open>\<open>tree_get_path\<close>: the content of its buffer; the position is its length. Once the position is 4095
  the next call writes a separator and then passes a negative length to \<open>strncpy\<close>, which is \<open>None\<close>.\<close>

fun tree_get_path :: "nat \<Rightarrow> tree_state \<Rightarrow> nat \<Rightarrow> string option" where
  "tree_get_path 0 st t = None"
| "tree_get_path (Suc n) st t =
     (case t_parent (ts_node st t) of
        None \<Rightarrow> Some []
      | Some q \<Rightarrow>
          Option.bind (tree_get_path n st q) (\<lambda>buf.
            let buf = (if buf = [] then buf else buf @ [slash])
            in if 4095 < length buf then None else Some (take 4095 (buf @ t_name (ts_node st t)))))"

end
