(* ===== verification/Tree_Inv.thy ===== *)
theory Tree_Inv
  imports Name_Tree
begin

text \<open>
  The invariant of the name tree and what its operations keep of it. \<open>tree_ok\<close>: parents have smaller
  numbers than their children, the children of a node point back to it, names are neither empty nor
  contain a slash and are pairwise distinct in each of the two lists, plain children have no
  compiled expression and the others have the one of their name. \<open>tree_ext\<close> relates a tree to a
  later one: no node changes its name, parent, type or expression, and lists of children only grow.
\<close>

definition name_ok :: "string \<Rightarrow> bool" where
  "name_ok s \<longleftrightarrow> s \<noteq> [] \<and> slash \<notin> set s"

definition plain_kid :: "tree_state \<Rightarrow> nat \<Rightarrow> nat \<Rightarrow> bool" where
  "plain_kid st b p \<longleftrightarrow> p < ts_next st \<and> t_parent (ts_node st p) = Some b
     \<and> t_comp (ts_node st p) = NullRegex \<and> name_ok (t_name (ts_node st p))"

definition regex_kid :: "regex_lib \<Rightarrow> tree_state \<Rightarrow> nat \<Rightarrow> nat \<Rightarrow> bool" where
  "regex_kid rx st b p \<longleftrightarrow> p < ts_next st \<and> t_parent (ts_node st p) = Some b
     \<and> t_comp (ts_node st p) = regcompile rx (t_name (ts_node st p)) \<and> name_ok (t_name (ts_node st p))"

definition kids_ok :: "regex_lib \<Rightarrow> tree_state \<Rightarrow> nat \<Rightarrow> bool" where
  "kids_ok rx st b \<longleftrightarrow>
     Ball (set (t_child (ts_node st b))) (plain_kid st b) \<and>
     Ball (set (t_regex (ts_node st b))) (regex_kid rx st b) \<and>
     distinct (map (\<lambda>p. t_name (ts_node st p)) (t_child (ts_node st b))) \<and>
     distinct (map (\<lambda>p. t_name (ts_node st p)) (t_regex (ts_node st b)))"

definition has_parent :: "tree_state \<Rightarrow> nat \<Rightarrow> bool" where
  "has_parent st p \<longleftrightarrow> (\<exists>b < p. t_parent (ts_node st p) = Some b)"

definition tree_ok :: "regex_lib \<Rightarrow> tree_state \<Rightarrow> bool" where
  "tree_ok rx st \<longleftrightarrow>
     0 < ts_next st \<and> t_parent (ts_node st 0) = None \<and> t_comp (ts_node st 0) = NullRegex \<and>
     Ball {0<..<ts_next st} (has_parent st) \<and> Ball {..<ts_next st} (kids_ok rx st)"

definition tree_ext :: "tree_state \<Rightarrow> tree_state \<Rightarrow> bool" where
  "tree_ext st st' \<longleftrightarrow>
     ts_next st \<le> ts_next st' \<and> ts_type st' = ts_type st \<and> ts_default st' = ts_default st \<and>
     (\<forall>p < ts_next st. t_name (ts_node st' p) = t_name (ts_node st p)
        \<and> t_parent (ts_node st' p) = t_parent (ts_node st p)
        \<and> t_type (ts_node st' p) = t_type (ts_node st p)
        \<and> t_comp (ts_node st' p) = t_comp (ts_node st p)
        \<and> (\<exists>xs. t_child (ts_node st' p) = xs @ t_child (ts_node st p))
        \<and> (\<exists>xs. t_regex (ts_node st' p) = xs @ t_regex (ts_node st p)))"

lemma tree_ok_root [simp]: "tree_ok rx st \<Longrightarrow> 0 < ts_next st"
  by (simp add: tree_ok_def)

lemma tree_ok_kids: "tree_ok rx st \<Longrightarrow> b < ts_next st \<Longrightarrow> kids_ok rx st b"
  unfolding tree_ok_def by blast

lemma tree_ok_child:
  "tree_ok rx st \<Longrightarrow> b < ts_next st \<Longrightarrow> p \<in> set (t_child (ts_node st b)) \<Longrightarrow> plain_kid st b p"
  using tree_ok_kids unfolding kids_ok_def by blast

lemma tree_ok_regex:
  "tree_ok rx st \<Longrightarrow> b < ts_next st \<Longrightarrow> p \<in> set (t_regex (ts_node st b)) \<Longrightarrow> regex_kid rx st b p"
  using tree_ok_kids unfolding kids_ok_def by blast

lemma tree_ok_parent: "tree_ok rx st \<Longrightarrow> p < ts_next st \<Longrightarrow> 0 < p \<Longrightarrow> has_parent st p"
  unfolding tree_ok_def by (simp add: Ball_def)

lemma distinct_map_inj:
  "distinct (map f xs) \<Longrightarrow> x \<in> set xs \<Longrightarrow> y \<in> set xs \<Longrightarrow> f x = f y \<Longrightarrow> x = y"
  by (auto simp: distinct_map dest: inj_onD)

lemma tree_ok_child_unique:
  "tree_ok rx st \<Longrightarrow> b < ts_next st \<Longrightarrow> p \<in> set (t_child (ts_node st b)) \<Longrightarrow> q \<in> set (t_child (ts_node st b)) \<Longrightarrow>
     t_name (ts_node st p) = t_name (ts_node st q) \<Longrightarrow> p = q"
  using tree_ok_kids unfolding kids_ok_def by (metis distinct_map_inj [where f = "\<lambda>p. t_name (ts_node st p)"])

lemma tree_ok_regex_unique:
  "tree_ok rx st \<Longrightarrow> b < ts_next st \<Longrightarrow> p \<in> set (t_regex (ts_node st b)) \<Longrightarrow> q \<in> set (t_regex (ts_node st b)) \<Longrightarrow>
     t_name (ts_node st p) = t_name (ts_node st q) \<Longrightarrow> p = q"
  using tree_ok_kids unfolding kids_ok_def by (metis distinct_map_inj [where f = "\<lambda>p. t_name (ts_node st p)"])

lemma tree_ext_refl [simp]: "tree_ext st st"
  by (simp add: tree_ext_def)

lemma tree_ext_trans:
  assumes "tree_ext a b" and "tree_ext b c"
  shows "tree_ext a c"
proof -
  have "ts_next a \<le> ts_next b" using assms(1) by (simp add: tree_ext_def)
  then have lt: "p < ts_next b" if "p < ts_next a" for p using that by simp
  have "\<exists>xs. t_child (ts_node c p) = xs @ t_child (ts_node a p)" if "p < ts_next a" for p
    using assms that lt [OF that] unfolding tree_ext_def by (metis append.assoc)
  moreover have "\<exists>xs. t_regex (ts_node c p) = xs @ t_regex (ts_node a p)" if "p < ts_next a" for p
    using assms that lt [OF that] unfolding tree_ext_def by (metis append.assoc)
  ultimately show ?thesis using assms lt by (auto simp: tree_ext_def)
qed

lemma tree_ext_in:
  "tree_ext st st' \<Longrightarrow> b < ts_next st \<Longrightarrow> p \<in> set (t_child (ts_node st b)) \<Longrightarrow> p \<in> set (t_child (ts_node st' b))"
  "tree_ext st st' \<Longrightarrow> b < ts_next st \<Longrightarrow> p \<in> set (t_regex (ts_node st b)) \<Longrightarrow> p \<in> set (t_regex (ts_node st' b))"
  unfolding tree_ext_def by (metis Un_iff set_append)+

lemma tree_ext_name:
  "tree_ext st st' \<Longrightarrow> p < ts_next st \<Longrightarrow> t_name (ts_node st' p) = t_name (ts_node st p)"
  by (simp add: tree_ext_def)

lemma tree_ext_next: "tree_ext st st' \<Longrightarrow> p < ts_next st \<Longrightarrow> p < ts_next st'"
  by (simp add: tree_ext_def)

subsection \<open>The two steps of a creation\<close>

lemma kid_mem [simp]:
  "plain_kid (st\<lparr>ts_mem := m\<rparr>) = plain_kid st" "regex_kid rx (st\<lparr>ts_mem := m\<rparr>) = regex_kid rx st"
  "has_parent (st\<lparr>ts_mem := m\<rparr>) = has_parent st" "kids_ok rx (st\<lparr>ts_mem := m\<rparr>) = kids_ok rx st"
  by (auto simp: fun_eq_iff plain_kid_def regex_kid_def has_parent_def kids_ok_def)

lemma ok_mem [simp]: "tree_ok rx (st\<lparr>ts_mem := m\<rparr>) = tree_ok rx st"
  by (simp add: tree_ok_def)

lemma ext_mem [simp]: "tree_ext st (st'\<lparr>ts_mem := m\<rparr>) = tree_ext st st'"
  by (simp add: tree_ext_def)

lemma alloc_node_ok:
  assumes "tree_ok rx st" and "base < ts_next st"
  shows "tree_ok rx (alloc_node base name st)" and "tree_ext st (alloc_node base name st)"
    and "ts_next (alloc_node base name st) = Suc (ts_next st)"
    and "n \<noteq> ts_next st \<Longrightarrow> ts_node (alloc_node base name st) n = ts_node st n"
    and "\<exists>ty. ts_node (alloc_node base name st) (ts_next st) = fresh_node (Some base) ty name"
proof -
  let ?s = "alloc_node base name st"
  have n: "ts_next ?s = Suc (ts_next st)"
    and o: "\<And>m. m \<noteq> ts_next st \<Longrightarrow> ts_node ?s m = ts_node st m"
    and f: "\<exists>ty. ts_node ?s (ts_next st) = fresh_node (Some base) ty name"
    by (auto simp: alloc_node_def Let_def)
  show "ts_next ?s = Suc (ts_next st)" "n \<noteq> ts_next st \<Longrightarrow> ts_node ?s n = ts_node st n"
    "\<exists>ty. ts_node ?s (ts_next st) = fresh_node (Some base) ty name"
    using n o f by auto
  show "tree_ext st ?s"
    using n o by (auto simp: tree_ext_def alloc_node_def Let_def)
  from f obtain ty where f: "ts_node ?s (ts_next st) = fresh_node (Some base) ty name" ..
  have lt: "p < ts_next st \<Longrightarrow> ts_node ?s p = ts_node st p" for p using o by auto
  have "has_parent ?s p" if "p < ts_next ?s" "0 < p" for p
  proof (cases "p = ts_next st")
    case True
    then show ?thesis using f assms(2) by (simp add: has_parent_def fresh_node_def)
  next
    case False
    then have "p < ts_next st" using that n by simp
    then show ?thesis using tree_ok_parent [OF assms(1) _ that(2)] lt by (simp add: has_parent_def)
  qed
  moreover have "kids_ok rx ?s b" if "b < ts_next ?s" for b
  proof (cases "b = ts_next st")
    case True
    then show ?thesis using f by (simp add: kids_ok_def fresh_node_def)
  next
    case False
    then have b: "b < ts_next st" using that n by simp
    note k = tree_ok_child [OF assms(1) b] tree_ok_regex [OF assms(1) b]
    have p: "p < ts_next st" if "p \<in> set (t_child (ts_node st b)) \<union> set (t_regex (ts_node st b))" for p
      using that k by (auto simp: plain_kid_def regex_kid_def)
    have mp: "map (\<lambda>p. t_name (ts_node ?s p)) (t_child (ts_node st b)) = map (\<lambda>p. t_name (ts_node st p)) (t_child (ts_node st b))"
      "map (\<lambda>p. t_name (ts_node ?s p)) (t_regex (ts_node st b)) = map (\<lambda>p. t_name (ts_node st p)) (t_regex (ts_node st b))"
      using p lt by auto
    have "plain_kid ?s b p" if "p \<in> set (t_child (ts_node st b))" for p
      using k(1) [OF that] lt n by (simp add: plain_kid_def)
    moreover have "regex_kid rx ?s b p" if "p \<in> set (t_regex (ts_node st b))" for p
      using k(2) [OF that] lt n by (simp add: regex_kid_def)
    ultimately show ?thesis
      using tree_ok_kids [OF assms(1) b] unfolding kids_ok_def lt [OF b] mp by blast
  qed
  ultimately show "tree_ok rx ?s"
    using assms(1) n lt [of 0] by (simp add: tree_ok_def)
qed

definition unlinked :: "tree_state \<Rightarrow> nat \<Rightarrow> nat \<Rightarrow> bool" where
  "unlinked st base p \<longleftrightarrow> base < p \<and> p < ts_next st \<and> t_parent (ts_node st p) = Some base
     \<and> t_child (ts_node st p) = [] \<and> t_regex (ts_node st p) = []
     \<and> p \<notin> set (t_child (ts_node st base)) \<and> p \<notin> set (t_regex (ts_node st base))"

definition kid_list :: "tree_state \<Rightarrow> nat \<Rightarrow> bool \<Rightarrow> nat list" where
  "kid_list st b regexp = (if regexp then t_regex (ts_node st b) else t_child (ts_node st b))"

definition kid_names :: "tree_state \<Rightarrow> nat \<Rightarrow> bool \<Rightarrow> string set" where
  "kid_names st b regexp = (\<lambda>p. t_name (ts_node st p)) ` set (kid_list st b regexp)"

lemma link_node_nodes:
  assumes "base \<noteq> p"
  shows "ts_node (link_node rx base regexp p st) n =
     (if n = base then (if regexp then (ts_node st base)\<lparr>t_regex := p # t_regex (ts_node st base)\<rparr>
                        else (ts_node st base)\<lparr>t_child := p # t_child (ts_node st base)\<rparr>)
      else if n = p then (ts_node st p)\<lparr>t_comp := (if regexp then regcompile rx (t_name (ts_node st p)) else NullRegex)\<rparr>
      else ts_node st n)"
  and "ts_next (link_node rx base regexp p st) = ts_next st"
  and "ts_mem (link_node rx base regexp p st) = ts_mem st"
  and "ts_type (link_node rx base regexp p st) = ts_type st"
  and "ts_default (link_node rx base regexp p st) = ts_default st"
  using assms by (auto simp: link_node_def upd_node_def)

lemma link_node_ok:
  assumes ok: "tree_ok rx st" and u: "unlinked st base p" and nm: "name_ok (t_name (ts_node st p))"
    and new: "t_name (ts_node st p) \<notin> kid_names st base regexp"
  shows "tree_ok rx (link_node rx base regexp p st)"
proof -
  let ?s = "link_node rx base regexp p st"
  have lt: "base < p" "p < ts_next st" "base < ts_next st" and ne: "base \<noteq> p"
    using u by (auto simp: unlinked_def)
  note nodes = link_node_nodes [OF ne]
  have name: "t_name (ts_node ?s n) = t_name (ts_node st n)" "t_parent (ts_node ?s n) = t_parent (ts_node st n)" for n
    by (auto simp: nodes)
  have comp: "t_comp (ts_node ?s n) = (if n = p then (if regexp then regcompile rx (t_name (ts_node st p)) else NullRegex)
      else t_comp (ts_node st n))" for n
    using ne by (auto simp: nodes)
  have par: "t_parent (ts_node st p) = Some base" using u by (simp add: unlinked_def)
  have "has_parent ?s n" if "0 < n" "n < ts_next ?s" for n
    using tree_ok_parent [OF ok, of n] that by (simp add: has_parent_def name nodes(2))
  moreover have "kids_ok rx ?s b" if "b < ts_next ?s" for b
  proof -
    have b: "b < ts_next st" using that by (simp add: nodes)
    have np: "p \<notin> set (t_child (ts_node st b)) \<union> set (t_regex (ts_node st b))"
      using u tree_ok_child [OF ok b] tree_ok_regex [OF ok b] par
      by (auto simp: unlinked_def plain_kid_def regex_kid_def)
    have old: "plain_kid ?s b n" if "n \<in> set (t_child (ts_node st b))" for n
      using tree_ok_child [OF ok b that] np that by (auto simp: plain_kid_def name comp nodes(2))
    have old': "regex_kid rx ?s b n" if "n \<in> set (t_regex (ts_node st b))" for n
      using tree_ok_regex [OF ok b that] np that by (auto simp: regex_kid_def name comp nodes(2))
    have k: "distinct (map (\<lambda>p. t_name (ts_node st p)) (t_child (ts_node st b)))"
       "distinct (map (\<lambda>p. t_name (ts_node st p)) (t_regex (ts_node st b)))"
      using tree_ok_kids [OF ok b] by (simp_all add: kids_ok_def)
    show ?thesis
    proof (cases "b = base")
      case False
      moreover have "b \<noteq> p \<or> t_child (ts_node st b) = [] \<and> t_regex (ts_node st b) = []"
        using u by (auto simp: unlinked_def)
      ultimately have "t_child (ts_node ?s b) = t_child (ts_node st b)" "t_regex (ts_node ?s b) = t_regex (ts_node st b)"
        by (auto simp: nodes)
      with old old' k show ?thesis by (simp add: kids_ok_def name)
    next
      case True
      have "regexp \<Longrightarrow> regex_kid rx ?s b p" "\<not> regexp \<Longrightarrow> plain_kid ?s b p"
        unfolding regex_kid_def plain_kid_def name comp nodes(2) using lt par nm True by simp_all
      moreover have "t_child (ts_node ?s b) = (if regexp then t_child (ts_node st b) else p # t_child (ts_node st b))"
        "t_regex (ts_node ?s b) = (if regexp then p # t_regex (ts_node st b) else t_regex (ts_node st b))"
        using True by (auto simp: nodes)
      ultimately show ?thesis
        using old old' k new True by (auto simp: kids_ok_def name kid_names_def kid_list_def)
    qed
  qed
  moreover have "0 < p" using lt by simp
  ultimately show ?thesis
    using ok by (auto simp: tree_ok_def name comp nodes(2))
qed

lemma link_node_ext:
  assumes "tree_ext st0 st" and "base < p" and "ts_next st0 \<le> p"
  shows "tree_ext st0 (link_node rx base regexp p st)"
proof -
  have ne: "base \<noteq> p" using assms(2) by simp
  have "\<exists>xs. t_child (ts_node (link_node rx base regexp p st) n) = xs @ t_child (ts_node st0 n)"
    "\<exists>xs. t_regex (ts_node (link_node rx base regexp p st) n) = xs @ t_regex (ts_node st0 n)" if "n < ts_next st0" for n
    using that assms(1,3) unfolding tree_ext_def
    by (auto simp: link_node_nodes(1) [OF ne])
  then show ?thesis
    using assms(1,3) link_node_nodes(1) [OF ne, of rx regexp st]
    by (auto simp: tree_ext_def link_node_nodes(2-) [OF ne])
qed

subsection \<open>What a creation promises\<close>

definition create_post :: "regex_lib \<Rightarrow> nat \<Rightarrow> string \<Rightarrow> bool \<Rightarrow> tree_state \<Rightarrow> tree_state \<Rightarrow> nat option \<Rightarrow> bool" where
  "create_post rx b name regexp s s' r \<longleftrightarrow>
     tree_ok rx s' \<and> tree_ext s s'
     \<and> (\<forall>n < ts_next s. n \<noteq> b \<longrightarrow> ts_node s' n = ts_node s n)
     \<and> (\<forall>re. set (kid_list s' b re) \<subseteq> set (kid_list s b re) \<union> {ts_next s..<ts_next s'})
     \<and> kid_names s' b True \<subseteq> kid_names s b True \<union> {''.*''} \<union> (if regexp then {name} else {})
     \<and> kid_names s' b False \<subseteq> kid_names s b False \<union> (if regexp then {} else {name})
     \<and> (\<forall>q. r = Some q \<longrightarrow> q \<in> set (kid_list s' b regexp) \<and> t_name (ts_node s' q) = name)"

lemma name_ok_any: "name_ok ''.*''"
  by (simp add: name_ok_def slash_def)

lemma find_name:
  "List.find (\<lambda>p. strcmp (t_name (ts_node st p)) name = 0) xs = Some p \<Longrightarrow> p \<in> set xs \<and> t_name (ts_node st p) = name"
  "List.find (\<lambda>p. strcmp (t_name (ts_node st p)) name = 0) xs = None \<Longrightarrow>
     name \<notin> (\<lambda>p. t_name (ts_node st p)) ` set xs"
  by (auto dest: find_Some_conv simp: find_None_iff)

lemma create_post_found:
  assumes "tree_ok rx st" and "p \<in> set (kid_list st b regexp)" and "t_name (ts_node st p) = name"
  shows "create_post rx b name regexp st st (Some p)"
  using assms by (auto simp: create_post_def)

lemma create_post_none:
  "tree_ok rx st \<Longrightarrow> create_post rx b name regexp st st None"
  by (auto simp: create_post_def)

lemma unlinked_alloc:
  assumes "tree_ok rx st" and "base < ts_next st"
  shows "unlinked (alloc_node base name st) base (ts_next st)"
proof -
  have "p < ts_next st" if "p \<in> set (t_child (ts_node st base)) \<union> set (t_regex (ts_node st base))" for p
    using that tree_ok_child [OF assms] tree_ok_regex [OF assms] by (auto simp: plain_kid_def regex_kid_def)
  moreover obtain ty where "ts_node (alloc_node base name st) (ts_next st) = fresh_node (Some base) ty name"
    using alloc_node_ok(5) [OF assms] by blast
  ultimately show ?thesis
    using alloc_node_ok(3) [OF assms] alloc_node_ok(4) [OF assms, of base] assms(2)
    by (auto simp: unlinked_def fresh_node_def)
qed

text \<open>Linking a node that was allocated from \<open>s\<close>, with \<open>s2\<close> reached in between.\<close>

lemma create_post_link:
  assumes s: "tree_ok rx s" "b < ts_next s" and nm: "name_ok name"
    and ok2: "tree_ok rx s2"
    and ext2: "tree_ext (alloc_node b name s) s2"
    and same: "\<forall>n < ts_next s. n \<noteq> b \<longrightarrow> ts_node s2 n = ts_node s n"
    and u: "unlinked s2 b (ts_next s)" and p: "t_name (ts_node s2 (ts_next s)) = name"
    and new: "name \<notin> kid_names s2 b regexp"
    and kids: "\<forall>re. set (kid_list s2 b re) \<subseteq> set (kid_list s b re) \<union> {ts_next s..<ts_next s2}"
      "kid_names s2 b True \<subseteq> kid_names s b True \<union> {''.*''}" "kid_names s2 b False \<subseteq> kid_names s b False"
  shows "create_post rx b name regexp s (link_node rx b regexp (ts_next s) s2) (Some (ts_next s))"
proof -
  let ?p = "ts_next s" and ?l = "link_node rx b regexp (ts_next s) s2"
  have ne: "b \<noteq> ?p" and lt: "b < ?p" "?p < ts_next s2" using u by (auto simp: unlinked_def)
  note nodes = link_node_nodes [OF ne]
  have names: "t_name (ts_node ?l n) = t_name (ts_node s2 n)" for n by (auto simp: nodes)
  have kl: "kid_list ?l b re = (if re = regexp then ?p # kid_list s2 b re else kid_list s2 b re)" for re
    by (auto simp: kid_list_def nodes)
  have kn: "kid_names ?l b re = (if re = regexp then insert name (kid_names s2 b re) else kid_names s2 b re)" for re
    by (auto simp: kid_names_def kl names p)
  have "tree_ok rx ?l" using ok2 u nm p new by (intro link_node_ok) auto
  moreover have "tree_ext s ?l"
    using link_node_ext [OF tree_ext_trans [OF alloc_node_ok(2) [OF s] ext2] lt(1)] by simp
  moreover have "\<forall>n < ts_next s. n \<noteq> b \<longrightarrow> ts_node ?l n = ts_node s n" using same by (auto simp: nodes)
  ultimately show ?thesis
    using kids lt by (auto simp: create_post_def kl kn nodes(2) names p)
qed

subsection \<open>Creations keep the invariant\<close>

lemma regcompile_any [simp]: "regcompile rx reg = AnyRegex \<longleftrightarrow> reg = ''.*''"
  by (auto simp: regcompile_def Let_def)

lemma create_step_any:
  assumes "b < ts_next s"
  shows "create_step rec rx b ''.*'' True s =
     (case List.find (\<lambda>p. strcmp (t_name (ts_node s p)) ''.*'' = 0) (t_regex (ts_node s b)) of
        Some p \<Rightarrow> (s, Some p)
      | None \<Rightarrow> if ts_mem s = 0 then (s, None)
          else (link_node rx b True (ts_next s) (alloc_node b ''.*'' s), Some (ts_next s)))"
proof -
  have "t_comp (ts_node (link_node rx b True (ts_next s) (alloc_node b ''.*'' s)) (ts_next s)) = AnyRegex"
    using assms by (simp add: link_node_nodes alloc_node_def Let_def fresh_node_def)
  then show ?thesis by (auto simp: create_step_def Let_def split: option.splits)
qed

lemma create_one_i_any: "b < ts_next s \<Longrightarrow> create_one_i rx b ''.*'' True s = create_any rx b s"
  by (simp add: create_one_i_def create_any_def create_step_any)

lemma create_post_alloc:
  assumes "tree_ok rx s" "b < ts_next s" and "name_ok name" and "name \<notin> kid_names s b regexp"
  shows "create_post rx b name regexp s (link_node rx b regexp (ts_next s) (alloc_node b name s)) (Some (ts_next s))"
proof (rule create_post_link)
  let ?a = "alloc_node b name s"
  have kl: "kid_list ?a b re = kid_list s b re" for re
    using alloc_node_ok(4) [OF assms(1,2), of b] assms(2) by (simp add: kid_list_def)
  have "p < ts_next s" if "p \<in> set (kid_list s b re)" for p re
    using that tree_ok_child [OF assms(1,2)] tree_ok_regex [OF assms(1,2)]
    by (auto simp: kid_list_def plain_kid_def regex_kid_def split: if_splits)
  moreover have "ts_node ?a n = ts_node s n" if "n < ts_next s" for n
    using alloc_node_ok(4) [OF assms(1,2), of n] that by simp
  ultimately have kn: "kid_names ?a b re = kid_names s b re" for re
    unfolding kid_names_def kl by (intro image_cong) auto
  show "name \<notin> kid_names ?a b regexp" using assms(4) by (simp add: kn)
  show "kid_names ?a b True \<subseteq> kid_names s b True \<union> {''.*''}" "kid_names ?a b False \<subseteq> kid_names s b False"
    by (auto simp: kn)
  show "\<forall>re. set (kid_list ?a b re) \<subseteq> set (kid_list s b re) \<union> {ts_next s..<ts_next ?a}" by (auto simp: kl)
  show "t_name (ts_node ?a (ts_next s)) = name"
    using alloc_node_ok(5) [OF assms(1,2), of name] by (auto simp: fresh_node_def)
  show "\<forall>n < ts_next s. n \<noteq> b \<longrightarrow> ts_node ?a n = ts_node s n"
    using alloc_node_ok(4) [OF assms(1,2)] by auto
qed (use assms alloc_node_ok [OF assms(1,2)] unlinked_alloc [OF assms(1,2)] in auto)

lemma create_any_post:
  assumes "tree_ok rx s" "b < ts_next s" and "create_any rx b s = (s', r)"
  shows "create_post rx b ''.*'' True s s' r" and "r = None \<Longrightarrow> s' = s"
proof -
  have "create_post rx b ''.*'' True s s' r \<and> (r = None \<longrightarrow> s' = s)"
  proof (cases "List.find (\<lambda>p. strcmp (t_name (ts_node s p)) ''.*'' = 0) (t_regex (ts_node s b))")
    case (Some p)
    then have "s' = s" "r = Some p"
      using assms(3) by (simp_all only: create_any_def create_step_any [OF assms(2)] option.simps prod.inject)
    then show ?thesis
      using find_name(1) [OF Some] create_post_found [OF assms(1), of p b True "''.*''"] by (simp add: kid_list_def)
  next
    case None
    then have n: "''.*'' \<notin> kid_names s b True"
      using find_name(2) [OF None] by (simp add: kid_names_def kid_list_def)
    have "(s', r) = (if ts_mem s = 0 then (s, None)
          else (link_node rx b True (ts_next s) (alloc_node b ''.*'' s), Some (ts_next s)))"
      using assms(3) None by (simp only: create_any_def create_step_any [OF assms(2)] option.simps)
    then show ?thesis
      using create_post_none [OF assms(1)] create_post_alloc [OF assms(1,2) name_ok_any n] by (auto split: if_splits)
  qed
  then show "create_post rx b ''.*'' True s s' r" and "r = None \<Longrightarrow> s' = s" by auto
qed

lemma create_post_then_any:
  assumes "create_post rx b name regexp s s3 (Some p)" and "b < ts_next s" "ts_next s \<le> p" "p < ts_next s3"
    and "create_any rx p s3 = (s4, r)"
  shows "create_post rx b name regexp s s4 (case r of None \<Rightarrow> None | Some _ \<Rightarrow> Some p)"
proof -
  have ok3: "tree_ok rx s3" using assms(1) by (simp add: create_post_def)
  note a = create_any_post(1) [OF ok3 assms(4,5)]
  have x: "tree_ext s3 s4" "tree_ok rx s4" using a by (simp_all add: create_post_def)
  have n: "ts_node s4 n = ts_node s3 n" if "n < ts_next s3" "n \<noteq> p" for n
    using a that by (simp add: create_post_def)
  have b: "b < ts_next s3" "b \<noteq> p" using assms(2,3,4) by auto
  have kl: "kid_list s4 b re = kid_list s3 b re" for re using n [OF b] by (simp add: kid_list_def)
  have lt: "q < ts_next s3" if "q \<in> set (kid_list s3 b re)" for q re
    using that tree_ok_child [OF ok3 b(1)] tree_ok_regex [OF ok3 b(1)]
    by (auto simp: kid_list_def plain_kid_def regex_kid_def split: if_splits)
  have nm: "t_name (ts_node s4 q) = t_name (ts_node s3 q)" if "q < ts_next s3" for q
    using x(1) that by (simp add: tree_ext_name)
  have kn: "kid_names s4 b re = kid_names s3 b re" for re
    unfolding kid_names_def kl using nm lt by (intro image_cong) auto
  have "ts_next s3 \<le> ts_next s4" using x(1) by (simp add: tree_ext_def)
  moreover have "ts_node s4 m = ts_node s m" if "m < ts_next s" "m \<noteq> b" for m
  proof -
    have "ts_node s3 m = ts_node s m" using assms(1) that by (simp add: create_post_def)
    moreover have "m < ts_next s3" "m \<noteq> p" using that(1) assms(3,4) by auto
    ultimately show ?thesis using n by simp
  qed
  moreover have "set (kid_list s4 b re) \<subseteq> set (kid_list s b re) \<union> {ts_next s..<ts_next s4}" for re
    using assms(1) \<open>ts_next s3 \<le> ts_next s4\<close> unfolding create_post_def kl by fastforce
  moreover have "tree_ext s s4" using assms(1) x(1) tree_ext_trans by (auto simp: create_post_def)
  ultimately show ?thesis
    using assms(1) x(2) nm [OF assms(4)] unfolding create_post_def kl kn by (auto split: option.splits)
qed

lemma create_one_i_post:
  assumes ok: "tree_ok rx s" and b: "b < ts_next s" and nm: "name_ok name"
    and c: "create_one_i rx b name regexp s = (s', r)"
  shows "create_post rx b name regexp s s' r"
proof (cases "regexp \<and> name = ''.*''")
  case True
  then show ?thesis using create_any_post(1) [OF ok b] c create_one_i_any [OF b] by auto
next
  case no: False
  show ?thesis
  proof (cases "List.find (\<lambda>p. strcmp (t_name (ts_node s p)) name = 0) (kid_list s b regexp)")
    case (Some p)
    then have "(s', r) = (s, Some p)"
      using c nm by (simp add: create_one_i_def create_step_def name_ok_def Let_def kid_list_def)
    then show ?thesis using find_name(1) [OF Some] create_post_found [OF ok] by auto
  next
    case None
    then have new: "name \<notin> kid_names s b regexp" using find_name(2) [OF None] by (simp add: kid_names_def)
    show ?thesis
    proof (cases "ts_mem s = 0")
      case True
      then have "(s', r) = (s, None)"
        using c nm None by (simp add: create_one_i_def create_step_def name_ok_def Let_def kid_list_def)
      then show ?thesis using create_post_none [OF ok] by auto
    next
      case mem: False
      define s1 where "s1 = alloc_node b name s"
      define dots where "dots \<longleftrightarrow> t_comp (ts_node s b) = AnyRegex \<and> t_child (ts_node s b) = [] \<and> t_regex (ts_node s b) = []"
      note a = alloc_node_ok [where name = name, OF ok b, folded s1_def]
      obtain s2 r2 where s2: "(if dots then create_any rx b s1 else (s1, Some b)) = (s2, r2)" by fastforce
      define s3 where "s3 = link_node rx b regexp (ts_next s) s2"
      have c': "(s', r) = (case r2 of
            None \<Rightarrow> (s2\<lparr>ts_mem := Suc (ts_mem s2)\<rparr>, None)
          | Some _ \<Rightarrow> if \<not> regexp \<or> t_comp (ts_node s3 (ts_next s)) \<noteq> AnyRegex
                  then (case create_any rx (ts_next s) s3 of (s4, None) \<Rightarrow> (s4, None) | (s4, Some _) \<Rightarrow> (s4, Some (ts_next s)))
                  else (s3, Some (ts_next s)))"
        using c nm None mem no s2
        by (simp add: create_one_i_def create_step_def name_ok_def Let_def kid_list_def s1_def dots_def s3_def
            split: option.splits if_splits)
      have b1: "b < ts_next s1" using b a(3) by simp
      show ?thesis
      proof (cases r2)
        case r2: None
        then have "s2 = s1" using s2 create_any_post(2) [OF a(1) b1, of s2] by (auto split: if_splits)
        then have "tree_ok rx s'" "tree_ext s s'" "r = None" "ts_node s' = ts_node s1" using c' r2 a by auto
        moreover have "kid_list s' b re = kid_list s b re" for re
          using \<open>ts_node s' = ts_node s1\<close> a(4) [of b] b by (simp add: kid_list_def)
        moreover have "q < ts_next s" if "q \<in> set (kid_list s b re)" for q re
          using that tree_ok_child [OF ok b] tree_ok_regex [OF ok b]
          by (auto simp: kid_list_def plain_kid_def regex_kid_def split: if_splits)
        ultimately show ?thesis
          using a(4) by (fastforce simp: create_post_def kid_names_def)
      next
        case (Some x)
        have ok2: "tree_ok rx s2" and x2: "tree_ext s1 s2"
          and n2: "\<And>n. n < ts_next s1 \<Longrightarrow> n \<noteq> b \<Longrightarrow> ts_node s2 n = ts_node s1 n"
          and l2: "\<And>re. set (kid_list s2 b re) \<subseteq> set (kid_list s1 b re) \<union> {ts_next s1..<ts_next s2}"
          and k2: "kid_names s2 b True \<subseteq> kid_names s1 b True \<union> (if dots then {''.*''} else {})"
            "kid_names s2 b False \<subseteq> kid_names s1 b False"
          using s2 create_any_post(1) [OF a(1) b1, of s2 r2] a(1) by (auto simp: create_post_def split: if_splits)
        have kl1: "kid_list s1 b re = kid_list s b re" for re using a(4) [of b] b by (simp add: kid_list_def)
        have lt: "q < ts_next s" if "q \<in> set (kid_list s b re)" for q re
          using that tree_ok_child [OF ok b] tree_ok_regex [OF ok b]
          by (auto simp: kid_list_def plain_kid_def regex_kid_def split: if_splits)
        have kn1: "kid_names s1 b re = kid_names s b re" for re
          unfolding kid_names_def kl1 using a(4) lt by (intro image_cong) (auto dest!: lt)
        have p: "ts_node s2 (ts_next s) = ts_node s1 (ts_next s)" using n2 [of "ts_next s"] a(3) b by simp
        have u1: "unlinked s1 b (ts_next s)" using unlinked_alloc [OF ok b] by (simp add: s1_def)
        have nl: "ts_next s \<notin> set (kid_list s2 b re)" for re using l2 [of re] lt [of "ts_next s" re] a(3) by (auto simp: kl1)
        have u2: "unlinked s2 b (ts_next s)"
          using u1 nl [of True] nl [of False] x2 by (auto simp: unlinked_def p kid_list_def tree_ext_def)
        have "kid_names s b True = {} \<and> kid_names s b False = {}" if dots
          using that by (simp add: dots_def kid_names_def kid_list_def)
        then have new2: "name \<notin> kid_names s2 b regexp"
          using new k2 no by (cases regexp) (auto simp: kn1 split: if_splits)
        have "create_post rx b name regexp s s3 (Some (ts_next s))"
          unfolding s3_def
        proof (rule create_post_link)
          show "t_name (ts_node s2 (ts_next s)) = name" using p a(5) by (auto simp: fresh_node_def)
          show "tree_ext (alloc_node b name s) s2" using x2 by (simp add: s1_def)
          show "\<forall>n < ts_next s. n \<noteq> b \<longrightarrow> ts_node s2 n = ts_node s n" using n2 a(3,4) by auto
          show "\<forall>re. set (kid_list s2 b re) \<subseteq> set (kid_list s b re) \<union> {ts_next s..<ts_next s2}"
            using l2 a(3) by (fastforce simp: kl1)
          show "kid_names s2 b True \<subseteq> kid_names s b True \<union> {''.*''}" "kid_names s2 b False \<subseteq> kid_names s b False"
            using k2 by (auto simp: kn1 split: if_splits)
        qed (use ok b nm ok2 u2 new2 in auto)
        note p3 = this
        have "ts_next s < ts_next s3" using u2 by (auto simp: s3_def unlinked_def link_node_def upd_node_def)
        from create_post_then_any [OF p3 b order.refl this] c' Some p3 show ?thesis
          by (auto split: if_splits option.splits prod.splits)
      qed
    qed
  qed
qed

subsection \<open>Paths\<close>

lemma unescape_set: "set (unescape s) \<subseteq> set s"
  by (induction s rule: unescape.induct) (auto split: list.splits)

lemma isreg_scan_unescape: "isreg_scan s u \<noteq> None \<Longrightarrow> s \<noteq> [] \<Longrightarrow> unescape s \<noteq> []"
  by (induction s u rule: isreg_scan.induct) (auto split: if_splits list.splits)

lemma isreg_name:
  assumes "isreg s = (r, tmp)"
  shows "set tmp \<subseteq> set s" and "s \<noteq> [] \<Longrightarrow> tmp \<noteq> []" and "s = [] \<Longrightarrow> tmp = []"
  using assms unescape_set [of s] isreg_scan_unescape [of s False]
  by (auto simp: isreg_def split: option.splits if_splits)

lemma slash_first_comp: "slash \<notin> set (first_comp path)"
  by (auto simp: first_comp_def dest: set_takeWhileD)

lemma create_one_post:
  assumes "tree_ok rx s" and "b < ts_next s" and "create_one rx b path s = (s', r)"
  shows "tree_ok rx s'" and "tree_ext s s'" and "\<And>p. r = Some p \<Longrightarrow> p < ts_next s'"
proof -
  obtain re tmp where i: "isreg (first_comp path) = (re, tmp)" by fastforce
  have c: "create_one_i rx b tmp re s = (s', r)" using assms(3) i by (simp add: create_one_def)
  have "tree_ok rx s' \<and> tree_ext s s' \<and> (\<forall>p. r = Some p \<longrightarrow> p < ts_next s')"
  proof (cases "tmp = []")
    case True
    then show ?thesis using c assms by (auto simp: create_one_i_def create_step_def)
  next
    case False
    then have "name_ok tmp" using isreg_name(1) [OF i] slash_first_comp [of path] by (auto simp: name_ok_def)
    from create_one_i_post [OF assms(1,2) this c]
    have post: "create_post rx b tmp re s s' r" .
    then have ok: "tree_ok rx s'" and b: "b < ts_next s'"
      using assms(2) by (auto simp: create_post_def dest: tree_ext_next)
    have "p < ts_next s'" if "p \<in> set (kid_list s' b re)" for p
      using that tree_ok_child [OF ok b] tree_ok_regex [OF ok b]
      by (auto simp: kid_list_def plain_kid_def regex_kid_def split: if_splits)
    then show ?thesis using post by (auto simp: create_post_def)
  qed
  then show "tree_ok rx s'" and "tree_ext s s'" and "\<And>p. r = Some p \<Longrightarrow> p < ts_next s'" by auto
qed

lemma create_loop_post:
  assumes "tree_ok rx s" and "\<forall>b. p = Some b \<longrightarrow> b < ts_next s" and "create_loop rx p path s = (s', r)"
  shows "tree_ok rx s' \<and> tree_ext s s' \<and> (\<forall>q. r = Some q \<longrightarrow> q < ts_next s')"
  using assms
proof (induction rx p path s arbitrary: s' r rule: create_loop.induct)
  case (2 rx p path st)
  show ?case
  proof (cases "path = []")
    case True
    then show ?thesis using "2.prems" by auto
  next
    case False
    obtain s1 q where c: "create_one rx p path st = (s1, q)" by fastforce
    note post = create_one_post [OF "2.prems"(1) _ c]
    have "create_loop rx q (rest_path path) s1 = (s', r)" using "2.prems"(3) False c by simp
    with "2.IH" [OF False c [symmetric]] post "2.prems"(2)
    show ?thesis by (auto intro: tree_ext_trans)
  qed
qed simp

lemma pathcmp_iff: "pathcmp n b = Some r \<longleftrightarrow> b = n @ r \<and> (r = [] \<or> hd r = slash)"
  by (induction n b rule: pathcmp.induct) auto

lemma pathcmp_name:
  assumes "slash \<notin> set n"
  shows "pathcmp n name = (if n = takeWhile (\<lambda>c. c \<noteq> slash) name then Some (dropWhile (\<lambda>c. c \<noteq> slash) name) else None)"
proof (cases "pathcmp n name")
  case None
  have "hd (dropWhile (\<lambda>c. c \<noteq> slash) name) = slash" if "dropWhile (\<lambda>c. c \<noteq> slash) name \<noteq> []"
    using hd_dropWhile [OF that] by simp
  then show ?thesis
    using None pathcmp_iff [of n name "dropWhile (\<lambda>c. c \<noteq> slash) name"] by auto
next
  case (Some r)
  then have r: "name = n @ r" "r = [] \<or> hd r = slash" by (auto simp: pathcmp_iff)
  have "takeWhile (\<lambda>c. c \<noteq> slash) r = [] \<and> dropWhile (\<lambda>c. c \<noteq> slash) r = r" using r(2) by (cases r) auto
  then have "takeWhile (\<lambda>c. c \<noteq> slash) name = n" "dropWhile (\<lambda>c. c \<noteq> slash) name = r"
    using r(1) assms takeWhile_append [of "\<lambda>c. c \<noteq> slash" n r] dropWhile_append [of "\<lambda>c. c \<noteq> slash" n r]
    by (auto split: if_splits)
  with Some show ?thesis by simp
qed

text \<open>A path without regular expressions and escapes.\<close>

function plain_path :: "string \<Rightarrow> bool" where
  "plain_path path =
     (if path = [] then True
      else if isreg (first_comp path) = (False, first_comp path) then plain_path (rest_path path) else False)"
  by pat_completeness auto
termination
  by (relation "measure length") (auto intro: rest_path_shorter)

declare plain_path.simps [simp del]

lemma find_one2_child:
  assumes "tree_ok rx st" and "b < ts_next st" and "q \<in> set (t_child (ts_node st b))"
    and "t_name (ts_node st q) = first_comp path" and "first_comp path \<noteq> []"
  shows "find_one2 rx st b path = (Some q, rest_path path)"
proof -
  let ?n = "skip_slashes path"
  have n: "?n \<noteq> []" using assms(5) by (auto simp: first_comp_def)
  have sl: "slash \<notin> set (t_name (ts_node st x))" if "x \<in> set (t_child (ts_node st b))" for x
    using tree_ok_child [OF assms(1,2) that] by (simp add: plain_kid_def name_ok_def)
  have iff: "pathcmp (t_name (ts_node st x)) ?n \<noteq> None \<longleftrightarrow> x = q" if "x \<in> set (t_child (ts_node st b))" for x
    using pathcmp_name [OF sl [OF that], of ?n] tree_ok_child_unique [OF assms(1,2) that assms(3)] assms(4)
    by (auto simp: first_comp_def)
  have "List.find (\<lambda>p. pathcmp (t_name (ts_node st p)) ?n \<noteq> None) (t_child (ts_node st b)) = Some q"
  proof (cases "List.find (\<lambda>p. pathcmp (t_name (ts_node st p)) ?n \<noteq> None) (t_child (ts_node st b))")
    case None
    then show ?thesis using iff [OF assms(3)] assms(3) by (auto simp: find_None_iff)
  next
    case (Some x)
    then show ?thesis using find_Some_conv [OF Some] iff by blast
  qed
  moreover have "the (pathcmp (t_name (ts_node st q)) ?n) = rest_path path"
    using pathcmp_name [OF sl [OF assms(3)], of ?n] assms(4) by (simp add: first_comp_def rest_path_def)
  ultimately show ?thesis using n by (simp add: find_one2_def Let_def)
qed

lemma create_then_find:
  assumes "tree_ok rx s" and "b < ts_next s" and "plain_path path"
    and "create_loop rx (Some b) path s = (s', Some p)" and "tree_ok rx s2" and "tree_ext s' s2"
    and "length path < n"
  shows "find_loop n rx s2 (Some b) path = Some (Some p)"
  using assms(1-4,7)
proof (induction "length path" arbitrary: b path s n rule: less_induct)
  case less
  from less.prems(5) obtain m where m: "n = Suc m" by (cases n) auto
  show ?case
  proof (cases "path = []")
    case True
    then show ?thesis using less.prems m by simp
  next
    case False
    obtain s1 q where c: "create_one rx b path s = (s1, q)" by fastforce
    with less.prems(4) False have l: "create_loop rx q (rest_path path) s1 = (s', Some p)" by simp
    then obtain q' where q: "q = Some q'" by (cases q) auto
    note post = create_one_post [OF less.prems(1,2) c]
    have pl: "isreg (first_comp path) = (False, first_comp path)" "plain_path (rest_path path)"
      using less.prems(3) False by (auto simp: plain_path.simps [of path] split: if_splits)
    have sh: "length (rest_path path) < length path" using rest_path_shorter [OF False] .
    have ext: "tree_ext s1 s2" using create_loop_post [OF post(1) _ l] post(3) q assms(6) tree_ext_trans by auto
    have IH: "find_loop m rx s2 (Some q') (rest_path path) = Some (Some p)"
      using less.hyps [OF sh post(1) post(3) [OF q] pl(2)] l q less.prems(5) sh m by simp
    show ?thesis
    proof (cases "first_comp path = []")
      case True
      have "skip_slashes path = []"
      proof (rule ccontr)
        assume "skip_slashes path \<noteq> []"
        with True show False using hd_dropWhile [of "\<lambda>c. c = slash" path]
          by (cases "skip_slashes path") (auto simp: first_comp_def skip_slashes_def split: if_splits)
      qed
      moreover have "q' = b" using c q True pl(1) by (simp add: create_one_def create_one_i_def create_step_def)
      ultimately show ?thesis using IH False m by (simp add: find_one2_def Let_def rest_path_def)
    next
      case ne: False
      then have nm: "name_ok (first_comp path)" using slash_first_comp by (simp add: name_ok_def)
      have ci: "create_one_i rx b (first_comp path) False s = (s1, q)" using c pl(1) by (simp add: create_one_def)
      from create_one_i_post [OF less.prems(1,2) nm ci] q
      have "q' \<in> set (t_child (ts_node s1 b))" "t_name (ts_node s1 q') = first_comp path"
        by (auto simp: create_post_def kid_list_def)
      moreover have "b < ts_next s1" using post(2) less.prems(2) tree_ext_next by blast
      ultimately have "q' \<in> set (t_child (ts_node s2 b))" "t_name (ts_node s2 q') = first_comp path" "b < ts_next s2"
        using ext tree_ext_in(1) tree_ext_name [OF ext post(3) [OF q]] tree_ext_next by auto
      from find_one2_child [OF assms(5) this(3,1,2) ne] IH False m show ?thesis by simp
    qed
  qed
qed

subsection \<open>Alternatives\<close>

text \<open>The specification: \<open>a\<close> is an alternative of \<open>p\<close> when the paths from the root to \<open>a\<close> and to \<open>p\<close>
  have the same length and each node of the first is a possible instance of the node of the second
  at the same depth.\<close>

definition alt_edge :: "regex_lib \<Rightarrow> tree_state \<Rightarrow> nat \<Rightarrow> nat \<Rightarrow> nat \<Rightarrow> bool" where
  "alt_edge rx st t r a \<longleftrightarrow>
     (if t_comp (ts_node st r) = NullRegex
      then a \<in> set (t_child (ts_node st t)) \<and> t_name (ts_node st a) = t_name (ts_node st r)
      else a \<in> set (t_child (ts_node st t)) \<and> regcmp rx (t_comp (ts_node st r)) (t_name (ts_node st a))
         \<or> a \<in> set (t_regex (ts_node st t))
             \<and> (t_comp (ts_node st r) = AnyRegex \<or> t_name (ts_node st a) = t_name (ts_node st r)))"

inductive alt_of :: "regex_lib \<Rightarrow> tree_state \<Rightarrow> nat \<Rightarrow> nat \<Rightarrow> bool" for rx st where
  root: "t_parent (ts_node st p) = None \<Longrightarrow> alt_of rx st p p"
| below: "t_parent (ts_node st r) = Some q \<Longrightarrow> alt_of rx st t q \<Longrightarrow> alt_edge rx st t r a \<Longrightarrow> alt_of rx st a r"

inductive_cases alt_of_below: "alt_of rx st a r"

definition parent_rel :: "tree_state \<Rightarrow> (nat \<times> nat) set" where
  "parent_rel st = {(p, q). t_parent (ts_node st p) = Some q}"

lemma set_for_alt_Suc:
  "set (tree_for_alt_i rx st t p (Suc n)) =
     \<Union> ((\<lambda>a. set (tree_for_alt_i rx st a p n)) ` {a. alt_edge rx st t (tree_get_rnth st p n) a})"
  by (auto simp: Let_def alt_edge_def)

lemma rnth_parent:
  "\<forall>k \<le> n. t_parent (ts_node st (tree_get_rnth st p k)) \<noteq> None \<Longrightarrow>
     t_parent (ts_node st (tree_get_rnth st p n)) = Some (tree_get_rnth st p (Suc n))"
proof (induction n arbitrary: p)
  case (Suc n)
  have "t_parent (ts_node st (tree_get_rnth st (the (t_parent (ts_node st p))) n))
      = Some (tree_get_rnth st (the (t_parent (ts_node st p))) (Suc n))"
    using Suc.prems by (intro Suc.IH) (metis Suc_le_mono tree_get_rnth.simps(2))
  then show ?case by simp
qed auto

lemma for_alt_sound:
  assumes "\<forall>k < n. t_parent (ts_node st (tree_get_rnth st p k)) \<noteq> None"
    and "alt_of rx st t (tree_get_rnth st p n)" and "a \<in> set (tree_for_alt_i rx st t p n)"
  shows "alt_of rx st a p"
  using assms
proof (induction n arbitrary: t)
  case (Suc n)
  then obtain a' where a': "alt_edge rx st t (tree_get_rnth st p n) a'" "a \<in> set (tree_for_alt_i rx st a' p n)"
    unfolding set_for_alt_Suc by auto
  have "alt_of rx st a' (tree_get_rnth st p n)"
    using alt_of.below [OF rnth_parent Suc.prems(2) a'(1)] Suc.prems(1) by (simp add: less_Suc_eq_le)
  from Suc.IH [OF _ this a'(2)] Suc.prems(1) show ?case by simp
qed simp

lemma for_alt_complete:
  assumes "\<forall>k < n. t_parent (ts_node st (tree_get_rnth st p k)) \<noteq> None" and "alt_of rx st a p"
  shows "\<exists>t. alt_of rx st t (tree_get_rnth st p n) \<and> a \<in> set (tree_for_alt_i rx st t p n)"
  using assms
proof (induction n)
  case 0
  then show ?case by auto
next
  case (Suc n)
  then obtain t' where t': "alt_of rx st t' (tree_get_rnth st p n)" "a \<in> set (tree_for_alt_i rx st t' p n)"
    by auto
  have par: "t_parent (ts_node st (tree_get_rnth st p n)) = Some (tree_get_rnth st p (Suc n))"
    using Suc.prems(1) by (intro rnth_parent) (simp add: less_Suc_eq_le)
  from t'(1) have "\<exists>t. alt_of rx st t (tree_get_rnth st p (Suc n)) \<and> alt_edge rx st t (tree_get_rnth st p n) t'"
    by (rule alt_of_below) (use par in auto)
  with t'(2) show ?case unfolding set_for_alt_Suc by blast
qed

lemma tree_depth_rnth:
  assumes "tree_ok rx st" and "p < ts_next st" and "p < n"
  shows "(\<forall>k < tree_depth n st p. t_parent (ts_node st (tree_get_rnth st p k)) \<noteq> None)
    \<and> t_parent (ts_node st (tree_get_rnth st p (tree_depth n st p))) = None"
  using assms(2,3)
proof (induction n arbitrary: p)
  case (Suc n)
  show ?case
  proof (cases "t_parent (ts_node st p)")
    case (Some q)
    have "0 < p" using Some assms(1) by (cases p) (auto simp: tree_ok_def)
    then have "q < p" using tree_ok_parent [OF assms(1) Suc.prems(1)] Some by (auto simp: has_parent_def)
    then have "q < ts_next st" "q < n" using Suc.prems by auto
    from Suc.IH [OF this] Some show ?thesis
      by (auto simp: less_Suc_eq_0_disj)
  qed simp
qed simp

lemma tree_for_alternatives_iff:
  assumes "tree_ok rx st" and "p < ts_next st"
  shows "a \<in> set (tree_for_alternatives rx st p) \<longleftrightarrow> alt_of rx st a p"
proof -
  let ?n = "tree_depth (ts_next st) st p"
  have d: "\<forall>k < ?n. t_parent (ts_node st (tree_get_rnth st p k)) \<noteq> None"
    and root: "t_parent (ts_node st (tree_get_rnth st p ?n)) = None"
    using tree_depth_rnth [OF assms assms(2)] by auto
  have "alt_of rx st t (tree_get_rnth st p ?n) \<longleftrightarrow> t = tree_get_rnth st p ?n" for t
    using root alt_of_below [of rx st t "tree_get_rnth st p ?n"] by (auto intro: alt_of.root)
  then show ?thesis
    using for_alt_sound [OF d, of rx] for_alt_complete [OF d, of rx] by (auto simp: tree_for_alternatives_def Let_def)
qed

lemma tree_ancestors_iff:
  assumes "tree_ok rx st" and "p < ts_next st" and "p < n"
  shows "a \<in> set (tree_ancestors n st p) \<longleftrightarrow> (p, a) \<in> (parent_rel st)\<^sup>*"
  using assms(2,3)
proof (induction n arbitrary: p)
  case (Suc n)
  show ?case
  proof (cases "t_parent (ts_node st p)")
    case None
    then show ?thesis by (auto simp: parent_rel_def elim: converse_rtranclE)
  next
    case (Some q)
    have "0 < p" using Some assms(1) by (cases p) (auto simp: tree_ok_def)
    then have "q < p" using tree_ok_parent [OF assms(1) Suc.prems(1)] Some by (auto simp: has_parent_def)
    then have "q < ts_next st" "q < n" using Suc.prems by auto
    note IH = Suc.IH [OF this]
    have "(p, a) \<in> (parent_rel st)\<^sup>* \<longleftrightarrow> p = a \<or> (q, a) \<in> (parent_rel st)\<^sup>*"
      using Some by (auto simp: parent_rel_def elim: converse_rtranclE intro: converse_rtrancl_into_rtrancl)
    then show ?thesis using IH Some by auto
  qed
qed simp

lemma find_loop_leaf:
  assumes "leaf (ts_node st b)" and "skip_slashes path \<noteq> []"
  shows "find_loop n rx st (Some b) path = None"
  using assms(2)
proof (induction n arbitrary: path)
  case (Suc n)
  have i: "skip_slashes (skip_slashes path) = skip_slashes path"
    by (induction path) (simp_all add: skip_slashes_def)
  have f: "find_one2 rx st b path = (Some b, skip_slashes path)"
    using Suc.prems assms(1) by (simp add: find_one2_def Let_def leaf_def)
  have "path \<noteq> []" using Suc.prems by (auto simp: skip_slashes_def)
  then show ?case using Suc.IH [of "skip_slashes path"] Suc.prems by (simp add: f i)
qed simp

subsection \<open>Properties\<close>

text \<open>The trees the program can build: from \<open>tree_init\<close> by registering tree types and creating paths,
  with any outcome of the allocations.\<close>

inductive tree_reach :: "regex_lib \<Rightarrow> tree_state \<Rightarrow> bool" for rx where
  init: "tree_reach rx (tree_init mem)"
| types: "tree_reach rx st \<Longrightarrow> tree_reach rx (st\<lparr>ts_type := ty, ts_mem := mem\<rparr>)"
| default: "tree_reach rx st \<Longrightarrow> tree_reach rx (fst (tree_set_default_path ok new st))"
| register: "tree_reach rx st \<Longrightarrow> tree_reach rx (fst (register_tree_type rx ty st))"
| path: "tree_reach rx st \<Longrightarrow> tree_reach rx (fst (create_path rx path st))"

lemma tree_ok_cong:
  "ts_node s' = ts_node s \<Longrightarrow> ts_next s' = ts_next s \<Longrightarrow> tree_ok rx s' = tree_ok rx s"
  by (simp add: tree_ok_def kids_ok_def has_parent_def plain_kid_def regex_kid_def cong: ball_cong)

lemma create_path_post:
  assumes "tree_ok rx s" and "create_path rx path s = (s', r)"
  shows "tree_ok rx s'" and "tree_ext s s'" and "\<And>p. r = Some p \<Longrightarrow> p < ts_next s'"
proof -
  have root: "\<forall>b. Some global_root = Some b \<longrightarrow> b < ts_next s" using assms(1) by (simp add: global_root_def)
  have "tree_ok rx s' \<and> tree_ext s s' \<and> (\<forall>p. r = Some p \<longrightarrow> p < ts_next s')"
  proof (cases "path \<noteq> [] \<and> hd path = slash")
    case False
    then have "create_loop rx (Some global_root) path s = (s', r)" using assms(2) by (auto simp: create_path_def)
    from create_loop_post [OF assms(1) root this] show ?thesis .
  next
    case True
    show ?thesis
    proof (cases "ts_default s")
      case None
      then show ?thesis using True assms by (simp add: create_path_def)
    next
      case (Some d)
      obtain s1 p where d: "create_loop rx (Some global_root) d s = (s1, p)" by fastforce
      then have "create_loop rx p path s1 = (s', r)" using assms(2) True Some by (simp add: create_path_def)
      from create_loop_post [OF _ _ this] create_loop_post [OF assms(1) root d] show ?thesis
        by (auto intro: tree_ext_trans)
    qed
  qed
  then show "tree_ok rx s'" and "tree_ext s s'" and "\<And>p. r = Some p \<Longrightarrow> p < ts_next s'" by auto
qed

lemma tree_reach_ok:
  assumes "tree_reach rx st"
  shows "tree_ok rx st"
  using assms
proof (induction rule: tree_reach.induct)
  case (init mem)
  then show ?case
    by (auto simp: tree_ok_def tree_init_def fresh_node_def kids_ok_def)
next
  case (types st ty mem)
  then show ?case by (subst tree_ok_cong [of _ st]) auto
next
  case (default st ok new)
  then show ?case
    by (subst tree_ok_cong [of _ st]) (auto simp: tree_set_default_path_def)
next
  case (register st ty)
  define g where "g = t_type (ts_node st global_root)"
  define st0 where "st0 = st\<lparr>ts_type := (ts_type st)(g := (ts_type st g)\<lparr>tt_child_type := Some ty\<rparr>)\<rparr>"
  obtain s' t where c: "create_one rx global_root (tt_name (ts_type st ty)) st0 = (s', t)" by fastforce
  have "tree_ok rx st0" using register.IH by (subst tree_ok_cong [of _ st]) (auto simp: st0_def)
  then have "tree_ok rx s'"
    using create_one_post(1) [OF _ _ c] by (simp add: global_root_def)
  then show ?case
    using c by (subst tree_ok_cong [of _ s']) (auto simp: register_tree_type_def Let_def st0_def g_def)
next
  case (path st p)
  then show ?case using create_path_post(1) by (metis prod.collapse)
qed

text \<open>C8. Every tree the program can build is well formed, whatever allocations fail: parents have smaller
  numbers than their children (so walks to the root end), children point back to their parent,
  siblings of a kind have different names without slashes, and a node carries a compiled
  expression exactly when it is in the list of regular-expression children. Creating a path keeps
  every existing node with its name, parent, type and expression, and never removes a child.\<close>

theorem name_tree_well_formed:
  assumes "tree_reach rx st"
  shows "tree_ok rx st \<and> tree_ext st (fst (create_path rx path st))"
  using tree_reach_ok [OF assms] create_path_post(2) by (metis prod.collapse)

definition demo_rx :: regex_lib where
  "demo_rx = \<lparr>re_comp = (\<lambda>_. True), re_exec = (=), re_null = (\<lambda>_. False)\<rparr>"

theorem name_tree_well_formed_witness:
  "tree_ok demo_rx (tree_init 9) \<and> snd (create_path demo_rx ''fs/home'' (tree_init 9)) = Some 3"
proof -
  have "snd (create_path demo_rx ''fs/home'' (tree_init 9)) = Some 3" by code_simp
  with name_tree_well_formed [OF tree_reach.init, of demo_rx 9 "''fs/home''"] show ?thesis by simp
qed

text \<open>C10. A path without regular expressions that was created is found again, in the tree that results and
  in every later one: \<open>find_path\<close> returns the node that \<open>create_path\<close> returned, after at most one
  iteration more than the path has characters. For a path that begins with a slash this needs the
  path of the primary tree to be free of regular expressions, too.\<close>

theorem create_path_then_find_path:
  assumes "tree_reach rx s" and "create_path rx path s = (s', Some p)" and "plain_path path"
    and "path \<noteq> [] \<and> hd path = slash \<longrightarrow> (\<exists>d. ts_default s = Some d \<and> plain_path d \<and> length d < n)"
    and "tree_ok rx s2" and "tree_ext s' s2" and "length path < n"
  shows "find_path n rx s2 path = Some (Some p)"
proof -
  have ok: "tree_ok rx s" using tree_reach_ok [OF assms(1)] .
  have root: "\<forall>b. Some global_root = Some b \<longrightarrow> b < ts_next s" using ok by (simp add: global_root_def)
  have def_eq: "ts_default s2 = ts_default s"
    using create_path_post(2) [OF ok assms(2)] assms(6) by (simp add: tree_ext_def)
  show ?thesis
  proof (cases "path \<noteq> [] \<and> hd path = slash")
    case False
    then have "create_loop rx (Some global_root) path s = (s', Some p)" using assms(2) by (auto simp: create_path_def)
    from create_then_find [OF ok _ assms(3) this assms(5,6,7)] root False show ?thesis
      by (auto simp: find_path_def)
  next
    case True
    with assms(4) obtain d where d: "ts_default s = Some d" "plain_path d" "length d < n" by auto
    obtain s1 q where c: "create_loop rx (Some global_root) d s = (s1, q)" by fastforce
    with assms(2) True d(1) have l: "create_loop rx q path s1 = (s', Some p)" by (simp add: create_path_def)
    then obtain b where q: "q = Some b" by (cases q) auto
    note post = create_loop_post [OF ok root c]
    have ext: "tree_ext s1 s2"
      using create_loop_post [OF _ _ l] post q assms(6) by (auto intro: tree_ext_trans)
    have "find_loop n rx s2 (Some global_root) d = Some (Some b)"
      using create_then_find [OF ok _ d(2) c [unfolded q] assms(5) ext d(3)] root by simp
    moreover have "find_loop n rx s2 (Some b) path = Some (Some p)"
      using create_then_find [OF _ _ assms(3) l [unfolded q] assms(5,6,7)] post q by simp
    ultimately show ?thesis using True d(1) def_eq by (simp add: find_path_def)
  qed
qed

theorem create_path_then_find_path_witness:
  "find_path 8 demo_rx (fst (create_path demo_rx ''fs/home'' (tree_init 9))) ''fs/home'' \<noteq> None
   \<and> (\<exists>p. find_path 9 demo_rx (fst (create_path demo_rx ''fs/home'' (tree_init 9))) ''fs/home'' = Some (Some p))"
proof -
  obtain s' r where c: "create_path demo_rx ''fs/home'' (tree_init 9) = (s', r)" by fastforce
  have "snd (create_path demo_rx ''fs/home'' (tree_init 9)) = Some 3" by code_simp
  then have "r = Some 3" using c by simp
  with c have c: "create_path demo_rx ''fs/home'' (tree_init 9) = (s', Some 3)" by simp
  have p: "plain_path ''fs/home''" by code_simp
  have "tree_ok demo_rx s'"
    using create_path_post(1) [OF tree_reach_ok [OF tree_reach.init] c] .
  with create_path_then_find_path [OF tree_reach.init c p _ this tree_ext_refl, of 9]
  have "find_path 9 demo_rx s' ''fs/home'' = Some (Some 3)" by (simp add: slash_def)
  moreover have "find_path 8 demo_rx (fst (create_path demo_rx ''fs/home'' (tree_init 9))) ''fs/home'' \<noteq> None"
    by code_simp
  ultimately show ?thesis using c by simp
qed

text \<open>The first \<open>k\<close> iterations of the loop of \<open>find_path\<close>.\<close>

fun find_walk :: "nat \<Rightarrow> regex_lib \<Rightarrow> tree_state \<Rightarrow> nat \<Rightarrow> string \<Rightarrow> (nat \<times> string) option" where
  "find_walk 0 rx st b path = Some (b, path)"
| "find_walk (Suc k) rx st b path =
     (if path = [] then None
      else (case find_one2 rx st b path of (Some q, path') \<Rightarrow> find_walk k rx st q path' | (None, _) \<Rightarrow> None))"

lemma find_walk_loop:
  assumes "find_walk k rx st b path = Some (q, rest)" and "\<forall>n. find_loop n rx st (Some q) rest = None"
  shows "find_loop n rx st (Some b) path = None"
  using assms(1)
proof (induction k arbitrary: b path n)
  case 0
  then show ?case using assms(2) by simp
next
  case (Suc k)
  then show ?case by (cases n) (auto split: if_splits prod.splits option.splits)
qed

text \<open>C40. \<open>find_path\<close> does not return for a path that goes on below a node without children: when its loop
  has reached such a node and something other than slashes is left of the path, \<open>find_one2\<close>
  returns the node itself without consuming a component, for ever. Every node for \<open>.*\<close> that the
  program creates by itself is such a node, so that with \<open>fs\<close> the only created path, looking up
  \<open>fs/x/y\<close> (as the language's \<open>enter\<close> does) hangs.\<close>

theorem find_path_diverges_below_leaf:
  assumes "path \<noteq> [] \<longrightarrow> hd path \<noteq> slash"
    and "find_walk k rx st global_root path = Some (b, rest)"
    and "leaf (ts_node st b)" and "skip_slashes rest \<noteq> []"
  shows "\<forall>n. find_path n rx st path = None"
  using find_walk_loop [OF assms(2)] find_loop_leaf [OF assms(3,4)] assms(1) by (auto simp: find_path_def)

theorem find_path_diverges_below_leaf_witness:
  "\<forall>n. find_path n demo_rx (fst (create_path demo_rx ''fs'' (tree_init 9))) ''fs/x/y'' = None"
proof (rule find_path_diverges_below_leaf)
  let ?t = "fst (create_path demo_rx ''fs'' (tree_init 9))"
  show "''fs/x/y'' \<noteq> [] \<longrightarrow> hd ''fs/x/y'' \<noteq> slash" by (simp add: slash_def)
  show "find_walk 2 demo_rx ?t global_root ''fs/x/y'' = Some (2, ''/y'')" by code_simp
  show "leaf (ts_node ?t 2)" by code_simp
  show "skip_slashes ''/y'' \<noteq> []" by code_simp
qed

text \<open>C18. \<open>tree_is_equal\<close> and \<open>tree_is_offspring\<close> decide the relation of alternatives: the first whether
  \<open>test\<close> is an alternative of \<open>p\<close>, that is, whether their paths have equal length and match level by
  level; the second whether \<open>test\<close> is an alternative of \<open>p\<close> or lies below one.\<close>

theorem tree_alternatives_decided:
  assumes "tree_reach rx st" and "p < ts_next st" and "test < ts_next st"
  shows "(tree_is_equal rx st test p \<longleftrightarrow> alt_of rx st test p)
    \<and> (tree_is_offspring rx st test p \<longleftrightarrow> (\<exists>a. alt_of rx st a p \<and> (test, a) \<in> (parent_rel st)\<^sup>*))"
  using tree_for_alternatives_iff [OF tree_reach_ok [OF assms(1)] assms(2)]
    tree_ancestors_iff [OF tree_reach_ok [OF assms(1)] assms(3) assms(3)]
  by (auto simp: tree_is_equal_def tree_is_offspring_def list_ex_iff)

theorem tree_alternatives_decided_witness:
  "alt_of demo_rx (fst (create_path demo_rx ''fs'' (tree_init 9))) 1 1"
proof -
  let ?t = "fst (create_path demo_rx ''fs'' (tree_init 9))"
  have "tree_reach demo_rx ?t" by (intro tree_reach.path tree_reach.init)
  moreover have "ts_next ?t = 3" by code_simp
  ultimately have "tree_is_equal demo_rx ?t 1 1 \<longleftrightarrow> alt_of demo_rx ?t 1 1"
    using tree_alternatives_decided [of demo_rx ?t 1 1] by simp
  moreover have "tree_is_equal demo_rx ?t 1 1" by code_simp
  ultimately show ?thesis by simp
qed

subsection \<open>Expanding alternatives keeps the tree\<close>

definition tree_step :: "regex_lib \<Rightarrow> tree_state \<Rightarrow> tree_state \<Rightarrow> bool" where
  "tree_step rx s s' \<longleftrightarrow> (tree_ok rx s \<longrightarrow> tree_ok rx s' \<and> tree_ext s s')"

lemma tree_step_refl [simp]: "tree_step rx s s"
  by (simp add: tree_step_def)

lemma tree_step_trans: "tree_step rx a b \<Longrightarrow> tree_step rx b c \<Longrightarrow> tree_step rx a c"
  by (auto simp: tree_step_def intro: tree_ext_trans)

text \<open>A fold of steps that stops at a failure.\<close>

lemma fold_step:
  assumes "\<And>x m s'. x \<in> set xs \<Longrightarrow> f x m = Some s' \<Longrightarrow>
      \<exists>s. m = Some s \<and> (tree_ok rx s \<and> P s \<longrightarrow> tree_step rx s s')"
    and "\<And>s s'. P s \<Longrightarrow> tree_ext s s' \<Longrightarrow> P s'"
    and "fold f xs (Some s) = Some s'" and "tree_ok rx s" and "P s"
  shows "tree_step rx s s'"
proof -
  have earlier: "\<exists>s. m = Some s" if "fold f ys m = Some s'" "set ys \<subseteq> set xs" for ys m s'
    using that
  proof (induction ys arbitrary: m)
    case (Cons y ys)
    then obtain s1 where "f y m = Some s1" by fastforce
    with assms(1) [of y m s1] Cons.prems(2) show ?case by auto
  qed simp
  have "tree_step rx s s'" if "fold f ys (Some s) = Some s'" "set ys \<subseteq> set xs" "tree_ok rx s" "P s" for ys s
    using that
  proof (induction ys arbitrary: s)
    case (Cons y ys)
    then obtain s1 where s1: "f y (Some s) = Some s1"
      using earlier [of ys "f y (Some s)" s'] by auto
    with assms(1) [of y "Some s" s1] Cons.prems have st: "tree_step rx s s1" by auto
    then have "tree_ok rx s1" "tree_ext s s1" using Cons.prems(3) by (auto simp: tree_step_def)
    with Cons.IH [of s1] s1 Cons.prems assms(2) [of s s1] st show ?case by (auto intro: tree_step_trans)
  qed simp
  with assms(3-5) show ?thesis by blast
qed

lemma handlers_step:
  "tree_step rx s (upd_node t (\<lambda>x. x\<lparr>t_subject_handlers := f x, t_object_handlers := g x\<rparr>) s)"
proof -
  let ?s = "upd_node t (\<lambda>x. x\<lparr>t_subject_handlers := f x, t_object_handlers := g x\<rparr>) s"
  have n: "t_parent (ts_node ?s p) = t_parent (ts_node s p)" "t_child (ts_node ?s p) = t_child (ts_node s p)"
    "t_regex (ts_node ?s p) = t_regex (ts_node s p)" "t_name (ts_node ?s p) = t_name (ts_node s p)"
    "t_comp (ts_node ?s p) = t_comp (ts_node s p)" "t_type (ts_node ?s p) = t_type (ts_node s p)" for p
    by (auto simp: upd_node_def)
  have m: "ts_next ?s = ts_next s" "ts_type ?s = ts_type s" "ts_default ?s = ts_default s"
    by (auto simp: upd_node_def)
  have "plain_kid ?s = plain_kid s" "regex_kid rx ?s = regex_kid rx s" "has_parent ?s = has_parent s"
    by (simp_all add: fun_eq_iff plain_kid_def regex_kid_def has_parent_def n m)
  then have "kids_ok rx ?s = kids_ok rx s" by (simp add: fun_eq_iff kids_ok_def n)
  then show ?thesis using \<open>has_parent ?s = has_parent s\<close> by (simp add: tree_step_def tree_ok_def tree_ext_def n m)
qed

definition below_next :: "nat list \<Rightarrow> tree_state \<Rightarrow> bool" where
  "below_next xs s \<longleftrightarrow> (\<forall>x \<in> set xs. x < ts_next s \<and> name_ok (t_name (ts_node s x)))"

lemma below_next_ext: "below_next xs s \<Longrightarrow> tree_ext s s' \<Longrightarrow> below_next xs s'"
  by (auto simp: below_next_def tree_ext_name dest: tree_ext_next)

lemma below_next_kids:
  assumes "tree_ok rx s" and "b < ts_next s"
  shows "below_next (t_child (ts_node s b)) s" and "below_next (t_regex (ts_node s b)) s"
  using tree_ok_child [OF assms] tree_ok_regex [OF assms] by (auto simp: below_next_def plain_kid_def regex_kid_def)

lemma tree_node_merge_step:
  "tree_node_merge n rx r t s = Some s' \<Longrightarrow> tree_ok rx s \<Longrightarrow> r < ts_next s \<Longrightarrow> t < ts_next s \<Longrightarrow> tree_step rx s s'"
proof (induction n arbitrary: r t s s')
  case (Suc n)
  define s1 where "s1 = upd_node t (\<lambda>x. x\<lparr>t_subject_handlers :=
      add_event_handlers (t_subject_handlers (ts_node s r)) (t_subject_handlers x),
      t_object_handlers := add_event_handlers (t_object_handlers (ts_node s r)) (t_object_handlers x)\<rparr>) s"
  define visit where "visit = (\<lambda>regexp rc m. Option.bind m (\<lambda>st.
      case create_one_i rx t (t_name (ts_node st rc)) regexp st of
        (st', None) \<Rightarrow> Some st' | (st', Some tc) \<Rightarrow> tree_node_merge n rx rc tc st'))"
  have step1: "tree_step rx s s1" unfolding s1_def by (rule handlers_step)
  then have ok1: "tree_ok rx s1" "tree_ext s s1" using Suc.prems(2) by (auto simp: tree_step_def)
  let ?P = "\<lambda>xs st. t < ts_next st \<and> below_next xs st"
  have visit: "\<exists>st. m = Some st \<and> (tree_ok rx st \<and> ?P xs st \<longrightarrow> tree_step rx st st')"
    if "x \<in> set xs" "visit re x m = Some st'" for re x m xs st'
  proof -
    from that(2) obtain st where m: "m = Some st" by (cases m) (auto simp: visit_def)
    obtain st1 q where c: "create_one_i rx t (t_name (ts_node st x)) re st = (st1, q)" by fastforce
    have "tree_step rx st st'" if ok: "tree_ok rx st" and P: "?P xs st"
    proof -
      have nm: "name_ok (t_name (ts_node st x))" and x: "x < ts_next st"
        using P \<open>x \<in> set xs\<close> by (auto simp: below_next_def)
      have t: "t < ts_next st" using P by simp
      from create_one_i_post [OF ok t nm c]
      have p: "tree_ok rx st1" "tree_ext st st1" and q: "\<And>tc. q = Some tc \<Longrightarrow> tc \<in> set (kid_list st1 t re)"
        by (auto simp: create_post_def)
      have t1: "t < ts_next st1" using p t tree_ext_next by blast
      have "tc < ts_next st1" if "q = Some tc" for tc
        using q [OF that] below_next_kids [OF p(1) t1] by (auto simp: kid_list_def below_next_def split: if_splits)
      then have "tree_step rx st1 st'"
        using \<open>visit re x m = Some st'\<close> m c p x Suc.IH [of x _ st1 st'] tree_ext_next [OF p(2) x]
        by (auto simp: visit_def split: option.splits)
      then show ?thesis using p by (auto simp: tree_step_def intro: tree_ext_trans)
    qed
    with m show ?thesis by blast
  qed
  have f: "fold (visit True) (t_regex (ts_node s r)) (fold (visit False) (t_child (ts_node s r)) (Some s1)) = Some s'"
    using Suc.prems(1) by (simp add: Let_def s1_def visit_def)
  have none: "fold (visit re) xs None = None" for re xs by (induction xs) (simp_all add: visit_def)
  from f obtain s2 where s2: "fold (visit False) (t_child (ts_node s r)) (Some s1) = Some s2"
    by (cases "fold (visit False) (t_child (ts_node s r)) (Some s1)") (simp_all add: none)
  have P0: "?P (t_child (ts_node s r)) s1" "?P (t_regex (ts_node s r)) s1"
    using below_next_kids [OF Suc.prems(2,3)] ok1(2) Suc.prems(4) tree_ext_next below_next_ext by blast+
  have keep: "?P xs a \<Longrightarrow> tree_ext a b \<Longrightarrow> ?P xs b" for xs a b using below_next_ext tree_ext_next by blast
  have step2: "tree_step rx s1 s2"
    by (rule fold_step [where P = "?P (t_child (ts_node s r))", OF visit keep s2 ok1(1) P0(1)])
  then have ok2: "tree_ok rx s2" "tree_ext s1 s2" using ok1 by (auto simp: tree_step_def)
  have "tree_step rx s2 s'"
    by (rule fold_step [where P = "?P (t_regex (ts_node s r))", OF visit keep f [unfolded s2] ok2(1) keep [OF P0(2) ok2(2)]])
  with step1 step2 show ?case by (blast intro: tree_step_trans)
qed simp

lemma apply_regex_child_step:
  assumes "apply_regex_child n rx dir r m = Some s'"
  shows "\<exists>s. m = Some s \<and> (tree_ok rx s \<and> dir < ts_next s \<and> r < ts_next s \<longrightarrow> tree_step rx s s')"
proof -
  from assms obtain s where m: "m = Some s" by (cases m) (auto simp: apply_regex_child_def)
  have "tree_step rx s s'" if ok: "tree_ok rx s" and lt: "dir < ts_next s" "r < ts_next s"
  proof -
    define f where "f = (\<lambda>t m. Option.bind m (\<lambda>st.
      if regcmp rx (t_comp (ts_node st r)) (t_name (ts_node st t)) then tree_node_merge n rx r t st else Some st))"
    have f: "fold f (t_child (ts_node s dir)) (Some s) = Some s'"
      using assms m by (simp add: apply_regex_child_def f_def)
    let ?P = "\<lambda>st. r < ts_next st \<and> below_next (t_child (ts_node s dir)) st"
    have keep: "?P a \<Longrightarrow> tree_ext a b \<Longrightarrow> ?P b" for a b using below_next_ext tree_ext_next by blast
    show ?thesis
    proof (rule fold_step [where P = ?P, OF _ keep f ok])
      fix x m st' assume x: "x \<in> set (t_child (ts_node s dir))" "f x m = Some st'"
      then obtain st where "m = Some st" by (cases m) (auto simp: f_def)
      then show "\<exists>st. m = Some st \<and> (tree_ok rx st \<and> ?P st \<longrightarrow> tree_step rx st st')"
        using x tree_node_merge_step [of n rx r x st st'] by (auto simp: f_def below_next_def split: if_splits)
    qed (use below_next_kids(1) [OF ok lt(1)] lt(2) in auto)
  qed
  with m show ?thesis by blast
qed

lemma tree_apply_alts_step:
  "tree_apply_alts n rx dir s = Some s' \<Longrightarrow> tree_ok rx s \<Longrightarrow> dir < ts_next s \<Longrightarrow> tree_step rx s s'"
proof (induction n arbitrary: dir s s')
  case (Suc n)
  define rs where "rs = t_regex (ts_node s dir)"
  define al where "al = List.find (\<lambda>r. t_comp (ts_node s r) = AnyRegex) (rev rs)"
  define m1 where "m1 = fold (apply_regex_child n rx dir) rs (Some s)"
  define g where "g a = (\<lambda>t m. if t \<noteq> a then Option.bind m (tree_node_merge n rx a t) else m)" for a
  define m2 where "m2 = (case al of None \<Rightarrow> m1 | Some a \<Rightarrow> fold (g a) rs m1)"
  define h where "h = (\<lambda>t m. Option.bind m (tree_apply_alts n rx t))"
  have e: "tree_apply_alts (Suc n) rx dir s = Option.bind m2 (\<lambda>st2.
      fold h (t_child (ts_node st2 dir) @ t_regex (ts_node st2 dir)) (Some st2))"
    by (simp only: tree_apply_alts.simps Let_def rs_def al_def m1_def g_def m2_def h_def)
  obtain s2 where s2: "m2 = Some s2"
    and s': "fold h (t_child (ts_node s2 dir) @ t_regex (ts_node s2 dir)) (Some s2) = Some s'"
    using Suc.prems(1) unfolding e by (cases m2) auto
  have noneg: "fold (g a) xs None = None" for a xs by (induction xs) (auto simp: g_def)
  obtain s1 where s1: "m1 = Some s1" using s2 noneg by (cases m1) (auto simp: m2_def split: option.splits)
  have rs: "below_next rs s" using below_next_kids(2) [OF Suc.prems(2,3)] by (simp add: rs_def)
  let ?P = "\<lambda>xs st. dir < ts_next st \<and> below_next xs st"
  have keep: "?P xs a \<Longrightarrow> tree_ext a b \<Longrightarrow> ?P xs b" for xs a b using below_next_ext tree_ext_next by blast
  have step1: "tree_step rx s s1"
  proof (rule fold_step [where P = "?P rs", OF _ keep s1 [unfolded m1_def] Suc.prems(2)])
    fix x m st' assume "x \<in> set rs" "apply_regex_child n rx dir x m = Some st'"
    then show "\<exists>st. m = Some st \<and> (tree_ok rx st \<and> ?P rs st \<longrightarrow> tree_step rx st st')"
      using apply_regex_child_step [of n rx dir x m st'] by (auto simp: below_next_def)
  qed (use rs Suc.prems(3) in auto)
  then have ok1: "tree_ok rx s1" "tree_ext s s1" using Suc.prems(2) by (auto simp: tree_step_def)
  have step2: "tree_step rx s1 s2"
  proof (cases al)
    case None
    then show ?thesis using s1 s2 by (simp add: m2_def)
  next
    case (Some a)
    then have a: "a \<in> set rs" using find_Some_conv by (fastforce simp: al_def)
    have f: "fold (g a) rs (Some s1) = Some s2" using Some s1 s2 by (simp add: m2_def)
    show ?thesis
    proof (rule fold_step [where P = "?P rs", OF _ keep f ok1(1)])
      fix x m st' assume x: "x \<in> set rs" "g a x m = Some st'"
      then obtain st where m: "m = Some st" by (cases m) (auto simp: g_def split: if_splits)
      show "\<exists>st. m = Some st \<and> (tree_ok rx st \<and> ?P rs st \<longrightarrow> tree_step rx st st')"
        using x m a tree_node_merge_step [of n rx a x st st'] by (auto simp: g_def below_next_def split: if_splits)
    qed (use keep [OF conjI [OF Suc.prems(3) rs] ok1(2)] in auto)
  qed
  then have ok2: "tree_ok rx s2" "tree_ext s1 s2" using ok1 by (auto simp: tree_step_def)
  have lt2: "dir < ts_next s2" using Suc.prems(3) ok1 ok2 tree_ext_next by blast
  let ?xs = "t_child (ts_node s2 dir) @ t_regex (ts_node s2 dir)"
  have xs: "below_next ?xs s2" using below_next_kids [OF ok2(1) lt2] by (auto simp: below_next_def)
  have "tree_step rx s2 s'"
  proof (rule fold_step [where P = "?P ?xs", OF _ keep s' ok2(1)])
    fix x m st' assume x: "x \<in> set ?xs" "h x m = Some st'"
    then obtain st where m: "m = Some st" by (cases m) (auto simp: h_def)
    show "\<exists>st. m = Some st \<and> (tree_ok rx st \<and> ?P ?xs st \<longrightarrow> tree_step rx st st')"
      using x m Suc.IH [of x st st'] by (auto simp: h_def below_next_def)
  qed (use xs lt2 in auto)
  with step1 step2 show ?case by (blast intro: tree_step_trans)
qed simp



end
