(* ===== verification/Spaces.thy ===== *)
theory Spaces
  imports Tree_Inv
begin

text \<open>
  Virtual spaces (\<open>space.c\<close>, \<open>space.h\<close>): their list, the evaluation of their members over the name
  tree, their identifiers and the events that name them. Spaces are cells of a store; the list
  \<open>global_spaces\<close> has its head first. The functions that evaluate membership recurse over other
  spaces and over the tree without a bound of their own, so they take a bound on the depth of the
  calls: \<open>None\<close> is a recursion deeper than that, \<open>Some (Fatal m)\<close> the exit by \<open>fatal()\<close>.
\<close>

datatype space_ref = NoSpace | AllSpaces | Sp nat

record ltree_s =
  lt_type :: "32 word"
  lt_ref :: nat

record levent_s =
  le_handler :: nat
  le_subject :: space_ref
  le_object :: space_ref

record space_s =
  sp_vs :: "nat \<Rightarrow> vs"
  sp_vs_id :: vs
  sp_levent :: "levent_s list"
  sp_ltree :: "ltree_s list"
  sp_primary :: bool
  sp_processed :: bool
  sp_used :: bool
  sp_members :: "nat list"
  sp_name :: string

record space_state =
  ss_list :: "nat list"
  ss_space :: "nat \<Rightarrow> space_s"
  ss_next :: nat
  ss_tree :: tree_state
  ss_vs_cnt :: nat

definition LTREE_EXCLUDE :: "32 word" where "LTREE_EXCLUDE = 0x01"
definition LTREE_T_MASK :: "32 word" where "LTREE_T_MASK = 0x02"
definition LTREE_T_TREE :: "32 word" where "LTREE_T_TREE = 0x00"
definition LTREE_T_SPACE :: "32 word" where "LTREE_T_SPACE = 0x02"
definition LTREE_RECURSIVE :: "32 word" where "LTREE_RECURSIVE = 0x80"
definition MAX_SPACE_PATH :: nat where "MAX_SPACE_PATH = 32"
definition ANON_SPACE_NAME :: string where "ANON_SPACE_NAME = ''?''"

lemmas ltree_consts = LTREE_EXCLUDE_def LTREE_T_MASK_def LTREE_T_TREE_def LTREE_T_SPACE_def LTREE_RECURSIVE_def

definition lt_is_tree :: "ltree_s \<Rightarrow> bool" where "lt_is_tree l \<longleftrightarrow> lt_type l AND LTREE_T_MASK = LTREE_T_TREE"
definition lt_excl :: "ltree_s \<Rightarrow> bool" where "lt_excl l \<longleftrightarrow> lt_type l AND LTREE_EXCLUDE \<noteq> 0"
definition lt_rec :: "ltree_s \<Rightarrow> bool" where "lt_rec l \<longleftrightarrow> lt_type l AND LTREE_RECURSIVE \<noteq> 0"

definition upd_space :: "nat \<Rightarrow> (space_s \<Rightarrow> space_s) \<Rightarrow> space_state \<Rightarrow> space_state" where
  "upd_space s f st = st\<lparr>ss_space := (ss_space st)(s := f (ss_space st s))\<rparr>"

subsection \<open>The list of spaces\<close>

definition space_find :: "string \<Rightarrow> space_state \<Rightarrow> nat option" where
  "space_find name st = List.find (\<lambda>s. strcmp (sp_name (ss_space st s)) name = 0) (ss_list st)"

definition space_create :: "bool \<Rightarrow> string option \<Rightarrow> bool \<Rightarrow> space_state \<Rightarrow> space_state \<times> nat option" where
  "space_create ok name primary st =
     (case (case name of Some n \<Rightarrow> space_find n st | None \<Rightarrow> None) of
        Some _ \<Rightarrow> (st, None)
      | None \<Rightarrow>
          if \<not> ok then (st, None)
          else let t = ss_next st in
            (st\<lparr>ss_space := (ss_space st)(t :=
                 \<lparr>sp_vs = \<lambda>_. vs_clear, sp_vs_id = vs_clear, sp_levent = [], sp_ltree = [], sp_primary = primary,
                  sp_processed = False, sp_used = False, sp_members = [],
                  sp_name = (case name of Some n \<Rightarrow> n | None \<Rightarrow> ANON_SPACE_NAME)\<rparr>),
                ss_next := Suc t, ss_list := t # ss_list st\<rparr>, Some t))"

definition space_destroy :: "nat \<Rightarrow> space_state \<Rightarrow> space_state outcome" where
  "space_destroy s st =
     (if s \<notin> set (ss_list st) then Fatal (''Space is not in the global space list.'')
      else Ret (st\<lparr>ss_list := remove1 s (ss_list st)\<rparr>))"

definition new_path :: "bool \<Rightarrow> nat \<Rightarrow> 32 word \<Rightarrow> ltree_s list \<Rightarrow> ltree_s list option" where
  "new_path ok ref ty head = (if ok then Some (\<lparr>lt_type = ty, lt_ref = ref\<rparr> # head) else None)"

definition new_levent :: "bool \<Rightarrow> nat \<Rightarrow> space_ref \<Rightarrow> space_ref \<Rightarrow> levent_s list \<Rightarrow> levent_s list option" where
  "new_levent ok h subject object head =
     (if ok then Some (\<lparr>le_handler = h, le_subject = subject, le_object = object\<rparr> # head) else None)"

text \<open>\<open>None\<close> as the second argument is the null pointer.\<close>

definition space_add_path :: "bool \<Rightarrow> nat option \<Rightarrow> 32 word \<Rightarrow> nat \<Rightarrow> space_state \<Rightarrow> space_state \<times> int" where
  "space_add_path ok path_or_space ty space st =
     (case path_or_space of
        None \<Rightarrow> (st, -1)
      | Some r \<Rightarrow>
          (case new_path ok r ty (sp_ltree (ss_space st space)) of
             None \<Rightarrow> (st, -1)
           | Some l \<Rightarrow> (upd_space space (\<lambda>s. s\<lparr>sp_ltree := l\<rparr>) st, 0)))"

subsection \<open>Identifiers of spaces\<close>

definition space_add_vs :: "nat \<Rightarrow> int \<Rightarrow> vs \<Rightarrow> space_state \<Rightarrow> space_state \<times> int" where
  "space_add_vs subj access obj_vs st =
     (if access < 0 \<or> int NR_ACCESS_TYPES \<le> access then (st, -1)
      else (upd_space subj (\<lambda>s. s\<lparr>sp_vs := (sp_vs s)(nat access := vs_add obj_vs (sp_vs s (nat access)))\<rparr>) st, 0))"

definition space_get_vs :: "space_ref \<Rightarrow> space_state \<Rightarrow> (space_state \<times> vs_ref) outcome" where
  "space_get_vs r st =
     (case r of
        NoSpace \<Rightarrow> Ret (st, NoVs)
      | AllSpaces \<Rightarrow> Ret (st, AllObj)
      | Sp s \<Rightarrow>
          if \<not> vs_isclear (sp_vs_id (ss_space st s)) then Ret (st, Vs (sp_vs_id (ss_space st s)))
          else (case vs_alloc (ss_vs_cnt st) of
                  None \<Rightarrow> Fatal (''OOM while allocating a new space identificator in the VS model'')
                | Some (cnt, v) \<Rightarrow>
                    Ret (upd_space s (\<lambda>x. x\<lparr>sp_vs_id := v, sp_used := True,
                                          sp_vs := (sp_vs x)(AT_MEMBER := vs_add v (sp_vs x AT_MEMBER))\<rparr>)
                           (st\<lparr>ss_vs_cnt := cnt\<rparr>), Vs v)))"

subsection \<open>Evaluation of members\<close>

text \<open>\<open>space_path_add\<close>: the trace \<open>sp\<close> has its oldest space first.\<close>

definition space_path_add :: "nat list \<Rightarrow> nat \<Rightarrow> space_state \<Rightarrow> (nat list \<times> space_state) outcome" where
  "space_path_add sp space st =
     (let st = upd_space space (\<lambda>s. s\<lparr>sp_used := True\<rparr>) st in
      if space \<in> set sp then Fatal ''Infinite loop in spaces!''
      else if MAX_SPACE_PATH \<le> length sp then Fatal ''Too many nested spaces!''
      else Ret (sp @ [space], st))"

text \<open>A loop whose body may leave the function: \<open>Some r\<close> is a return of \<open>r\<close>.\<close>

type_synonym ('a, 's) run = "('a \<times> 's) outcome option"

fun each_until :: "('x \<Rightarrow> 's \<Rightarrow> ('r option, 's) run) \<Rightarrow> 'x list \<Rightarrow> 's \<Rightarrow> ('r option, 's) run" where
  "each_until body [] s = Some (Ret (None, s))"
| "each_until body (x # xs) s =
     (case body x s of
        None \<Rightarrow> None
      | Some (Fatal m) \<Rightarrow> Some (Fatal m)
      | Some (Ret (Some r, s')) \<Rightarrow> Some (Ret (Some r, s'))
      | Some (Ret (None, s')) \<Rightarrow> each_until body xs s')"

fun map_run :: "('a \<Rightarrow> 'b) \<Rightarrow> ('a, 's) run \<Rightarrow> ('b, 's) run" where
  "map_run f None = None"
| "map_run f (Some (Fatal m)) = Some (Fatal m)"
| "map_run f (Some (Ret (a, s))) = Some (Ret (f a, s))"

fun bind_run :: "('a, 's) run \<Rightarrow> ('a \<Rightarrow> 's \<Rightarrow> ('b, 's) run) \<Rightarrow> ('b, 's) run" where
  "bind_run None f = None"
| "bind_run (Some (Fatal m)) f = Some (Fatal m)"
| "bind_run (Some (Ret (a, s))) f = f a s"

text \<open>\<open>is_excluded_i\<close>: \<open>inc\<close> is the call of \<open>is_included\<close> on a space with the recursion flag. The
  accumulator of the loop is the variable \<open>r\<close>; the loop is left once it is 2.\<close>

fun excluded_loop ::
  "(nat \<Rightarrow> bool \<Rightarrow> space_state \<Rightarrow> (bool, space_state) run) \<Rightarrow> regex_lib \<Rightarrow> nat \<Rightarrow> ltree_s list \<Rightarrow> nat
     \<Rightarrow> space_state \<Rightarrow> (nat, space_state) run" where
  "excluded_loop inc rx test [] r st = Some (Ret (r, st))"
| "excluded_loop inc rx test (l # ls) r st =
     (if lt_is_tree l then
        (if lt_excl l \<and> tree_is_equal rx (ss_tree st) test (lt_ref l)
         then Some (Ret (if lt_rec l then 2 else 1, st))
         else if lt_excl l \<and> lt_rec l \<and> tree_is_offspring rx (ss_tree st) test (lt_ref l)
         then Some (Ret (2, st))
         else if 1 < r then Some (Ret (r, st)) else excluded_loop inc rx test ls r st)
      else if lt_excl l then
        bind_run (inc (lt_ref l) (lt_rec l) st)
          (\<lambda>b st. let r = (if b then (if lt_rec l then 2 else 1) else r) in
             if 1 < r then Some (Ret (r, st)) else excluded_loop inc rx test ls r st)
      else if 1 < r then Some (Ret (r, st)) else excluded_loop inc rx test ls r st)"

definition is_excluded_i ::
  "(nat \<Rightarrow> bool \<Rightarrow> space_state \<Rightarrow> (bool, space_state) run) \<Rightarrow> regex_lib \<Rightarrow> nat \<Rightarrow> nat
     \<Rightarrow> space_state \<Rightarrow> (nat, space_state) run" where
  "is_excluded_i inc rx test space st = excluded_loop inc rx test (sp_ltree (ss_space st space)) 0 st"

fun path_exclude_loop ::
  "(nat \<Rightarrow> bool \<Rightarrow> space_state \<Rightarrow> (bool, space_state) run) \<Rightarrow> regex_lib \<Rightarrow> nat \<Rightarrow> nat list \<Rightarrow> nat
     \<Rightarrow> space_state \<Rightarrow> (nat, space_state) run" where
  "path_exclude_loop inc rx test [] r st = Some (Ret (r, st))"
| "path_exclude_loop inc rx test (s # sp) r st =
     bind_run (is_excluded_i inc rx test s st)
       (\<lambda>rn st. let r = max rn r in
          if 1 < r then Some (Ret (r, st)) else path_exclude_loop inc rx test sp r st)"

definition space_path_exclude ::
  "(nat \<Rightarrow> bool \<Rightarrow> space_state \<Rightarrow> (bool, space_state) run) \<Rightarrow> regex_lib \<Rightarrow> nat list \<Rightarrow> nat
     \<Rightarrow> space_state \<Rightarrow> (nat, space_state) run" where
  "space_path_exclude inc rx sp test st = path_exclude_loop inc rx test sp 0 st"

text \<open>\<open>is_included_i\<close>: the trace is shared by the calls, so the state of a run is the trace and the
  spaces. Nothing is ever removed from the trace.\<close>

definition lift_sp :: "(nat, space_state) run \<Rightarrow> nat list \<Rightarrow> (nat, nat list \<times> space_state) run" where
  "lift_sp m sp = (case m of None \<Rightarrow> None | Some (Fatal e) \<Rightarrow> Some (Fatal e) | Some (Ret (a, st)) \<Rightarrow> Some (Ret (a, (sp, st))))"

fun is_included_i ::
  "nat \<Rightarrow> regex_lib \<Rightarrow> nat \<Rightarrow> nat \<Rightarrow> bool \<Rightarrow> nat list \<times> space_state \<Rightarrow> (bool, nat list \<times> space_state) run" where
  "is_included_i 0 rx test space force s = None"
| "is_included_i (Suc n) rx test space force (sp, st) =
     (case space_path_add sp space st of
        Fatal m \<Rightarrow> Some (Fatal m)
      | Ret s1 \<Rightarrow>
          let inc = (\<lambda>sub rec st. case is_included_i n rx test sub rec ([], st) of
                       None \<Rightarrow> None | Some (Fatal m) \<Rightarrow> Some (Fatal m)
                     | Some (Ret (b, (_, st'))) \<Rightarrow> Some (Ret (b, st')));
              not_excluded = (\<lambda>(sp, st). map_run (\<lambda>r. Some (r = 0)) (lift_sp (space_path_exclude inc rx sp test st) sp));
              body = (\<lambda>l (sp, st).
                if lt_is_tree l then
                  (if \<not> lt_excl l
                      \<and> (tree_is_equal rx (ss_tree st) test (lt_ref l)
                         \<or> (force \<or> lt_rec l) \<and> tree_is_offspring rx (ss_tree st) test (lt_ref l))
                   then not_excluded (sp, st) else Some (Ret (None, (sp, st))))
                else if \<not> lt_excl l then
                  map_run (\<lambda>b. if b then Some True else None) (is_included_i n rx test (lt_ref l) (lt_rec l \<or> force) (sp, st))
                else Some (Ret (None, (sp, st))))
          in map_run (\<lambda>r. case r of Some b \<Rightarrow> b | None \<Rightarrow> False)
               (each_until body (sp_ltree (ss_space st space)) s1))"

text \<open>\<open>is_included\<close> starts with an empty trace, which is dropped afterwards.\<close>

definition is_included :: "nat \<Rightarrow> regex_lib \<Rightarrow> nat \<Rightarrow> nat \<Rightarrow> bool \<Rightarrow> space_state \<Rightarrow> (bool, space_state) run" where
  "is_included n rx test space force st =
     (case is_included_i n rx test space force ([], st) of
        None \<Rightarrow> None | Some (Fatal m) \<Rightarrow> Some (Fatal m)
      | Some (Ret (b, (_, st'))) \<Rightarrow> Some (Ret (b, st')))"

text \<open>\<open>tree_get_visited_do\<close>, the only function that the members of a space are evaluated with. The
  growth of the array is a \<open>fatal()\<close> when it fails; it is taken to succeed. The state is the list of
  members found and the spaces with the tree and its \<open>visited\<close> flags.\<close>

definition tree_get_visited_do :: "nat \<Rightarrow> nat list \<times> space_state \<Rightarrow> nat list \<times> space_state" where
  "tree_get_visited_do p = (\<lambda>(ms, st).
     if t_visited (ts_node (ss_tree st) p) then (ms, st)
     else (ms @ [p], st\<lparr>ss_tree := upd_node p (\<lambda>t. t\<lparr>t_visited := True\<rparr>) (ss_tree st)\<rparr>))"

fun space_for_one_path_i ::
  "nat \<Rightarrow> regex_lib \<Rightarrow> nat list \<Rightarrow> bool \<Rightarrow> nat \<Rightarrow> nat list \<times> space_state \<Rightarrow> (unit, nat list \<times> space_state) run" where
  "space_for_one_path_i 0 rx sp recursive t s = None"
| "space_for_one_path_i (Suc n) rx sp recursive t (ms, st) =
     (case space_path_exclude (is_included n rx t) rx sp t st of
        None \<Rightarrow> None
      | Some (Fatal m) \<Rightarrow> Some (Fatal m)
      | Some (Ret (r, st1)) \<Rightarrow>
          let s2 = (if r = 0 then tree_get_visited_do t (ms, st1) else (ms, st1)) in
          if recursive \<and> r < 2 then
            map_run (\<lambda>_. ())
              (each_until (\<lambda>p s. map_run (\<lambda>_. None) (space_for_one_path_i n rx sp recursive p s) :: (unit option, nat list \<times> space_state) run)
                 (t_child (ts_node (ss_tree st) t) @ t_regex (ts_node (ss_tree st) t)) s2)
          else Some (Ret ((), s2)))"

definition space_for_one_path ::
  "nat \<Rightarrow> regex_lib \<Rightarrow> nat \<Rightarrow> nat list \<Rightarrow> bool \<Rightarrow> nat list \<times> space_state \<Rightarrow> (unit, nat list \<times> space_state) run" where
  "space_for_one_path n rx t sp recursive s =
     map_run (\<lambda>_. ())
       (each_until (\<lambda>a s. map_run (\<lambda>_. None) (space_for_one_path_i n rx sp recursive a s) :: (unit option, nat list \<times> space_state) run)
          (tree_for_alternatives rx (ss_tree (snd s)) t) s)"

text \<open>\<open>space_for_every_path_i\<close> removes its space from the trace when it leaves, so each call has the
  trace of its caller with its own space at the end.\<close>

fun space_for_every_path_i ::
  "nat \<Rightarrow> regex_lib \<Rightarrow> nat \<Rightarrow> nat list \<Rightarrow> bool \<Rightarrow> nat list \<times> space_state \<Rightarrow> (unit, nat list \<times> space_state) run" where
  "space_for_every_path_i 0 rx space sp force s = None"
| "space_for_every_path_i (Suc n) rx space sp force (ms, st) =
     (case space_path_add sp space st of
        Fatal m \<Rightarrow> Some (Fatal m)
      | Ret (sp1, st1) \<Rightarrow>
          map_run (\<lambda>_. ())
            (each_until (\<lambda>l s. map_run (\<lambda>_. None)
                 (if lt_excl l then Some (Ret ((), s))
                  else if lt_is_tree l then space_for_one_path n rx (lt_ref l) sp1 (lt_rec l \<or> force) s
                  else space_for_every_path_i n rx (lt_ref l) sp1 (lt_rec l \<or> force) s)
                 :: (unit option, nat list \<times> space_state) run)
               (sp_ltree (ss_space st space)) (ms, st1)))"

definition space_for_every_path :: "nat \<Rightarrow> regex_lib \<Rightarrow> nat \<Rightarrow> space_state \<Rightarrow> (nat list, space_state) run" where
  "space_for_every_path n rx space st =
     (case space_for_every_path_i n rx space [] False ([], st) of
        None \<Rightarrow> None | Some (Fatal m) \<Rightarrow> Some (Fatal m) | Some (Ret (_, (ms, st'))) \<Rightarrow> Some (Ret (ms, st')))"

text \<open>\<open>space_for_every_member\<close> with a function on nodes that may look at the space.\<close>

definition for_every_member :: "(nat \<Rightarrow> tree_s \<Rightarrow> tree_s) \<Rightarrow> nat list \<Rightarrow> tree_state \<Rightarrow> tree_state" where
  "for_every_member f ms t = fold (\<lambda>p t. upd_node p (f p) t) ms t"

definition space_for_every_member :: "(nat \<Rightarrow> tree_s \<Rightarrow> tree_s) \<Rightarrow> nat \<Rightarrow> space_state \<Rightarrow> space_state" where
  "space_for_every_member f space st =
     st\<lparr>ss_tree := for_every_member f (sp_members (ss_space st space)) (ss_tree st)\<rparr>"

definition tree_clear_visited_do :: "nat \<Rightarrow> tree_s \<Rightarrow> tree_s" where
  "tree_clear_visited_do p t = t\<lparr>t_visited := False\<rparr>"

definition tree_set_primary_space_do :: "nat \<Rightarrow> nat \<Rightarrow> tree_s \<Rightarrow> tree_s" where
  "tree_set_primary_space_do space p t = t\<lparr>t_primary := Some space\<rparr>"

definition tree_add_vs_do :: "nat \<Rightarrow> vs \<Rightarrow> nat \<Rightarrow> tree_s \<Rightarrow> tree_s" where
  "tree_add_vs_do which v p t = t\<lparr>t_vs := (t_vs t)(which := vs_add v (t_vs t which))\<rparr>"

subsection \<open>Applying all spaces\<close>

text \<open>The first loop of \<open>space_apply_all\<close>: it looks for the first space that is used and not processed,
  evaluates its members and starts again from the head of the list. \<open>n\<close> bounds the depth of an
  evaluation, \<open>k\<close> the number of evaluations.\<close>

definition process_space :: "nat \<Rightarrow> regex_lib \<Rightarrow> nat \<Rightarrow> space_state \<Rightarrow> (unit, space_state) run" where
  "process_space n rx s st =
     bind_run (space_for_every_path n rx s st)
       (\<lambda>ms st1.
          let st2 = space_for_every_member tree_clear_visited_do s (upd_space s (\<lambda>x. x\<lparr>sp_members := ms\<rparr>) st1) in
          if ms = [] then
            (if \<not> vs_isclear (sp_vs_id (ss_space st2 s)) then Some (Fatal ''space has no path member(s)!'')
             else Some (Ret ((), upd_space s (\<lambda>x. x\<lparr>sp_used := False\<rparr>) st2)))
          else Some (Ret ((), upd_space s (\<lambda>x. x\<lparr>sp_processed := True\<rparr>) st2)))"

fun process_all :: "nat \<Rightarrow> nat \<Rightarrow> regex_lib \<Rightarrow> space_state \<Rightarrow> (unit, space_state) run" where
  "process_all 0 n rx st = None"
| "process_all (Suc k) n rx st =
     (case List.find (\<lambda>s. sp_used (ss_space st s) \<and> \<not> sp_processed (ss_space st s)) (ss_list st) of
        None \<Rightarrow> Some (Ret ((), st))
      | Some s \<Rightarrow> bind_run (process_space n rx s st) (\<lambda>_ st'. process_all k n rx st'))"

text \<open>The second loop destroys the spaces that are not processed.\<close>

definition drop_unprocessed :: "space_state \<Rightarrow> space_state outcome" where
  "drop_unprocessed st =
     fold (\<lambda>s m. bind_outcome m (\<lambda>st.
             if sp_processed (ss_space st s) then Ret st
             else if \<not> vs_isclear (sp_vs_id (ss_space st s)) then Fatal ''Space is not processed, but still used.''
             else space_destroy s st)) (ss_list st) (Ret st)"

text \<open>The third loop writes the spaces' sets of virtual spaces into their members.\<close>

definition apply_space :: "nat \<Rightarrow> space_state \<Rightarrow> space_state" where
  "apply_space s st =
     fold (\<lambda>a st. if vs_isclear (sp_vs (ss_space st s) a) then st
                  else space_for_every_member (tree_add_vs_do a (sp_vs (ss_space st s) a)) s st)
       [0..<NR_ACCESS_TYPES]
       (if sp_primary (ss_space st s) then space_for_every_member (tree_set_primary_space_do s) s st else st)"

definition space_apply_all :: "nat \<Rightarrow> nat \<Rightarrow> regex_lib \<Rightarrow> space_state \<Rightarrow> space_state outcome option" where
  "space_apply_all k n rx st =
     (case tree_expand_alternatives n rx (ss_tree st) of
        None \<Rightarrow> None
      | Some t \<Rightarrow>
          (case process_all k n rx (st\<lparr>ss_tree := t\<rparr>) of
             None \<Rightarrow> None
           | Some (Fatal m) \<Rightarrow> Some (Fatal m)
           | Some (Ret (_, st1)) \<Rightarrow>
               Some (bind_outcome (drop_unprocessed st1) (\<lambda>st2. Ret (fold apply_space (ss_list st2) st2)))))"

subsection \<open>Events on spaces and nodes\<close>

text \<open>The state of the configuration: event names and types, and the spaces with the tree. A handler is
  a number; \<open>hname\<close> gives its \<open>op_name\<close>.\<close>

definition upd_tree :: "nat \<Rightarrow> (tree_s \<Rightarrow> tree_s) \<Rightarrow> space_state \<Rightarrow> space_state" where
  "upd_tree p f st = st\<lparr>ss_tree := upd_node p f (ss_tree st)\<rparr>"

text \<open>Registration with the sets of subject and object, which \<open>space_get_vs\<close> may have to allocate; C
  leaves the order of the two calls open, here it is subject first. \<open>put\<close> stores the handler list.\<close>

definition register_with ::
  "bool \<Rightarrow> nat \<Rightarrow> nat \<Rightarrow> (space_state \<Rightarrow> event_hadler_hash_s list) \<Rightarrow> (event_hadler_hash_s list \<Rightarrow> space_state \<Rightarrow> space_state)
     \<Rightarrow> space_ref \<Rightarrow> space_ref \<Rightarrow> space_state \<Rightarrow> space_state outcome" where
  "register_with ok h ev get put subject object st =
     bind_outcome (space_get_vs subject st) (\<lambda>(st1, sv).
     bind_outcome (space_get_vs object st1) (\<lambda>(st2, ov).
       Ret (put (fst (register_event_handler ok h ev (get st2) sv ov)) st2)))"

text \<open>\<open>space_add_event\<close>; \<open>ok i\<close> says whether its \<open>i\<close>-th allocation succeeds.\<close>

definition add_levent :: "bool \<Rightarrow> nat \<Rightarrow> space_ref \<Rightarrow> space_ref \<Rightarrow> space_ref \<Rightarrow> space_state \<Rightarrow> space_state option" where
  "add_levent ok h at subject object st =
     (case at of
        Sp s \<Rightarrow> map_option (\<lambda>l. upd_space s (\<lambda>x. x\<lparr>sp_levent := l\<rparr>) st)
                  (new_levent ok h subject object (sp_levent (ss_space st s)))
      | _ \<Rightarrow> Some st)"

definition space_add_event ::
  "(nat \<Rightarrow> bool) \<Rightarrow> (nat \<Rightarrow> string) \<Rightarrow> nat \<Rightarrow> int \<Rightarrow> space_ref \<Rightarrow> space_ref \<Rightarrow> nat option \<Rightarrow> nat option
     \<Rightarrow> event_state \<times> space_state \<Rightarrow> ((event_state \<times> space_state) \<times> int) outcome" where
  "space_add_event ok hname h ehh subject object subj_node obj_node = (\<lambda>(es, st).
     if ehh < 0 \<or> int EHH_LISTS \<le> ehh then Ret ((es, st), -1)
     else (case event_type_find_name (hname h) True (ok 0) es of
        (es, None) \<Rightarrow> Ret ((es, st), -1)
      | (es, Some ev) \<Rightarrow>
        (case add_levent (ok 1) h subject subject object st of
           None \<Rightarrow> Ret ((es, st), -1)
         | Some st1 \<Rightarrow>
        (case add_levent (ok 2) h object subject object st1 of
           None \<Rightarrow> Ret ((es, st1), -1)
         | Some st2 \<Rightarrow>
        (let l = nat ehh;
             at_subject = (\<lambda>p ob. register_with (ok 6) h ev (\<lambda>st. t_subject_handlers (ts_node (ss_tree st) p) l)
               (\<lambda>hs. upd_tree p (\<lambda>t. t\<lparr>t_subject_handlers := (t_subject_handlers t)(l := hs)\<rparr>)) subject ob);
             at_object = (\<lambda>p. register_with (ok 6) h ev (\<lambda>st. t_object_handlers (ts_node (ss_tree st) p) l)
               (\<lambda>hs. upd_tree p (\<lambda>t. t\<lparr>t_object_handlers := (t_object_handlers t)(l := hs)\<rparr>)) subject object)
         in case (subj_node, obj_node) of
              (Some sn, Some on) \<Rightarrow>
                (case space_create (ok 3) None False st2 of
                   (st3, None) \<Rightarrow> Ret ((es, st3), -1)
                 | (st3, Some s) \<Rightarrow>
                     (let st4 = fst (space_add_path (ok 4) (Some on) 0 s st3) in
                      case add_levent (ok 5) h (Sp s) subject (Sp s) st4 of
                        None \<Rightarrow> Ret ((es, st4), -1)
                      | Some st5 \<Rightarrow> bind_outcome (at_subject sn (Sp s) st5) (\<lambda>st6. Ret ((es, st6), 0))))
            | (Some sn, None) \<Rightarrow> bind_outcome (at_subject sn object st2) (\<lambda>st3. Ret ((es, st3), 0))
            | (None, Some on) \<Rightarrow> bind_outcome (at_object on st2) (\<lambda>st3. Ret ((es, st3), 0))
            | (None, None) \<Rightarrow>
                bind_outcome (space_get_vs subject st2) (\<lambda>(st3, sv).
                bind_outcome (space_get_vs object st3) (\<lambda>(st4, ov).
                  Ret ((es\<lparr>es_names := (es_names es)[ev := (es_names es ! ev)\<lparr>en_handlers :=
                          (en_handlers (es_names es ! ev))(l := fst (register_event_handler (ok 6) h ev
                             (en_handlers (es_names es ! ev) l) sv ov))\<rparr>]\<rparr>, st4), 0))))))))"

text \<open>The event type that connection \<open>conn\<close> has for the event a handler names: \<open>None\<close> where the code
  reports an unknown event and goes on.\<close>

definition handler_type :: "(nat \<Rightarrow> string) \<Rightarrow> nat \<Rightarrow> event_state \<Rightarrow> nat \<Rightarrow> event_type_s option" where
  "handler_type hname conn es h =
     (case snd (event_type_find_name (hname h) False False es) of
        None \<Rightarrow> None
      | Some n \<Rightarrow> Option.bind (en_events (es_names es ! n) conn) (es_heap es))"

text \<open>\<open>node_class\<close>: the class that the connection has for the class handler of a tree type.\<close>

definition add_event_mask :: "nat \<Rightarrow> event_mask2 \<Rightarrow> tree_s \<Rightarrow> tree_s" where
  "add_event_mask conn m t = t\<lparr>t_events := (t_events t)(conn := event_mask_or2 (t_events t conn) m)\<rparr>"

definition tree_add_event_mask_do :: "(nat \<Rightarrow> nat option) \<Rightarrow> nat \<Rightarrow> event_type_s \<Rightarrow> nat \<Rightarrow> tree_s \<Rightarrow> tree_s" where
  "tree_add_event_mask_do node_class conn ty p t =
     (if et_monitored ty = node_class (t_type t) then add_event_mask conn (et_mask ty) t else t)"

text \<open>The loop over one handler list of a node; \<open>op\<close> picks the operand, subject or object.\<close>

definition reinit_list ::
  "(nat \<Rightarrow> string) \<Rightarrow> (nat \<Rightarrow> nat option) \<Rightarrow> nat \<Rightarrow> event_state \<Rightarrow> (event_type_s \<Rightarrow> nat option)
     \<Rightarrow> event_hadler_hash_s list \<Rightarrow> tree_s \<Rightarrow> tree_s" where
  "reinit_list hname node_class conn es op hs t =
     fold (\<lambda>hh t. case handler_type hname conn es (hh_handler hh) of
             None \<Rightarrow> t
           | Some ty \<Rightarrow>
               if et_monitored ty = op ty \<and> et_monitored ty = node_class (t_type t)
               then add_event_mask conn (et_mask ty) t else t) hs t"

definition reinit_node ::
  "(nat \<Rightarrow> string) \<Rightarrow> (nat \<Rightarrow> nat option) \<Rightarrow> nat \<Rightarrow> event_state \<Rightarrow> tree_s \<Rightarrow> tree_s" where
  "reinit_node hname node_class conn es t =
     fold (\<lambda>l t. reinit_list hname node_class conn es et_op1 (t_object_handlers t l)
                   (reinit_list hname node_class conn es et_op0 (t_subject_handlers t l) t))
       [0..<EHH_LISTS] (t\<lparr>t_events := (t_events t)(conn := event_mask_clear2)\<rparr>)"

fun tree_comm_reinit ::
  "nat \<Rightarrow> (nat \<Rightarrow> string) \<Rightarrow> (nat \<Rightarrow> nat option) \<Rightarrow> nat \<Rightarrow> event_state \<Rightarrow> nat \<Rightarrow> tree_state \<Rightarrow> tree_state option" where
  "tree_comm_reinit 0 hname node_class conn es p st = None"
| "tree_comm_reinit (Suc n) hname node_class conn es p st =
     (let st1 = upd_node p (reinit_node hname node_class conn es) st in
      fold (\<lambda>q m. Option.bind m (tree_comm_reinit n hname node_class conn es q))
        (t_child (ts_node st1 p) @ t_regex (ts_node st1 p)) (Some st1))"

text \<open>One entry of a space's event list; the message about a wrong use changes nothing.\<close>

definition init_levent ::
  "(nat \<Rightarrow> string) \<Rightarrow> (nat \<Rightarrow> nat option) \<Rightarrow> nat \<Rightarrow> event_state \<Rightarrow> levent_s \<Rightarrow> space_state \<Rightarrow> space_state" where
  "init_levent hname node_class conn es le st =
     (case handler_type hname conn es (le_handler le) of
        None \<Rightarrow> st
      | Some ty \<Rightarrow>
          let act = (\<lambda>r op st. case r of
                Sp s \<Rightarrow> if et_monitored ty = op
                        then space_for_every_member (tree_add_event_mask_do node_class conn ty) s st else st
              | _ \<Rightarrow> st)
          in act (le_object le) (et_op1 ty) (act (le_subject le) (et_op0 ty) st))"

definition space_init_event_mask ::
  "nat \<Rightarrow> (nat \<Rightarrow> string) \<Rightarrow> (nat \<Rightarrow> nat option) \<Rightarrow> nat \<Rightarrow> event_state \<Rightarrow> space_state \<Rightarrow> space_state option" where
  "space_init_event_mask n hname node_class conn es st =
     map_option (\<lambda>t. fold (\<lambda>s st. fold (init_levent hname node_class conn es) (sp_levent (ss_space st s)) st)
                        (ss_list st) (st\<lparr>ss_tree := t\<rparr>))
       (tree_comm_reinit n hname node_class conn es global_root (ss_tree st))"

subsection \<open>Printing a set of virtual spaces\<close>

text \<open>\<open>sprintf\<close> with format \<open>%02x\<close> of a \<open>char\<close>, which is signed here: a byte from 0x80 on is printed as eight
  digits that begin with \<open>ff\<close>. The code advances by two characters, and the next output or the final
  NUL overwrites the others.\<close>

definition hex_digit :: "nat \<Rightarrow> char" where
  "hex_digit n = ''0123456789abcdef'' ! n"

definition char_hex :: "byte \<Rightarrow> string" where
  "char_hex b = (if msb_set b then ''ff'' else [hex_digit (unat b div 16), hex_digit (unat b mod 16)])"

definition vs_hex :: "vs \<Rightarrow> string" where
  "vs_hex v =
     (let bs = concat (map bytes_of_word v) in
      concat (map (\<lambda>l. char_hex (bs ! l) @ (if 0 < l \<and> l mod 4 = 0 then '':'' else [])) (rev [0..<length bs])))"

text \<open>The loop over the spaces: the set that is left, the text so far, and the size that is left.\<close>

fun vs_names :: "space_s list \<Rightarrow> vs \<Rightarrow> string \<Rightarrow> int \<Rightarrow> (vs \<times> string \<times> int) option" where
  "vs_names [] tvs out sz = Some (tvs, out, sz)"
| "vs_names (s # ss) tvs out sz =
     (if \<not> vs_isclear (sp_vs s AT_MEMBER) \<and> vs_issub (sp_vs s AT_MEMBER) tvs
         \<and> sp_name s \<noteq> [] \<and> hd (sp_name s) \<noteq> hd ANON_SPACE_NAME
      then (let l = int (length (sp_name s)) in
            if sz \<le> l + 2 then None
            else vs_names ss (vs_sub (sp_vs s AT_MEMBER) tvs) ((if out = [] then [] else out @ ''|'') @ sp_name s)
                   (if out = [] then sz - l else sz - 1 - l))
      else vs_names ss tvs out sz)"

definition space_vs_to_str :: "space_state \<Rightarrow> vs \<Rightarrow> int \<Rightarrow> string option" where
  "space_vs_to_str st v sz =
     (case vs_names (map (ss_space st) (ss_list st)) (vs_set v vs_clear) [] sz of
        None \<Rightarrow> None
      | Some (tvs, out, sz) \<Rightarrow>
          if vs_isclear tvs then Some out
          else if sz \<le> 12 then None
          else Some ((if out = [] then [] else out @ ''|'') @ vs_hex tvs))"

end
