(* ===== verification/Space_Inv.thy ===== *)
theory Space_Inv
  imports Spaces
begin

text \<open>
  What the operations on spaces keep and promise: names and identifiers of spaces, the recursion of the
  membership test, the members written into the tree, and the printed form of a set.
\<close>

subsection \<open>Names and identifiers\<close>

definition id_ok :: "space_state \<Rightarrow> nat \<Rightarrow> bool" where
  "id_ok st s \<longleftrightarrow> vs_ok (sp_vs_id (ss_space st s))
     \<and> (vs_ids (sp_vs_id (ss_space st s)) = {}
        \<or> (\<exists>k < ss_vs_cnt st. vs_ids (sp_vs_id (ss_space st s)) = {k}))"

definition apart :: "space_state \<Rightarrow> nat \<Rightarrow> nat \<Rightarrow> bool" where
  "apart st s t \<longleftrightarrow>
     vs_ids (sp_vs_id (ss_space st s)) \<inter> vs_ids (sp_vs_id (ss_space st t)) = {}
     \<and> (sp_name (ss_space st s) = sp_name (ss_space st t) \<longrightarrow> sp_name (ss_space st s) = ANON_SPACE_NAME)"

definition spaces_ok :: "space_state \<Rightarrow> bool" where
  "spaces_ok st \<longleftrightarrow>
     distinct (ss_list st) \<and> (\<forall>s \<in> set (ss_list st). s < ss_next st \<and> id_ok st s)
     \<and> (\<forall>s \<in> set (ss_list st). \<forall>t \<in> set (ss_list st). s \<noteq> t \<longrightarrow> apart st s t)"

lemma spaces_okI:
  assumes "distinct (ss_list st)" and "\<And>s. s \<in> set (ss_list st) \<Longrightarrow> s < ss_next st" "\<And>s. s \<in> set (ss_list st) \<Longrightarrow> id_ok st s"
    and "\<And>s t. s \<in> set (ss_list st) \<Longrightarrow> t \<in> set (ss_list st) \<Longrightarrow> s \<noteq> t \<Longrightarrow> apart st s t"
  shows "spaces_ok st"
  using assms by (simp add: spaces_ok_def)

lemma spaces_okD:
  assumes "spaces_ok st"
  shows "distinct (ss_list st)" and "s \<in> set (ss_list st) \<Longrightarrow> s < ss_next st" and "s \<in> set (ss_list st) \<Longrightarrow> id_ok st s"
    and "s \<in> set (ss_list st) \<Longrightarrow> t \<in> set (ss_list st) \<Longrightarrow> s \<noteq> t \<Longrightarrow> apart st s t"
  using assms by (simp_all add: spaces_ok_def)

lemma apart_sym: "apart st s t \<longleftrightarrow> apart st t s"
  by (auto simp: apart_def)

lemma space_find_Some:
  "space_find name st = Some s \<Longrightarrow> s \<in> set (ss_list st) \<and> sp_name (ss_space st s) = name"
  by (auto simp: space_find_def dest: find_Some_conv)

lemma space_find_None:
  "space_find name st = None \<longleftrightarrow> (\<forall>s \<in> set (ss_list st). sp_name (ss_space st s) \<noteq> name)"
  by (auto simp: space_find_def find_None_iff)

lemma space_create_cases:
  "space_create ok name primary st = (st', r) \<Longrightarrow>
     (r = None \<and> st' = st)
     \<or> (r = Some (ss_next st) \<and> ss_list st' = ss_next st # ss_list st \<and> ss_next st' = Suc (ss_next st)
        \<and> ss_vs_cnt st' = ss_vs_cnt st \<and> sp_vs_id (ss_space st' (ss_next st)) = vs_clear
        \<and> sp_name (ss_space st' (ss_next st)) = (case name of Some n \<Rightarrow> n | None \<Rightarrow> ANON_SPACE_NAME)
        \<and> (\<forall>n. name = Some n \<longrightarrow> space_find n st = None)
        \<and> (\<forall>s. s \<noteq> ss_next st \<longrightarrow> ss_space st' s = ss_space st s))"
  by (auto simp: space_create_def Let_def split: option.splits if_splits)

lemma spaces_ok_create:
  assumes "spaces_ok st" and "space_create ok name primary st = (st', r)"
  shows "spaces_ok st'"
proof (cases r)
  case None
  then show ?thesis using assms space_create_cases [OF assms(2)] by auto
next
  case (Some x)
  let ?t = "ss_next st"
  have l: "ss_list st' = ?t # ss_list st" and n: "ss_next st' = Suc ?t" "ss_vs_cnt st' = ss_vs_cnt st"
    and new: "sp_vs_id (ss_space st' ?t) = vs_clear"
    and nm: "sp_name (ss_space st' ?t) = (case name of Some n \<Rightarrow> n | None \<Rightarrow> ANON_SPACE_NAME)"
    and fr: "\<And>n. name = Some n \<Longrightarrow> space_find n st = None"
    and old: "\<And>s. s \<noteq> ?t \<Longrightarrow> ss_space st' s = ss_space st s"
    using space_create_cases [OF assms(2)] Some by auto
  note D = spaces_okD [OF assms(1)]
  have lt: "s < ?t" "s \<noteq> ?t" if "s \<in> set (ss_list st)" for s using D(2) [OF that] by auto
  have ap: "apart st' s ?t" if "s \<in> set (ss_list st)" for s
    using that fr nm new old [OF lt(2) [OF that]] by (auto simp: apart_def space_find_None split: option.splits)
  show ?thesis
  proof (rule spaces_okI)
    show "distinct (ss_list st')" using D(1) lt l by auto
    show "s < ss_next st'" "id_ok st' s" if "s \<in> set (ss_list st')" for s
      using that D(3) lt l n new old by (force simp: id_ok_def)+
    show "apart st' s u" if "s \<in> set (ss_list st')" "u \<in> set (ss_list st')" "s \<noteq> u" for s u
    proof (cases "s = ?t \<or> u = ?t")
      case True
      then show ?thesis using that ap apart_sym [of st' s u] l by auto
    next
      case False
      then have "apart st s u" using that D(4) l by simp
      then show ?thesis using False old by (simp add: apart_def)
    qed
  qed
qed

lemma spaces_ok_upd:
  assumes "spaces_ok st"
    and "\<And>x. sp_name (f x) = sp_name x \<and> sp_vs_id (f x) = sp_vs_id x"
  shows "spaces_ok (upd_space s f st)"
proof -
  have "sp_vs_id (ss_space (upd_space s f st) t) = sp_vs_id (ss_space st t)"
    "sp_name (ss_space (upd_space s f st) t) = sp_name (ss_space st t)" for t
    by (simp_all add: upd_space_def assms(2))
  then have "apart (upd_space s f st) = apart st" "id_ok (upd_space s f st) = id_ok st"
    by (simp_all add: fun_eq_iff apart_def id_ok_def) (simp add: upd_space_def)
  then show ?thesis using assms(1) by (simp add: spaces_ok_def) (simp add: upd_space_def)
qed

lemma space_get_vs_fresh:
  assumes "spaces_ok st" and "s \<in> set (ss_list st)" and "vs_isclear (sp_vs_id (ss_space st s))"
    and "space_get_vs (Sp s) st = Ret (st', r)"
  shows "\<exists>v. r = Vs v \<and> vs_ok v \<and> vs_ids v = {ss_vs_cnt st} \<and> ss_vs_cnt st' = Suc (ss_vs_cnt st)
    \<and> sp_vs_id (ss_space st' s) = v \<and> ss_list st' = ss_list st \<and> ss_next st' = ss_next st
    \<and> (\<forall>t. t \<noteq> s \<longrightarrow> ss_space st' t = ss_space st t) \<and> sp_name (ss_space st' s) = sp_name (ss_space st s)
    \<and> vs_ids (sp_vs (ss_space st' s) AT_MEMBER) = vs_ids (sp_vs (ss_space st s) AT_MEMBER) \<union> {ss_vs_cnt st}"
proof -
  obtain c v where a: "vs_alloc (ss_vs_cnt st) = Some (c, v)"
    using assms(3,4) by (cases "vs_alloc (ss_vs_cnt st)") (auto simp: space_get_vs_def)
  have r: "r = Vs v" and st': "st' = upd_space s (\<lambda>x. x\<lparr>sp_vs_id := v, sp_used := True,
      sp_vs := (sp_vs x)(AT_MEMBER := vs_add v (sp_vs x AT_MEMBER))\<rparr>) (st\<lparr>ss_vs_cnt := c\<rparr>)"
    using assms(3,4) by (simp_all add: space_get_vs_def a)
  note v = vs_alloc_Some [OF a]
  show ?thesis
    by (rule exI [of _ v]) (simp add: r st' upd_space_def v(2,3,4))
qed

lemma spaces_ok_get_vs:
  assumes "spaces_ok st" and "s \<in> set (ss_list st)" and "space_get_vs (Sp s) st = Ret (st', r)"
  shows "spaces_ok st'"
proof (cases "vs_isclear (sp_vs_id (ss_space st s))")
  case False
  then have "st' = st" using assms(3) by (auto simp: space_get_vs_def)
  then show ?thesis using assms(1) by simp
next
  case True
  from space_get_vs_fresh [OF assms(1,2) True assms(3)] obtain v where
    v: "vs_ok v" "vs_ids v = {ss_vs_cnt st}" "ss_vs_cnt st' = Suc (ss_vs_cnt st)"
      "sp_vs_id (ss_space st' s) = v" "ss_list st' = ss_list st" "ss_next st' = ss_next st"
      "\<forall>t. t \<noteq> s \<longrightarrow> ss_space st' t = ss_space st t" "sp_name (ss_space st' s) = sp_name (ss_space st s)"
    by auto
  note D = spaces_okD [OF assms(1)]
  have old: "ss_vs_cnt st \<notin> vs_ids (sp_vs_id (ss_space st t))" if "t \<in> set (ss_list st)" for t
    using D(3) [OF that] by (auto simp: id_ok_def)
  show ?thesis
  proof (rule spaces_okI)
    show "distinct (ss_list st')" using D v by simp
    show "t < ss_next st'" if "t \<in> set (ss_list st')" for t using D(2) v that by simp
    show "id_ok st' t" if "t \<in> set (ss_list st')" for t
      using that D(3) [of t] v by (cases "t = s") (auto simp: id_ok_def)
    show "apart st' t u" if tu: "t \<in> set (ss_list st')" "u \<in> set (ss_list st')" "t \<noteq> u" for t u
      using D(4) [of t u] tu v old [of t] old [of u] by (cases "t = s"; cases "u = s") (auto simp: apart_def)
  qed
qed

inductive space_reach :: "space_state \<Rightarrow> bool" where
  start: "ss_list st = [] \<Longrightarrow> ss_vs_cnt st = vs_init \<Longrightarrow> space_reach st"
| create: "space_reach st \<Longrightarrow> space_reach (fst (space_create ok name primary st))"
| add_path: "space_reach st \<Longrightarrow> space_reach (fst (space_add_path ok ref ty s st))"
| add_vs: "space_reach st \<Longrightarrow> space_reach (fst (space_add_vs s access v st))"
| get_vs: "space_reach st \<Longrightarrow> s \<in> set (ss_list st) \<Longrightarrow> space_get_vs (Sp s) st = Ret (st', r) \<Longrightarrow> space_reach st'"
| destroy: "space_reach st \<Longrightarrow> space_destroy s st = Ret st' \<Longrightarrow> space_reach st'"

lemma space_reach_ok: "space_reach st \<Longrightarrow> spaces_ok st"
proof (induction rule: space_reach.induct)
  case (start st)
  then show ?case by (simp add: spaces_ok_def)
next
  case (create st ok name primary)
  then show ?case using spaces_ok_create by (metis prod.collapse)
next
  case (add_path st ok ref ty s)
  then show ?case by (auto simp: space_add_path_def intro: spaces_ok_upd split: option.splits)
next
  case (add_vs st s access v)
  then show ?case by (auto simp: space_add_vs_def intro: spaces_ok_upd)
next
  case (get_vs st s st' r)
  then show ?case using spaces_ok_get_vs by blast
next
  case (destroy st s st')
  then have "st' = st\<lparr>ss_list := remove1 s (ss_list st)\<rparr>" by (simp add: space_destroy_def split: if_splits)
  moreover note D = spaces_okD [OF destroy.IH]
  ultimately show ?case
    using D(4) set_remove1_subset [of s "ss_list st"] distinct_remove1 [OF D(1)] D(2,3)
    by (intro spaces_okI) (auto simp: apart_def id_ok_def subset_iff)
qed

subsection \<open>Properties of the identifiers\<close>


definition demo_spaces :: space_state where
  "demo_spaces = \<lparr>ss_list = [], ss_space = (\<lambda>_. undefined), ss_next = 0, ss_tree = tree_init 9, ss_vs_cnt = vs_init\<rparr>"


subsection \<open>The membership test\<close>

lemma each_until_skip:
  assumes "\<And>x. x \<in> set xs \<Longrightarrow> body x s = Some (Ret (None, s))"
  shows "each_until body xs s = Some (Ret (None, s))"
  using assms by (induction xs) simp_all

text \<open>The membership test \<open>is_included_i\<close> keeps a space in its trace after it has left it, so that a
  space which is reached twice along different branches counts as a loop. If a space contains the
  space \<open>b\<close> and, later in its list, \<open>b\<close> again (directly; the same happens through intermediate
  spaces), and the tested node is not in \<open>b\<close>, the test does not answer "no" but ends the program
  with "Infinite loop in spaces!", although no space contains itself.\<close>

theorem is_included_repeated_space_is_fatal:
  assumes "sp_ltree (ss_space st a) = [l1, l2]" and "lt_ref l1 = b" "lt_ref l2 = b" and "a \<noteq> b"
    and "\<not> lt_is_tree l1" "\<not> lt_is_tree l2" "\<not> lt_excl l1" "\<not> lt_excl l2"
    and "\<forall>l \<in> set (sp_ltree (ss_space st b)). lt_is_tree l
           \<and> \<not> tree_is_equal rx (ss_tree st) test (lt_ref l) \<and> \<not> tree_is_offspring rx (ss_tree st) test (lt_ref l)"
  shows "is_included (Suc (Suc n)) rx test a force st = Some (Fatal ''Infinite loop in spaces!'')"
proof -
  define st1 where "st1 = upd_space a (\<lambda>s. s\<lparr>sp_used := True\<rparr>) st"
  define st2 where "st2 = upd_space b (\<lambda>s. s\<lparr>sp_used := True\<rparr>) st1"
  have t: "ss_tree st2 = ss_tree st" "sp_ltree (ss_space st1 b) = sp_ltree (ss_space st b)"
    "sp_ltree (ss_space st1 a) = sp_ltree (ss_space st a)"
    using assms(4) by (simp_all add: st1_def st2_def upd_space_def)
  have a1: "space_path_add [] a st = Ret ([a], st1)"
    by (simp add: space_path_add_def st1_def MAX_SPACE_PATH_def)
  have b1: "space_path_add [a] b st1 = Ret ([a, b], st2)"
    using assms(4) by (simp add: space_path_add_def st2_def MAX_SPACE_PATH_def Let_def)
  have b2: "space_path_add [a, b] b st2 = Fatal ''Infinite loop in spaces!''"
    by (simp add: space_path_add_def Let_def)
  have first: "is_included_i (Suc n) rx test b f ([a], st1) = Some (Ret (False, ([a, b], st2)))" for f
    unfolding is_included_i.simps b1 outcome.case Let_def t(2)
    by (subst each_until_skip) (use assms(9) in \<open>auto simp: t(1)\<close>)
  have second: "is_included_i (Suc n) rx test b f ([a, b], st2) = Some (Fatal ''Infinite loop in spaces!'')" for f
    unfolding is_included_i.simps b2 outcome.case ..
  have "is_included_i (Suc (Suc n)) rx test a force ([], st) = Some (Fatal ''Infinite loop in spaces!'')"
    unfolding is_included_i.simps(2) [of "Suc n"] a1 outcome.case Let_def assms(1)
    using assms(2,3,5-8) by (simp add: first second del: is_included_i.simps)
  then show ?thesis by (simp add: is_included_def)
qed

definition entry :: "32 word \<Rightarrow> nat \<Rightarrow> ltree_s" where
  "entry ty ref = \<lparr>lt_type = ty, lt_ref = ref\<rparr>"

text \<open>The spaces of a list of member lists, numbered from 0, over a tree.\<close>

definition spaces_of :: "ltree_s list list \<Rightarrow> tree_state \<Rightarrow> space_state" where
  "spaces_of ls t = \<lparr>ss_list = [0..<length ls],
     ss_space = (\<lambda>i. \<lparr>sp_vs = \<lambda>_. vs_clear, sp_vs_id = vs_clear, sp_levent = [],
        sp_ltree = (if i < length ls then ls ! i else []), sp_primary = False, sp_processed = False,
        sp_used = True, sp_members = [], sp_name = ''s'' @ replicate i CHR ''x''\<rparr>),
     ss_next = length ls, ss_tree = t, ss_vs_cnt = vs_init\<rparr>"

theorem is_included_repeated_space_is_fatal_witness:
  "is_included 3 demo_rx 0 0 False (spaces_of [[entry 2 1, entry 2 1], []] (tree_init 5))
     = Some (Fatal ''Infinite loop in spaces!'')"
proof -
  have "is_included (Suc (Suc 1)) demo_rx 0 0 False (spaces_of [[entry 2 1, entry 2 1], []] (tree_init 5))
     = Some (Fatal ''Infinite loop in spaces!'')"
    by (rule is_included_repeated_space_is_fatal [of _ 0 "entry 2 1" "entry 2 1" 1])
      (simp_all add: spaces_of_def entry_def lt_is_tree_def lt_excl_def ltree_consts)
  then show ?thesis by (simp add: numeral_3_eq_3)
qed

definition mutual_exclusion :: "regex_lib \<Rightarrow> nat \<Rightarrow> nat \<Rightarrow> nat \<Rightarrow> nat \<Rightarrow> space_state \<Rightarrow> bool" where
  "mutual_exclusion rx test x a b st \<longleftrightarrow>
     sp_ltree (ss_space st a) = [entry LTREE_T_TREE x, entry (LTREE_T_SPACE OR LTREE_EXCLUDE) b]
     \<and> sp_ltree (ss_space st b) = [entry LTREE_T_TREE x, entry (LTREE_T_SPACE OR LTREE_EXCLUDE) a]
     \<and> tree_is_equal rx (ss_tree st) test x"

lemma mutual_exclusion_step:
  assumes "mutual_exclusion rx test x a b st"
    and "\<And>f st'. mutual_exclusion rx test x b a st' \<Longrightarrow> is_included_i n rx test b f ([], st') = None"
  shows "is_included_i (Suc n) rx test a force ([], st) = None"
proof -
  define st1 where "st1 = upd_space a (\<lambda>s. s\<lparr>sp_used := True\<rparr>) st"
  have a1: "space_path_add [] a st = Ret ([a], st1)"
    by (simp add: space_path_add_def st1_def MAX_SPACE_PATH_def)
  have keep: "sp_ltree (ss_space st1 s) = sp_ltree (ss_space st s)" "ss_tree st1 = ss_tree st" for s
    by (simp_all add: st1_def upd_space_def)
  then have m: "mutual_exclusion rx test x b a st1" using assms(1) by (simp add: mutual_exclusion_def)
  have la: "sp_ltree (ss_space st a) = [entry LTREE_T_TREE x, entry (LTREE_T_SPACE OR LTREE_EXCLUDE) b]"
    "sp_ltree (ss_space st1 a) = [entry LTREE_T_TREE x, entry (LTREE_T_SPACE OR LTREE_EXCLUDE) b]"
    and eq: "tree_is_equal rx (ss_tree st1) test x"
    using assms(1) keep by (simp_all add: mutual_exclusion_def)
  have ty: "lt_is_tree (entry LTREE_T_TREE x)" "\<not> lt_excl (entry LTREE_T_TREE x)" "lt_ref (entry LTREE_T_TREE x) = x"
    "\<not> lt_is_tree (entry (LTREE_T_SPACE OR LTREE_EXCLUDE) b)" "lt_excl (entry (LTREE_T_SPACE OR LTREE_EXCLUDE) b)"
    "lt_ref (entry (LTREE_T_SPACE OR LTREE_EXCLUDE) b) = b"
    by (simp_all add: entry_def lt_is_tree_def lt_excl_def ltree_consts)
  show ?thesis
    unfolding is_included_i.simps a1 outcome.case la(1) each_until.simps Let_def
    using eq assms(2) [OF m]
    by (simp add: ty space_path_exclude_def is_excluded_i_def la(2) lift_sp_def)
qed

text \<open>Spaces that exclude each other are never evaluated to an end: with \<open>a\<close> = node \<open>x\<close> without
  \<open>space b\<close> and \<open>b\<close> = node \<open>x\<close> without \<open>space a\<close>, testing \<open>x\<close> for membership in \<open>a\<close> recurses without a
  bound, because the evaluation of an exclusion starts with an empty trace and so never notices
  the loop (the comment at the head of \<open>space.c\<close> asks for this check).\<close>

theorem mutual_exclusion_diverges:
  "mutual_exclusion rx test x a b st \<longrightarrow> is_included n rx test a force st = None"
proof -
  have "is_included_i n rx test a force ([], st) = None" if "mutual_exclusion rx test x a b st" for a b st force
    using that
  proof (induction n arbitrary: a b st force)
    case (Suc n)
    then show ?case using mutual_exclusion_step by blast
  qed simp
  then show ?thesis by (simp add: is_included_def)
qed

theorem mutual_exclusion_diverges_witness:
  "\<forall>n. is_included n demo_rx 0 0 False (spaces_of [[entry 0 0, entry 3 1], [entry 0 0, entry 3 0]] (tree_init 5)) = None"
proof -
  have "tree_is_equal demo_rx (tree_init 5) 0 0" by code_simp
  then have "mutual_exclusion demo_rx 0 0 0 1 (spaces_of [[entry 0 0, entry 3 1], [entry 0 0, entry 3 0]] (tree_init 5))"
    by (simp add: mutual_exclusion_def spaces_of_def ltree_consts)
  then show ?thesis using mutual_exclusion_diverges by blast
qed


subsection \<open>Writing the spaces into their members\<close>

lemma for_every_member_node:
  assumes "\<And>q t. f q (f q t) = f q t"
  shows "ts_node (for_every_member f ms T) p = (if p \<in> set ms then f p (ts_node T p) else ts_node T p)"
  using assms by (induction ms arbitrary: T) (auto simp: for_every_member_def upd_node_def)

lemma for_every_member_frame [frame_laws]:
  "ts_next (for_every_member f ms T) = ts_next T" "ts_type (for_every_member f ms T) = ts_type T"
  by (induction ms arbitrary: T) (simp_all add: for_every_member_def upd_node_def)

lemma vs_add_idem: "vs_add v (vs_add v w) = vs_add v w"
  by (rule vs_ext) simp_all

lemma apply_access:
  "ss_space (fold (\<lambda>a st. if vs_isclear (sp_vs (ss_space st s) a) then st
        else space_for_every_member (tree_add_vs_do a (sp_vs (ss_space st s) a)) s st) as st) = ss_space st
   \<and> ss_list (fold (\<lambda>a st. if vs_isclear (sp_vs (ss_space st s) a) then st
        else space_for_every_member (tree_add_vs_do a (sp_vs (ss_space st s) a)) s st) as st) = ss_list st
   \<and> vs_ids (t_vs (ts_node (ss_tree (fold (\<lambda>a st. if vs_isclear (sp_vs (ss_space st s) a) then st
        else space_for_every_member (tree_add_vs_do a (sp_vs (ss_space st s) a)) s st) as st)) p) b)
      = vs_ids (t_vs (ts_node (ss_tree st) p) b)
        \<union> (if b \<in> set as \<and> p \<in> set (sp_members (ss_space st s)) then vs_ids (sp_vs (ss_space st s) b) else {})
   \<and> t_primary (ts_node (ss_tree (fold (\<lambda>a st. if vs_isclear (sp_vs (ss_space st s) a) then st
        else space_for_every_member (tree_add_vs_do a (sp_vs (ss_space st s) a)) s st) as st)) p)
      = t_primary (ts_node (ss_tree st) p)"
proof (induction as arbitrary: st)
  case (Cons a as)
  let ?st1 = "space_for_every_member (tree_add_vs_do a (sp_vs (ss_space st s) a)) s st"
  have f: "ss_space ?st1 = ss_space st" "ss_list ?st1 = ss_list st"
    by (simp_all add: space_for_every_member_def)
  have n: "ts_node (ss_tree ?st1) p = (if p \<in> set (sp_members (ss_space st s))
      then tree_add_vs_do a (sp_vs (ss_space st s) a) p (ts_node (ss_tree st) p) else ts_node (ss_tree st) p)"
    by (simp add: space_for_every_member_def for_every_member_node tree_add_vs_do_def vs_add_idem)
  show ?case
  proof (cases "vs_isclear (sp_vs (ss_space st s) a)")
    case True
    then have "vs_ids (sp_vs (ss_space st s) a) = {}" by (simp add: vs_isclear_iff)
    then show ?thesis using Cons.IH [of st] True by (cases "b = a") auto
  next
    case False
    then show ?thesis using Cons.IH [of ?st1] by (cases "b = a") (auto simp: f n tree_add_vs_do_def)
  qed
qed simp

lemma apply_space_effect:
  shows "ss_space (apply_space s st) = ss_space st" and "ss_list (apply_space s st) = ss_list st"
    and "a < NR_ACCESS_TYPES \<Longrightarrow> vs_ids (t_vs (ts_node (ss_tree (apply_space s st)) p) a)
      = vs_ids (t_vs (ts_node (ss_tree st) p) a)
        \<union> (if p \<in> set (sp_members (ss_space st s)) then vs_ids (sp_vs (ss_space st s) a) else {})"
    and "t_primary (ts_node (ss_tree (apply_space s st)) p)
      = (if sp_primary (ss_space st s) \<and> p \<in> set (sp_members (ss_space st s)) then Some s
         else t_primary (ts_node (ss_tree st) p))"
proof -
  define st1 where "st1 = (if sp_primary (ss_space st s) then space_for_every_member (tree_set_primary_space_do s) s st else st)"
  have f: "ss_space st1 = ss_space st" "ss_list st1 = ss_list st"
    by (simp_all add: st1_def space_for_every_member_def)
  have n: "t_vs (ts_node (ss_tree st1) p) = t_vs (ts_node (ss_tree st) p)"
    "t_primary (ts_node (ss_tree st1) p) = (if sp_primary (ss_space st s) \<and> p \<in> set (sp_members (ss_space st s))
       then Some s else t_primary (ts_node (ss_tree st) p))"
    by (auto simp: st1_def space_for_every_member_def for_every_member_node tree_set_primary_space_do_def)
  note a = apply_access [of s "[0..<NR_ACCESS_TYPES]" st1 p, folded st1_def]
  show "ss_space (apply_space s st) = ss_space st" "ss_list (apply_space s st) = ss_list st"
    "a < NR_ACCESS_TYPES \<Longrightarrow> vs_ids (t_vs (ts_node (ss_tree (apply_space s st)) p) a)
      = vs_ids (t_vs (ts_node (ss_tree st) p) a)
        \<union> (if p \<in> set (sp_members (ss_space st s)) then vs_ids (sp_vs (ss_space st s) a) else {})"
    "t_primary (ts_node (ss_tree (apply_space s st)) p)
      = (if sp_primary (ss_space st s) \<and> p \<in> set (sp_members (ss_space st s)) then Some s
         else t_primary (ts_node (ss_tree st) p))"
    using a unfolding apply_space_def st1_def [symmetric] by (simp_all add: f n)
qed

lemma fold_apply_space:
  assumes "a < NR_ACCESS_TYPES"
  shows "vs_ids (t_vs (ts_node (ss_tree (fold apply_space ss st)) p) a)
      = vs_ids (t_vs (ts_node (ss_tree st) p) a)
        \<union> \<Union> ((\<lambda>s. vs_ids (sp_vs (ss_space st s) a)) ` {s \<in> set ss. p \<in> set (sp_members (ss_space st s))})"
proof (induction ss arbitrary: st)
  case (Cons s ss)
  have "{t \<in> set (s # ss). p \<in> set (sp_members (ss_space st t))}
      = (if p \<in> set (sp_members (ss_space st s)) then insert s {t \<in> set ss. p \<in> set (sp_members (ss_space st t))}
         else {t \<in> set ss. p \<in> set (sp_members (ss_space st t))})"
    by auto
  then show ?case
    using Cons.IH [of "apply_space s st"] by (auto simp: apply_space_effect(1) apply_space_effect(3) [OF assms])
qed simp

lemma fold_apply_primary:
  "t_primary (ts_node (ss_tree (fold apply_space ss st)) p)
     = (case List.find (\<lambda>s. sp_primary (ss_space st s) \<and> p \<in> set (sp_members (ss_space st s))) (rev ss) of
          Some s \<Rightarrow> Some s | None \<Rightarrow> t_primary (ts_node (ss_tree st) p))"
proof (induction ss arbitrary: st)
  case (Cons s ss)
  have app: "List.find P (xs @ [x]) = (case List.find P xs of None \<Rightarrow> if P x then Some x else None | Some y \<Rightarrow> Some y)"
    for P :: "nat \<Rightarrow> bool" and xs x
    by (induction xs) auto
  show ?case
    using Cons.IH [of "apply_space s st"]
    by (auto simp: apply_space_effect(1,4) app split: option.splits)
qed simp



end
