(* ===== verification/Space_Members.thy ===== *)
theory Space_Members
  imports Space_Inv
begin

text \<open>
  The members of a space. The specification \<open>member_of\<close> says which nodes belong to a space: those that
  an entry of the space, or of a space it includes, names (as an alternative of the entry's node,
  or below one where the entry or an including one is recursive) and that no space on the way
  excludes. It covers spaces whose excluded entries are nodes; an excluded space is evaluated by
  \<open>is_included\<close>, whose failures are in \<open>Space_Inv\<close>. For those spaces the evaluation of the program
  terminates and computes exactly the specified set.
\<close>

subsection \<open>What an evaluation leaves alone\<close>

definition same_shape :: "tree_state \<Rightarrow> tree_state \<Rightarrow> bool" where
  "same_shape T T' \<longleftrightarrow> ts_next T' = ts_next T \<and>
     (\<forall>p. t_child (ts_node T' p) = t_child (ts_node T p) \<and> t_regex (ts_node T' p) = t_regex (ts_node T p)
        \<and> t_parent (ts_node T' p) = t_parent (ts_node T p) \<and> t_name (ts_node T' p) = t_name (ts_node T p)
        \<and> t_comp (ts_node T' p) = t_comp (ts_node T p))"

lemma same_shapeD:
  assumes "same_shape T T'"
  shows "ts_next T' = ts_next T" "t_child (ts_node T' p) = t_child (ts_node T p)"
    "t_regex (ts_node T' p) = t_regex (ts_node T p)" "t_parent (ts_node T' p) = t_parent (ts_node T p)"
    "t_name (ts_node T' p) = t_name (ts_node T p)" "t_comp (ts_node T' p) = t_comp (ts_node T p)"
  using assms by (simp_all add: same_shape_def)

lemma shape_rnth: "same_shape T T' \<Longrightarrow> tree_get_rnth T' p n = tree_get_rnth T p n"
  by (induction n arbitrary: p) (simp_all add: same_shapeD)

lemma shape_depth: "same_shape T T' \<Longrightarrow> tree_depth n T' p = tree_depth n T p"
  by (induction n arbitrary: p) (simp_all add: same_shapeD split: option.splits)

lemma shape_alt_i: "same_shape T T' \<Longrightarrow> tree_for_alt_i rx T' t p n = tree_for_alt_i rx T t p n"
  by (induction n arbitrary: t) (simp_all add: same_shapeD shape_rnth Let_def)

lemma shape_alternatives: "same_shape T T' \<Longrightarrow> tree_for_alternatives rx T' p = tree_for_alternatives rx T p"
  by (simp add: tree_for_alternatives_def Let_def shape_rnth shape_depth shape_alt_i same_shapeD)

lemma shape_ancestors: "same_shape T T' \<Longrightarrow> tree_ancestors n T' p = tree_ancestors n T p"
  by (induction n arbitrary: p) (simp_all add: same_shapeD split: option.splits)

lemma shape_equal: "same_shape T T' \<Longrightarrow> tree_is_equal rx T' t p = tree_is_equal rx T t p"
  by (simp add: tree_is_equal_def shape_alternatives)

lemma shape_offspring: "same_shape T T' \<Longrightarrow> tree_is_offspring rx T' t p = tree_is_offspring rx T t p"
  by (simp add: tree_is_offspring_def shape_alternatives shape_ancestors same_shapeD)

text \<open>A state of the evaluation: the nodes found so far are those marked as visited.\<close>

definition eval_state :: "tree_state \<Rightarrow> (nat \<Rightarrow> ltree_s list) \<Rightarrow> nat list \<Rightarrow> space_state \<Rightarrow> bool" where
  "eval_state T ls ms st \<longleftrightarrow> same_shape T (ss_tree st) \<and> (\<forall>s. sp_ltree (ss_space st s) = ls s)
     \<and> distinct ms \<and> (\<forall>p. t_visited (ts_node (ss_tree st) p) \<longleftrightarrow> p \<in> set ms)"

lemma eval_state_visit:
  assumes "eval_state T ls ms st" and "tree_get_visited_do p (ms, st) = (ms', st')"
  shows "eval_state T ls ms' st' \<and> set ms' = insert p (set ms)"
  using assms
  by (auto simp: eval_state_def tree_get_visited_do_def same_shape_def upd_node_def split: if_splits)

subsection \<open>Exclusion\<close>

text \<open>The value of \<open>is_excluded_i\<close> for a space that excludes nodes only.\<close>

fun node_excl :: "regex_lib \<Rightarrow> tree_state \<Rightarrow> ltree_s list \<Rightarrow> nat \<Rightarrow> nat" where
  "node_excl rx T [] t = 0"
| "node_excl rx T (l # ls) t =
     (if lt_is_tree l \<and> lt_excl l \<and> tree_is_equal rx T t (lt_ref l) then (if lt_rec l then 2 else 1)
      else if lt_is_tree l \<and> lt_excl l \<and> lt_rec l \<and> tree_is_offspring rx T t (lt_ref l) then 2
      else node_excl rx T ls t)"

definition excludes_nodes_only :: "ltree_s list \<Rightarrow> bool" where
  "excludes_nodes_only ls \<longleftrightarrow> (\<forall>l \<in> set ls. lt_excl l \<longrightarrow> lt_is_tree l)"

lemma excluded_loop_nodes:
  "same_shape T (ss_tree st) \<Longrightarrow> excludes_nodes_only ls \<Longrightarrow>
     excluded_loop inc rx t ls 0 st = Some (Ret (node_excl rx T ls t, st))"
  by (induction ls) (auto simp: excludes_nodes_only_def shape_equal shape_offspring)

lemma path_exclude_nodes:
  assumes "same_shape T (ss_tree st)" and "\<And>s. sp_ltree (ss_space st s) = ls s"
    and "\<And>s. s \<in> set sp \<Longrightarrow> excludes_nodes_only (ls s)" and "r < 2"
  shows "\<exists>r'. path_exclude_loop inc rx t sp r st = Some (Ret (r', st))
    \<and> (r' = 0 \<longleftrightarrow> r = 0 \<and> (\<forall>s \<in> set sp. node_excl rx T (ls s) t = 0))
    \<and> (2 \<le> r' \<longleftrightarrow> (\<exists>s \<in> set sp. 2 \<le> node_excl rx T (ls s) t))"
  using assms(3,4)
proof (induction sp arbitrary: r)
  case (Cons s sp)
  let ?rn = "node_excl rx T (ls s) t"
  have e: "is_excluded_i inc rx t s st = Some (Ret (?rn, st))"
    using Cons.prems(1) excluded_loop_nodes [OF assms(1)] by (simp add: is_excluded_i_def assms(2))
  show ?case
  proof (cases "1 < max ?rn r")
    case True
    then show ?thesis using Cons.prems(2) by (auto simp: e Let_def)
  next
    case False
    then have "max ?rn r < 2" by linarith
    then obtain r' where r': "path_exclude_loop inc rx t sp (max ?rn r) st = Some (Ret (r', st))"
      "r' = 0 \<longleftrightarrow> max ?rn r = 0 \<and> (\<forall>s \<in> set sp. node_excl rx T (ls s) t = 0)"
      "2 \<le> r' \<longleftrightarrow> (\<exists>s \<in> set sp. 2 \<le> node_excl rx T (ls s) t)"
      using Cons.IH [of "max ?rn r"] list.set_intros(2) [of _ sp s] Cons.prems(1) by metis
    then show ?thesis using False by (auto simp: e Let_def)
  qed
qed simp

definition kid_rel :: "tree_state \<Rightarrow> (nat \<times> nat) set" where
  "kid_rel T = {(b, p). b < ts_next T \<and> p \<in> set (t_child (ts_node T b)) \<union> set (t_regex (ts_node T b))}"

lemma kid_rel_parent:
  assumes "tree_ok rx T" and "(b, p) \<in> kid_rel T"
  shows "p < ts_next T" and "b < p" and "t_parent (ts_node T p) = Some b"
proof -
  have b: "b < ts_next T" and p: "p \<in> set (t_child (ts_node T b)) \<or> p \<in> set (t_regex (ts_node T b))"
    using assms(2) by (simp_all add: kid_rel_def)
  have *: "p < ts_next T \<and> t_parent (ts_node T p) = Some b"
    using p tree_ok_child [OF assms(1) b, of p] tree_ok_regex [OF assms(1) b, of p]
    unfolding plain_kid_def regex_kid_def by metis
  then show "p < ts_next T" "t_parent (ts_node T p) = Some b" by auto
  then have "0 < p" using assms(1) by (cases p) (auto simp: tree_ok_def)
  then obtain c where "c < p" "t_parent (ts_node T p) = Some c"
    using tree_ok_parent [OF assms(1), of p] * unfolding has_parent_def by blast
  then show "b < p" using * by simp
qed

lemma below_parent:
  assumes "tree_ok rx T" and "(a, d) \<in> (kid_rel T)\<^sup>*"
  shows "(d, a) \<in> (parent_rel T)\<^sup>*"
  using assms(2)
proof (induction rule: rtrancl_induct)
  case (step b c)
  then show ?case using kid_rel_parent(3) [OF assms(1)] by (auto simp: parent_rel_def intro: converse_rtrancl_into_rtrancl)
qed simp

lemma below_less:
  assumes "tree_ok rx T" and "(a, d) \<in> (kid_rel T)\<^sup>*" and "a < ts_next T"
  shows "d < ts_next T"
  using assms(2,3) by (induction rule: rtrancl_induct) (auto dest: kid_rel_parent(1) [OF assms(1)])

lemma offspring_below:
  assumes ok: "tree_ok rx T" and lt: "a < ts_next T" "l < ts_next T" and "(a, d) \<in> (kid_rel T)\<^sup>*"
    and "tree_is_equal rx T a l \<or> tree_is_offspring rx T a l"
  shows "tree_is_offspring rx T d l"
proof -
  have d: "d < ts_next T" using below_less [OF ok assms(4) lt(1)] .
  have up: "(d, a) \<in> (parent_rel T)\<^sup>*" using below_parent [OF ok assms(4)] .
  obtain b where b: "b \<in> set (tree_for_alternatives rx T l)" "(a, b) \<in> (parent_rel T)\<^sup>*"
    using assms(5) tree_ancestors_iff [OF ok lt(1) lt(1)]
    by (auto simp: tree_is_equal_def tree_is_offspring_def list_ex_iff)
  then have "(d, b) \<in> (parent_rel T)\<^sup>*" using up by simp
  then show ?thesis
    using b(1) tree_ancestors_iff [OF ok d d] by (auto simp: tree_is_offspring_def list_ex_iff)
qed

lemma node_excl_recursive:
  assumes ok: "tree_ok rx T" and a: "a < ts_next T" and d: "(a, d) \<in> (kid_rel T)\<^sup>*"
    and refs: "\<forall>l \<in> set ls. lt_is_tree l \<longrightarrow> lt_ref l < ts_next T" and "2 \<le> node_excl rx T ls a"
  shows "node_excl rx T ls d \<noteq> 0"
  using refs assms(5)
proof (induction ls)
  case (Cons l ls)
  then show ?case using offspring_below [OF ok a _ d, of "lt_ref l"] by (auto split: if_splits)
qed simp

subsection \<open>The specification\<close>

definition named_by :: "regex_lib \<Rightarrow> tree_state \<Rightarrow> bool \<Rightarrow> nat \<Rightarrow> nat \<Rightarrow> bool" where
  "named_by rx T recursive l t \<longleftrightarrow>
     (\<exists>a. alt_of rx T a l \<and> (t = a \<or> recursive \<and> (a, t) \<in> (kid_rel T)\<^sup>*))"

inductive member_of ::
  "regex_lib \<Rightarrow> tree_state \<Rightarrow> (nat \<Rightarrow> ltree_s list) \<Rightarrow> nat list \<Rightarrow> nat \<Rightarrow> bool \<Rightarrow> nat \<Rightarrow> bool" for rx T ls where
  node: "l \<in> set (ls space) \<Longrightarrow> \<not> lt_excl l \<Longrightarrow> lt_is_tree l \<Longrightarrow> named_by rx T (lt_rec l \<or> force) (lt_ref l) t \<Longrightarrow>
     \<forall>s \<in> set (sp @ [space]). node_excl rx T (ls s) t = 0 \<Longrightarrow> member_of rx T ls sp space force t"
| sub: "l \<in> set (ls space) \<Longrightarrow> \<not> lt_excl l \<Longrightarrow> \<not> lt_is_tree l \<Longrightarrow>
     member_of rx T ls (sp @ [space]) (lt_ref l) (lt_rec l \<or> force) t \<Longrightarrow> member_of rx T ls sp space force t"

text \<open>The inclusions among spaces are acyclic and at most \<open>MAX_SPACE_PATH\<close> deep: \<open>rank\<close> bounds the depth
  below a space. The entries name existing nodes.\<close>

definition ranked :: "tree_state \<Rightarrow> (nat \<Rightarrow> ltree_s list) \<Rightarrow> (nat \<Rightarrow> nat) \<Rightarrow> bool" where
  "ranked T ls rank \<longleftrightarrow>
     (\<forall>s. excludes_nodes_only (ls s) \<and> (\<forall>l \<in> set (ls s).
        (lt_is_tree l \<longrightarrow> lt_ref l < ts_next T) \<and> (\<not> lt_is_tree l \<longrightarrow> rank (lt_ref l) < rank s)))"

subsection \<open>Runs that collect a set of nodes\<close>

type_synonym collector = "nat list \<times> space_state \<Rightarrow> (unit, nat list \<times> space_state) run"

text \<open>\<open>collects T ls A f\<close>: from any state over the tree \<open>T\<close> and the lists \<open>ls\<close> the run \<open>f\<close> ends, and adds
  exactly the nodes of \<open>A\<close> to the members found.\<close>

definition collects :: "tree_state \<Rightarrow> (nat \<Rightarrow> ltree_s list) \<Rightarrow> nat set \<Rightarrow> collector \<Rightarrow> bool" where
  "collects T ls A f \<longleftrightarrow> (\<forall>ms st. eval_state T ls ms st \<longrightarrow>
     (\<exists>ms' st'. f (ms, st) = Some (Ret ((), (ms', st'))) \<and> eval_state T ls ms' st' \<and> set ms' = set ms \<union> A))"

lemma collectsE:
  assumes "collects T ls A f" and "eval_state T ls ms st"
  obtains ms' st' where "f (ms, st) = Some (Ret ((), (ms', st')))" "eval_state T ls ms' st'" "set ms' = set ms \<union> A"
  using assms unfolding collects_def by blast

lemma collectsI:
  "(\<And>ms st. eval_state T ls ms st \<Longrightarrow>
     \<exists>ms' st'. f (ms, st) = Some (Ret ((), (ms', st'))) \<and> eval_state T ls ms' st' \<and> set ms' = set ms \<union> A)
   \<Longrightarrow> collects T ls A f"
  unfolding collects_def by blast

lemma collects_none: "collects T ls {} (\<lambda>s. Some (Ret ((), s)))"
  by (simp add: collects_def)

lemma collects_visit: "collects T ls {p} (\<lambda>s. Some (Ret ((), tree_get_visited_do p s)))"
proof (rule collectsI)
  fix ms st assume e: "eval_state T ls ms st"
  obtain ms' st' where v: "tree_get_visited_do p (ms, st) = (ms', st')" by (cases "tree_get_visited_do p (ms, st)")
  with eval_state_visit [OF e v]
  show "\<exists>ms' st'. Some (Ret ((), tree_get_visited_do p (ms, st))) = Some (Ret ((), (ms', st')))
     \<and> eval_state T ls ms' st' \<and> set ms' = set ms \<union> {p}" by auto
qed

lemma collects_each:
  assumes "\<And>x. x \<in> set xs \<Longrightarrow> collects T ls (A x) (f x)"
  shows "collects T ls (\<Union> (A ` set xs)) (\<lambda>s. map_run (\<lambda>_. ())
     (each_until (\<lambda>x s. map_run (\<lambda>_. None) (f x s) :: (unit option, nat list \<times> space_state) run) xs s))"
proof -
  let ?e = "each_until (\<lambda>x s. map_run (\<lambda>_. None) (f x s) :: (unit option, nat list \<times> space_state) run)"
  have "\<exists>ms' st'. ?e xs (ms, st) = Some (Ret (None, (ms', st'))) \<and> eval_state T ls ms' st'
      \<and> set ms' = set ms \<union> \<Union> (A ` set xs)" if "eval_state T ls ms st" for ms st
    using assms that
  proof (induction xs arbitrary: ms st)
    case (Cons x xs)
    obtain ms1 st1 where 1: "f x (ms, st) = Some (Ret ((), (ms1, st1)))" "eval_state T ls ms1 st1"
      "set ms1 = set ms \<union> A x"
      using collectsE [OF Cons.prems(1) Cons.prems(2)] by (metis list.set_intros(1))
    obtain ms2 st2 where 2: "?e xs (ms1, st1) = Some (Ret (None, (ms2, st2)))" "eval_state T ls ms2 st2"
      "set ms2 = set ms1 \<union> \<Union> (A ` set xs)"
      using Cons.IH [OF Cons.prems(1) 1(2)] by (metis list.set_intros(2))
    show ?case using 1 2 by auto
  qed simp
  then show ?thesis by (intro collectsI) fastforce
qed

subsection \<open>One entry of a space\<close>

definition excl_free :: "regex_lib \<Rightarrow> tree_state \<Rightarrow> (nat \<Rightarrow> ltree_s list) \<Rightarrow> nat list \<Rightarrow> nat \<Rightarrow> bool" where
  "excl_free rx T ls sp t \<longleftrightarrow> (\<forall>s \<in> set sp. node_excl rx T (ls s) t = 0)"

definition reachable :: "tree_state \<Rightarrow> bool \<Rightarrow> nat \<Rightarrow> nat set" where
  "reachable T recursive t = (if recursive then {d. (t, d) \<in> (kid_rel T)\<^sup>*} else {t})"

lemma reachable_unfold:
  assumes "t < ts_next T"
  shows "reachable T True t =
    insert t (\<Union> (reachable T True ` set (t_child (ts_node T t) @ t_regex (ts_node T t))))"
  using assms by (auto simp: reachable_def kid_rel_def intro: converse_rtrancl_into_rtrancl elim: converse_rtranclE)

lemma eval_stateD:
  assumes "eval_state T ls ms st"
  shows "same_shape T (ss_tree st)" "sp_ltree (ss_space st s) = ls s"
  using assms by (simp_all add: eval_state_def)

lemma space_for_one_path_i_collects:
  assumes ok: "tree_ok rx T" and nodes: "\<And>s. s \<in> set sp \<Longrightarrow> excludes_nodes_only (ls s)"
    and refs: "\<And>s l. l \<in> set (ls s) \<Longrightarrow> lt_is_tree l \<Longrightarrow> lt_ref l < ts_next T"
    and "t < ts_next T" and "ts_next T < n + t"
  shows "collects T ls {d \<in> reachable T recursive t. excl_free rx T ls sp d} (space_for_one_path_i n rx sp recursive t)"
  using assms(4,5)
proof (induction n arbitrary: t)
  case (Suc n)
  let ?kids = "t_child (ts_node T t) @ t_regex (ts_node T t)"
  show ?case
  proof (rule collectsI)
    fix ms st assume e: "eval_state T ls ms st"
    obtain r where r: "space_path_exclude (is_included n rx t) rx sp t st = Some (Ret (r, st))"
      "r = 0 \<longleftrightarrow> excl_free rx T ls sp t" "2 \<le> r \<longleftrightarrow> (\<exists>s \<in> set sp. 2 \<le> node_excl rx T (ls s) t)"
      using path_exclude_nodes [OF eval_stateD [OF e] nodes, of sp 0 "is_included n rx t" rx t]
      by (auto simp: space_path_exclude_def excl_free_def)
    let ?V = "if r = 0 then {t} else {}"
    obtain ms1 st1 where 1: "(if r = 0 then tree_get_visited_do t (ms, st) else (ms, st)) = (ms1, st1)"
      and e1: "eval_state T ls ms1 st1" and s1: "set ms1 = set ms \<union> ?V"
      using collects_visit [of T ls t] e unfolding collects_def by (cases "r = 0") fastforce+
    have kids: "t_child (ts_node (ss_tree st) t) @ t_regex (ts_node (ss_tree st) t) = ?kids"
      using eval_stateD(1) [OF e] by (simp add: same_shapeD)
    have step: "space_for_one_path_i (Suc n) rx sp recursive t (ms, st) =
       (if recursive \<and> r < 2 then map_run (\<lambda>_. ()) (each_until (\<lambda>p s. map_run (\<lambda>_. None) (space_for_one_path_i n rx sp recursive p s)
            :: (unit option, nat list \<times> space_state) run) ?kids (ms1, st1)) else Some (Ret ((), (ms1, st1))))"
      by (simp only: space_for_one_path_i.simps r(1) option.case outcome.case prod.case Let_def kids 1)
    show "\<exists>ms' st'. space_for_one_path_i (Suc n) rx sp recursive t (ms, st) = Some (Ret ((), (ms', st')))
       \<and> eval_state T ls ms' st' \<and> set ms' = set ms \<union> {d \<in> reachable T recursive t. excl_free rx T ls sp d}"
    proof (cases "recursive \<and> r < 2")
      case True
      have "collects T ls {d \<in> reachable T recursive p. excl_free rx T ls sp d} (space_for_one_path_i n rx sp recursive p)"
        if "p \<in> set ?kids" for p
      proof -
        have "(t, p) \<in> kid_rel T" using that Suc.prems(1) by (simp add: kid_rel_def)
        from kid_rel_parent [OF ok this] Suc.prems show ?thesis by (intro Suc.IH) auto
      qed
      note c = collects_each [of ?kids T ls "\<lambda>p. {d \<in> reachable T recursive p. excl_free rx T ls sp d}"
          "space_for_one_path_i n rx sp recursive", OF this]
      obtain ms2 st2 where 2: "map_run (\<lambda>_. ()) (each_until (\<lambda>p s. map_run (\<lambda>_. None) (space_for_one_path_i n rx sp recursive p s)
            :: (unit option, nat list \<times> space_state) run) ?kids (ms1, st1)) = Some (Ret ((), (ms2, st2)))"
        "eval_state T ls ms2 st2"
        "set ms2 = set ms1 \<union> (\<Union>p \<in> set ?kids. {d \<in> reachable T recursive p. excl_free rx T ls sp d})"
        using collectsE [OF c e1] by blast
      have "set ms2 = set ms \<union> {d \<in> reachable T recursive t. excl_free rx T ls sp d}"
        using 2(3) s1 r(2) True reachable_unfold [OF Suc.prems(1)] by auto
      then show ?thesis using 2(1,2) True unfolding step by simp
    next
      case False
      have "{d \<in> reachable T recursive t. excl_free rx T ls sp d} = ?V"
      proof (cases recursive)
        case True
        then obtain s where s: "s \<in> set sp" "2 \<le> node_excl rx T (ls s) t" using False r(3) by auto
        have "\<not> excl_free rx T ls sp d" if "(t, d) \<in> (kid_rel T)\<^sup>*" for d
          using node_excl_recursive [OF ok Suc.prems(1) that _ s(2)] refs s(1) by (auto simp: excl_free_def)
        then show ?thesis using True False by (auto simp: reachable_def)
      qed (use r(2) in \<open>auto simp: reachable_def\<close>)
      then show ?thesis using e1 s1 False unfolding step by auto
    qed
  qed
qed simp

lemma alt_of_less:
  assumes ok: "tree_ok rx T" and "alt_of rx T a p" and "p < ts_next T"
  shows "a < ts_next T"
  using assms(2,3)
proof (induction rule: alt_of.induct)
  case (below r q t a)
  have "0 < r" using below(1) ok by (cases r) (auto simp: tree_ok_def)
  then obtain c where "c < r" "t_parent (ts_node T r) = Some c"
    using tree_ok_parent [OF ok below.prems] unfolding has_parent_def by blast
  then have "t < ts_next T" using below by simp
  then have "(t, a) \<in> kid_rel T" using below(3) by (auto simp: alt_edge_def kid_rel_def split: if_splits)
  then show ?case using kid_rel_parent(1) [OF ok] by simp
qed simp

lemma space_for_one_path_collects:
  assumes ok: "tree_ok rx T" and nodes: "\<And>s. s \<in> set sp \<Longrightarrow> excludes_nodes_only (ls s)"
    and refs: "\<And>s l. l \<in> set (ls s) \<Longrightarrow> lt_is_tree l \<Longrightarrow> lt_ref l < ts_next T"
    and p: "p < ts_next T" and n: "ts_next T < n"
  shows "collects T ls {t. named_by rx T recursive p t \<and> excl_free rx T ls sp t} (space_for_one_path n rx p sp recursive)"
proof -
  let ?alts = "tree_for_alternatives rx T p"
  have "collects T ls {d \<in> reachable T recursive a. excl_free rx T ls sp d} (space_for_one_path_i n rx sp recursive a)"
    if "a \<in> set ?alts" for a
  proof -
    have "a < ts_next T" using that tree_for_alternatives_iff [OF ok p] alt_of_less [OF ok _ p] by blast
    then show ?thesis using n by (intro space_for_one_path_i_collects [OF ok nodes refs]) auto
  qed
  note c = collects_each [of ?alts T ls "\<lambda>a. {d \<in> reachable T recursive a. excl_free rx T ls sp d}"
      "space_for_one_path_i n rx sp recursive", OF this]
  have "(\<Union>a \<in> set ?alts. {d \<in> reachable T recursive a. excl_free rx T ls sp d})
      = {t. named_by rx T recursive p t \<and> excl_free rx T ls sp t}"
    using tree_for_alternatives_iff [OF ok p] by (auto simp: named_by_def reachable_def split: if_splits)
  with c have c: "collects T ls {t. named_by rx T recursive p t \<and> excl_free rx T ls sp t}
    (\<lambda>s. map_run (\<lambda>_. ()) (each_until (\<lambda>x s. map_run (\<lambda>_. None) (space_for_one_path_i n rx sp recursive x s)
        :: (unit option, nat list \<times> space_state) run) ?alts s))" by simp
  show ?thesis
  proof (rule collectsI)
    fix ms st assume e: "eval_state T ls ms st"
    have "tree_for_alternatives rx (ss_tree (snd (ms, st))) p = ?alts"
      using shape_alternatives [OF eval_stateD(1) [OF e]] by simp
    then show "\<exists>ms' st'. space_for_one_path n rx p sp recursive (ms, st) = Some (Ret ((), ms', st')) \<and>
        eval_state T ls ms' st' \<and> set ms' = set ms \<union> {t. named_by rx T recursive p t \<and> excl_free rx T ls sp t}"
      using collectsE [OF c e] by (simp only: space_for_one_path_def) blast
  qed
qed

subsection \<open>The members of a space\<close>

lemma rankedD:
  assumes "ranked T ls rank"
  shows "excludes_nodes_only (ls s)" "l \<in> set (ls s) \<Longrightarrow> lt_is_tree l \<Longrightarrow> lt_ref l < ts_next T"
    "l \<in> set (ls s) \<Longrightarrow> \<not> lt_is_tree l \<Longrightarrow> rank (lt_ref l) < rank s"
  using assms unfolding ranked_def by blast+

lemma member_of_entries:
  "{t. member_of rx T ls sp space force t} = (\<Union>l \<in> set (ls space).
     if lt_excl l then {}
     else if lt_is_tree l then {t. named_by rx T (lt_rec l \<or> force) (lt_ref l) t \<and> excl_free rx T ls (sp @ [space]) t}
     else {t. member_of rx T ls (sp @ [space]) (lt_ref l) (lt_rec l \<or> force) t})"
  by (rule set_eqI) (auto simp: member_of.simps [of rx T ls sp space force] excl_free_def)

lemma eval_state_used:
  "eval_state T ls ms st \<Longrightarrow> eval_state T ls ms (upd_space s (\<lambda>x. x\<lparr>sp_used := True\<rparr>) st)"
  by (simp add: eval_state_def upd_space_def)

lemma space_for_every_path_i_collects:
  assumes ok: "tree_ok rx T" and rk: "ranked T ls rank"
    and "\<forall>s \<in> set sp. rank space < rank s" and "length sp + rank space < MAX_SPACE_PATH"
    and "rank space + ts_next T + 1 < n"
  shows "collects T ls {t. member_of rx T ls sp space force t} (space_for_every_path_i n rx space sp force)"
  using assms(3-)
proof (induction n arbitrary: space sp force)
  case (Suc n)
  define A where "A = (\<lambda>l. if lt_excl l then {}
     else if lt_is_tree l then {t. named_by rx T (lt_rec l \<or> force) (lt_ref l) t \<and> excl_free rx T ls (sp @ [space]) t}
     else {t. member_of rx T ls (sp @ [space]) (lt_ref l) (lt_rec l \<or> force) t})"
  define f where "f = (\<lambda>l s. if lt_excl l then Some (Ret ((), s))
     else if lt_is_tree l then space_for_one_path n rx (lt_ref l) (sp @ [space]) (lt_rec l \<or> force) s
     else space_for_every_path_i n rx (lt_ref l) (sp @ [space]) (lt_rec l \<or> force) s)"
  have "collects T ls (A l) (f l)" if l: "l \<in> set (ls space)" for l
  proof (cases "lt_excl l")
    case True
    then show ?thesis by (simp add: A_def f_def collects_none)
  next
    case False
    show ?thesis
    proof (cases "lt_is_tree l")
      case True
      have "collects T ls (A l) (space_for_one_path n rx (lt_ref l) (sp @ [space]) (lt_rec l \<or> force))"
        using space_for_one_path_collects [OF ok, where sp = "sp @ [space]" and ls = ls and n = n and p = "lt_ref l"
            and recursive = "lt_rec l \<or> force"] rankedD(1) [OF rk] rankedD(2) [OF rk] Suc.prems(3) l False True
        by (simp add: A_def)
      then show ?thesis using False True by (simp add: f_def)
    next
      case n: False
      have "rank (lt_ref l) < rank space" using rankedD(3) [OF rk l n] .
      then have "collects T ls (A l) (space_for_every_path_i n rx (lt_ref l) (sp @ [space]) (lt_rec l \<or> force))"
        using False n Suc.prems by (simp only: A_def if_False) (intro Suc.IH, auto)
      then show ?thesis using False n by (simp add: f_def)
    qed
  qed
  note c = collects_each [of "ls space" T ls A f, OF this]
  have M: "{t. member_of rx T ls sp space force t} = \<Union> (A ` set (ls space))"
    unfolding A_def by (rule member_of_entries)
  show ?case
  proof (rule collectsI)
    fix ms st assume e: "eval_state T ls ms st"
    let ?st1 = "upd_space space (\<lambda>x. x\<lparr>sp_used := True\<rparr>) st"
    have p: "space_path_add sp space st = Ret (sp @ [space], ?st1)"
      using Suc.prems(1,2) by (auto simp: space_path_add_def Let_def)
    have "space_for_every_path_i (Suc n) rx space sp force (ms, st)
        = map_run (\<lambda>_. ()) (each_until (\<lambda>l s. map_run (\<lambda>_. None) (f l s)
            :: (unit option, nat list \<times> space_state) run) (ls space) (ms, ?st1))"
      by (simp only: space_for_every_path_i.simps p outcome.case prod.case f_def eval_stateD(2) [OF e])
    then show "\<exists>ms' st'. space_for_every_path_i (Suc n) rx space sp force (ms, st) = Some (Ret ((), ms', st'))
        \<and> eval_state T ls ms' st' \<and> set ms' = set ms \<union> {t. member_of rx T ls sp space force t}"
      using collectsE [OF c eval_state_used [OF e]] unfolding M by metis
  qed
qed simp

text \<open>No operation that builds the tree marks a node as visited.\<close>

definition unvisited :: "tree_state \<Rightarrow> bool" where
  "unvisited st \<longleftrightarrow> (\<forall>p. \<not> t_visited (ts_node st p))"

lemma unvisited_alloc: "unvisited st \<Longrightarrow> unvisited (alloc_node b name st)"
  by (simp add: unvisited_def alloc_node_def fresh_node_def Let_def)

lemma unvisited_link: "unvisited st \<Longrightarrow> unvisited (link_node rx b r p st)"
  by (simp add: unvisited_def link_node_def upd_node_def)

lemma unvisited_mem [simp]: "unvisited (st\<lparr>ts_mem := m\<rparr>) = unvisited st"
  by (simp add: unvisited_def)

lemma unvisited_step:
  assumes "unvisited st" and "\<And>b s. unvisited s \<Longrightarrow> unvisited (fst (rec b s))"
  shows "unvisited (fst (create_step rec rx base name regexp st))"
proof -
  let ?st1 = "alloc_node base name st" and ?b = "ts_node st base" and ?p = "ts_next st"
  have 1: "unvisited ?st1" using assms(1) by (rule unvisited_alloc)
  obtain st2 q where q: "(if t_comp ?b = AnyRegex \<and> t_child ?b = [] \<and> t_regex ?b = [] \<and> \<not> (regexp \<and> name = ''.*'')
      then rec base ?st1 else (?st1, Some base)) = (st2, q)" by fastforce
  have 2: "unvisited st2" using q 1 assms(2) [OF 1, of base] by (auto split: if_splits)
  obtain st4 r where r: "rec ?p (link_node rx base regexp ?p st2) = (st4, r)" by fastforce
  have 4: "unvisited st4" using assms(2) [OF unvisited_link [OF 2], of ?p rx base regexp ?p] r by simp
  show ?thesis
    using assms(1) 2 4 unvisited_link [OF 2]
    by (simp only: create_step_def Let_def q prod.case r) (simp split: option.split)
qed

lemma unvisited_create_one: "unvisited st \<Longrightarrow> unvisited (fst (create_one rx b path st))"
  unfolding create_one_def create_one_i_def create_any_def
  by (cases "isreg (first_comp path)") (simp add: unvisited_step)

lemma unvisited_create_loop: "unvisited st \<Longrightarrow> unvisited (fst (create_loop rx p path st))"
proof (induction rx p path st rule: create_loop.induct)
  case (2 rx p path st)
  then show ?case using unvisited_create_one [of st rx p path]
    by (cases "create_one rx p path st") (simp del: create_loop.simps add: create_loop.simps(2))
qed simp

lemma unvisited_create_path:
  assumes "unvisited st"
  shows "unvisited (fst (create_path rx path st))"
proof -
  have "unvisited (fst (case create_loop rx (Some global_root) d st of (st', p) \<Rightarrow> create_loop rx p path st'))" for d
    using unvisited_create_loop [OF assms, of rx "Some global_root" d]
    by (cases "create_loop rx (Some global_root) d st") (simp add: unvisited_create_loop)
  then show ?thesis using unvisited_create_loop [OF assms] assms
    by (simp add: create_path_def split: option.split del: create_loop.simps)
qed

lemma unvisited_init: "unvisited (tree_init mem)"
  by (simp add: unvisited_def tree_init_def fresh_node_def)

text \<open>C1. For spaces that exclude nodes only and include one another without a cycle, at most
  \<open>MAX_SPACE_PATH\<close> deep, over a well-formed tree where no node is marked: the evaluation of a space
  ends, whatever the depth bound above the number of nodes and the nesting, without a fatal error,
  and finds each member exactly once, where the members are those of the specification
  \<open>member_of\<close>. The tree keeps its shape and the spaces their entries.\<close>

theorem space_for_every_path_finds_members:
  assumes "tree_ok rx (ss_tree st)" and "ranked (ss_tree st) (\<lambda>s. sp_ltree (ss_space st s)) rank"
    and "rank space < MAX_SPACE_PATH" and "rank space + ts_next (ss_tree st) + 1 < n"
    and "unvisited (ss_tree st)"
  shows "\<exists>ms st'. space_for_every_path n rx space st = Some (Ret (ms, st')) \<and> distinct ms
     \<and> set ms = {t. member_of rx (ss_tree st) (\<lambda>s. sp_ltree (ss_space st s)) [] space False t}
     \<and> same_shape (ss_tree st) (ss_tree st') \<and> (\<forall>s. sp_ltree (ss_space st' s) = sp_ltree (ss_space st s))"
proof -
  let ?T = "ss_tree st" and ?ls = "\<lambda>s. sp_ltree (ss_space st s)"
  have e: "eval_state ?T ?ls [] st" using assms(5) by (simp add: eval_state_def same_shape_def unvisited_def)
  have "collects ?T ?ls {t. member_of rx ?T ?ls [] space False t} (space_for_every_path_i n rx space [] False)"
    by (rule space_for_every_path_i_collects [OF assms(1,2)]) (use assms(3,4) in auto)
  from collectsE [OF this e] obtain ms st' where r: "space_for_every_path_i n rx space [] False ([], st) = Some (Ret ((), ms, st'))"
    and e': "eval_state ?T ?ls ms st'" and m: "set ms = set [] \<union> {t. member_of rx ?T ?ls [] space False t}" .
  show ?thesis
    using r m e' unfolding eval_state_def by (intro exI [of _ ms] exI [of _ st']) (simp add: space_for_every_path_def)
qed

text \<open>An instance: the tree holds \<open>fs/home\<close>; the first space is everything below \<open>fs\<close> without
  \<open>fs/home\<close>, and the second space, which is the root.\<close>

definition demo_spaces :: space_state where
  "demo_spaces = spaces_of [[entry LTREE_EXCLUDE 3, entry LTREE_RECURSIVE 1, entry LTREE_T_SPACE 1], [entry LTREE_T_TREE 0]]
     (fst (create_path demo_rx ''fs/home'' (tree_init 9)))"

theorem space_for_every_path_finds_members_witness:
  "{t. member_of demo_rx (ss_tree demo_spaces) (\<lambda>s. sp_ltree (ss_space demo_spaces s)) [] 0 False t} = {0, 1, 2, 4}"
proof -
  have ok: "tree_ok demo_rx (ss_tree demo_spaces)"
    unfolding demo_spaces_def spaces_of_def
    using tree_reach_ok [OF tree_reach.path [OF tree_reach.init, of demo_rx "''fs/home''" 9]] by simp
  have nx: "ts_next (ss_tree demo_spaces) = 5" by code_simp
  have rk: "ranked (ss_tree demo_spaces) (\<lambda>s. sp_ltree (ss_space demo_spaces s)) (\<lambda>s. 1 - s)"
    unfolding ranked_def nx
    by (auto simp: demo_spaces_def spaces_of_def entry_def excludes_nodes_only_def lt_excl_def lt_is_tree_def ltree_consts nth_Cons'
        split: if_splits)
  have nv: "unvisited (ss_tree demo_spaces)"
    unfolding demo_spaces_def spaces_of_def
    by (simp add: unvisited_create_path unvisited_init)
  obtain ms st' where r: "space_for_every_path 9 demo_rx 0 demo_spaces = Some (Ret (ms, st'))"
    and m: "set ms = {t. member_of demo_rx (ss_tree demo_spaces) (\<lambda>s. sp_ltree (ss_space demo_spaces s)) [] 0 False t}"
    using space_for_every_path_finds_members [OF ok rk, of 0 9] nx nv by (auto simp: MAX_SPACE_PATH_def)
  have "(case space_for_every_path 9 demo_rx 0 demo_spaces of Some (Ret (ms, _)) \<Rightarrow> set ms = {0, 1, 2, 4} | _ \<Rightarrow> False)"
    by code_simp
  with r m show ?thesis by simp
qed

end
