(* ===== verification/Events.thy ===== *)
theory Events
  imports Spaces
begin

text \<open>
  Decision of an event (\<open>event.c\<close>, second half): the combination of handler results, and the walk over
  the handlers of an event name, of the nodes of the subject and of the nodes of the object, which a
  handler may suspend and a later call resumes. What the pointers of the code lead to is an
  environment: the classes, the class handlers of a class, the handler lists of the event names, the
  nodes of the tree, and the functions of the event handlers, which act on the rest \<open>'st\<close> of the program's
  state and on the context. A handler returns 0 when its result is valid, a positive number to be
  continued and a negative one for an error. \<open>None\<close> is an access outside an object's data, or a
  handler that does not return.
\<close>

definition RESULT_ERR :: int where "RESULT_ERR = -1"
definition RESULT_FORCE_ALLOW :: int where "RESULT_FORCE_ALLOW = 0"
definition RESULT_DENY :: int where "RESULT_DENY = 1"
definition RESULT_FAKE_ALLOW :: int where "RESULT_FAKE_ALLOW = 2"
definition RESULT_ALLOW :: int where "RESULT_ALLOW = 3"
definition RESULT_RETRY :: int where "RESULT_RETRY = 4"

lemmas result_consts = RESULT_ERR_def RESULT_FORCE_ALLOW_def RESULT_DENY_def RESULT_FAKE_ALLOW_def
  RESULT_ALLOW_def RESULT_RETRY_def

definition evaluate_result :: "int \<Rightarrow> int \<Rightarrow> int" where
  "evaluate_result old new =
     (let new = (if new \<noteq> RESULT_ALLOW \<and> new \<noteq> RESULT_DENY \<and> new \<noteq> RESULT_FAKE_ALLOW \<and> new \<noteq> RESULT_FORCE_ALLOW
                 then RESULT_DENY else new) in
      if old = RESULT_DENY \<or> new = RESULT_DENY then RESULT_DENY
      else if old = RESULT_ERR \<or> new = RESULT_FAKE_ALLOW then new
      else if old = RESULT_ALLOW \<and> new = RESULT_FORCE_ALLOW then new
      else old)"

record event_context_s =
  ec_operation :: object_s
  ec_subject :: object_s
  ec_object :: object_s
  ec_result :: int
  ec_unhandled :: bool

text \<open>A class handler with its lookup of a tree node, which may set the object's handlers.\<close>

record 'st tree_handler = "'st class_handler" +
  h_get_tree_node :: "'st \<Rightarrow> object_s \<Rightarrow> ('st \<times> object_s \<times> nat option) option"

record 'st ev_env =
  e_class :: "nat \<Rightarrow> class_s"
  e_handlers :: "nat \<Rightarrow> 'st tree_handler list"
  e_names :: "nat \<Rightarrow> nat \<Rightarrow> event_hadler_hash_s list"
  e_node :: "'st \<Rightarrow> nat \<Rightarrow> tree_s"
  e_run :: "nat \<Rightarrow> 'st \<Rightarrow> event_context_s \<Rightarrow> (int \<times> 'st \<times> event_context_s) option"

text \<open>The part of a \<open>comm_buffer_s\<close> that the walk uses; \<open>cb_hh\<close> and \<open>cb_ch\<close> are the lists that the cursors
  \<open>hh\<close> and \<open>ch\<close> point to, \<open>cb_event\<close> is the event name of the event, \<open>None\<close> while \<open>_init\<close> runs.\<close>

record 'st event_cb =
  cb_phase :: nat
  cb_list :: nat
  cb_hh :: "event_hadler_hash_s list"
  cb_ch :: "'st tree_handler list"
  cb_context :: event_context_s
  cb_event :: "nat option"
  cb_init_handler :: nat
  cb_st :: 'st

definition class_handlers :: "'st ev_env \<Rightarrow> nat \<Rightarrow> 'st class_handler list" where
  "class_handlers env a = map class_handler.truncate (e_handlers env (c_classname (e_class env a)))"

text \<open>The test of one operand: it holds when there is no operand or the set of the handler is full.\<close>

definition operand_matches :: "'st ev_env \<Rightarrow> 'st \<Rightarrow> vs \<Rightarrow> object_s \<Rightarrow> bool option" where
  "operand_matches env st v ob =
     (case o_class ob of
        None \<Rightarrow> Some True
      | Some a \<Rightarrow> if vs_isfull v then Some True
                  else object_cmp_vs (class_handlers env a) st (e_class env a) v (int AT_MEMBER) ob)"

definition handler_matches :: "'st ev_env \<Rightarrow> 'st \<Rightarrow> event_hadler_hash_s \<Rightarrow> event_context_s \<Rightarrow> bool option" where
  "handler_matches env st hh c =
     (case operand_matches env st (hh_subject_vs hh) (ec_subject c) of
        None \<Rightarrow> None
      | Some False \<Rightarrow> Some False
      | Some True \<Rightarrow> operand_matches env st (hh_object_vs hh) (ec_object c))"

text \<open>\<open>do_event_handler\<close> for the entry \<open>hh\<close> that \<open>cb_hh\<close> begins with.\<close>

definition run_handler :: "'st ev_env \<Rightarrow> nat \<Rightarrow> 'st event_cb \<Rightarrow> (int \<times> 'st event_cb) option" where
  "run_handler env h cb =
     (let result = ec_result (cb_context cb) in
      case e_run env h (cb_st cb) (cb_context cb) of
        None \<Rightarrow> None
      | Some (i, st, c) \<Rightarrow>
          Some (i, cb\<lparr>cb_st := st, cb_context :=
            (if i = 0 then c\<lparr>ec_result := evaluate_result result (ec_result c), ec_unhandled := False\<rparr>
             else c\<lparr>ec_result := result\<rparr>)\<rparr>))"

definition do_event_handler :: "'st ev_env \<Rightarrow> event_hadler_hash_s \<Rightarrow> 'st event_cb \<Rightarrow> (int \<times> 'st event_cb) option" where
  "do_event_handler env hh cb =
     (if cb_phase cb = 0 then
        (case handler_matches env (cb_st cb) hh (cb_context cb) of
           None \<Rightarrow> None
         | Some False \<Rightarrow> Some (-1, cb)
         | Some True \<Rightarrow> run_handler env (hh_handler hh) cb)
      else run_handler env (hh_handler hh) cb)"

text \<open>\<open>_init\<close> of the configuration.\<close>

definition do_init_handler :: "'st ev_env \<Rightarrow> 'st event_cb \<Rightarrow> (int \<times> 'st event_cb) option" where
  "do_init_handler env cb =
     (let c = (if cb_phase cb = 0 then (cb_context cb)\<lparr>ec_result := RESULT_ERR, ec_unhandled := True\<rparr>
               else cb_context cb) in
      case e_run env (cb_init_handler cb) (cb_st cb) c of
        None \<Rightarrow> None
      | Some (i, st, c) \<Rightarrow>
          if 0 < i then Some (i, cb\<lparr>cb_st := st, cb_context := c, cb_phase := 1\<rparr>)
          else Some (0, cb\<lparr>cb_st := st, cb_context := c, cb_phase := 0\<rparr>))"

text \<open>The inner loop of all three parts: it walks from the cursor, runs the entries that \<open>sel\<close> selects
  and leaves with phase \<open>k\<close> and the cursor on the handler when that is to be continued. The result 0
  stands for the end of the loop.\<close>

fun handler_loop ::
  "'st ev_env \<Rightarrow> (event_hadler_hash_s \<Rightarrow> bool) \<Rightarrow> nat \<Rightarrow> event_hadler_hash_s list \<Rightarrow> 'st event_cb
     \<Rightarrow> (int \<times> 'st event_cb) option" where
  "handler_loop env sel k [] cb = Some (0, cb\<lparr>cb_hh := []\<rparr>)"
| "handler_loop env sel k (hh # hhs) cb =
     (if sel hh then
        (case do_event_handler env hh cb of
           None \<Rightarrow> None
         | Some (i, cb1) \<Rightarrow>
             if 0 < i then Some (i, cb1\<lparr>cb_phase := k, cb_hh := hh # hhs\<rparr>)
             else handler_loop env sel k hhs (cb1\<lparr>cb_phase := 0\<rparr>))
      else handler_loop env sel k hhs (cb\<lparr>cb_phase := 0\<rparr>))"

text \<open>The loops over the class handlers of the subject (\<open>k = 2\<close>) and of the object (\<open>k = 3\<close>).\<close>

definition operand :: "nat \<Rightarrow> event_context_s \<Rightarrow> object_s" where
  "operand k c = (if k = 2 then ec_subject c else ec_object c)"

definition set_operand :: "nat \<Rightarrow> object_s \<Rightarrow> event_context_s \<Rightarrow> event_context_s" where
  "set_operand k ob c = (if k = 2 then c\<lparr>ec_subject := ob\<rparr> else c\<lparr>ec_object := ob\<rparr>)"

definition node_handlers :: "nat \<Rightarrow> tree_s \<Rightarrow> nat \<Rightarrow> event_hadler_hash_s list" where
  "node_handlers k t = (if k = 2 then t_subject_handlers t else t_object_handlers t)"

fun class_loop ::
  "'st ev_env \<Rightarrow> nat \<Rightarrow> nat \<Rightarrow> 'st tree_handler list \<Rightarrow> 'st event_cb \<Rightarrow> (int \<times> 'st event_cb) option" where
  "class_loop env ev k [] cb = Some (0, cb\<lparr>cb_ch := []\<rparr>)"
| "class_loop env ev k (ch # chs) cb =
     (case h_get_tree_node ch (cb_st cb) (operand k (cb_context cb)) of
        None \<Rightarrow> None
      | Some (st, ob, t) \<Rightarrow>
          let cb1 = cb\<lparr>cb_st := st, cb_context := set_operand k ob (cb_context cb)\<rparr> in
          (case t of
             None \<Rightarrow> class_loop env ev k chs (cb1\<lparr>cb_phase := 0\<rparr>)
           | Some t \<Rightarrow>
               let hhs = (if cb_phase cb = 0 then node_handlers k (e_node env st t) (cb_list cb) else cb_hh cb) in
               (case handler_loop env (\<lambda>hh. hh_evname hh = ev) k hhs cb1 of
                  None \<Rightarrow> None
                | Some (i, cb2) \<Rightarrow>
                    if 0 < i then Some (i, cb2\<lparr>cb_ch := ch # chs\<rparr>)
                    else class_loop env ev k chs (cb2\<lparr>cb_phase := 0\<rparr>))))"

definition class_part :: "'st ev_env \<Rightarrow> nat \<Rightarrow> nat \<Rightarrow> 'st event_cb \<Rightarrow> (int \<times> 'st event_cb) option" where
  "class_part env ev k cb =
     (case o_class (operand k (cb_context cb)) of
        None \<Rightarrow> if cb_phase cb = k then class_loop env ev k (cb_ch cb) cb else Some (0, cb)
      | Some a \<Rightarrow>
          if cb_phase cb = 0 then class_loop env ev k (e_handlers env (c_classname (e_class env a))) cb
          else if cb_phase cb = k then class_loop env ev k (cb_ch cb) cb
          else Some (0, cb))"

text \<open>The preparation of a new decision.\<close>

definition start_decision :: "'st ev_env \<Rightarrow> 'st event_cb \<Rightarrow> 'st event_cb option" where
  "start_decision env cb =
     (let c = (cb_context cb)\<lparr>ec_result := RESULT_ERR, ec_unhandled := True\<rparr> in
      case o_class (ec_subject c) of
        None \<Rightarrow> None
      | Some a \<Rightarrow>
          (case object_is_invalid (e_class env a) (ec_subject c) of
             None \<Rightarrow> None
           | Some False \<Rightarrow> Some (cb\<lparr>cb_context := c\<rparr>)
           | Some True \<Rightarrow>
               map_option (\<lambda>(st, ob). cb\<lparr>cb_st := st, cb_context := c\<lparr>ec_subject := ob\<rparr>\<rparr>)
                 (object_do_sethandler (class_handlers env a) (e_class env a) (cb_st cb) (ec_subject c))))"

definition name_part :: "'st ev_env \<Rightarrow> nat \<Rightarrow> 'st event_cb \<Rightarrow> (int \<times> 'st event_cb) option" where
  "name_part env ev cb =
     (if cb_phase cb = 0 then handler_loop env (\<lambda>_. True) 1 (e_names env ev (cb_list cb)) cb
      else if cb_phase cb = 1 then handler_loop env (\<lambda>_. True) 1 (cb_hh cb) cb
      else Some (0, cb))"

text \<open>A step of a sequence that ends with the first positive result.\<close>

definition and_then ::
  "(int \<times> 's) option \<Rightarrow> ('s \<Rightarrow> (int \<times> 's) option) \<Rightarrow> (int \<times> 's) option" where
  "and_then m f = (case m of None \<Rightarrow> None | Some (i, s) \<Rightarrow> if 0 < i then Some (i, s) else f s)"

definition event_walk :: "'st ev_env \<Rightarrow> nat \<Rightarrow> 'st event_cb \<Rightarrow> (int \<times> 'st event_cb) option" where
  "event_walk env ev cb =
     and_then (and_then (name_part env ev cb) (class_part env ev 2)) (class_part env ev 3)"

definition do_event_list :: "'st ev_env \<Rightarrow> 'st event_cb \<Rightarrow> (int \<times> 'st event_cb) option" where
  "do_event_list env cb =
     (case cb_event cb of
        None \<Rightarrow> do_init_handler env cb
      | Some ev \<Rightarrow>
          (case (if cb_phase cb = 0 \<and> (cb_list cb = EHH_VS_ALLOW \<or> cb_list cb = EHH_VS_DENY)
                 then start_decision env cb else Some cb) of
             None \<Rightarrow> None
           | Some cb0 \<Rightarrow>
               and_then (event_walk env ev (cb0\<lparr>cb_phase := cb_phase cb0 mod 16\<rparr>))
                 (\<lambda>cb. Some (if ec_unhandled (cb_context cb) then -1 else 0, cb\<lparr>cb_phase := 0\<rparr>))))"

definition do_event :: "'st ev_env \<Rightarrow> 'st event_cb \<Rightarrow> (int \<times> 'st event_cb) option" where
  "do_event env cb =
     (case do_event_list env cb of
        None \<Rightarrow> None
      | Some (r, cb) \<Rightarrow>
          if 0 < r then Some (r, cb)
          else if cb_list cb = EHH_VS_ALLOW then
            (if ec_result (cb_context cb) = RESULT_RETRY then Some (r, cb)
             else do_event_list env (cb\<lparr>cb_list :=
                    (if ec_result (cb_context cb) = RESULT_DENY \<or> ec_result (cb_context cb) = RESULT_FAKE_ALLOW
                     then EHH_NOTIFY_DENY else EHH_NOTIFY_ALLOW)\<rparr>))
          else if cb_list cb = EHH_VS_DENY then
            (if ec_result (cb_context cb) = RESULT_RETRY then Some (r, cb)
             else do_event_list env (cb\<lparr>cb_list := EHH_NOTIFY_DENY\<rparr>))
          else Some (r, cb))"

definition empty_object :: object_s where
  "empty_object = \<lparr>o_attr = \<lparr>a_offset = 0, a_length = 0, a_type = MED_TYPE_END, a_name = []\<rparr>,
     o_flags = 0, o_class = None, o_data = []\<rparr>"

text \<open>\<open>get_empty_context\<close> sets the three objects and leaves the result alone.\<close>

definition get_empty_context :: "event_context_s \<Rightarrow> event_context_s" where
  "get_empty_context c = c\<lparr>ec_operation := empty_object, ec_subject := empty_object, ec_object := empty_object\<rparr>"

subsection \<open>The verdict\<close>

text \<open>How strict a result is. A result that is none of the four is taken as a denial.\<close>

definition valid_result :: "int \<Rightarrow> int" where
  "valid_result r = (if r \<in> {RESULT_ALLOW, RESULT_DENY, RESULT_FAKE_ALLOW, RESULT_FORCE_ALLOW} then r else RESULT_DENY)"

definition strictness :: "int \<Rightarrow> nat" where
  "strictness r = (if r = RESULT_ALLOW then 1 else if r = RESULT_FORCE_ALLOW then 2
     else if r = RESULT_FAKE_ALLOW then 3 else if r = RESULT_DENY then 4 else 0)"

definition verdict :: "int list \<Rightarrow> int" where
  "verdict rs = fold (\<lambda>new old. evaluate_result old new) rs RESULT_ERR"

definition settled :: "int \<Rightarrow> bool" where
  "settled r \<longleftrightarrow> r \<in> {RESULT_ERR, RESULT_ALLOW, RESULT_DENY, RESULT_FAKE_ALLOW, RESULT_FORCE_ALLOW}"

lemma evaluate_result_cases:
  assumes "settled old"
  shows "settled (evaluate_result old new)" and "evaluate_result old new \<noteq> RESULT_ERR"
    and "strictness (evaluate_result old new) = max (strictness old) (strictness (valid_result new))"
    and "evaluate_result old new = old \<or> evaluate_result old new = valid_result new"
  using assms by (auto simp: evaluate_result_def settled_def strictness_def valid_result_def result_consts Let_def)

lemma evaluate_result_monotone: "strictness old \<le> strictness (evaluate_result old new)"
  by (auto simp: evaluate_result_def strictness_def result_consts Let_def)

lemma strictness_inj: "settled a \<Longrightarrow> settled b \<Longrightarrow> strictness a = strictness b \<Longrightarrow> a = b"
  by (auto simp: settled_def strictness_def result_consts)

lemma valid_settled: "settled (valid_result r)" "valid_result r \<noteq> RESULT_ERR"
  by (auto simp: settled_def valid_result_def result_consts)

lemma strictness_pos: "settled r \<Longrightarrow> r \<noteq> RESULT_ERR \<Longrightarrow> 0 < strictness r"
  by (auto simp: settled_def strictness_def)

lemma fold_evaluate:
  assumes "settled r"
  shows "settled (fold (\<lambda>new old. evaluate_result old new) rs r)
    \<and> strictness (fold (\<lambda>new old. evaluate_result old new) rs r) = fold (\<lambda>x. max (strictness (valid_result x))) rs (strictness r)"
  using assms by (induction rs arbitrary: r) (simp_all add: evaluate_result_cases max.commute)

lemma fold_max_le: "fold (\<lambda>x. max (f x)) xs n \<le> m \<longleftrightarrow> n \<le> m \<and> (\<forall>x \<in> set xs. f x \<le> (m :: nat))"
  by (induction xs arbitrary: n) auto

lemma verdict_iff:
  assumes "settled v"
  shows "verdict rs = v \<longleftrightarrow>
    (v = RESULT_ERR \<and> rs = [] \<or> v \<in> valid_result ` set rs \<and> (\<forall>r \<in> set rs. strictness (valid_result r) \<le> strictness v))"
proof -
  have e: "settled RESULT_ERR" "strictness RESULT_ERR = 0"
    by (simp_all add: settled_def strictness_def result_consts)
  have s: "settled (verdict rs)" and m: "strictness (verdict rs) = fold (\<lambda>x. max (strictness (valid_result x))) rs 0"
    using fold_evaluate [of RESULT_ERR rs] e by (simp_all add: verdict_def)
  have le: "strictness (verdict rs) \<le> k \<longleftrightarrow> (\<forall>r \<in> set rs. strictness (valid_result r) \<le> k)" for k
    by (simp add: m fold_max_le)
  have "fold (\<lambda>new old. evaluate_result old new) rs r \<in> insert r (valid_result ` set rs)" if "settled r" for r
    using that
  proof (induction rs arbitrary: r)
    case (Cons x xs)
    then show ?case using Cons.IH [of "evaluate_result r x"] evaluate_result_cases(1,4) [of r x]
      by (cases "evaluate_result r x = r") auto
  qed simp
  from this [of RESULT_ERR] have i: "verdict rs \<in> insert RESULT_ERR (valid_result ` set rs)"
    by (simp add: verdict_def settled_def)
  show ?thesis
  proof
    assume v: "verdict rs = v"
    then show "v = RESULT_ERR \<and> rs = [] \<or> v \<in> valid_result ` set rs \<and> (\<forall>r \<in> set rs. strictness (valid_result r) \<le> strictness v)"
    proof (cases "v = RESULT_ERR")
      case True
      have "rs = []"
      proof (rule ccontr)
        assume "rs \<noteq> []"
        then have "strictness (valid_result (hd rs)) \<le> 0" using le [of 0] v True e(2) by simp
        then show False using strictness_pos [OF valid_settled, of "hd rs"] by simp
      qed
      then show ?thesis using True by simp
    qed (use v i le in auto)
  next
    assume a: "v = RESULT_ERR \<and> rs = [] \<or> v \<in> valid_result ` set rs \<and> (\<forall>r \<in> set rs. strictness (valid_result r) \<le> strictness v)"
    show "verdict rs = v"
    proof (cases "rs = []")
      case False
      with a obtain r where r: "r \<in> set rs" "v = valid_result r" "\<forall>r \<in> set rs. strictness (valid_result r) \<le> strictness v" by auto
      then have "strictness (verdict rs) = strictness v" using le by (auto intro: antisym)
      then show ?thesis using strictness_inj s assms by blast
    qed (use a in \<open>auto simp: verdict_def\<close>)
  qed
qed

subsection \<open>What a step of the walk keeps\<close>

lemma run_handler_monotone:
  "run_handler env h cb = Some (i, cb') \<Longrightarrow> strictness (ec_result (cb_context cb)) \<le> strictness (ec_result (cb_context cb'))"
  by (auto simp: run_handler_def Let_def evaluate_result_monotone split: option.splits)

lemma do_event_handler_monotone:
  "do_event_handler env hh cb = Some (i, cb') \<Longrightarrow> strictness (ec_result (cb_context cb)) \<le> strictness (ec_result (cb_context cb'))"
  by (auto simp: do_event_handler_def run_handler_monotone split: if_splits option.splits bool.splits)

lemma handler_loop_monotone:
  "handler_loop env sel k hhs cb = Some (i, cb') \<Longrightarrow> strictness (ec_result (cb_context cb)) \<le> strictness (ec_result (cb_context cb'))"
proof (induction hhs arbitrary: cb)
  case (Cons hh hhs)
  show ?case
  proof (cases "sel hh")
    case True
    then obtain j cb1 where h: "do_event_handler env hh cb = Some (j, cb1)"
      using Cons.prems by (auto split: option.splits)
    note 1 = do_event_handler_monotone [OF h]
    show ?thesis
    proof (cases "0 < j")
      case True
      then show ?thesis using Cons.prems \<open>sel hh\<close> h 1 by auto
    next
      case False
      then have "handler_loop env sel k hhs (cb1\<lparr>cb_phase := 0\<rparr>) = Some (i, cb')"
        using Cons.prems \<open>sel hh\<close> h by simp
      from Cons.IH [OF this] show ?thesis using 1 by simp
    qed
  next
    case False
    then show ?thesis using Cons.prems Cons.IH [of "cb\<lparr>cb_phase := 0\<rparr>"] by simp
  qed
qed auto

lemma set_operand_result [simp]: "ec_result (set_operand k ob c) = ec_result c"
  by (simp add: set_operand_def)

lemma class_loop_monotone:
  "class_loop env ev k chs cb = Some (i, cb') \<Longrightarrow> strictness (ec_result (cb_context cb)) \<le> strictness (ec_result (cb_context cb'))"
proof (induction chs arbitrary: cb)
  case (Cons ch chs)
  then obtain st ob t where g: "h_get_tree_node ch (cb_st cb) (operand k (cb_context cb)) = Some (st, ob, t)"
    by (auto split: option.splits)
  let ?cb1 = "cb\<lparr>cb_st := st, cb_context := set_operand k ob (cb_context cb)\<rparr>"
  show ?case
  proof (cases t)
    case None
    then show ?thesis using Cons.prems Cons.IH [of "?cb1\<lparr>cb_phase := 0\<rparr>"] g by (simp add: Let_def)
  next
    case (Some t')
    let ?hhs = "if cb_phase cb = 0 then node_handlers k (e_node env st t') (cb_list cb) else cb_hh cb"
    obtain j cb2 where h: "handler_loop env (\<lambda>hh. hh_evname hh = ev) k ?hhs ?cb1 = Some (j, cb2)"
      using Cons.prems g Some by (auto simp: Let_def split: option.splits)
    have 1: "strictness (ec_result (cb_context cb)) \<le> strictness (ec_result (cb_context cb2))"
      using handler_loop_monotone [OF h] by simp
    show ?thesis
      using Cons.prems Cons.IH [of "cb2\<lparr>cb_phase := 0\<rparr>"] 1 by (auto simp: g Some h Let_def split: if_splits)
  qed
qed auto

lemma event_walk_monotone:
  "event_walk env ev cb = Some (i, cb') \<Longrightarrow> strictness (ec_result (cb_context cb)) \<le> strictness (ec_result (cb_context cb'))"
proof -
  have n: "name_part env ev cb = Some (i, cb') \<Longrightarrow> strictness (ec_result (cb_context cb)) \<le> strictness (ec_result (cb_context cb'))" for cb cb' i
    by (auto simp: name_part_def handler_loop_monotone split: if_splits)
  have c: "class_part env ev k cb = Some (i, cb') \<Longrightarrow> strictness (ec_result (cb_context cb)) \<le> strictness (ec_result (cb_context cb'))" for k cb cb' i
    by (auto simp: class_part_def class_loop_monotone split: if_splits option.splits)
  show "event_walk env ev cb = Some (i, cb') \<Longrightarrow> ?thesis"
    by (auto simp: event_walk_def and_then_def split: option.splits if_splits dest!: n c)
qed

subsection \<open>Suspended handlers\<close>

text \<open>A handler run to its end: every time it asks to be continued it is called again, with the result
  the event had, as \<open>do_event_handler\<close> leaves it. \<open>m\<close> bounds the number of calls.\<close>

fun run_to_end ::
  "nat \<Rightarrow> ('st \<Rightarrow> event_context_s \<Rightarrow> (int \<times> 'st \<times> event_context_s) option)
     \<Rightarrow> 'st \<Rightarrow> event_context_s \<Rightarrow> (int \<times> 'st \<times> event_context_s) option" where
  "run_to_end 0 f st c = None"
| "run_to_end (Suc m) f st c =
     (case f st c of
        None \<Rightarrow> None
      | Some (i, st', c') \<Rightarrow>
          if 0 < i then run_to_end m f st' (c'\<lparr>ec_result := ec_result c\<rparr>) else Some (i, st', c'))"

definition undisturbed :: "nat \<Rightarrow> 'st ev_env \<Rightarrow> 'st ev_env" where
  "undisturbed m env = env\<lparr>e_run := \<lambda>h. run_to_end m (e_run env h)\<rparr>"

text \<open>The buffer is put aside and its event continued by a new call until that is over.\<close>

inductive driven :: "'st ev_env \<Rightarrow> (int \<times> 'st event_cb) option \<Rightarrow> int \<times> 'st event_cb \<Rightarrow> bool" for env where
  over: "i \<le> 0 \<Longrightarrow> driven env (Some (i, cb)) (i, cb)"
| again: "0 < i \<Longrightarrow> driven env (do_event_list env cb) out \<Longrightarrow> driven env (Some (i, cb)) out"

definition seq_run ::
  "('s \<Rightarrow> 's) \<Rightarrow> (int \<times> 's) option \<Rightarrow> ('s \<Rightarrow> (int \<times> 's) option) \<Rightarrow> (int \<times> 's) option" where
  "seq_run w m f = (case m of None \<Rightarrow> None | Some (i, s) \<Rightarrow> if 0 < i then Some (i, w s) else f s)"

lemma and_then_simps [simp]:
  "and_then None f = None" "and_then (Some (i, s)) f = (if 0 < i then Some (i, s) else f s)"
  by (simp_all add: and_then_def)

lemma seq_run_simps [simp]:
  "seq_run w None f = None" "seq_run w (Some (i, s)) f = (if 0 < i then Some (i, w s) else f s)"
  by (simp_all add: seq_run_def)

lemma and_then_assoc: "and_then (and_then m f) g = and_then m (\<lambda>s. and_then (f s) g)"
  by (cases m) auto

lemma and_then_seq: "and_then m f = seq_run (\<lambda>s. s) m f"
  by (simp add: and_then_def seq_run_def)

lemma same_phase: "cb_phase cb = p \<Longrightarrow> cb\<lparr>cb_phase := p\<rparr> = cb"
  by auto

lemma run_to_end_over: "run_to_end m f st c = Some (i, r) \<Longrightarrow> i \<le> 0"
  by (induction m arbitrary: st c) (auto split: option.splits if_splits)

lemma undisturbed_simps [simp]:
  "e_class (undisturbed m env) = e_class env" "e_handlers (undisturbed m env) = e_handlers env"
  "e_names (undisturbed m env) = e_names env" "e_node (undisturbed m env) = e_node env"
  by (simp_all add: undisturbed_def)

lemma undisturbed_start [simp]: "start_decision (undisturbed m env) cb = start_decision env cb"
  unfolding start_decision_def class_handlers_def undisturbed_simps by (rule refl)

lemma undisturbed_matches [simp]: "handler_matches (undisturbed m env) st hh c = handler_matches env st hh c"
  unfolding handler_matches_def operand_matches_def class_handlers_def undisturbed_simps by (rule refl)

lemma undisturbed_run: "run_handler (undisturbed m env) h cb = Some (i, cb') \<Longrightarrow> i \<le> 0"
  by (auto simp: run_handler_def undisturbed_def Let_def split: option.splits dest: run_to_end_over)

lemma undisturbed_handler: "do_event_handler (undisturbed m env) hh cb = Some (i, cb') \<Longrightarrow> i \<le> 0"
  by (auto simp: do_event_handler_def split: if_splits option.splits bool.splits dest: undisturbed_run)

lemma undisturbed_loop: "handler_loop (undisturbed m env) sel k hhs cb = Some (i, cb') \<Longrightarrow> i = 0"
proof (induction hhs arbitrary: cb)
  case (Cons hh hhs)
  show ?case
  proof (cases "sel hh")
    case True
    then obtain j cb1 where h: "do_event_handler (undisturbed m env) hh cb = Some (j, cb1)"
      using Cons.prems by (auto split: option.splits)
    with undisturbed_handler [OF h] True Cons show ?thesis by auto
  qed (use Cons in auto)
qed simp

lemma undisturbed_class_loop: "class_loop (undisturbed m env) ev k chs cb = Some (i, cb') \<Longrightarrow> i = 0"
  by (induction chs arbitrary: cb) (auto simp: Let_def split: option.splits if_splits dest!: undisturbed_loop)

lemma undisturbed_class_part: "class_part (undisturbed m env) ev k cb = Some (i, cb') \<Longrightarrow> i = 0"
  by (auto simp: class_part_def split: option.splits if_splits dest: undisturbed_class_loop)

subsection \<open>The cursors do not influence a loop\<close>

lemma run_handler_fields:
  assumes "run_handler env h cb = Some (i, cb')"
  shows "cb_event cb' = cb_event cb" "cb_list cb' = cb_list cb" "cb_phase cb' = cb_phase cb"
  using assms by (auto simp: run_handler_def Let_def split: option.splits)

lemma run_handler_cursors:
  "run_handler env h (cb\<lparr>cb_phase := p, cb_hh := l\<rparr>)
     = map_option (\<lambda>(i, cb). (i, cb\<lparr>cb_phase := p, cb_hh := l\<rparr>)) (run_handler env h cb)"
  "run_handler env h (cb\<lparr>cb_hh := l\<rparr>) = map_option (\<lambda>(i, cb). (i, cb\<lparr>cb_hh := l\<rparr>)) (run_handler env h cb)"
  "run_handler env h (cb\<lparr>cb_ch := cs\<rparr>) = map_option (\<lambda>(i, cb). (i, cb\<lparr>cb_ch := cs\<rparr>)) (run_handler env h cb)"
  by (simp_all add: run_handler_def Let_def split: option.split)

lemma do_event_handler_cursors:
  "do_event_handler env h (cb\<lparr>cb_hh := l\<rparr>) = map_option (\<lambda>(i, cb). (i, cb\<lparr>cb_hh := l\<rparr>)) (do_event_handler env h cb)"
  "do_event_handler env h (cb\<lparr>cb_ch := cs\<rparr>) = map_option (\<lambda>(i, cb). (i, cb\<lparr>cb_ch := cs\<rparr>)) (do_event_handler env h cb)"
  by (simp_all add: do_event_handler_def run_handler_cursors split: option.split bool.split)

lemma handler_loop_hh [simp]: "handler_loop env sel k hhs (cb\<lparr>cb_hh := l\<rparr>) = handler_loop env sel k hhs cb"
proof (induction hhs arbitrary: cb)
  case (Cons hh hhs)
  then have "handler_loop env sel k hhs (cb\<lparr>cb_hh := l, cb_phase := 0\<rparr>) = handler_loop env sel k hhs (cb\<lparr>cb_phase := 0\<rparr>)" for cb
  proof -
    have "cb\<lparr>cb_hh := l, cb_phase := 0\<rparr> = cb\<lparr>cb_phase := 0, cb_hh := l\<rparr>" by simp
    then show ?thesis by (simp only: Cons.IH)
  qed
  then show ?case by (simp add: do_event_handler_cursors split: option.split)
qed simp

lemma handler_loop_ch:
  "handler_loop env sel k hhs (cb\<lparr>cb_ch := cs\<rparr>)
     = map_option (\<lambda>(i, cb). (i, cb\<lparr>cb_ch := cs\<rparr>)) (handler_loop env sel k hhs cb)"
proof (induction hhs arbitrary: cb)
  case (Cons hh hhs)
  then have "handler_loop env sel k hhs (cb\<lparr>cb_ch := cs, cb_phase := 0\<rparr>)
      = map_option (\<lambda>(i, cb). (i, cb\<lparr>cb_ch := cs\<rparr>)) (handler_loop env sel k hhs (cb\<lparr>cb_phase := 0\<rparr>))" for cb
  proof -
    have "cb\<lparr>cb_ch := cs, cb_phase := 0\<rparr> = cb\<lparr>cb_phase := 0, cb_ch := cs\<rparr>" by simp
    then show ?thesis by (simp only: Cons.IH)
  qed
  then show ?case by (simp add: do_event_handler_cursors split: option.split)
qed simp

lemma class_loop_ch [simp]: "class_loop env ev k chs (cb\<lparr>cb_ch := cs\<rparr>) = class_loop env ev k chs cb"
proof (induction chs arbitrary: cb)
  case (Cons ch chs)
  have eqs: "cb\<lparr>cb_ch := cs, cb_phase := 0\<rparr> = cb\<lparr>cb_phase := 0, cb_ch := cs\<rparr>"
    "cb\<lparr>cb_ch := cs, cb_st := s, cb_context := c\<rparr> = cb\<lparr>cb_st := s, cb_context := c, cb_ch := cs\<rparr>"
    "cb\<lparr>cb_ch := cs, cb_st := s, cb_context := c, cb_phase := 0\<rparr> = cb\<lparr>cb_st := s, cb_context := c, cb_phase := 0, cb_ch := cs\<rparr>"
    for cb :: "'a event_cb" and s c by simp_all
  have 1: "class_loop env ev k chs (cb\<lparr>cb_ch := cs, cb_phase := 0\<rparr>) = class_loop env ev k chs (cb\<lparr>cb_phase := 0\<rparr>)" for cb
    by (simp only: eqs Cons.IH)
  have 2: "class_loop env ev k chs (cb\<lparr>cb_ch := cs, cb_st := s, cb_context := c, cb_phase := 0\<rparr>)
      = class_loop env ev k chs (cb\<lparr>cb_st := s, cb_context := c, cb_phase := 0\<rparr>)" for s c
    by (simp only: eqs Cons.IH)
  have 3: "handler_loop env sel k hhs (cb\<lparr>cb_ch := cs, cb_st := s, cb_context := c\<rparr>)
      = map_option (\<lambda>(i, cb). (i, cb\<lparr>cb_ch := cs\<rparr>)) (handler_loop env sel k hhs (cb\<lparr>cb_st := s, cb_context := c\<rparr>))" for sel hhs s c
    by (simp only: eqs handler_loop_ch)
  show ?case by (simp add: Let_def 1 2 3 split: option.split)
qed simp

lemma handler_loop_fields:
  assumes "handler_loop env sel k hhs cb = Some (i, cb')"
  shows "cb_event cb' = cb_event cb" "cb_list cb' = cb_list cb" "cb_phase cb = 0 \<Longrightarrow> i \<le> 0 \<Longrightarrow> cb_phase cb' = 0"
proof -
  have *: "do_event_handler env hh cb = Some (i, cb') \<Longrightarrow> cb_event cb' = cb_event cb \<and> cb_list cb' = cb_list cb"
    for hh cb cb' i
    by (auto simp: do_event_handler_def split: if_splits option.splits bool.splits dest: run_handler_fields)
  have "cb_event cb' = cb_event cb \<and> cb_list cb' = cb_list cb \<and> (cb_phase cb = 0 \<longrightarrow> i \<le> 0 \<longrightarrow> cb_phase cb' = 0)"
    using assms
    by (induction hhs arbitrary: cb) (auto split: if_splits option.splits dest!: *)
  then show "cb_event cb' = cb_event cb" "cb_list cb' = cb_list cb" "cb_phase cb = 0 \<Longrightarrow> i \<le> 0 \<Longrightarrow> cb_phase cb' = 0"
    by auto
qed

subsection \<open>A suspended event and an undisturbed one\<close>

lemma resumed_handler:
  assumes "run_handler (undisturbed (Suc m) env) h cb = Some (j, cbj)" and "run_handler env h cb = Some (i, cb1)"
  shows "(i \<le> 0 \<and> j = i \<and> cbj = cb1) \<or> (0 < i \<and> run_handler (undisturbed m env) h cb1 = Some (j, cbj))"
  using assms by (auto simp: run_handler_def undisturbed_def Let_def split: option.splits if_splits)

text \<open>The body of the loop for a selected entry that runs.\<close>

definition selected_body ::
  "'st ev_env \<Rightarrow> (event_hadler_hash_s \<Rightarrow> bool) \<Rightarrow> nat \<Rightarrow> event_hadler_hash_s \<Rightarrow> event_hadler_hash_s list
     \<Rightarrow> 'st event_cb \<Rightarrow> (int \<times> 'st event_cb) option" where
  "selected_body env sel k hh hhs cb =
     (case run_handler env (hh_handler hh) cb of
        None \<Rightarrow> None
      | Some (i, cb1) \<Rightarrow>
          if 0 < i then Some (i, cb1\<lparr>cb_phase := k, cb_hh := hh # hhs\<rparr>)
          else handler_loop env sel k hhs (cb1\<lparr>cb_phase := 0\<rparr>))"

lemma selected_undisturbed:
  assumes "selected_body (undisturbed n env) sel k hh hhs cb = Some (0, cb')"
  obtains j cbj where "run_handler (undisturbed n env) (hh_handler hh) cb = Some (j, cbj)"
    "handler_loop (undisturbed n env) sel k hhs (cbj\<lparr>cb_phase := 0\<rparr>) = Some (0, cb')"
proof -
  obtain j cbj where r: "run_handler (undisturbed n env) (hh_handler hh) cb = Some (j, cbj)"
    using assms by (cases "run_handler (undisturbed n env) (hh_handler hh) cb") (auto simp only: selected_body_def option.case)
  with assms undisturbed_run [OF r] show thesis
    by (intro that [OF r]) (simp only: selected_body_def option.case prod.case not_less [symmetric] if_False)
qed

lemma handler_loop_run:
  assumes "sel hh" and "cb_phase cb = 0 \<Longrightarrow> handler_matches env (cb_st cb) hh (cb_context cb) = Some True"
  shows "handler_loop env sel k (hh # hhs) cb = selected_body env sel k hh hhs cb"
proof -
  have "do_event_handler env hh cb = run_handler env (hh_handler hh) cb"
    using assms(2) by (cases "cb_phase cb = 0") (simp_all add: do_event_handler_def)
  then show ?thesis using assms(1) by (simp add: selected_body_def)
qed

lemma handler_loop_skip:
  assumes "sel hh" and "cb_phase cb = 0" and "handler_matches env (cb_st cb) hh (cb_context cb) = Some False"
  shows "handler_loop env sel k (hh # hhs) cb = handler_loop env sel k hhs cb"
  using assms by (simp add: do_event_handler_def same_phase)

lemma selected_driven:
  assumes G: "\<And>cb. cb_phase cb = k \<Longrightarrow> cb_event cb = ev \<Longrightarrow>
        do_event_list env (w cb) = seq_run w (handler_loop env sel k (cb_hh cb) cb) rest"
    and k: "0 < k" and sel: "sel hh"
    and tail: "\<And>cb. cb_event cb = ev \<Longrightarrow> handler_loop (undisturbed n env) sel k hhs cb = Some (0, cb') \<Longrightarrow>
        driven env (seq_run w (handler_loop env sel k hhs cb) rest) out"
    and "run_handler (undisturbed m env) (hh_handler hh) cb = Some (j, cbj)" and "cb_event cb = ev"
    and "handler_loop (undisturbed n env) sel k hhs (cbj\<lparr>cb_phase := 0\<rparr>) = Some (0, cb')"
  shows "driven env (seq_run w (selected_body env sel k hh hhs cb) rest) out"
  using assms(5-)
proof (induction m arbitrary: cb cbj)
  case 0
  then show ?case by (simp add: run_handler_def undisturbed_def Let_def)
next
  case (Suc m)
  obtain i cb1 where r: "run_handler env (hh_handler hh) cb = Some (i, cb1)"
    using Suc.prems(1) by (auto simp: run_handler_def undisturbed_def Let_def split: option.splits)
  have ev1: "cb_event cb1 = ev" using run_handler_fields [OF r] Suc.prems(2) by simp
  from resumed_handler [OF Suc.prems(1) r] show ?case
  proof (elim disjE conjE)
    assume "i \<le> 0" "cbj = cb1"
    then show ?thesis using tail [of "cb1\<lparr>cb_phase := 0\<rparr>"] Suc.prems(3) ev1 by (simp add: selected_body_def r)
  next
    assume i: "0 < i" and m: "run_handler (undisturbed m env) (hh_handler hh) cb1 = Some (j, cbj)"
    let ?cb2 = "cb1\<lparr>cb_phase := k, cb_hh := hh # hhs\<rparr>"
    have "run_handler (undisturbed m env) (hh_handler hh) ?cb2 = Some (j, cbj\<lparr>cb_phase := k, cb_hh := hh # hhs\<rparr>)"
      by (subst run_handler_cursors(1)) (simp add: m)
    moreover have "cbj\<lparr>cb_phase := k, cb_hh := hh # hhs, cb_phase := 0\<rparr> = cbj\<lparr>cb_phase := 0, cb_hh := hh # hhs\<rparr>"
      by simp
    then have "handler_loop (undisturbed n env) sel k hhs (cbj\<lparr>cb_phase := k, cb_hh := hh # hhs, cb_phase := 0\<rparr>) = Some (0, cb')"
      using Suc.prems(3) by (simp only: handler_loop_hh)
    ultimately have "driven env (seq_run w (selected_body env sel k hh hhs ?cb2) rest) out"
      using Suc.IH [of ?cb2] ev1 by simp
    moreover have "handler_loop env sel k (hh # hhs) ?cb2 = selected_body env sel k hh hhs ?cb2"
      using handler_loop_run [of sel hh, OF sel, of ?cb2] k by simp
    ultimately have "driven env (do_event_list env (w ?cb2)) out"
      using G [of ?cb2] ev1 by (simp del: handler_loop.simps)
    then show ?thesis using i by (simp add: selected_body_def r driven.again)
  qed
qed

lemma loop_driven:
  assumes G: "\<And>cb. cb_phase cb = k \<Longrightarrow> cb_event cb = ev \<Longrightarrow>
        do_event_list env (w cb) = seq_run w (handler_loop env sel k (cb_hh cb) cb) rest"
    and k: "0 < k" and d: "driven env (rest cb') out"
    and "cb_event cb = ev" and "handler_loop (undisturbed n env) sel k hhs cb = Some (0, cb')"
  shows "driven env (seq_run w (handler_loop env sel k hhs cb) rest) out"
  using assms(4,5)
proof (induction hhs arbitrary: cb)
  case Nil
  then show ?case using d by simp
next
  case (Cons hh hhs)
  show ?case
  proof (cases "sel hh")
    case False
    then show ?thesis using Cons.prems Cons.IH [of "cb\<lparr>cb_phase := 0\<rparr>"] by simp
  next
    case sel: True
    let ?m = "handler_matches env (cb_st cb) hh (cb_context cb)"
    consider "cb_phase cb = 0" "?m = None" | "cb_phase cb = 0" "?m = Some False" | "cb_phase cb = 0 \<Longrightarrow> ?m = Some True"
      by (cases "cb_phase cb = 0"; cases ?m; force)
    then show ?thesis
    proof cases
      case 1
      then show ?thesis using Cons.prems sel by (simp add: do_event_handler_def)
    next
      case 2
      then have "handler_loop (undisturbed n env) sel k hhs cb = Some (0, cb')"
        using Cons.prems(2) handler_loop_skip [of sel hh, OF sel, of cb "undisturbed n env" k hhs] by (simp del: handler_loop.simps)
      from Cons.IH [OF Cons.prems(1) this] show ?thesis
        using handler_loop_skip [of sel hh, OF sel 2, of k hhs] by (simp del: handler_loop.simps)
    next
      case 3
      then have "selected_body (undisturbed n env) sel k hh hhs cb = Some (0, cb')"
        using Cons.prems(2) handler_loop_run [of sel hh, OF sel, of cb "undisturbed n env" k hhs] by (simp del: handler_loop.simps)
      then obtain j cbj where j: "run_handler (undisturbed n env) (hh_handler hh) cb = Some (j, cbj)"
        "handler_loop (undisturbed n env) sel k hhs (cbj\<lparr>cb_phase := 0\<rparr>) = Some (0, cb')"
        by (rule selected_undisturbed)
      have "driven env (seq_run w (selected_body env sel k hh hhs cb) rest) out"
        by (rule selected_driven [where w = w and sel = sel and k = k and rest = rest, OF G k _ Cons.IH j(1) Cons.prems(1) j(2)])
          (assumption | rule sel)+
      then show ?thesis by (simp only: handler_loop_run [of sel hh, OF sel 3])
    qed
  qed
qed

definition steady :: "'st tree_handler \<Rightarrow> bool" where
  "steady ch \<longleftrightarrow> (\<exists>t. \<forall>st ob. h_get_tree_node ch st ob = Some (st, ob, t))"

lemma set_operand_same [simp]: "set_operand k (operand k c) c = c"
  by (simp add: set_operand_def operand_def)

lemma class_loop_steady_none:
  assumes "\<forall>st ob. h_get_tree_node ch st ob = Some (st, ob, None)"
  shows "class_loop env ev k (ch # chs) cb = class_loop env ev k chs (cb\<lparr>cb_phase := 0\<rparr>)"
  using assms by (simp add: Let_def)

lemma class_loop_steady:
  assumes "\<forall>st ob. h_get_tree_node ch st ob = Some (st, ob, Some t)"
  shows "class_loop env ev k (ch # chs) cb = seq_run (\<lambda>cb. cb\<lparr>cb_ch := ch # chs\<rparr>)
    (handler_loop env (\<lambda>hh. hh_evname hh = ev) k
       (if cb_phase cb = 0 then node_handlers k (e_node env (cb_st cb) t) (cb_list cb) else cb_hh cb) cb)
    (\<lambda>cb. class_loop env ev k chs (cb\<lparr>cb_phase := 0\<rparr>))"
  using assms by (simp add: Let_def seq_run_def)

lemma and_then_seq_run: "and_then (seq_run w m f) g = seq_run w m (\<lambda>s. and_then (f s) g)"
  by (cases m) auto

lemma class_loop_driven:
  assumes G: "\<And>cb. cb_phase cb = k \<Longrightarrow> cb_event cb = Some ev \<Longrightarrow>
        do_event_list env cb = and_then (class_loop env ev k (cb_ch cb) cb) rest"
    and k: "0 < k" and d: "driven env (rest cb') out"
    and "\<forall>ch \<in> set chs. steady ch" and "cb_phase cb = 0" and "cb_event cb = Some ev"
    and "class_loop (undisturbed n env) ev k chs cb = Some (0, cb')"
  shows "driven env (and_then (class_loop env ev k chs cb) rest) out"
  using assms(4-)
proof (induction chs arbitrary: cb)
  case Nil
  then show ?case using d by simp
next
  case (Cons ch chs)
  then obtain t where t: "\<forall>st ob. h_get_tree_node ch st ob = Some (st, ob, t)"
    by (auto simp: steady_def)
  show ?case
  proof (cases t)
    case None
    then have t: "\<forall>st ob. h_get_tree_node ch st ob = Some (st, ob, None)" using t by simp
    show ?thesis using Cons.IH [of "cb\<lparr>cb_phase := 0\<rparr>"] Cons.prems
      by (simp add: class_loop_steady_none [OF t] del: class_loop.simps)
  next
    case (Some p)
    then have t: "\<forall>st ob. h_get_tree_node ch st ob = Some (st, ob, Some p)" using t by simp
    let ?w = "\<lambda>cb. cb\<lparr>cb_ch := ch # chs\<rparr>" and ?sel = "\<lambda>hh. hh_evname hh = ev"
    let ?rest = "\<lambda>cb. and_then (class_loop env ev k chs (cb\<lparr>cb_phase := 0\<rparr>)) rest"
    let ?hhs = "node_handlers k (e_node env (cb_st cb) p) (cb_list cb)"
    obtain cb2 where 2: "handler_loop (undisturbed n env) ?sel k ?hhs cb = Some (0, cb2)"
      "class_loop (undisturbed n env) ev k chs (cb2\<lparr>cb_phase := 0\<rparr>) = Some (0, cb')"
      using Cons.prems(2,4) undisturbed_loop [of n env ?sel k ?hhs cb]
      by (auto simp: class_loop_steady [OF t] seq_run_def split: option.splits if_splits simp del: class_loop.simps)
    have "driven env (?rest cb2) out"
      using Cons.IH [of "cb2\<lparr>cb_phase := 0\<rparr>"] Cons.prems(1,3) 2(2) handler_loop_fields [OF 2(1)] by simp
    moreover have "do_event_list env (?w cb) = seq_run ?w (handler_loop env ?sel k (cb_hh cb) cb) ?rest"
      if p: "cb_phase cb = k" "cb_event cb = Some ev" for cb
    proof -
      have "class_loop env ev k chs (cb\<lparr>cb_ch := ch # chs, cb_phase := 0\<rparr>) = class_loop env ev k chs (cb\<lparr>cb_phase := 0\<rparr>)" for cb
      proof -
        have "cb\<lparr>cb_ch := ch # chs, cb_phase := 0\<rparr> = cb\<lparr>cb_phase := 0, cb_ch := ch # chs\<rparr>" by simp
        then show ?thesis by (simp only: class_loop_ch)
      qed
      then show ?thesis
        using G [of "?w cb"] p k
        by (cases "handler_loop env ?sel k (cb_hh cb) cb")
          (auto simp: class_loop_steady [OF t] and_then_seq_run handler_loop_ch simp del: class_loop.simps)
    qed
    ultimately have "driven env (seq_run ?w (handler_loop env ?sel k ?hhs cb) ?rest) out"
      by (intro loop_driven [where cb' = cb2 and ev = "Some ev" and n = n] k) (use 2(1) Cons.prems(3) in auto)
    then show ?thesis using Cons.prems(2)
      by (simp add: class_loop_steady [OF t] and_then_seq_run del: class_loop.simps)
  qed
qed

subsection \<open>The whole walk\<close>

fun drive ::
  "nat \<Rightarrow> ('st event_cb \<Rightarrow> (int \<times> 'st event_cb) option) \<Rightarrow> 'st event_cb \<Rightarrow> (int \<times> 'st event_cb) option" where
  "drive 0 step cb = None"
| "drive (Suc m) step cb =
     (case step cb of None \<Rightarrow> None | Some (i, cb') \<Rightarrow> if 0 < i then drive m step cb' else Some (i, cb'))"

lemma driven_drive:
  "driven env v (r, cb') \<Longrightarrow> v = do_event_list env cb \<Longrightarrow> \<exists>m. drive m (do_event_list env) cb = Some (r, cb')"
proof (induction v "(r, cb')" arbitrary: cb rule: driven.induct)
  case over
  then have "drive 1 (do_event_list env) cb = Some (r, cb')" by (auto split: option.split)
  then show ?case by blast
next
  case (again i cb1)
  then obtain m where "drive m (do_event_list env) cb1 = Some (r, cb')" by blast
  then have "drive (Suc m) (do_event_list env) cb = Some (r, cb')"
    using again.prems [symmetric] again.hyps(1) by simp
  then show ?case by blast
qed

definition finish :: "'st event_cb \<Rightarrow> (int \<times> 'st event_cb) option" where
  "finish cb = Some (if ec_unhandled (cb_context cb) then -1 else 0, cb\<lparr>cb_phase := 0\<rparr>)"

lemma do_event_list_walk:
  assumes "cb_event cb = Some ev" and "cb_phase cb < 16" and "0 < cb_phase cb"
  shows "do_event_list env cb = and_then (event_walk env ev cb) finish"
proof -
  have "cb\<lparr>cb_phase := cb_phase cb\<rparr> = cb" by simp
  then show ?thesis using assms by (simp add: do_event_list_def finish_def [abs_def])
qed

text \<open>A new walk, after the preparation of a decision where there is one.\<close>

definition prepared :: "'st ev_env \<Rightarrow> 'st event_cb \<Rightarrow> 'st event_cb option" where
  "prepared env cb = (if cb_list cb = EHH_VS_ALLOW \<or> cb_list cb = EHH_VS_DENY then start_decision env cb else Some cb)"

lemma prepared_fields:
  "prepared env cb = Some cb0 \<Longrightarrow> cb_phase cb0 = cb_phase cb \<and> cb_event cb0 = cb_event cb \<and> cb_list cb0 = cb_list cb"
  by (auto simp: prepared_def start_decision_def Let_def split: if_splits option.splits bool.splits)

lemma prepared_undisturbed: "prepared (undisturbed n env) = prepared env"
  unfolding prepared_def [abs_def] undisturbed_start by (rule refl)

lemma do_event_list_new:
  assumes "cb_event cb = Some ev" and "cb_phase cb = 0"
  shows "do_event_list env cb = (case prepared env cb of None \<Rightarrow> None | Some cb0 \<Rightarrow> and_then (event_walk env ev cb0) finish)"
proof -
  have l: "do_event_list env cb = (case prepared env cb of None \<Rightarrow> None
      | Some cb0 \<Rightarrow> and_then (event_walk env ev (cb0\<lparr>cb_phase := cb_phase cb0 mod 16\<rparr>)) finish)"
    unfolding do_event_list_def prepared_def finish_def [abs_def] by (simp only: assms option.case simp_thms)
  show ?thesis
  proof (cases "prepared env cb")
    case (Some cb0)
    have "cb_phase cb0 = 0" using prepared_fields [OF Some] assms by simp
    then have "cb0\<lparr>cb_phase := cb_phase cb0 mod 16\<rparr> = cb0" by simp
    then show ?thesis by (simp only: l Some option.case)
  qed (simp add: l)
qed

lemma class_part_resumed: "cb_phase cb = k \<Longrightarrow> 0 < k \<Longrightarrow> class_part env ev k cb = class_loop env ev k (cb_ch cb) cb"
  by (simp add: class_part_def split: option.split)

lemma class_part_other: "cb_phase cb \<noteq> k \<Longrightarrow> 0 < cb_phase cb \<Longrightarrow> class_part env ev k cb = Some (0, cb)"
  by (simp add: class_part_def split: option.split)

lemma class_part_driven:
  assumes st: "\<forall>a. \<forall>ch \<in> set (e_handlers env a). steady ch" and p: "cb_phase cb = 0" and e: "cb_event cb = Some ev"
    and G: "\<And>cb. cb_phase cb = k \<Longrightarrow> cb_event cb = Some ev \<Longrightarrow>
        do_event_list env cb = and_then (class_loop env ev k (cb_ch cb) cb) rest"
    and k: "0 < k" and d: "driven env (rest cb') out" and r: "class_part (undisturbed n env) ev k cb = Some (0, cb')"
  shows "driven env (and_then (class_part env ev k cb) rest) out"
proof (cases "o_class (operand k (cb_context cb))")
  case None
  then show ?thesis using r p k d by (simp add: class_part_def)
next
  case (Some a)
  let ?chs = "e_handlers env (c_classname (e_class env a))"
  have "driven env (and_then (class_loop env ev k ?chs cb) rest) out"
    by (rule class_loop_driven [OF G k d _ p e, where n = n]) (use st r Some p in \<open>auto simp: class_part_def\<close>)
  then show ?thesis using Some p by (simp add: class_part_def)
qed

lemma class_loop_fields:
  "class_loop env ev k chs cb = Some (i, cb') \<Longrightarrow>
     cb_event cb' = cb_event cb \<and> cb_list cb' = cb_list cb \<and> (cb_phase cb = 0 \<longrightarrow> i \<le> 0 \<longrightarrow> cb_phase cb' = 0)"
proof (induction chs arbitrary: cb)
  case (Cons ch chs)
  obtain st ob t where g: "h_get_tree_node ch (cb_st cb) (operand k (cb_context cb)) = Some (st, ob, t)"
    using Cons.prems by (auto split: option.splits)
  let ?cb1 = "cb\<lparr>cb_st := st, cb_context := set_operand k ob (cb_context cb)\<rparr>"
  show ?case
  proof (cases t)
    case None
    then show ?thesis using Cons.prems Cons.IH [of "?cb1\<lparr>cb_phase := 0\<rparr>"] g by (simp add: Let_def)
  next
    case (Some t')
    let ?hhs = "if cb_phase cb = 0 then node_handlers k (e_node env st t') (cb_list cb) else cb_hh cb"
    obtain j cb2 where h: "handler_loop env (\<lambda>hh. hh_evname hh = ev) k ?hhs ?cb1 = Some (j, cb2)"
      using Cons.prems g Some by (auto simp: Let_def split: option.splits)
    show ?thesis
      using Cons.prems Cons.IH [of "cb2\<lparr>cb_phase := 0\<rparr>"] handler_loop_fields [OF h]
      by (auto simp: g Some h Let_def split: if_splits)
  qed
qed auto

lemma class_part_fields:
  "class_part env ev k cb = Some (i, cb') \<Longrightarrow>
     cb_event cb' = cb_event cb \<and> cb_list cb' = cb_list cb \<and> (cb_phase cb = 0 \<longrightarrow> i \<le> 0 \<longrightarrow> cb_phase cb' = 0)"
  by (auto simp: class_part_def split: option.splits if_splits dest: class_loop_fields)

lemma walk_driven:
  assumes st: "\<forall>a. \<forall>ch \<in> set (e_handlers env a). steady ch" and p: "cb_phase cb = 0" and e: "cb_event cb = Some ev"
    and w: "event_walk (undisturbed n env) ev cb = Some (r, cb')"
  shows "driven env (and_then (event_walk env ev cb) finish) (if ec_unhandled (cb_context cb') then -1 else 0, cb'\<lparr>cb_phase := 0\<rparr>)"
    (is "driven env _ ?out")
proof -
  let ?F = "undisturbed n env"
  let ?r2 = "\<lambda>cb. and_then (class_part env ev 3 cb) finish"
  let ?r1 = "\<lambda>cb. and_then (class_part env ev 2 cb) ?r2"
  let ?names = "e_names env ev (cb_list cb)"
  obtain i1 cb1 where 1: "handler_loop ?F (\<lambda>_. True) 1 ?names cb = Some (i1, cb1)"
    using w p by (cases "handler_loop ?F (\<lambda>_. True) 1 ?names cb") (auto simp: event_walk_def name_part_def)
  note 1 = 1 [unfolded undisturbed_loop [OF 1]]
  obtain i2 cb2 where 2: "class_part ?F ev 2 cb1 = Some (i2, cb2)"
    using w p 1 by (cases "class_part ?F ev 2 cb1") (auto simp: event_walk_def name_part_def)
  note 2 = 2 [unfolded undisturbed_class_part [OF 2]]
  have "class_part ?F ev 3 cb2 = Some (r, cb')"
    using w p 1 2 by (simp add: event_walk_def name_part_def)
  then have 3: "class_part ?F ev 3 cb2 = Some (0, cb')" using undisturbed_class_part by metis
  have walk: "and_then (event_walk env ev cb) finish = and_then (name_part env ev cb) ?r1" for cb
    by (simp add: event_walk_def and_then_assoc)
  note f1 = handler_loop_fields [OF 1] and f2 = class_part_fields [OF 2]
  have G3: "do_event_list env cb = and_then (class_loop env ev 3 (cb_ch cb) cb) finish"
    if "cb_phase cb = 3" "cb_event cb = Some ev" for cb
    using that by (simp add: do_event_list_walk walk name_part_def class_part_other class_part_resumed)
  have G2: "do_event_list env cb = and_then (class_loop env ev 2 (cb_ch cb) cb) ?r2"
    if "cb_phase cb = 2" "cb_event cb = Some ev" for cb
    using that by (simp add: do_event_list_walk walk name_part_def class_part_resumed)
  have G1: "do_event_list env cb = seq_run (\<lambda>s. s) (handler_loop env (\<lambda>_. True) 1 (cb_hh cb) cb) ?r1"
    if "cb_phase cb = 1" "cb_event cb = Some ev" for cb
    using that by (simp add: do_event_list_walk walk name_part_def flip: and_then_seq)
  have "driven env (finish cb') ?out" by (simp add: finish_def driven.over)
  then have "driven env (?r2 cb2) ?out"
    by (intro class_part_driven [OF st _ _ G3 _ _ 3]) (use f1 f2 p e in auto)
  then have "driven env (?r1 cb1) ?out"
    by (intro class_part_driven [OF st _ _ G2 _ _ 2]) (use f1 p e in auto)
  then have "driven env (seq_run (\<lambda>s. s) (handler_loop env (\<lambda>_. True) 1 ?names cb) ?r1) ?out"
    by (intro loop_driven [where w = "\<lambda>s. s" and k = 1 and rest = ?r1, OF G1 _ _ e 1]) simp_all
  then show ?thesis using p by (simp add: walk name_part_def flip: and_then_seq)
qed

lemma do_event_list_driven:
  assumes st: "\<forall>a. \<forall>ch \<in> set (e_handlers env a). steady ch" and p: "cb_phase cb = 0" and e: "cb_event cb = Some ev"
    and r: "do_event_list (undisturbed n env) cb = Some (r, cb')"
  shows "\<exists>m. drive m (do_event_list env) cb = Some (r, cb')"
proof -
  have r: "(case prepared env cb of None \<Rightarrow> None | Some cb0 \<Rightarrow> and_then (event_walk (undisturbed n env) ev cb0) finish) = Some (r, cb')"
    using r by (simp only: do_event_list_new [OF e p] prepared_undisturbed)
  then obtain cb0 where s: "prepared env cb = Some cb0" by (cases "prepared env cb") auto
  have f: "cb_phase cb0 = 0" "cb_event cb0 = Some ev" using prepared_fields [OF s] p e by auto
  obtain j cb1 where w: "event_walk (undisturbed n env) ev cb0 = Some (j, cb1)"
    using r s by (cases "event_walk (undisturbed n env) ev cb0") auto
  have "j \<le> 0"
  proof -
    have "name_part (undisturbed n env) ev cb = Some (i, cb') \<Longrightarrow> i = 0" for cb i cb'
      by (auto simp: name_part_def split: if_splits dest: undisturbed_loop)
    then show ?thesis using w undisturbed_class_part
      by (auto simp: event_walk_def and_then_def split: option.splits if_splits) force+
  qed
  then have out: "(r, cb') = (if ec_unhandled (cb_context cb1) then -1 else 0, cb1\<lparr>cb_phase := 0\<rparr>)"
    using r s by (auto simp: w finish_def)
  show ?thesis
    using walk_driven [OF st f w] unfolding out [symmetric] by (rule driven_drive) (simp add: do_event_list_new [OF e p] s)
qed

lemma do_event_list_fields:
  assumes "do_event_list env cb = Some (i, cb')" and "cb_event cb = Some ev"
  shows "cb_list cb' = cb_list cb \<and> cb_event cb' = cb_event cb"
proof -
  have n: "name_part env ev cb = Some (i, cb') \<Longrightarrow> cb_event cb' = cb_event cb \<and> cb_list cb' = cb_list cb" for cb cb' i
    by (auto simp: name_part_def split: if_splits dest: handler_loop_fields)
  have w: "event_walk env ev cb = Some (i, cb') \<Longrightarrow> cb_event cb' = cb_event cb \<and> cb_list cb' = cb_list cb" for cb cb' i
    by (auto simp: event_walk_def and_then_def split: option.splits if_splits dest!: n class_part_fields)
  have s: "start_decision env cb = Some cb' \<Longrightarrow> cb_event cb' = cb_event cb \<and> cb_list cb' = cb_list cb" for cb'
    by (auto simp: start_decision_def Let_def split: option.splits bool.splits)
  show ?thesis
    using assms by (auto simp: do_event_list_def and_then_def split: option.splits if_splits dest!: w s)
qed

lemma undisturbed_over:
  assumes "cb_phase cb = 0" and "cb_event cb = Some ev" and "do_event_list (undisturbed n env) cb = Some (i, cb1)"
  shows "i \<le> 0" and "cb_phase cb1 = 0"
proof -
  have e: "(case prepared env cb of None \<Rightarrow> None | Some cb0 \<Rightarrow> and_then (event_walk (undisturbed n env) ev cb0) finish) = Some (i, cb1)"
    using assms(3) by (simp only: do_event_list_new [OF assms(2,1)] prepared_undisturbed)
  then obtain cb0 where w: "and_then (event_walk (undisturbed n env) ev cb0) finish = Some (i, cb1)"
    by (cases "prepared env cb") auto
  have "j \<le> 0" if "event_walk (undisturbed n env) ev cb0 = Some (j, c)" for j c
    using that by (auto simp: event_walk_def name_part_def and_then_def split: option.splits if_splits
      dest!: undisturbed_loop undisturbed_class_part)
  then show "i \<le> 0" "cb_phase cb1 = 0"
    using w by (auto simp: and_then_def finish_def split: option.splits if_splits)
qed

text \<open>What \<open>do_event\<close> does after a walk that is over.\<close>

definition after_list :: "'st ev_env \<Rightarrow> int \<Rightarrow> 'st event_cb \<Rightarrow> (int \<times> 'st event_cb) option" where
  "after_list env r cb =
     (if (cb_list cb = EHH_VS_ALLOW \<or> cb_list cb = EHH_VS_DENY) \<and> ec_result (cb_context cb) \<noteq> RESULT_RETRY
      then do_event_list env (cb\<lparr>cb_list :=
        (if cb_list cb = EHH_VS_DENY \<or> ec_result (cb_context cb) = RESULT_DENY \<or> ec_result (cb_context cb) = RESULT_FAKE_ALLOW
         then EHH_NOTIFY_DENY else EHH_NOTIFY_ALLOW)\<rparr>)
      else Some (r, cb))"

lemma do_event_after:
  "do_event env cb = (case do_event_list env cb of None \<Rightarrow> None
     | Some (r, cb1) \<Rightarrow> if 0 < r then Some (r, cb1) else after_list env r cb1)"
  by (auto simp: do_event_def after_list_def ehh_consts split: option.split)

lemma drive_first_walk:
  "drive m (do_event_list env) cb = Some (r, cb1) \<Longrightarrow>
     \<exists>m0. \<forall>k. drive (m0 + k) (do_event env) cb =
       (case after_list env r cb1 of None \<Rightarrow> None | Some (i, cb') \<Rightarrow> if 0 < i then drive k (do_event env) cb' else Some (i, cb'))"
proof (induction m arbitrary: cb)
  case (Suc m)
  then obtain i cb2 where i: "do_event_list env cb = Some (i, cb2)" by (auto split: option.splits)
  show ?case
  proof (cases "0 < i")
    case True
    then obtain m0 where "\<forall>k. drive (m0 + k) (do_event env) cb2 =
       (case after_list env r cb1 of None \<Rightarrow> None | Some (i, cb') \<Rightarrow> if 0 < i then drive k (do_event env) cb' else Some (i, cb'))"
      using Suc.IH [of cb2] Suc.prems i by auto
    moreover have "do_event env cb = Some (i, cb2)" using i True by (simp add: do_event_after)
    ultimately show ?thesis using True by (intro exI [of _ "Suc m0"]) simp
  next
    case False
    then have "do_event env cb = after_list env r cb1" using i Suc.prems by (simp add: do_event_after)
    then show ?thesis by (intro exI [of _ "Suc 0"]) simp
  qed
qed simp

lemma drive_notify:
  assumes "cb_list cb \<noteq> EHH_VS_ALLOW" and "cb_list cb \<noteq> EHH_VS_DENY" and "cb_event cb = Some ev"
  shows "drive m (do_event env) cb = drive m (do_event_list env) cb"
  using assms
proof (induction m arbitrary: cb)
  case (Suc m)
  show ?case
  proof (cases "do_event_list env cb")
    case (Some p)
    obtain i cb' where p: "p = (i, cb')" by (cases p)
    have f: "cb_list cb' = cb_list cb" "cb_event cb' = Some ev"
      using do_event_list_fields Some p Suc.prems(3) by fastforce+
    then have "do_event env cb = Some (i, cb')" using Some p Suc.prems by (simp add: do_event_after after_list_def)
    then show ?thesis using Some p Suc.IH [of cb'] Suc.prems f by simp
  qed (simp add: do_event_after)
qed simp

subsection \<open>A decision by plain handlers\<close>

text \<open>A handler that only gives a result: its return value and the result it sets.\<close>

definition plain_handlers :: "'st ev_env \<Rightarrow> (nat \<Rightarrow> int) \<Rightarrow> (nat \<Rightarrow> int) \<Rightarrow> bool" where
  "plain_handlers env ret res \<longleftrightarrow> (\<forall>h. ret h \<le> 0) \<and> (\<forall>h st c. e_run env h st c = Some (ret h, st, c\<lparr>ec_result := res h\<rparr>))"

definition node_of :: "'st tree_handler \<Rightarrow> 'st event_cb \<Rightarrow> object_s \<Rightarrow> nat option" where
  "node_of ch cb ob = (case h_get_tree_node ch (cb_st cb) ob of Some (_, _, t) \<Rightarrow> t | None \<Rightarrow> None)"

definition operand_list :: "'st ev_env \<Rightarrow> nat \<Rightarrow> nat \<Rightarrow> 'st event_cb \<Rightarrow> event_hadler_hash_s list" where
  "operand_list env ev k cb =
     (case o_class (operand k (cb_context cb)) of
        None \<Rightarrow> []
      | Some a \<Rightarrow> concat (map (\<lambda>ch. case node_of ch cb (operand k (cb_context cb)) of
             None \<Rightarrow> [] | Some t \<Rightarrow> filter (\<lambda>hh. hh_evname hh = ev) (node_handlers k (e_node env (cb_st cb) t) (cb_list cb)))
           (e_handlers env (c_classname (e_class env a)))))"

definition visited_handlers :: "'st ev_env \<Rightarrow> nat \<Rightarrow> 'st event_cb \<Rightarrow> event_hadler_hash_s list" where
  "visited_handlers env ev cb = e_names env ev (cb_list cb) @ operand_list env ev 2 cb @ operand_list env ev 3 cb"

definition plain_step :: "'st ev_env \<Rightarrow> (nat \<Rightarrow> int) \<Rightarrow> (nat \<Rightarrow> int) \<Rightarrow> 'st \<Rightarrow> event_hadler_hash_s \<Rightarrow> event_context_s \<Rightarrow> event_context_s" where
  "plain_step env ret res st hh c =
     (if handler_matches env st hh c = Some True \<and> ret (hh_handler hh) = 0
      then c\<lparr>ec_result := evaluate_result (ec_result c) (res (hh_handler hh)), ec_unhandled := False\<rparr> else c)"

definition same_operands :: "event_context_s \<Rightarrow> event_context_s \<Rightarrow> bool" where
  "same_operands c c' \<longleftrightarrow> ec_subject c' = ec_subject c \<and> ec_object c' = ec_object c \<and> ec_operation c' = ec_operation c"

lemma matches_operands: "same_operands c c' \<Longrightarrow> handler_matches env st hh c' = handler_matches env st hh c"
proof -
  assume "same_operands c c'"
  then have e: "ec_subject c' = ec_subject c" "ec_object c' = ec_object c" by (simp_all add: same_operands_def)
  show ?thesis unfolding handler_matches_def e by (rule refl)
qed

lemma plain_step_operands: "same_operands c (plain_step env ret res st hh c)"
  by (simp add: plain_step_def same_operands_def)

lemma plain_fold_operands: "same_operands c (fold (plain_step env ret res st) hhs c)"
proof (induction hhs arbitrary: c)
  case (Cons hh hhs)
  then show ?case using plain_step_operands [of c env ret res st hh] unfolding same_operands_def by (metis fold_simps(2))
qed (simp add: same_operands_def)

lemma plain_handler_step:
  assumes "plain_handlers env ret res" and "cb_phase cb = 0" and "handler_matches env (cb_st cb) hh (cb_context cb) \<noteq> None"
  shows "\<exists>i \<le> 0. do_event_handler env hh cb = Some (i, cb\<lparr>cb_context := plain_step env ret res (cb_st cb) hh (cb_context cb)\<rparr>)"
proof -
  have r: "ret (hh_handler hh) \<le> 0"
    "\<And>st c. e_run env (hh_handler hh) st c = Some (ret (hh_handler hh), st, c\<lparr>ec_result := res (hh_handler hh)\<rparr>)"
    using assms(1) by (simp_all add: plain_handlers_def)
  show ?thesis
  proof (cases "handler_matches env (cb_st cb) hh (cb_context cb) = Some True")
    case True
    then show ?thesis using assms(2) r
      by (auto simp: do_event_handler_def run_handler_def plain_step_def Let_def)
  next
    case False
    then have "handler_matches env (cb_st cb) hh (cb_context cb) = Some False" using assms(3) by auto
    then show ?thesis using assms(2) by (auto simp: do_event_handler_def plain_step_def)
  qed
qed

lemma plain_loop:
  assumes pl: "plain_handlers env ret res" and "cb_phase cb = 0"
    and "\<forall>hh \<in> set hhs. handler_matches env (cb_st cb) hh (cb_context cb) \<noteq> None"
  shows "handler_loop env sel k hhs cb
    = Some (0, cb\<lparr>cb_hh := [], cb_context := fold (plain_step env ret res (cb_st cb)) (filter sel hhs) (cb_context cb)\<rparr>)"
  using assms(2,3)
proof (induction hhs arbitrary: cb)
  case (Cons hh hhs)
  let ?cb = "cb\<lparr>cb_context := plain_step env ret res (cb_st cb) hh (cb_context cb)\<rparr>"
  note m = matches_operands [OF plain_step_operands [of "cb_context cb" env ret res "cb_st cb" hh]]
  obtain i where i: "i \<le> 0" "do_event_handler env hh cb = Some (i, ?cb)"
    using plain_handler_step [OF pl Cons.prems(1)] Cons.prems(2) by auto
  have "handler_loop env sel k hhs ?cb = Some (0, ?cb\<lparr>cb_hh := [],
      cb_context := fold (plain_step env ret res (cb_st ?cb)) (filter sel hhs) (cb_context ?cb)\<rparr>)"
    using Cons.prems by (intro Cons.IH) (simp_all add: m)
  moreover have "?cb\<lparr>cb_phase := 0\<rparr> = ?cb" "cb\<lparr>cb_phase := 0\<rparr> = cb" using Cons.prems(1) by auto
  ultimately show ?case using i Cons.IH [OF Cons.prems(1)] Cons.prems(2) by (simp add: same_phase)
qed simp

lemma operand_same: "same_operands c c' \<Longrightarrow> operand k c' = operand k c"
  by (simp add: operand_def same_operands_def)

lemma plain_class_loop:
  assumes pl: "plain_handlers env ret res" and "\<forall>ch \<in> set chs. steady ch" and "cb_phase cb = 0"
    and "\<forall>ch \<in> set chs. \<forall>t. node_of ch cb (operand k (cb_context cb)) = Some t \<longrightarrow>
        (\<forall>hh \<in> set (node_handlers k (e_node env (cb_st cb) t) (cb_list cb)). handler_matches env (cb_st cb) hh (cb_context cb) \<noteq> None)"
  shows "\<exists>hhs. class_loop env ev k chs cb = Some (0, cb\<lparr>cb_ch := [], cb_hh := hhs,
     cb_context := fold (plain_step env ret res (cb_st cb))
       (concat (map (\<lambda>ch. case node_of ch cb (operand k (cb_context cb)) of
             None \<Rightarrow> [] | Some t \<Rightarrow> filter (\<lambda>hh. hh_evname hh = ev) (node_handlers k (e_node env (cb_st cb) t) (cb_list cb))) chs))
       (cb_context cb)\<rparr>)"
  using assms(2-)
proof (induction chs arbitrary: cb)
  case Nil
  have "cb\<lparr>cb_ch := []\<rparr> = cb\<lparr>cb_ch := [], cb_hh := cb_hh cb, cb_context := cb_context cb\<rparr>" by simp
  then show ?case by (simp only: class_loop.simps list.map concat.simps fold_simps) blast
next
  case (Cons ch chs)
  then obtain t where t: "\<forall>st ob. h_get_tree_node ch st ob = Some (st, ob, t)"
    by (auto simp: steady_def)
  then have n: "node_of ch cb ob = t" for cb ob by (simp add: node_of_def)
  show ?case
  proof (cases t)
    case None
    have "class_loop env ev k (ch # chs) cb = class_loop env ev k chs cb"
      using t None Cons.prems(2) by (subst class_loop_steady_none) (simp_all add: same_phase)
    then show ?thesis using Cons.IH [of cb] Cons.prems n None by (simp del: class_loop.simps)
  next
    case (Some p)
    let ?hhs = "node_handlers k (e_node env (cb_st cb) p) (cb_list cb)"
    let ?c = "fold (plain_step env ret res (cb_st cb)) (filter (\<lambda>hh. hh_evname hh = ev) ?hhs) (cb_context cb)"
    let ?cb = "cb\<lparr>cb_hh := [], cb_context := ?c\<rparr>"
    have so: "same_operands (cb_context cb) ?c" by (rule plain_fold_operands)
    have o: "operand k ?c = operand k (cb_context cb)" using so by (rule operand_same)
    have "handler_loop env (\<lambda>hh. hh_evname hh = ev) k ?hhs cb = Some (0, ?cb)"
      using Cons.prems n Some by (intro plain_loop [OF pl]) auto
    then have "class_loop env ev k (ch # chs) cb = class_loop env ev k chs ?cb"
      using t Some Cons.prems(2) by (subst class_loop_steady [of _ p]) (simp_all add: same_phase)
    moreover have nn: "node_of ch' ?cb ob = node_of ch' cb ob" for ch' ob by (simp add: node_of_def)
    let ?L = "concat (map (\<lambda>ch. case node_of ch cb (operand k (cb_context cb)) of
             None \<Rightarrow> [] | Some t \<Rightarrow> filter (\<lambda>hh. hh_evname hh = ev) (node_handlers k (e_node env (cb_st cb) t) (cb_list cb))) chs)"
    obtain hhs where "class_loop env ev k chs ?cb
        = Some (0, ?cb\<lparr>cb_ch := [], cb_hh := hhs, cb_context := fold (plain_step env ret res (cb_st cb)) ?L ?c\<rparr>)"
      using Cons.IH [of ?cb] Cons.prems by (auto simp: o nn matches_operands [OF so] cong: option.case_cong)
    ultimately show ?thesis
      using n Some by (intro exI [of _ hhs]) (simp del: class_loop.simps)
  qed
qed

lemma plain_class_part:
  assumes pl: "plain_handlers env ret res" and st: "\<forall>a. \<forall>ch \<in> set (e_handlers env a). steady ch" and p: "cb_phase cb = 0"
    and "\<forall>st t l. \<forall>hh \<in> set (node_handlers k (e_node env st t) l). handler_matches env (cb_st cb) hh (cb_context cb) \<noteq> None"
    and "k = 2 \<or> k = 3"
  shows "\<exists>cs hhs. class_part env ev k cb = Some (0, cb\<lparr>cb_ch := cs, cb_hh := hhs,
     cb_context := fold (plain_step env ret res (cb_st cb)) (operand_list env ev k cb) (cb_context cb)\<rparr>)"
proof (cases "o_class (operand k (cb_context cb))")
  case None
  have "cb = cb\<lparr>cb_ch := cb_ch cb, cb_hh := cb_hh cb, cb_context := cb_context cb\<rparr>" by simp
  moreover have "class_part env ev k cb = Some (0, cb)" "operand_list env ev k cb = []"
    using None p assms(5) by (auto simp: class_part_def operand_list_def)
  ultimately show ?thesis by (metis fold_simps(1))
next
  case (Some a)
  let ?chs = "e_handlers env (c_classname (e_class env a))"
  show ?thesis
    using plain_class_loop [OF pl, of ?chs cb k ev] st p assms(4) Some
    by (auto simp: class_part_def operand_list_def simp del: class_loop.simps)
qed

lemma node_of_context [simp]: "node_of ch (cb\<lparr>cb_context := c\<rparr>) ob = node_of ch cb ob"
  "node_of ch (cb\<lparr>cb_hh := h\<rparr>) ob = node_of ch cb ob" "node_of ch (cb\<lparr>cb_ch := l\<rparr>) ob = node_of ch cb ob"
  by (simp_all add: node_of_def)

lemma operand_list_cong:
  assumes "same_operands (cb_context cb) c"
  shows "operand_list env ev k (cb\<lparr>cb_ch := cs, cb_hh := hhs, cb_context := c\<rparr>) = operand_list env ev k cb"
proof -
  have "operand k c = operand k (cb_context cb)" using assms by (rule operand_same)
  then show ?thesis by (simp add: operand_list_def node_of_def cong: option.case_cong)
qed

lemma plain_walk:
  assumes pl: "plain_handlers env ret res" and st: "\<forall>a. \<forall>ch \<in> set (e_handlers env a). steady ch"
    and p: "cb_phase cb = 0" and m: "\<forall>hh. handler_matches env (cb_st cb) hh (cb_context cb) \<noteq> None"
  shows "\<exists>cs hhs. event_walk env ev cb = Some (0, cb\<lparr>cb_ch := cs, cb_hh := hhs,
     cb_context := fold (plain_step env ret res (cb_st cb)) (visited_handlers env ev cb) (cb_context cb)\<rparr>)"
proof -
  let ?f = "fold (plain_step env ret res (cb_st cb))" and ?c = "cb_context cb"
  let ?c1 = "?f (e_names env ev (cb_list cb)) ?c"
  let ?cb1 = "cb\<lparr>cb_hh := [], cb_context := ?c1\<rparr>"
  have s1: "same_operands ?c ?c1" by (rule plain_fold_operands)
  have 1: "name_part env ev cb = Some (0, ?cb1)"
    using plain_loop [OF pl p, of "e_names env ev (cb_list cb)" "\<lambda>_. True" 1] p m by (simp add: name_part_def)
  have e1: "?cb1 = cb\<lparr>cb_ch := cb_ch cb, cb_hh := [], cb_context := ?c1\<rparr>" by simp
  have l1: "operand_list env ev k ?cb1 = operand_list env ev k cb" for k
    unfolding e1 by (rule operand_list_cong [OF s1])
  let ?c2 = "?f (operand_list env ev 2 cb) ?c1"
  obtain cs hhs where 2: "class_part env ev 2 ?cb1 = Some (0, cb\<lparr>cb_ch := cs, cb_hh := hhs, cb_context := ?c2\<rparr>)"
    using plain_class_part [OF pl st, of ?cb1 2 ev] p m by (auto simp: l1 matches_operands [OF s1])
  let ?cb2 = "cb\<lparr>cb_ch := cs, cb_hh := hhs, cb_context := ?c2\<rparr>"
  have s2: "same_operands ?c ?c2"
    using s1 plain_fold_operands [of ?c1 env ret res "cb_st cb" "operand_list env ev 2 cb"] by (simp add: same_operands_def)
  obtain cs' hhs' where 3: "class_part env ev 3 ?cb2 = Some (0, cb\<lparr>cb_ch := cs', cb_hh := hhs',
      cb_context := ?f (operand_list env ev 3 cb) ?c2\<rparr>)"
    using plain_class_part [OF pl st, of ?cb2 3 ev] p m
    by (auto simp: operand_list_cong [OF s2] matches_operands [OF s2])
  show ?thesis by (simp add: event_walk_def 1 2 3 visited_handlers_def) blast
qed

definition completed_results ::
  "'st ev_env \<Rightarrow> (nat \<Rightarrow> int) \<Rightarrow> (nat \<Rightarrow> int) \<Rightarrow> 'st \<Rightarrow> event_context_s \<Rightarrow> event_hadler_hash_s list \<Rightarrow> int list" where
  "completed_results env ret res st c hhs =
     map (\<lambda>hh. res (hh_handler hh)) (filter (\<lambda>hh. handler_matches env st hh c = Some True \<and> ret (hh_handler hh) = 0) hhs)"

lemma plain_fold_result:
  "ec_result (fold (plain_step env ret res st) hhs c)
     = fold (\<lambda>new old. evaluate_result old new) (completed_results env ret res st c hhs) (ec_result c)
   \<and> (ec_unhandled (fold (plain_step env ret res st) hhs c) \<longleftrightarrow> ec_unhandled c \<and> completed_results env ret res st c hhs = [])"
proof (induction hhs arbitrary: c)
  case (Cons hh hhs)
  let ?c = "plain_step env ret res st hh c"
  have "completed_results env ret res st ?c hhs = completed_results env ret res st c hhs"
    by (simp add: completed_results_def matches_operands [OF plain_step_operands])
  then show ?case using Cons.IH [of ?c] by (auto simp: plain_step_def completed_results_def)
qed (simp add: completed_results_def)

subsection \<open>Properties\<close>

text \<open>The verdict of a sequence of results is \<open>RESULT_ERR\<close> when there is none, and otherwise the
  strictest of them in the order allow, force allow, fake allow, deny, where a result that is none
  of these counts as a denial. In particular it does not depend on the order of the results.\<close>

theorem verdict_is_strictest:
  shows "(if rs = [] then verdict rs = RESULT_ERR
      else verdict rs \<in> valid_result ` set rs \<and> list_all (\<lambda>r. strictness (valid_result r) \<le> strictness (verdict rs)) rs)"
proof -
  have s: "settled (verdict rs)"
    using fold_evaluate [of RESULT_ERR rs] by (simp add: verdict_def settled_def)
  from verdict_iff [OF s, of rs] show ?thesis
    using valid_settled(2) by (auto simp: list_all_iff)
qed



text \<open>C21. A denial is final: whatever the handlers do, a walk that continues an event, or that runs the
  handlers to be notified of its decision, leaves the result of a denied event a denial.\<close>

theorem denial_is_final:
  assumes "do_event_list env cb = Some (i, cb')" and "cb_event cb = Some ev" and "ec_result (cb_context cb) = RESULT_DENY"
    and "cb_phase cb \<noteq> 0 \<or> cb_list cb = EHH_NOTIFY_ALLOW \<or> cb_list cb = EHH_NOTIFY_DENY"
  shows "ec_result (cb_context cb') = RESULT_DENY"
proof -
  let ?cb = "cb\<lparr>cb_phase := cb_phase cb mod 16\<rparr>"
  have "do_event_list env cb = and_then (event_walk env ev ?cb) finish"
    using assms(2,4) by (auto simp: do_event_list_def finish_def [abs_def] ehh_consts)
  then have "strictness RESULT_DENY \<le> strictness (ec_result (cb_context cb'))"
    using assms(1,3) event_walk_monotone [of env ev ?cb]
    by (auto simp: and_then_def finish_def split: option.splits if_splits)
  then show ?thesis by (auto simp: strictness_def result_consts split: if_splits)
qed

text \<open>An instance: one class and one event name with two handlers. The second environment has handlers
  that ask to be continued once.\<close>

definition demo_hh :: "nat \<Rightarrow> event_hadler_hash_s" where
  "demo_hh h = \<lparr>hh_handler = h, hh_evname = 0, hh_subject_vs = vs_fill, hh_object_vs = vs_fill\<rparr>"

definition demo_env :: "(nat \<Rightarrow> nat \<Rightarrow> event_context_s \<Rightarrow> (int \<times> nat \<times> event_context_s) option) \<Rightarrow> nat ev_env" where
  "demo_env run = \<lparr>e_class = (\<lambda>_. demo_class), e_handlers = (\<lambda>_. []),
     e_names = (\<lambda>ev l. if l = EHH_VS_ALLOW then [demo_hh 3, demo_hh 2] else []),
     e_node = (\<lambda>_ _. fresh_node None 0 ''/''), e_run = run\<rparr>"

definition demo_cb :: "nat event_cb" where
  "demo_cb = \<lparr>cb_phase = 0, cb_list = EHH_VS_ALLOW, cb_hh = [], cb_ch = [],
     cb_context = \<lparr>ec_operation = demo_object, ec_subject = demo_object, ec_object = demo_object\<lparr>o_class := None\<rparr>,
       ec_result = 0, ec_unhandled = False\<rparr>,
     cb_event = Some 0, cb_init_handler = 0, cb_st = 0\<rparr>"

lemma demo_steady: "\<forall>a. \<forall>ch \<in> set (e_handlers (demo_env run) a). steady ch"
  by (simp add: demo_env_def)

theorem verdict_is_strictest_witness: "verdict [3, 2, 0] = 2 \<and> strictness (valid_result 0) \<le> strictness (2 :: int)"
proof -
  have v: "verdict [3, 2, 0] = 2" by code_simp
  show ?thesis using verdict_is_strictest [of "[3, 2, 0]"] unfolding v by simp
qed



theorem denial_is_final_witness:
  "\<exists>i cb'. do_event_list (demo_env (\<lambda>h st c. Some (0, st, c\<lparr>ec_result := 3\<rparr>)))
      (demo_cb\<lparr>cb_phase := 1, cb_hh := [demo_hh 7], cb_context := (cb_context demo_cb)\<lparr>ec_result := RESULT_DENY\<rparr>\<rparr>) = Some (i, cb')
    \<and> ec_result (cb_context cb') = RESULT_DENY"
proof -
  let ?env = "demo_env (\<lambda>h st c. Some (0, st, c\<lparr>ec_result := 3\<rparr>))"
  let ?cb = "demo_cb\<lparr>cb_phase := 1, cb_hh := [demo_hh 7], cb_context := (cb_context demo_cb)\<lparr>ec_result := RESULT_DENY\<rparr>\<rparr>"
  have "do_event_list ?env ?cb \<noteq> None" by code_simp
  then obtain i cb' where r: "do_event_list ?env ?cb = Some (i, cb')" by auto
  from denial_is_final [OF r] show ?thesis using r by (simp add: demo_cb_def)
qed

end
