(* ===== verification/Generic.thy ===== *)
theory Generic
  imports Events
begin

text \<open>
  The class handlers of name trees (\<open>generic.c\<close>): an object remembers its node of a tree by a pointer
  in its \<open>cinfo\<close> field, from which its virtual spaces and event masks are computed; the handlers of
  the tree's event move a subject to a child of its node (\<open>decide\<close>, which leaves the new node in the
  buffer's \<open>var_data\<close>, and \<open>notify\<close>, which stores it in the subject). The address of node \<open>p\<close> is the
  64-bit word \<open>p + 1\<close>. \<open>None\<close> is an access outside an object's data or through a null pointer, or a
  handler that does not return.
\<close>

record gen_handler =
  gh_id :: nat
  gh_classname :: nat
  gh_cinfo_offset :: "nat \<Rightarrow> int"
  gh_var_offset :: int
  gh_flags :: "32 word"
  gh_root :: "nat option"
  gh_user :: "nat option"

text \<open>The state the handlers work on: the tree, the \<open>var_data\<close> of the buffer and the last result of the
  interpreter, an attribute with its data.\<close>

record gen_world =
  gw_tree :: tree_state
  gw_var :: bytes
  gw_last_attr :: attr
  gw_last_data :: string

definition GFL_USE_VSE :: "32 word" where "GFL_USE_VSE = 0x01"
definition GFL_FROM_OBJECT :: "32 word" where "GFL_FROM_OBJECT = 0x02"
definition AT_ENTER :: nat where "AT_ENTER = 6"

subsection \<open>Node pointers in data\<close>

definition node_ptr :: "nat option \<Rightarrow> 64 word" where
  "node_ptr p = (case p of None \<Rightarrow> 0 | Some n \<Rightarrow> of_nat (Suc n))"

definition ptr_node :: "64 word \<Rightarrow> nat option" where
  "ptr_node w = (if w = 0 then None else Some (unat w - 1))"

definition ptr_bytes :: "64 word \<Rightarrow> bytes" where
  "ptr_bytes w = map (\<lambda>i. ucast (drop_bit (8 * i) w)) [0..<8]"

definition bytes_ptr :: "bytes \<Rightarrow> 64 word" where
  "bytes_ptr bs = foldr (\<lambda>b w. ucast b OR push_bit 8 w) bs 0"

definition get_ptr :: "int \<Rightarrow> bytes \<Rightarrow> 64 word option" where
  "get_ptr off d = (if 0 \<le> off \<and> nat off + 8 \<le> length d then Some (bytes_ptr (take 8 (drop (nat off) d))) else None)"

definition put_ptr :: "int \<Rightarrow> 64 word \<Rightarrow> bytes \<Rightarrow> bytes option" where
  "put_ptr off w d = (if 0 \<le> off \<and> nat off + 8 \<le> length d then Some (put_bytes (nat off) (ptr_bytes w) d) else None)"

definition cinfo :: "gen_handler \<Rightarrow> nat \<Rightarrow> object_s \<Rightarrow> 64 word option" where
  "cinfo h conn ob = get_ptr (gh_cinfo_offset h conn) (o_data ob)"

definition set_cinfo :: "gen_handler \<Rightarrow> nat \<Rightarrow> 64 word \<Rightarrow> object_s \<Rightarrow> object_s option" where
  "set_cinfo h conn w ob = map_option (\<lambda>d. ob\<lparr>o_data := d\<rparr>) (put_ptr (gh_cinfo_offset h conn) w (o_data ob))"

subsection \<open>The functions of a class handler\<close>

text \<open>\<open>hs\<close> are the handlers of the class \<open>c\<close> of the object.\<close>

definition generic_get_tree_node ::
  "gen_world class_handler list \<Rightarrow> gen_handler \<Rightarrow> nat \<Rightarrow> class_s \<Rightarrow> gen_world \<Rightarrow> object_s
     \<Rightarrow> (gen_world \<times> object_s \<times> nat option) option" where
  "generic_get_tree_node hs h conn c st ob =
     Option.bind (cinfo h conn ob) (\<lambda>w.
     Option.bind (if ptr_node w = None then object_do_sethandler hs c st ob else Some (st, ob)) (\<lambda>(st, ob).
     map_option (\<lambda>w. (st, ob, ptr_node w)) (cinfo h conn ob)))"

text \<open>The event type that the handler's event has on the connection.\<close>

definition user_event :: "event_state \<Rightarrow> nat \<Rightarrow> nat \<Rightarrow> event_type_s option" where
  "user_event es conn n = Option.bind (en_events (es_names es ! n) conn) (es_heap es)"

definition generic_set_handler ::
  "event_state \<Rightarrow> gen_handler \<Rightarrow> nat \<Rightarrow> class_s \<Rightarrow> gen_world \<Rightarrow> object_s \<Rightarrow> (gen_world \<times> object_s) option" where
  "generic_set_handler es h conn c st ob =
     Option.bind (cinfo h conn ob) (\<lambda>w.
       case ptr_node w of
         None \<Rightarrow> Some (st, ob)
       | Some p \<Rightarrow>
           let t = ts_node (gw_tree st) p in
           Option.bind (fold (\<lambda>a m. Option.bind m (\<lambda>ob. map_option snd (object_add_vs c ob (int a) (t_vs t a))))
                          [0..<NR_ACCESS_TYPES] (Some ob)) (\<lambda>ob.
           Option.bind (map_option snd (object_add_event c ob (t_events t conn))) (\<lambda>ob.
             case gh_user h of
               None \<Rightarrow> Some (st, ob)
             | Some n \<Rightarrow>
                 if t_child t = [] \<and> t_regex t = [] then Some (st, ob)
                 else (case user_event es conn n of
                         None \<Rightarrow> None
                       | Some ty \<Rightarrow> if et_monitored ty = o_class ob
                                    then map_option (\<lambda>r. (st, snd r)) (object_add_event c ob (et_mask ty))
                                    else Some (st, ob)))))"

definition generic_get_vs ::
  "gen_world class_handler list \<Rightarrow> gen_handler \<Rightarrow> nat \<Rightarrow> class_s \<Rightarrow> gen_world \<Rightarrow> object_s \<Rightarrow> vs \<Rightarrow> nat
     \<Rightarrow> (gen_world \<times> object_s \<times> vs \<times> int) option" where
  "generic_get_vs hs h conn c st ob v n =
     map_option (\<lambda>(st, ob, t). case t of
                   None \<Rightarrow> (st, ob, v, -1)
                 | Some p \<Rightarrow> (st, ob, vs_add (t_vs (ts_node (gw_tree st) p) n) v, 0))
       (generic_get_tree_node hs h conn c st ob)"

text \<open>The tests of access rights; \<open>buf\<close> is what the local arrays hold before.\<close>

definition generic_test_vs ::
  "gen_world ev_env \<Rightarrow> bytes \<Rightarrow> nat \<Rightarrow> gen_world \<Rightarrow> event_context_s \<Rightarrow> (bool \<times> gen_world \<times> event_context_s) option" where
  "generic_test_vs env buf acctype st c =
     (case o_class (ec_object c) of
        None \<Rightarrow> Some (False, st, c)
      | Some a \<Rightarrow>
          Option.bind (object_is_invalid (e_class env a) (ec_object c)) (\<lambda>inv.
          Option.bind (if inv then object_do_sethandler (class_handlers env a) (e_class env a) st (ec_object c)
                       else Some (st, ec_object c)) (\<lambda>(st, ob).
          let c = c\<lparr>ec_object := ob\<rparr> in
          case o_class (ec_subject c) of
            None \<Rightarrow> None
          | Some s \<Rightarrow>
              Option.bind (object_get_vs (class_handlers env s) st buf (e_class env s) (ec_subject c) (int acctype)) (\<lambda>(_, vs_s).
              Option.bind (object_get_vs (class_handlers env a) st buf (e_class env a) (ec_object c) (int AT_MEMBER)) (\<lambda>(_, vs_o).
                Some (vs_test vs_o vs_s, st, c))))))"

definition generic_test_vs_tree ::
  "gen_world ev_env \<Rightarrow> bytes \<Rightarrow> nat \<Rightarrow> gen_world \<Rightarrow> event_context_s \<Rightarrow> nat \<Rightarrow> bool option" where
  "generic_test_vs_tree env buf acctype st c p =
     (case o_class (ec_subject c) of
        None \<Rightarrow> None
      | Some s \<Rightarrow>
          map_option (\<lambda>(_, v). vs_test (t_vs (ts_node (gw_tree st) p) AT_MEMBER) v)
            (object_get_vs (class_handlers env s) st buf (e_class env s) (ec_subject c) (int acctype)))"

definition generic_enter_tree_node ::
  "gen_world ev_env \<Rightarrow> bytes \<Rightarrow> (nat \<Rightarrow> nat option) \<Rightarrow> gen_handler \<Rightarrow> nat \<Rightarrow> gen_world \<Rightarrow> object_s \<Rightarrow> nat
     \<Rightarrow> (gen_world \<times> object_s \<times> int) option" where
  "generic_enter_tree_node env buf classes h conn st ob node =
     (if tt_handler (ts_type (gw_tree st) (t_type (ts_node (gw_tree st) node))) \<noteq> gh_id h then Some (st, ob, -1)
      else if classes conn \<noteq> o_class ob then Some (st, ob, -1)
      else if gh_cinfo_offset h conn < 0 then Some (st, ob, -1)
      else (case o_class ob of
              None \<Rightarrow> None
            | Some a \<Rightarrow>
                Option.bind (if gh_flags h AND GFL_USE_VSE \<noteq> 0
                   then map_option (\<lambda>(_, v). vs_test (t_vs (ts_node (gw_tree st) node) AT_MEMBER) v)
                          (object_get_vs (class_handlers env a) st buf (e_class env a) ob (int AT_ENTER))
                   else Some True) (\<lambda>perm.
                if perm then
                  Option.bind (set_cinfo h conn (node_ptr (Some node)) ob) (\<lambda>ob.
                  map_option (\<lambda>(st, ob). (st, ob, 1)) (object_do_sethandler (class_handlers env a) (e_class env a) st ob))
                else Some (st, ob, 0))))"

definition generic_get_primary_space ::
  "gen_world class_handler list \<Rightarrow> (nat \<Rightarrow> nat option) \<Rightarrow> gen_handler \<Rightarrow> nat \<Rightarrow> class_s \<Rightarrow> gen_world \<Rightarrow> object_s
     \<Rightarrow> (gen_world \<times> object_s \<times> nat option) option" where
  "generic_get_primary_space hs classes h conn c st ob =
     (if classes conn \<noteq> o_class ob then Some (st, ob, None)
      else if gh_cinfo_offset h conn < 0 then Some (st, ob, None)
      else map_option (\<lambda>(st, ob, t). (st, ob, case t of None \<Rightarrow> None | Some p \<Rightarrow> t_primary (ts_node (gw_tree st) p)))
             (generic_get_tree_node hs h conn c st ob))"

subsection \<open>Moving a subject in its tree\<close>

text \<open>The node that the subject gets when it has none: with the flag \<open>clone\<close> the object's, else the root.\<close>

definition first_node :: "gen_handler \<Rightarrow> nat \<Rightarrow> event_context_s \<Rightarrow> nat option option" where
  "first_node h conn c =
     map_option (\<lambda>t. if t = None then gh_root h else t)
       (if gh_flags h AND GFL_FROM_OBJECT \<noteq> 0 \<and> o_class (ec_subject c) = o_class (ec_object c)
        then map_option ptr_node (cinfo h conn (ec_object c)) else Some None)"

definition set_var :: "gen_handler \<Rightarrow> 64 word \<Rightarrow> gen_world \<Rightarrow> gen_world option" where
  "set_var h w st = map_option (\<lambda>d. st\<lparr>gw_var := d\<rparr>) (put_ptr (gh_var_offset h) w (gw_var st))"

text \<open>\<open>sub\<close> is the function of the subhandler, which computes the name of the child.\<close>

definition generic_hierarchy_handler_decide ::
  "gen_world ev_env \<Rightarrow> bytes \<Rightarrow> regex_lib \<Rightarrow> nat \<Rightarrow> gen_handler
     \<Rightarrow> (gen_world \<Rightarrow> event_context_s \<Rightarrow> (int \<times> gen_world \<times> event_context_s) option)
     \<Rightarrow> gen_world \<Rightarrow> event_context_s \<Rightarrow> (int \<times> gen_world \<times> event_context_s) option" where
  "generic_hierarchy_handler_decide env buf rx conn h sub st c =
     Option.bind (cinfo h conn (ec_subject c)) (\<lambda>w.
     Option.bind
       (case ptr_node w of
          Some p \<Rightarrow> Some (Some p, st, c)
        | None \<Rightarrow>
            Option.bind (first_node h conn c) (\<lambda>t.
            Option.bind (set_cinfo h conn (node_ptr t) (ec_subject c)) (\<lambda>ob.
            Option.bind (o_class ob) (\<lambda>a.
            map_option (\<lambda>(st, ob). (t, st, c\<lparr>ec_subject := ob\<rparr>))
              (object_do_sethandler (class_handlers env a) (e_class env a) st ob)))))
       (\<lambda>(t, st, c).
     Option.bind (sub st c) (\<lambda>(r, st, c).
     if 0 < r then Some (r, st, c)
     else let name = (if akind (gw_last_attr st) \<noteq> MED_TYPE_STRING then '''' else gw_last_data st) in
       case t of
         None \<Rightarrow> None
       | Some p \<Rightarrow>
           (case find_one rx (gw_tree st) p name of
              None \<Rightarrow>
                Option.bind (cinfo h conn (ec_subject c)) (\<lambda>w.
                map_option (\<lambda>st. (-1, st, c\<lparr>ec_result := RESULT_DENY\<rparr>)) (set_var h w st))
            | Some q \<Rightarrow>
                Option.bind
                  (if gh_flags h AND GFL_USE_VSE \<noteq> 0
                   then Option.bind (o_class (ec_subject c)) (\<lambda>a.
                          map_option (\<lambda>(_, v). vs_test (t_vs (ts_node (gw_tree st) q) AT_MEMBER) v)
                            (object_get_vs (class_handlers env a) st buf (e_class env a) (ec_subject c) (int AT_ENTER)))
                   else Some True) (\<lambda>enter.
                if enter
                then map_option (\<lambda>st. (0, st, c\<lparr>ec_result := RESULT_ALLOW\<rparr>)) (set_var h (node_ptr (Some q)) st)
                else Option.bind (cinfo h conn (ec_subject c)) (\<lambda>w.
                     map_option (\<lambda>st. (0, st, c\<lparr>ec_result := RESULT_DENY\<rparr>)) (set_var h w st)))))))"

definition generic_hierarchy_handler_notify ::
  "gen_world ev_env \<Rightarrow> nat \<Rightarrow> gen_handler \<Rightarrow> gen_world \<Rightarrow> event_context_s \<Rightarrow> (int \<times> gen_world \<times> event_context_s) option" where
  "generic_hierarchy_handler_notify env conn h st c =
     Option.bind (get_ptr (gh_var_offset h) (gw_var st)) (\<lambda>w.
     Option.bind (set_cinfo h conn w (ec_subject c)) (\<lambda>ob.
     Option.bind (o_class ob) (\<lambda>a.
     map_option (\<lambda>(st, ob). (0, st, c\<lparr>ec_subject := ob\<rparr>))
       (object_do_sethandler (class_handlers env a) (e_class env a) st ob))))"

subsection \<open>Set-up\<close>

text \<open>\<open>generic_init_comm\<close>: the result is the class state, the handler and the return value; the messages
  are not part of the state. A null pointer on the way is \<open>None\<close>, and so is the undefined shift of the
  allocation. A class that has the wrong event is reported and used.\<close>

definition generic_init_comm ::
  "event_state \<Rightarrow> nat \<Rightarrow> gen_handler \<Rightarrow> 'h class_state \<Rightarrow> ('h class_state \<times> gen_handler \<times> int) option" where
  "generic_init_comm es conn h cs =
     (let h0 = h\<lparr>gh_cinfo_offset := (gh_cinfo_offset h)(conn := -1)\<rparr> in
      case cn_classes (cs_names cs ! gh_classname h) conn of
        None \<Rightarrow> Some (cs, h0, 0)
      | Some a \<Rightarrow>
          let ev = (case gh_user h of None \<Rightarrow> None | Some n \<Rightarrow> user_event es conn n) in
          if gh_user h \<noteq> None \<and> ev = None then Some (cs, h0, -1)
          else
            Option.bind (cs_heap cs a) (\<lambda>c.
            Option.bind
              (if ev \<noteq> None \<and> ac_actbit (et_acctype (the ev)) AND 0xc000 = 0x4000
               then class_alloc_object_cinfo c
               else Option.bind (class_alloc_subject_cinfo c) (\<lambda>(c', x).
                      if x < 0 then class_alloc_object_cinfo c' else Some (c', x))) (\<lambda>(c', x).
            let cs' = cs\<lparr>cs_heap := (cs_heap cs)(a \<mapsto> c')\<rparr> in
            Some (if x < 0 then (cs', h0, -1)
                  else (cs', h0\<lparr>gh_cinfo_offset := (gh_cinfo_offset h0)(conn := x)\<rparr>, 0)))))"

definition generic_get_new_class_handler_s :: "bool \<Rightarrow> nat \<Rightarrow> nat \<Rightarrow> gen_handler option" where
  "generic_get_new_class_handler_s ok hid class =
     (if ok then Some \<lparr>gh_id = hid, gh_classname = class, gh_cinfo_offset = (\<lambda>_. 0), gh_var_offset = -1,
                       gh_flags = 0, gh_root = None, gh_user = None\<rparr> else None)"

text \<open>The state that \<open>generic_init\<close> changes: \<open>gi_var_size\<close> is \<open>comm_var_data_size\<close>, \<open>gi_next_type\<close> and
  \<open>gi_next_handler\<close> are the next free tree type and handler; the event handlers are numbers, and what
  the pair of handlers of a tree is for is in \<open>gi_eh\<close>: the name, the subhandler and the class handler.
  Where the second registration fails the pair is freed, but the first stays in the list.\<close>

record gen_init =
  gi_tree :: tree_state
  gi_classes :: "gen_handler class_state"
  gi_events :: event_state
  gi_var_size :: int
  gi_next_type :: nat
  gi_next_handler :: nat
  gi_eh :: "nat \<Rightarrow> (string \<times> nat \<times> nat) option"

definition comm_alloc_buf_var_data :: "int \<Rightarrow> int \<Rightarrow> int \<times> int" where
  "comm_alloc_buf_var_data sz var_size = (var_size + sz, var_size)"

text \<open>Registration of one of the two event handlers in a list of its event name.\<close>

definition register_eh :: "bool \<Rightarrow> nat \<Rightarrow> nat \<Rightarrow> nat \<Rightarrow> event_state \<Rightarrow> event_state \<times> int" where
  "register_eh ok eh n l es =
     (case register_event_handler ok eh n (en_handlers (es_names es ! n) l) AllObj AllObj of
        (hs, r) \<Rightarrow> (es\<lparr>es_names := (es_names es)[n := (es_names es ! n)
                        \<lparr>en_handlers := (en_handlers (es_names es ! n))(l := hs)\<rparr>]\<rparr>, r))"

text \<open>\<open>ok i\<close> says whether the \<open>i\<close>-th allocation succeeds.\<close>

definition generic_init ::
  "(nat \<Rightarrow> bool) \<Rightarrow> regex_lib \<Rightarrow> string \<Rightarrow> nat option \<Rightarrow> nat option \<Rightarrow> nat \<Rightarrow> 32 word \<Rightarrow> gen_init \<Rightarrow> gen_init \<times> int" where
  "generic_init ok rx name subhandler event class flags st =
     (case generic_get_new_class_handler_s (ok 0) (gi_next_type st) class of
        None \<Rightarrow> (st, -1)
      | Some ch0 \<Rightarrow>
          let (var_size, off) = comm_alloc_buf_var_data 8 (gi_var_size st);
              ch1 = ch0\<lparr>gh_var_offset := off, gh_flags := flags, gh_user := event\<rparr>;
              st = st\<lparr>gi_var_size := var_size\<rparr> in
          if \<not> ok 1 then (st, -1)
          else
            let ty = gi_next_type st;
                t1 = (gi_tree st)\<lparr>ts_type := (ts_type (gi_tree st))(ty :=
                        \<lparr>tt_name = name, tt_handler = gh_id ch1, tt_child_type = Some ty\<rparr>)\<rparr>;
                (t2, root) = register_tree_type rx ty t1;
                st = st\<lparr>gi_tree := t2, gi_next_type := Suc ty\<rparr> in
            (case root of
               None \<Rightarrow> (st, -1)
             | Some r \<Rightarrow>
                 let ch = ch1\<lparr>gh_root := Some r\<rparr>;
                     st = st\<lparr>gi_classes := class_add_handler class ch (gi_classes st)\<rparr> in
                 (case (subhandler, event) of
                    (Some sub, Some n) \<Rightarrow>
                      if \<not> ok 2 then (st, -1)
                      else
                        let eh = gi_next_handler st;
                            (es1, r1) = register_eh (ok 3) eh n EHH_VS_ALLOW (gi_events st);
                            st = st\<lparr>gi_events := es1, gi_next_handler := eh + 2\<rparr> in
                        if r1 < 0 then (st, -1)
                        else let (es2, r2) = register_eh (ok 4) (Suc eh) n EHH_NOTIFY_ALLOW (gi_events st);
                                 st = st\<lparr>gi_events := es2\<rparr>
                             in if r2 < 0 then (st, -1)
                                else (st\<lparr>gi_eh := (gi_eh st)(eh \<mapsto> ('':'' @ take (MEDUSA_OPNAME_MAX - 1) name, sub, gh_id ch),
                                                        Suc eh \<mapsto> (''.'' @ take (MEDUSA_OPNAME_MAX - 1) name, sub, gh_id ch))\<rparr>, 0)
                  | _ \<Rightarrow> (st, 0))))"

subsection \<open>Pointers in the data\<close>

lemma bit_bytes_ptr:
  "bit (bytes_ptr bs) n \<longleftrightarrow> n < 64 \<and> n div 8 < length bs \<and> bit (bs ! (n div 8)) (n mod 8)"
proof (induction bs arbitrary: n)
  case Nil
  then show ?case by (simp add: bytes_ptr_def)
next
  case (Cons b bs)
  have c: "bytes_ptr (b # bs) = ucast b OR push_bit 8 (bytes_ptr bs)" by (simp add: bytes_ptr_def)
  show ?case
  proof (cases "n < 8")
    case True
    then show ?thesis by (auto simp: c bit_simps)
  next
    case False
    then obtain m where m: "n = m + 8" by (metis add.commute le_Suc_ex not_less)
    then have d: "n div 8 = Suc (m div 8)" by simp
    then have e: "(b # bs) ! (n div 8) = bs ! (m div 8)" by simp
    have "\<not> bit b (m + 8)" using bit_imp_le_length [of b "m + 8"] by auto
    then show ?thesis using e d by (auto simp: c m bit_simps Cons.IH)
  qed
qed

lemma length_ptr_bytes [simp]: "length (ptr_bytes w) = 8"
  by (simp add: ptr_bytes_def)

lemma bytes_ptr_bytes [simp]: "bytes_ptr (ptr_bytes w) = w"
proof (rule bit_word_eqI)
  fix n assume "n < LENGTH(64)"
  then have n: "n < 64" "n div 8 < 8" by auto
  then have "ptr_bytes w ! (n div 8) = ucast (drop_bit (8 * (n div 8)) w)"
    by (simp add: ptr_bytes_def del: upt_Suc)
  with n show "bit (bytes_ptr (ptr_bytes w)) n \<longleftrightarrow> bit w n"
    by (auto simp: bit_bytes_ptr bit_simps)
qed

lemma get_put_ptr: "put_ptr off w d = Some d' \<Longrightarrow> get_ptr off d' = Some w"
  by (auto simp: put_ptr_def get_ptr_def put_bytes_def split: if_splits)

lemma ptr_node_ptr [simp]: "p < 2 ^ 64 - 1 \<Longrightarrow> ptr_node (node_ptr (Some p)) = Some p"
proof -
  assume p: "p < 2 ^ 64 - 1"
  then have "unat (of_nat (Suc p) :: 64 word) = Suc p"
    by (simp add: unsigned_of_nat take_bit_nat_eq_self del: of_nat_Suc)
  then show ?thesis by (auto simp: ptr_node_def node_ptr_def simp flip: unat_eq_zero)
qed

lemma ptr_node_null [simp]: "ptr_node (node_ptr None) = None"
  by (simp add: ptr_node_def node_ptr_def)

subsection \<open>Handlers keep the node of an object\<close>

text \<open>\<open>C\<close> stands for a field of the data, such as the \<open>cinfo\<close> pointer: it overlaps neither a set of
  virtual spaces nor an event mask of the class.\<close>

definition part_disjoint :: "attr \<Rightarrow> cinfo_part \<Rightarrow> bool" where
  "part_disjoint C p \<longleftrightarrow> aoff C + alen C \<le> unat (event_offset p) \<or> unat (event_offset p) + unat (event_size p) \<le> aoff C"

definition layout_ok :: "class_s \<Rightarrow> attr \<Rightarrow> bool" where
  "layout_ok c C \<longleftrightarrow> (\<forall>n < NR_ACCESS_TYPES. \<forall>a. c_vs_attr c ! n = Some a \<longrightarrow> attr_disjoint C a)
     \<and> part_disjoint C (c_obj c) \<and> part_disjoint C (c_subject c)"

definition same_region :: "attr \<Rightarrow> object_s \<Rightarrow> object_s \<Rightarrow> bool" where
  "same_region C ob ob' \<longleftrightarrow> length (o_data ob') = length (o_data ob) \<and> field C (o_data ob') = field C (o_data ob)
     \<and> o_class ob' = o_class ob"

lemma same_region_refl [simp]: "same_region C ob ob"
  by (simp add: same_region_def)

lemma same_region_trans: "same_region C a b \<Longrightarrow> same_region C b c \<Longrightarrow> same_region C a c"
  by (simp add: same_region_def)

lemma fold_bind_region:
  assumes "\<And>x ob ob'. x \<in> set xs \<Longrightarrow> f x ob = Some ob' \<Longrightarrow> same_region C ob ob'"
    and "fold (\<lambda>x m. Option.bind m (f x)) xs (Some ob) = Some ob'"
  shows "same_region C ob ob'"
  using assms
proof (induction xs arbitrary: ob)
  case (Cons x xs)
  have none: "fold (\<lambda>x m. Option.bind m (f x)) ys None = None" for ys by (induction ys) simp_all
  obtain ob1 where 1: "f x ob = Some ob1" using Cons.prems(2) none by (cases "f x ob") auto
  then have "fold (\<lambda>x m. Option.bind m (f x)) xs (Some ob1) = Some ob'" using Cons.prems(2) by simp
  then have "same_region C ob1 ob'" using Cons.IH Cons.prems(1) by (metis list.set_intros(2))
  moreover have "same_region C ob ob1" using Cons.prems(1) 1 by (metis list.set_intros(1))
  ultimately show ?case using same_region_trans by blast
qed simp

lemma zero_bytes_region:
  assumes "zero_bytes off n d = Some d'" and "aoff C + alen C \<le> off \<or> off + n \<le> aoff C"
  shows "length d' = length d \<and> field C d' = field C d"
  using zero_bytes_Some [OF assms(1)] assms(2) take_drop_put_other [of "aoff C" "alen C" off "replicate n 0" d]
  by (auto simp: field_def)

lemma clear_all_vs_region:
  assumes "layout_ok c C" and "object_clear_all_vs c ob = Some ob'"
  shows "same_region C ob ob'"
proof -
  let ?f = "\<lambda>n ob. case c_vs_attr c ! n of None \<Rightarrow> Some ob
      | Some a \<Rightarrow> map_option (\<lambda>d. ob\<lparr>o_data := d\<rparr>) (zero_bytes (aoff a) (alen a) (o_data ob))"
  have eq: "map_option (\<lambda>d. ob\<lparr>o_data := d\<rparr>) (fold (\<lambda>n d. case c_vs_attr c ! n of None \<Rightarrow> d
              | Some a \<Rightarrow> Option.bind d (zero_bytes (aoff a) (alen a))) ns d)
     = fold (\<lambda>n m. Option.bind m (?f n)) ns (map_option (\<lambda>d. ob\<lparr>o_data := d\<rparr>) d)" for ns d
  proof (induction ns arbitrary: d)
    case (Cons n ns)
    have "map_option (\<lambda>d. ob\<lparr>o_data := d\<rparr>) (case c_vs_attr c ! n of None \<Rightarrow> d
              | Some a \<Rightarrow> Option.bind d (zero_bytes (aoff a) (alen a)))
        = Option.bind (map_option (\<lambda>d. ob\<lparr>o_data := d\<rparr>) d) (?f n)"
      by (cases d; cases "c_vs_attr c ! n") (auto simp: option.map_comp comp_def)
    then show ?case using Cons.IH by simp
  qed simp
  have "same_region C ob ob'" if "n \<in> set [0..<NR_ACCESS_TYPES]" "?f n ob = Some ob'" for n ob ob'
    using that assms(1) zero_bytes_region [of _ _ "o_data ob" _ C]
    by (auto simp: layout_ok_def same_region_def attr_disjoint_def split: option.splits)
  moreover have "ob\<lparr>o_data := o_data ob\<rparr> = ob" by simp
  ultimately show ?thesis
    using assms(2) fold_bind_region [of "[0..<NR_ACCESS_TYPES]" ?f C ob ob']
    unfolding object_clear_all_vs_def eq by (simp only: option.map)
qed

lemma clear_event_region:
  assumes "layout_ok c C" and "object_clear_event c ob = Some ob'"
  shows "same_region C ob ob'"
proof -
  have z: "length d' = length d \<and> field C d' = field C d"
    if "(if 0 < event_size p then zero_bytes (unat (event_offset p)) (unat (event_size p)) d else Some d) = Some d'"
      "part_disjoint C p" for p d d'
    using that zero_bytes_region [of "unat (event_offset p)" "unat (event_size p)" d d' C]
    by (auto simp: part_disjoint_def split: if_splits)
  obtain d1 d2 where "(if 0 < event_size (c_obj c) then zero_bytes (unat (event_offset (c_obj c))) (unat (event_size (c_obj c))) (o_data ob)
          else Some (o_data ob)) = Some d1"
      "(if 0 < event_size (c_subject c) then zero_bytes (unat (event_offset (c_subject c))) (unat (event_size (c_subject c))) d1
               else Some d1) = Some d2" "ob' = ob\<lparr>o_data := d2\<rparr>"
    using assms(2) unfolding object_clear_event_def by (auto simp: bind_eq_Some_conv)
  with z assms(1) show ?thesis by (auto simp: layout_ok_def same_region_def)
qed

lemma or_words_region:
  assumes "object_add_vs c ob (int n) v = Some (r, ob')" and "layout_ok c C"
  shows "same_region C ob ob'"
proof (cases "n < NR_ACCESS_TYPES")
  case True
  show ?thesis
  proof (cases "c_vs_attr c ! n")
    case None
    then show ?thesis using assms(1) True by (simp add: object_add_vs_def)
  next
    case (Some a)
    then have le: "aoff a + 4 * vs_words a \<le> length (o_data ob)"
      and ob': "ob' = ob\<lparr>o_data := or_words (vs_words a) (aoff a) v (o_data ob)\<rparr>"
      using assms(1) True by (auto simp: object_add_vs_def split: if_splits)
    have "attr_disjoint C a" using assms(2) True Some by (auto simp: layout_ok_def)
    then have "aoff C + alen C \<le> aoff a \<or> aoff a + 4 * vs_words a \<le> aoff C"
      using vs_words_bytes [of a] by (auto simp: attr_disjoint_def)
    from field_or_words [OF le this] le show ?thesis by (simp add: ob' same_region_def)
  qed
qed (use assms in \<open>auto simp: object_add_vs_def\<close>)

lemma or_mask_region:
  assumes "or_mask p f d = Some d'" and "part_disjoint C p"
  shows "length d' = length d \<and> field C d' = field C d"
proof -
  let ?n = "min (unat (event_size p)) MASK_BYTES" and ?off = "unat (event_offset p)"
  let ?bs = "map (\<lambda>i. d ! (?off + i) OR f ! i) [0..<?n]"
  have d: "?off + ?n \<le> length d" "d' = put_bytes ?off ?bs d"
    using assms(1) by (auto simp: or_mask_def Let_def split: if_splits)
  have "aoff C + alen C \<le> ?off \<or> ?off + length ?bs \<le> aoff C"
    using assms(2) by (auto simp: part_disjoint_def)
  from take_drop_put_other [OF this] d show ?thesis by (simp add: field_def)
qed

lemma add_event_region:
  assumes "object_add_event c ob e = Some (r, ob')" and "layout_ok c C"
  shows "same_region C ob ob'"
proof -
  have z: "length d' = length d \<and> field C d' = field C d"
    if "(if 0 < event_size p then or_mask p f d else Some d) = Some d'" "part_disjoint C p" for p f d d'
    using that or_mask_region [of p f d d' C] by (auto split: if_splits)
  obtain d1 d2 where "(if 0 < event_size (c_obj c) then or_mask (c_obj c) (snd e) (o_data ob) else Some (o_data ob)) = Some d1"
      "(if 0 < event_size (c_subject c) then or_mask (c_subject c) (fst e) d1 else Some d1) = Some d2" "ob' = ob\<lparr>o_data := d2\<rparr>"
    using assms(1) unfolding object_add_event_def by (auto simp: bind_eq_Some_conv)
  with z assms(2) show ?thesis by (auto simp: layout_ok_def same_region_def)
qed

text \<open>The contract of a \<open>set_handler\<close> function: it leaves alone every field outside the sets of virtual
  spaces and the event masks. \<open>fs x\<close> is the function of the class handler \<open>x\<close>.\<close>

locale set_handlers =
  fixes fs :: "'h \<Rightarrow> class_s \<Rightarrow> 'st \<Rightarrow> object_s \<Rightarrow> ('st \<times> object_s) option"
  assumes keeps: "layout_ok c C \<Longrightarrow> fs x c st ob = Some (st', ob') \<Longrightarrow> same_region C ob ob'"
begin

definition handler_list :: "('h \<Rightarrow> ('st \<Rightarrow> object_s \<Rightarrow> vs \<Rightarrow> nat \<Rightarrow> vs) option) \<Rightarrow> class_s \<Rightarrow> 'h list \<Rightarrow> 'st class_handler list" where
  "handler_list g c xs = map (\<lambda>x. \<lparr>h_set_handler = Some (fs x c), h_get_vs = g x\<rparr>) xs"

lemma do_sethandler_keeps:
  assumes "layout_ok c C" and "object_do_sethandler (handler_list g c xs) c st ob = Some (st', ob')"
  shows "same_region C ob ob'"
proof -
  let ?f = "\<lambda>h m. Option.bind m (\<lambda>(st, ob). case h_set_handler h of None \<Rightarrow> Some (st, ob) | Some f \<Rightarrow> f st ob)"
  have loop: "same_region C ob1 ob'" if "fold ?f (handler_list g c ys) (Some (st1, ob1)) = Some (st', ob')" for ys st1 ob1
    using that
  proof (induction ys arbitrary: st1 ob1)
    case (Cons y ys)
    have none: "fold ?f (handler_list g c zs) None = None" for zs by (induction zs) (simp_all add: handler_list_def)
    obtain st2 ob2 where 2: "fs y c st1 ob1 = Some (st2, ob2)"
      using Cons.prems none by (cases "fs y c st1 ob1") (auto simp: handler_list_def)
    then have "fold ?f (handler_list g c ys) (Some (st2, ob2)) = Some (st', ob')"
      using Cons.prems by (simp add: handler_list_def)
    from Cons.IH [OF this] keeps [OF assms(1) 2] show ?case using same_region_trans by blast
  qed (simp add: handler_list_def)
  obtain ob1 ob2 where 1: "object_clear_all_vs c ob = Some ob1" and 2: "object_clear_event c ob1 = Some ob2"
      and 3: "fold ?f (handler_list g c xs) (Some (st, ob2)) = Some (st', ob')"
    using assms(2) unfolding object_do_sethandler_def by (auto simp: bind_eq_Some_conv)
  show ?thesis
    using clear_all_vs_region [OF assms(1) 1] clear_event_region [OF assms(1) 2] loop [OF 3] by (simp add: same_region_def)
qed

end

lemma generic_set_handler_keeps:
  assumes "layout_ok c C" and "generic_set_handler es h conn c st ob = Some (st', ob')"
  shows "same_region C ob ob'"
proof -
  obtain w where w: "cinfo h conn ob = Some w" using assms(2) by (auto simp: generic_set_handler_def bind_eq_Some_conv)
  show ?thesis
  proof (cases "ptr_node w")
    case None
    then show ?thesis using assms(2) w by (simp add: generic_set_handler_def)
  next
    case (Some p)
    let ?t = "ts_node (gw_tree st) p"
    obtain ob1 ob2 where 1: "fold (\<lambda>a m. Option.bind m (\<lambda>ob. map_option snd (object_add_vs c ob (int a) (t_vs ?t a))))
                          [0..<NR_ACCESS_TYPES] (Some ob) = Some ob1"
      and 2: "map_option snd (object_add_event c ob1 (t_events ?t conn)) = Some ob2"
      and k: "(case gh_user h of None \<Rightarrow> Some (st, ob2)
             | Some n \<Rightarrow>
                 if t_child ?t = [] \<and> t_regex ?t = [] then Some (st, ob2)
                 else (case user_event es conn n of
                         None \<Rightarrow> None
                       | Some ty \<Rightarrow> if et_monitored ty = o_class ob2
                                    then map_option (\<lambda>r. (st, snd r)) (object_add_event c ob2 (et_mask ty))
                                    else Some (st, ob2))) = Some (st', ob')"
      using assms(2) w Some by (auto simp: generic_set_handler_def Let_def bind_eq_Some_conv simp del: map_option_eq_Some)
    have 3: "ob' = ob2 \<or> (\<exists>r e. object_add_event c ob2 e = Some (r, ob'))"
      using k by (cases "gh_user h"; cases "user_event es conn (the (gh_user h))") (auto split: if_splits, (metis prod.collapse)+)
    have e: "same_region C a b" if "object_add_event c a m = Some (r, b)" for a b m r
      using add_event_region [OF _ assms(1)] that by (cases m) blast
    have "same_region C ob ob1"
      using 1 by (rule fold_bind_region [rotated]) (auto intro: or_words_region [OF _ assms(1)])
    moreover obtain r2 where "object_add_event c ob1 (t_events ?t conn) = Some (r2, ob2)"
      using 2 by (cases "object_add_event c ob1 (t_events ?t conn)") auto
    then have "same_region C ob1 ob2" by (rule e)
    moreover have "same_region C ob2 ob'" using 3 e same_region_refl by metis
    ultimately show ?thesis using same_region_trans by blast
  qed
qed

interpretation gen: set_handlers "\<lambda>h. generic_set_handler es h conn" for es conn
  by unfold_locales (rule generic_set_handler_keeps)

lemma cinfo_region:
  "same_region C ob ob' \<Longrightarrow> gh_cinfo_offset h conn = int (aoff C) \<Longrightarrow> alen C = 8 \<Longrightarrow> cinfo h conn ob' = cinfo h conn ob"
  by (simp add: cinfo_def get_ptr_def same_region_def field_def)

lemma set_cinfo_class: "set_cinfo h conn w ob = Some ob' \<Longrightarrow> o_class ob' = o_class ob \<and> cinfo h conn ob' = Some w"
  by (auto simp: set_cinfo_def cinfo_def dest: get_put_ptr)

subsection \<open>Properties\<close>

text \<open>The list of the handlers of a class that are all generic.\<close>

definition generic_handlers :: "event_state \<Rightarrow> nat \<Rightarrow> class_s \<Rightarrow> (gen_handler \<Rightarrow> (gen_world \<Rightarrow> object_s \<Rightarrow> vs \<Rightarrow> nat \<Rightarrow> vs) option)
     \<Rightarrow> gen_handler list \<Rightarrow> gen_world class_handler list" where
  "generic_handlers es conn c g hs = gen.handler_list es conn g c hs"

text \<open>C22. The two handlers of a tree move a subject: when \<open>decide\<close> has allowed the event for a subject at
  node \<open>p\<close>, the subject that \<open>notify\<close> leaves behind is at the child of \<open>p\<close> that \<open>find_one\<close> has for
  the name that the subhandler computed (or at \<open>p\<close> itself when the last result is not a string and
  the name is empty), for classes whose handlers are all generic and whose node pointer overlaps
  neither virtual spaces nor event masks.\<close>

theorem hierarchy_moves_subject:
  assumes "generic_hierarchy_handler_decide env buf rx conn h sub st c = Some (0, st1, c1)" and "ec_result c1 = RESULT_ALLOW"
    and "generic_hierarchy_handler_notify env conn h st1 c1 = Some (i, st2, c2)"
    and "cinfo h conn (ec_subject c) = Some (node_ptr (Some p))" and "p < 2 ^ 64 - 1"
    and "o_class (ec_subject c1) = Some a" and "class_handlers env a = generic_handlers es conn (e_class env a) g hs"
    and "layout_ok (e_class env a) C" and "alen C = 8" and "gh_cinfo_offset h conn = int (aoff C)"
  shows "\<exists>q. find_one rx (gw_tree st1) p (if akind (gw_last_attr st1) \<noteq> MED_TYPE_STRING then '''' else gw_last_data st1) = Some q
     \<and> cinfo h conn (ec_subject c2) = Some (node_ptr (Some q))"
proof -
  obtain r st' c' where s: "sub st c = Some (r, st', c')"
    using assms(1,4,5) by (auto simp: generic_hierarchy_handler_decide_def bind_eq_Some_conv)
  let ?name = "if akind (gw_last_attr st') \<noteq> MED_TYPE_STRING then '''' else gw_last_data st'"
  have fr: "gw_tree st1 = gw_tree st' \<and> gw_last_attr st1 = gw_last_attr st' \<and> gw_last_data st1 = gw_last_data st'"
    if "set_var h w st' = Some st1" for w
    using that by (auto simp: set_var_def)
  have r: "r \<le> 0" using assms(1,4,5) s by (auto simp: generic_hierarchy_handler_decide_def split: if_splits)
  obtain q where q: "find_one rx (gw_tree st') p ?name = Some q"
    using assms(1,4,5) s r by (auto simp: generic_hierarchy_handler_decide_def Let_def bind_eq_Some_conv split: option.splits if_splits)
  have v: "set_var h (node_ptr (Some q)) st' = Some st1"
    using assms(1,2,4,5) s r q
    by (auto simp: generic_hierarchy_handler_decide_def Let_def bind_eq_Some_conv result_consts split: option.splits if_splits)
  then have "get_ptr (gh_var_offset h) (gw_var st1) = Some (node_ptr (Some q))"
    by (auto simp: set_var_def dest: get_put_ptr)
  then obtain ob st3 ob3 where ob: "set_cinfo h conn (node_ptr (Some q)) (ec_subject c1) = Some ob"
      "object_do_sethandler (class_handlers env a) (e_class env a) st1 ob = Some (st3, ob3)" "ec_subject c2 = ob3"
  proof -
    from \<open>get_ptr _ _ = _\<close> obtain ob a' st3 ob3 where n: "set_cinfo h conn (node_ptr (Some q)) (ec_subject c1) = Some ob"
        "o_class ob = Some a'" "object_do_sethandler (class_handlers env a') (e_class env a') st1 ob = Some (st3, ob3)"
        "c2 = c1\<lparr>ec_subject := ob3\<rparr>"
      using assms(3) by (auto simp: generic_hierarchy_handler_notify_def bind_eq_Some_conv)
    moreover have "a' = a" using set_cinfo_class [OF n(1)] n(2) assms(6) by simp
    ultimately show thesis by (intro that) auto
  qed
  have "same_region C ob ob3"
    using ob(2) unfolding assms(7) generic_handlers_def by (rule gen.do_sethandler_keeps [OF assms(8)])
  then have "cinfo h conn (ec_subject c2) = Some (node_ptr (Some q))"
    using cinfo_region [OF _ assms(10,9)] set_cinfo_class [OF ob(1)] ob(3) by simp
  moreover have "find_one rx (gw_tree st1) p (if akind (gw_last_attr st1) \<noteq> MED_TYPE_STRING then '''' else gw_last_data st1) = Some q"
    using q by (simp only: fr [OF v])
  ultimately show ?thesis by blast
qed

text \<open>When the node of the subject has no such child, \<open>decide\<close> sets the result of the event to a denial
  but returns an error, and \<open>do_event_handler\<close> puts the previous result back: the event is not
  denied. (With \<open>test_enter\<close> and a child that must not be entered the denial counts.)\<close>

theorem missing_child_does_not_deny:
  assumes "e_run env k = generic_hierarchy_handler_decide env0 buf rx conn h sub"
    and "cinfo h conn (ec_subject (cb_context cb)) = Some (node_ptr (Some p))" and "p < 2 ^ 64 - 1"
    and "sub (cb_st cb) (cb_context cb) = Some (r, st1, c1)" and "r \<le> 0"
    and "find_one rx (gw_tree st1) p (if akind (gw_last_attr st1) \<noteq> MED_TYPE_STRING then '''' else gw_last_data st1) = None"
    and "run_handler env k cb = Some (i, cb')"
  shows "i = -1 \<and> ec_result (cb_context cb') = ec_result (cb_context cb)"
proof -
  obtain w st2 where w: "cinfo h conn (ec_subject c1) = Some w" "set_var h w st1 = Some st2"
    using assms by (auto simp: run_handler_def generic_hierarchy_handler_decide_def Let_def bind_eq_Some_conv split: option.splits if_splits)
  have "generic_hierarchy_handler_decide env0 buf rx conn h sub (cb_st cb) (cb_context cb)
      = Some (-1, st2, c1\<lparr>ec_result := RESULT_DENY\<rparr>)"
    using assms(2-6) w by (simp add: generic_hierarchy_handler_decide_def Let_def)
  then show ?thesis using assms(1,7) by (auto simp: run_handler_def Let_def)
qed

text \<open>Instances: a class whose objects hold the node pointer only, with one generic handler.\<close>

definition demo_gen_class :: class_s where
  "demo_gen_class =
     (let z = \<lparr>event_offset = 0, event_size = 0, cinfo_offset = 0, cinfo_size = 2, cinfo_mask = 0\<rparr> in
      \<lparr>c_obj = z, c_subject = z\<lparr>cinfo_size := 0\<rparr>, c_name_offset = 0, c_name_size = 0, c_classname = 0, c_comm = 0,
       c_vs_attr = replicate 8 None, c_m = \<lparr>m_classid = 1, m_size = 8, m_name = ''c''\<rparr>, c_attr = []\<rparr>)"

definition demo_gen_handler :: gen_handler where
  "demo_gen_handler = \<lparr>gh_id = 0, gh_classname = 0, gh_cinfo_offset = (\<lambda>_. 0), gh_var_offset = 0, gh_flags = 0,
     gh_root = Some 1, gh_user = None\<rparr>"

definition demo_es :: event_state where
  "demo_es = \<lparr>es_names = [], es_heap = (\<lambda>_. None), es_next = 0\<rparr>"

definition demo_gen_env :: "gen_world ev_env" where
  "demo_gen_env =
     (let hs = [\<lparr>h_set_handler = Some (generic_set_handler demo_es demo_gen_handler 0 demo_gen_class), h_get_vs = None,
                 h_get_tree_node = generic_get_tree_node [] demo_gen_handler 0 demo_gen_class\<rparr>]
      in \<lparr>e_class = (\<lambda>_. demo_gen_class), e_handlers = (\<lambda>_. hs), e_names = (\<lambda>_ _. []),
          e_node = (\<lambda>st. ts_node (gw_tree st)), e_run = (\<lambda>_. generic_hierarchy_handler_decide
            \<lparr>e_class = (\<lambda>_. demo_gen_class), e_handlers = (\<lambda>_. hs), e_names = (\<lambda>_ _. []),
             e_node = (\<lambda>st. ts_node (gw_tree st)), e_run = (\<lambda>_ _ _. None)\<rparr>
            [] demo_rx 0 demo_gen_handler (\<lambda>st c. Some (0, st, c)))\<rparr>)"

definition demo_gen_world :: "string \<Rightarrow> gen_world" where
  "demo_gen_world name = \<lparr>gw_tree = fst (create_path demo_rx ''fs/home'' (tree_init 9)), gw_var = replicate 8 0,
     gw_last_attr = \<lparr>a_offset = 0, a_length = 8, a_type = MED_TYPE_STRING, a_name = []\<rparr>, gw_last_data = name\<rparr>"

definition demo_gen_context :: "nat \<Rightarrow> event_context_s" where
  "demo_gen_context p = \<lparr>ec_operation = empty_object,
     ec_subject = \<lparr>o_attr = o_attr demo_object, o_flags = 0, o_class = Some 0, o_data = ptr_bytes (node_ptr (Some p))\<rparr>,
     ec_object = empty_object, ec_result = RESULT_ALLOW, ec_unhandled = True\<rparr>"

theorem hierarchy_moves_subject_witness:
  "\<exists>st1 c1 i st2 c2. generic_hierarchy_handler_decide demo_gen_env [] demo_rx 0 demo_gen_handler (\<lambda>st c. Some (0, st, c))
       (demo_gen_world ''home'') (demo_gen_context 1) = Some (0, st1, c1)
     \<and> generic_hierarchy_handler_notify demo_gen_env 0 demo_gen_handler st1 c1 = Some (i, st2, c2)
     \<and> (\<exists>q. cinfo demo_gen_handler 0 (ec_subject c2) = Some (node_ptr (Some q)))"
proof -
  let ?d = "generic_hierarchy_handler_decide demo_gen_env [] demo_rx 0 demo_gen_handler (\<lambda>st c. Some (0, st, c))
       (demo_gen_world ''home'') (demo_gen_context 1)"
  let ?n = "generic_hierarchy_handler_notify demo_gen_env 0 demo_gen_handler"
  have "(case ?d of Some (i, st1, c1) \<Rightarrow> i = 0 \<and> ec_result c1 = RESULT_ALLOW \<and> o_class (ec_subject c1) = Some 0
     \<and> ?n st1 c1 \<noteq> None | None \<Rightarrow> False)"
    by code_simp
  then obtain st1 c1 i st2 c2 where d: "?d = Some (0, st1, c1)" "ec_result c1 = RESULT_ALLOW"
      "o_class (ec_subject c1) = Some 0" and n: "?n st1 c1 = Some (i, st2, c2)"
    by (auto split: option.splits)
  let ?C = "\<lparr>a_offset = 0, a_length = 8, a_type = 0, a_name = []\<rparr>"
  have c: "cinfo demo_gen_handler 0 (ec_subject (demo_gen_context 1)) = Some (node_ptr (Some 1))"
    by code_simp
  have h: "class_handlers demo_gen_env 0
      = generic_handlers demo_es 0 (e_class demo_gen_env 0) (\<lambda>_. None) [demo_gen_handler]"
    by (simp add: class_handlers_def demo_gen_env_def generic_handlers_def gen.handler_list_def class_handler.truncate_def Let_def)
  have l: "layout_ok (e_class demo_gen_env 0) ?C"
    by (auto simp: layout_ok_def demo_gen_env_def demo_gen_class_def part_disjoint_def Let_def NR_ACCESS_TYPES_def aoff_def alen_def)
  have o: "gh_cinfo_offset demo_gen_handler 0 = int (aoff ?C)" "alen ?C = 8"
    by (simp_all add: demo_gen_handler_def aoff_def alen_def)
  show ?thesis
    using hierarchy_moves_subject [OF d(1,2) n c _ d(3) h l o(2,1)] d(1) n by auto
qed

theorem missing_child_does_not_deny_witness:
  "\<exists>cb'. run_handler demo_gen_env 0 (\<lparr>cb_phase = 0, cb_list = 0, cb_hh = [], cb_ch = [], cb_context = demo_gen_context 0,
        cb_event = Some 0, cb_init_handler = 0, cb_st = demo_gen_world ''x''\<rparr>) = Some (-1, cb')
     \<and> ec_result (cb_context cb') = RESULT_ALLOW"
proof -
  let ?cb = "\<lparr>cb_phase = 0, cb_list = 0, cb_hh = [], cb_ch = [], cb_context = demo_gen_context 0,
        cb_event = Some 0, cb_init_handler = 0, cb_st = demo_gen_world ''x''\<rparr>"
  have "(case run_handler demo_gen_env 0 ?cb of Some _ \<Rightarrow> True | None \<Rightarrow> False)" by code_simp
  then obtain i cb' where r: "run_handler demo_gen_env 0 ?cb = Some (i, cb')" by (auto split: option.splits)
  let ?env = "\<lparr>e_class = (\<lambda>_. demo_gen_class), e_handlers = e_handlers demo_gen_env, e_names = (\<lambda>_ _. []),
             e_node = (\<lambda>st. ts_node (gw_tree st)), e_run = (\<lambda>_ _ _. None)\<rparr>"
  have e: "e_run demo_gen_env 0 = generic_hierarchy_handler_decide ?env [] demo_rx 0 demo_gen_handler (\<lambda>st c. Some (0, st, c))"
    by (simp add: demo_gen_env_def Let_def)
  have c: "cinfo demo_gen_handler 0 (ec_subject (cb_context ?cb)) = Some (node_ptr (Some 0))" by code_simp
  have f: "find_one demo_rx (gw_tree (demo_gen_world ''x'')) 0
      (if akind (gw_last_attr (demo_gen_world ''x'')) \<noteq> MED_TYPE_STRING then '''' else gw_last_data (demo_gen_world ''x'')) = None"
    by code_simp
  show ?thesis
    using missing_child_does_not_deny [OF e c _ _ _ f r, of 0] r by (auto simp: demo_gen_context_def)
qed

end
