(* ===== verification/Exec_Stack.thy ===== *)
theory Exec_Stack
  imports Prelude "HOL-Library.Monad_Syntax"
begin

text \<open>
  The stack of the interpreter (\<open>execute_stack.c\<close>): chunks of \<open>STACKLEN\<close> words that are linked in both
  directions, taken from a list of free chunks or from \<open>malloc\<close>. Chunks are cells of a store; a word
  that was never written is \<open>None\<close>. The words are of the type variable \<open>'w\<close>, and \<open>zero\<close> is what a
  failing operation returns. \<open>None\<close> as the result of an operation is a null or dangling pointer, an
  access outside the words of a chunk, or a loop that does not end.

  The stack is specified by the list of the words below \<open>pos\<close>: pushing appends to it, popping takes
  its last word away. The locale \<open>lifo\<close> states that contract, with the number of words that can
  still be pushed.
\<close>

definition STACKLEN :: int where "STACKLEN = 4096"

record 'w stack_s =
  sk_prev :: "nat option"
  sk_next :: "nat option"
  sk_size :: int
  sk_my_offset :: int
  sk_stack :: "nat \<Rightarrow> 'w option"

record 'w stack_heap =
  sh_cell :: "nat \<Rightarrow> 'w stack_s option"
  sh_brk :: nat
  sh_free :: "nat option"
  sh_mem :: nat

text \<open>The state of an execution: handler, context and buffers are numbers, \<open>ex_p\<close> is the address of
  the next instruction.\<close>

record execute_s =
  ex_stack :: nat
  ex_pos :: int
  ex_base :: int
  ex_start :: int
  ex_p :: int
  ex_fn_getsval_p :: int
  ex_cont :: int
  ex_h :: "nat option"
  ex_c :: "nat option"
  ex_keep_stack :: bool
  ex_comm :: "nat option"
  ex_my_comm_buff :: "nat option"

definition upd_chunk :: "nat \<Rightarrow> ('w stack_s \<Rightarrow> 'w stack_s) \<Rightarrow> 'w stack_heap \<Rightarrow> 'w stack_heap option" where
  "upd_chunk p f h =
     map_option (\<lambda>s. h\<lparr>sh_cell := (sh_cell h)(p \<mapsto> f s)\<rparr>) (sh_cell h p)"

definition execute_get_stack :: "'w stack_heap \<Rightarrow> (nat option \<times> 'w stack_heap) option" where
  "execute_get_stack h =
     (case sh_free h of
        Some p \<Rightarrow> do {
          s \<leftarrow> sh_cell h p;
          h \<leftarrow> upd_chunk p (\<lambda>s. s\<lparr>sk_prev := None, sk_next := None, sk_my_offset := 0\<rparr>)
                (h\<lparr>sh_free := sk_next s\<rparr>);
          Some (Some p, h) }
      | None \<Rightarrow>
          if sh_mem h = 0 then Some (None, h)
          else Some (Some (sh_brk h),
            h\<lparr>sh_cell := (sh_cell h)(sh_brk h \<mapsto>
                \<lparr>sk_prev = None, sk_next = None, sk_size = STACKLEN, sk_my_offset = 0, sk_stack = \<lambda>_. None\<rparr>),
              sh_brk := sh_brk h + 1, sh_mem := sh_mem h - 1\<rparr>))"

definition execute_put_stack :: "nat \<Rightarrow> 'w stack_heap \<Rightarrow> 'w stack_heap option" where
  "execute_put_stack p h =
     map_option (\<lambda>h'. h'\<lparr>sh_free := Some p\<rparr>) (upd_chunk p (\<lambda>s. s\<lparr>sk_next := sh_free h\<rparr>) h)"

text \<open>The loop of \<open>execute_push\<close>; its result is \<open>False\<close> when there is no memory for a further chunk.\<close>

definition next_chunk :: "nat \<Rightarrow> 'w stack_heap \<Rightarrow> (nat option \<times> 'w stack_heap) option" where
  "next_chunk p h = do {
     s \<leftarrow> sh_cell h p;
     case sk_next s of
       Some n \<Rightarrow> Some (Some n, h)
     | None \<Rightarrow> do {
         (n, h) \<leftarrow> execute_get_stack h;
         h \<leftarrow> upd_chunk p (\<lambda>s. s\<lparr>sk_next := n\<rparr>) h;
         Some (n, h) } }"

partial_function (option) push_seek ::
  "execute_s \<Rightarrow> 'w stack_heap \<Rightarrow> (bool \<times> execute_s \<times> 'w stack_heap) option" where
  "push_seek e h = do {
     s \<leftarrow> sh_cell h (ex_stack e);
     if sk_my_offset s + sk_size s \<le> ex_pos e then do {
       nh \<leftarrow> next_chunk (ex_stack e) h;
       case fst nh of
         None \<Rightarrow> Some (False, e, snd nh)
       | Some n \<Rightarrow> do {
           h \<leftarrow> upd_chunk n (\<lambda>t. t\<lparr>sk_my_offset := sk_my_offset s + sk_size s, sk_prev := Some (ex_stack e)\<rparr>) (snd nh);
           push_seek (e\<lparr>ex_stack := n\<rparr>) h } }
     else Some (True, e, h) }"

definition chunk_write :: "int \<Rightarrow> 'w \<Rightarrow> 'w stack_s \<Rightarrow> 'w stack_s option" where
  "chunk_write i w s =
     (if 0 \<le> i \<and> i < sk_size s then Some (s\<lparr>sk_stack := (sk_stack s)(nat i \<mapsto> w)\<rparr>) else None)"

definition chunk_read :: "int \<Rightarrow> 'w stack_s \<Rightarrow> 'w option" where
  "chunk_read i s = (if 0 \<le> i \<and> i < sk_size s then sk_stack s (nat i) else None)"

definition execute_push :: "'w \<Rightarrow> execute_s \<Rightarrow> 'w stack_heap \<Rightarrow> (execute_s \<times> 'w stack_heap) option" where
  "execute_push w e h = do {
     (ok, e, h) \<leftarrow> push_seek e h;
     if ok then do {
       s \<leftarrow> sh_cell h (ex_stack e);
       s \<leftarrow> chunk_write (ex_pos e - sk_my_offset s) w s;
       Some (e\<lparr>ex_pos := ex_pos e + 1\<rparr>, h\<lparr>sh_cell := (sh_cell h)(ex_stack e \<mapsto> s)\<rparr>) }
     else Some (e, h) }"

partial_function (option) pop_seek ::
  "execute_s \<Rightarrow> 'w stack_heap \<Rightarrow> (execute_s \<times> 'w stack_heap) option" where
  "pop_seek e h = do {
     s \<leftarrow> sh_cell h (ex_stack e);
     if ex_pos e \<le> sk_my_offset s then do {
       p \<leftarrow> sk_prev s;
       if sk_next s = None \<and> \<not> ex_keep_stack e then do {
         sp \<leftarrow> sh_cell h p;
         q \<leftarrow> sk_next sp;
         h \<leftarrow> execute_put_stack q h;
         h \<leftarrow> upd_chunk p (\<lambda>t. t\<lparr>sk_next := None\<rparr>) h;
         pop_seek (e\<lparr>ex_stack := p\<rparr>) h }
       else pop_seek (e\<lparr>ex_stack := p\<rparr>) h }
     else Some (e, h) }"

definition execute_pop :: "'w \<Rightarrow> execute_s \<Rightarrow> 'w stack_heap \<Rightarrow> ('w \<times> execute_s \<times> 'w stack_heap) option" where
  "execute_pop zero e h =
     (if ex_pos e \<le> 0 then Some (zero, e, h)
      else do {
        (e, h) \<leftarrow> pop_seek e h;
        s \<leftarrow> sh_cell h (ex_stack e);
        w \<leftarrow> chunk_read (ex_pos e - 1 - sk_my_offset s) s;
        Some (w, e\<lparr>ex_pos := ex_pos e - 1\<rparr>, h) })"

text \<open>The search for the chunk of a position, first backwards, then forwards; the null pointer at the
  end of the forward search is \<open>Some None\<close>.\<close>

partial_function (option) seek_back :: "'w stack_heap \<Rightarrow> int \<Rightarrow> nat \<Rightarrow> nat option" where
  "seek_back h pos p = do {
     s \<leftarrow> sh_cell h p;
     if pos \<le> sk_my_offset s then do { q \<leftarrow> sk_prev s; seek_back h pos q } else Some p }"

partial_function (option) seek_forward :: "'w stack_heap \<Rightarrow> int \<Rightarrow> nat \<Rightarrow> nat option option" where
  "seek_forward h pos p = do {
     s \<leftarrow> sh_cell h p;
     if sk_my_offset s + sk_size s \<le> pos then
       (case sk_next s of None \<Rightarrow> Some None | Some n \<Rightarrow> seek_forward h pos n)
     else Some (Some p) }"

text \<open>A pointer into the stack: a chunk and an index in it.\<close>

definition execute_stack_pointer :: "execute_s \<Rightarrow> int \<Rightarrow> 'w stack_heap \<Rightarrow> (nat \<times> int) option option" where
  "execute_stack_pointer e pos h =
     (if pos < 0 then Some None
      else do {
        p \<leftarrow> seek_back h pos (ex_stack e);
        f \<leftarrow> seek_forward h pos p;
        case f of
          None \<Rightarrow> Some None
        | Some p \<Rightarrow> do { s \<leftarrow> sh_cell h p; Some (Some (p, pos - sk_my_offset s)) } })"

definition execute_readstack :: "'w \<Rightarrow> execute_s \<Rightarrow> int \<Rightarrow> 'w stack_heap \<Rightarrow> 'w option" where
  "execute_readstack zero e pos h =
     (if pos < 0 then Some zero
      else do {
        p \<leftarrow> seek_back h pos (ex_stack e);
        f \<leftarrow> seek_forward h pos p;
        case f of
          None \<Rightarrow> Some zero
        | Some p \<Rightarrow> do { s \<leftarrow> sh_cell h p; chunk_read (pos - sk_my_offset s) s } })"

text \<open>\<open>execute_init_stacks\<close>: the chunks are taken first, then put on the free list.\<close>

fun take_stacks :: "nat \<Rightarrow> nat option \<Rightarrow> 'w stack_heap \<Rightarrow> (nat option \<times> 'w stack_heap) option" where
  "take_stacks 0 p h = Some (p, h)"
| "take_stacks (Suc n) p h = do {
     (q, h) \<leftarrow> execute_get_stack h;
     case q of
       None \<Rightarrow> Some (p, h)
     | Some q \<Rightarrow> do { h \<leftarrow> upd_chunk q (\<lambda>s. s\<lparr>sk_next := p\<rparr>) h; take_stacks n (Some q) h } }"

partial_function (option) put_stacks :: "nat option \<Rightarrow> 'w stack_heap \<Rightarrow> 'w stack_heap option" where
  "put_stacks p h =
     (case p of
        None \<Rightarrow> Some h
      | Some q \<Rightarrow> do {
          s \<leftarrow> sh_cell h q;
          h \<leftarrow> execute_put_stack q h;
          put_stacks (sk_next s) h })"

definition execute_init_stacks :: "int \<Rightarrow> 'w stack_heap \<Rightarrow> 'w stack_heap option" where
  "execute_init_stacks n h = do {
     (p, h) \<leftarrow> take_stacks (nat n) None h;
     put_stacks p h }"


subsection \<open>Stacks as lists of words\<close>

definition chunk_ok :: "nat list \<Rightarrow> nat \<Rightarrow> 'w stack_s \<Rightarrow> bool" where
  "chunk_ok ids i s \<longleftrightarrow> sk_size s = STACKLEN \<and> sk_my_offset s = int i * STACKLEN
     \<and> sk_next s = (if Suc i < length ids then Some (ids ! Suc i) else None)
     \<and> sk_prev s = (if i = 0 then None else Some (ids ! (i - 1)))"

definition chunks :: "'w stack_heap \<Rightarrow> nat list \<Rightarrow> bool" where
  "chunks h ids \<longleftrightarrow> (\<forall>i < length ids. \<exists>s. sh_cell h (ids ! i) = Some s \<and> chunk_ok ids i s)"

fun free_path :: "'w stack_heap \<Rightarrow> nat option \<Rightarrow> nat list \<Rightarrow> bool" where
  "free_path h p [] \<longleftrightarrow> p = None"
| "free_path h p (q # qs) \<longleftrightarrow> p = Some q \<and>
     (\<exists>s. sh_cell h q = Some s \<and> sk_size s = STACKLEN \<and> free_path h (sk_next s) qs)"

definition stack_inv :: "execute_s \<Rightarrow> 'w stack_heap \<Rightarrow> nat list \<Rightarrow> nat list \<Rightarrow> nat \<Rightarrow> bool" where
  "stack_inv e h ids fl cur \<longleftrightarrow> chunks h ids \<and> free_path h (sh_free h) fl \<and> distinct (ids @ fl)
     \<and> (\<forall>p \<in> set ids \<union> set fl. p < sh_brk h) \<and> cur < length ids \<and> ex_stack e = ids ! cur"

definition words_at :: "'w stack_heap \<Rightarrow> nat list \<Rightarrow> 'w list \<Rightarrow> bool" where
  "words_at h ids xs \<longleftrightarrow> (\<forall>k < length xs. \<exists>s. sh_cell h (ids ! (k div 4096)) = Some s
     \<and> sk_stack s (k mod 4096) = Some (xs ! k))"

definition stack_rel :: "execute_s \<times> 'w stack_heap \<Rightarrow> nat \<Rightarrow> 'w list \<Rightarrow> bool" where
  "stack_rel st room xs \<longleftrightarrow> (\<exists>ids fl cur. stack_inv (fst st) (snd st) ids fl cur
     \<and> ex_pos (fst st) = int (length xs) \<and> \<not> ex_keep_stack (fst st)
     \<and> 4096 * cur \<le> length xs \<and> length xs \<le> 4096 * Suc cur
     \<and> words_at (snd st) ids xs
     \<and> length xs + room \<le> 4096 * (length ids + length fl + sh_mem (snd st)))"

lemma chunksD: "chunks h ids \<Longrightarrow> i < length ids \<Longrightarrow> \<exists>s. sh_cell h (ids ! i) = Some s \<and> chunk_ok ids i s"
  by (simp add: chunks_def)

lemma free_path_cong:
  "free_path h p fl \<Longrightarrow> (\<And>q. q \<in> set fl \<Longrightarrow> sh_cell h' q = sh_cell h q) \<Longrightarrow> free_path h' p fl"
  by (induction fl arbitrary: p) auto

lemma stack_invD:
  assumes "stack_inv e h ids fl cur"
  shows "\<exists>s. sh_cell h (ex_stack e) = Some s \<and> chunk_ok ids cur s"
    and "chunks h ids" "free_path h (sh_free h) fl" "distinct (ids @ fl)" "cur < length ids"
    and "ex_stack e = ids ! cur" "\<And>p. p \<in> set ids \<Longrightarrow> p < sh_brk h" "\<And>p. p \<in> set fl \<Longrightarrow> p < sh_brk h"
  using assms by (auto simp: stack_inv_def chunks_def)

text \<open>A further chunk for the last one of a stack: from the free list or from \<open>malloc\<close>.\<close>

lemma execute_get_stack_ok:
  assumes "free_path h (sh_free h) fl" "distinct fl" "\<And>p. p \<in> set fl \<Longrightarrow> p < sh_brk h"
    "fl \<noteq> [] \<or> 0 < sh_mem h"
  shows "\<exists>p h' fl' s. execute_get_stack h = Some (Some p, h')
    \<and> sh_cell h' = (sh_cell h)(p \<mapsto> s)
    \<and> sk_size s = STACKLEN \<and> sk_next s = None \<and> sk_prev s = None \<and> sk_my_offset s = 0
    \<and> free_path h' (sh_free h') fl' \<and> distinct (p # fl') \<and> (p \<in> set fl \<or> p = sh_brk h)
    \<and> set fl' \<subseteq> set fl \<and> p < sh_brk h' \<and> sh_brk h \<le> sh_brk h'
    \<and> Suc (length fl' + sh_mem h') = length fl + sh_mem h"
proof (cases fl)
  case (Cons p fl')
  then obtain s where s: "sh_free h = Some p" "sh_cell h p = Some s" "sk_size s = STACKLEN" "free_path h (sk_next s) fl'"
    using assms(1) by auto
  show ?thesis
    by (rule exI [where x = p], simp add: execute_get_stack_def s upd_chunk_def,
        rule exI [where x = fl'], rule exI, rule conjI, rule refl)
      (use Cons assms s in \<open>auto intro!: free_path_cong [of h]\<close>)
next
  case Nil
  then show ?thesis
    using assms by (auto simp: execute_get_stack_def intro!: exI [where x = "[]"])
qed

lemma chunks_upd:
  assumes "chunks h ids" "distinct ids" "i < length ids"
    "\<And>s. chunk_ok ids i s \<Longrightarrow> chunk_ok ids i (f s)"
  shows "\<exists>h'. upd_chunk (ids ! i) f h = Some h' \<and> chunks h' ids
    \<and> (\<exists>s. sh_cell h (ids ! i) = Some s \<and> h' = h\<lparr>sh_cell := (sh_cell h)(ids ! i \<mapsto> f s)\<rparr>)"
proof -
  obtain s where s: "sh_cell h (ids ! i) = Some s" "chunk_ok ids i s"
    using assms chunksD by blast
  show ?thesis
    using assms s by (auto simp: upd_chunk_def chunks_def nth_eq_iff_index_eq)
qed

text \<open>\<open>reaches\<close>: what a seek leaves of a stack, up to the chunk it stops at.\<close>

definition same_words :: "'w stack_heap \<Rightarrow> 'w stack_heap \<Rightarrow> nat list \<Rightarrow> bool" where
  "same_words h h' ids \<longleftrightarrow> (\<forall>p \<in> set ids. map_option sk_stack (sh_cell h' p) = map_option sk_stack (sh_cell h p))"

lemma words_at_same:
  assumes "words_at h ids xs" "same_words h h' (take n ids)" "length xs \<le> 4096 * n"
    "n \<le> length ids" "n \<le> length ids'" "take n ids' = take n ids"
  shows "words_at h' ids' xs"
  unfolding words_at_def
proof (intro allI impI)
  fix k assume k: "k < length xs"
  then have kn: "k div 4096 < n" using assms(3) by auto
  then have e: "ids' ! (k div 4096) = ids ! (k div 4096)" using assms(6) by (metis nth_take)
  have m: "ids ! (k div 4096) \<in> set (take n ids)"
    using assms(4) kn by (metis length_take min.absorb2 nth_mem nth_take)
  obtain s where s: "sh_cell h (ids ! (k div 4096)) = Some s" "sk_stack s (k mod 4096) = Some (xs ! k)"
    using assms(1) k by (auto simp: words_at_def)
  then have "map_option sk_stack (sh_cell h' (ids ! (k div 4096))) = Some (sk_stack s)"
    using assms(2) m by (simp add: same_words_def)
  then show "\<exists>s. sh_cell h' (ids' ! (k div 4096)) = Some s \<and> sk_stack s (k mod 4096) = Some (xs ! k)"
    using s e by auto
qed

lemma chunks_extend:
  assumes c: "chunks h ids" and d: "distinct (ids @ [p])" and ne: "ids \<noteq> []"
    and h': "sh_cell h' = (sh_cell h)(p \<mapsto> t, last ids \<mapsto> s\<lparr>sk_next := Some p\<rparr>)"
    and s: "sh_cell h (last ids) = Some s"
    and t: "sk_size t = STACKLEN" "sk_next t = None" "sk_my_offset t = int (length ids) * STACKLEN"
      "sk_prev t = Some (last ids)"
  shows "chunks h' (ids @ [p])"
  unfolding chunks_def
proof (intro allI impI)
  fix i assume i: "i < length (ids @ [p])"
  show "\<exists>s. sh_cell h' ((ids @ [p]) ! i) = Some s \<and> chunk_ok (ids @ [p]) i s"
  proof (cases "i = length ids")
    case True
    then show ?thesis
      using d ne t by (auto simp: h' chunk_ok_def nth_append last_conv_nth)
  next
    case False
    then have il: "i < length ids" using i by auto
    then obtain u where u: "sh_cell h (ids ! i) = Some u" "chunk_ok ids i u"
      using c chunksD by blast
    have ip: "ids ! i \<noteq> p" using d il by auto
    show ?thesis
    proof (cases "Suc i = length ids")
      case True
      then have "last ids = ids ! i" by (metis last_conv_nth ne diff_Suc_1)
      then show ?thesis
        using u s True il ip by (auto simp: h' nth_append chunk_ok_def)
    next
      case False
      then have "ids ! i \<noteq> last ids"
        using d il ne by (auto simp: last_conv_nth nth_eq_iff_index_eq)
      then show ?thesis
        using u False il ip by (auto simp: h' nth_append chunk_ok_def)
    qed
  qed
qed

text \<open>The chunk after the current one can be entered: it exists, or it is taken from the free ones.\<close>

abbreviation link_to :: "nat \<Rightarrow> nat \<Rightarrow> 'w stack_s \<Rightarrow> 'w stack_s" where
  "link_to cur p t \<equiv> t\<lparr>sk_my_offset := int (Suc cur) * STACKLEN, sk_prev := Some p\<rparr>"

definition enterable :: "execute_s \<Rightarrow> 'w stack_heap \<Rightarrow> nat list \<Rightarrow> nat list \<Rightarrow> nat \<Rightarrow> bool" where
  "enterable e h ids fl cur \<longleftrightarrow> (\<exists>n h1 h2 ids' fl'. next_chunk (ex_stack e) h = Some (Some n, h1)
    \<and> upd_chunk n (link_to cur (ex_stack e)) h1 = Some h2
    \<and> stack_inv (e\<lparr>ex_stack := n\<rparr>) h2 (ids @ ids') fl' (Suc cur) \<and> same_words h h2 ids
    \<and> length ids + length ids' + length fl' + sh_mem h2 = length ids + length fl + sh_mem h)"

lemma enterable_next:
  assumes inv: "stack_inv e h ids fl cur" and next_: "Suc cur < length ids"
  shows "enterable e h ids fl cur"
proof -
  note D = stack_invD [OF inv]
  let ?f = "link_to cur (ex_stack e)" and ?n = "ids ! Suc cur"
  obtain s where s: "sh_cell h (ex_stack e) = Some s" "chunk_ok ids cur s" using D(1) by blast
  obtain h2 t where h2: "upd_chunk ?n ?f h = Some h2" "chunks h2 ids"
      "sh_cell h ?n = Some t" "h2 = h\<lparr>sh_cell := (sh_cell h)(?n \<mapsto> ?f t)\<rparr>"
    using chunks_upd [OF D(2) _ next_, of ?f] D(4,6) by (auto simp: chunk_ok_def)
  have "?n \<notin> set fl" using D(4) nth_mem [OF next_] by auto
  then have "\<And>q. q \<in> set fl \<Longrightarrow> sh_cell h2 q = sh_cell h q" "sh_free h2 = sh_free h"
    using h2(4) by auto
  then have "free_path h2 (sh_free h2) fl"
    using free_path_cong [OF D(3), of h2] by metis
  then have "stack_inv (e\<lparr>ex_stack := ?n\<rparr>) h2 (ids @ []) fl (Suc cur)"
    using D h2 next_ by (auto simp: stack_inv_def)
  moreover have "same_words h h2 ids" "sh_mem h2 = sh_mem h"
    using h2 by (auto simp: same_words_def)
  moreover have "next_chunk (ex_stack e) h = Some (Some ?n, h)"
    using s next_ by (simp add: next_chunk_def chunk_ok_def)
  ultimately show ?thesis
    unfolding enterable_def using h2(1) by (metis list.size(3) add.right_neutral)
qed

lemma enterable_new:
  assumes inv: "stack_inv e h ids fl cur" and last: "Suc cur = length ids" and room: "fl \<noteq> [] \<or> 0 < sh_mem h"
  shows "enterable e h ids fl cur"
proof -
  note D = stack_invD [OF inv]
  obtain s where s: "sh_cell h (ex_stack e) = Some s" "chunk_ok ids cur s" using D(1) by blast
  have ne: "ids \<noteq> []" using D(5) by auto
  have "length ids - 1 = cur" using last by simp
  with ne D(6) have le: "last ids = ex_stack e" "ids \<noteq> []"
    by (simp_all add: last_conv_nth)
  have df: "distinct fl" using D(4) by simp
  obtain p h1 fl' t where g: "execute_get_stack h = Some (Some p, h1)" "sh_cell h1 = (sh_cell h)(p \<mapsto> t)"
      "sk_size t = STACKLEN" "sk_next t = None" "free_path h1 (sh_free h1) fl'" "distinct (p # fl')"
      "p \<in> set fl \<or> p = sh_brk h" "set fl' \<subseteq> set fl" "p < sh_brk h1" "sh_brk h \<le> sh_brk h1"
      "Suc (length fl' + sh_mem h1) = length fl + sh_mem h"
    using execute_get_stack_ok [OF D(3) df D(8) room] by blast
  have pi: "p \<notin> set ids" using g(7) D(4,7) by auto
  then have pe: "p \<noteq> ex_stack e" using le by (metis last_in_set)
  have ei: "ex_stack e \<notin> set fl'" using D(4) g(8) le last_in_set [of ids] by auto
  let ?h1 = "h1\<lparr>sh_cell := (sh_cell h1)(ex_stack e \<mapsto> s\<lparr>sk_next := Some p\<rparr>)\<rparr>"
  let ?h2 = "h1\<lparr>sh_cell := (sh_cell h)(p \<mapsto> link_to cur (ex_stack e) t, ex_stack e \<mapsto> s\<lparr>sk_next := Some p\<rparr>)\<rparr>"
  have "next_chunk (ex_stack e) h = Some (Some p, ?h1)"
    using s last g(1,2) pe by (simp add: next_chunk_def chunk_ok_def upd_chunk_def)
  moreover have "upd_chunk p (link_to cur (ex_stack e)) ?h1 = Some ?h2"
    using g(2) pe by (simp add: upd_chunk_def fun_upd_twist)
  moreover have "stack_inv (e\<lparr>ex_stack := p\<rparr>) ?h2 (ids @ [p]) fl' (Suc cur)"
  proof -
    have "chunks ?h2 (ids @ [p])"
      by (rule chunks_extend [OF D(2), where t = "link_to cur (ex_stack e) t" and s = s])
        (use D(4) pi le g(3,4) s last in auto)
    moreover have "free_path ?h2 (sh_free ?h2) fl'"
      by (rule free_path_cong [of h1]) (use g(2,5,6) ei in auto)
    moreover have "distinct ((ids @ [p]) @ fl')" using D(4) g(6,8) pi by auto
    moreover have "\<forall>q \<in> set (ids @ [p]) \<union> set fl'. q < sh_brk h1"
      using D(7,8) g(8-10) by (auto intro: less_le_trans)
    ultimately show ?thesis
      using last by (simp add: stack_inv_def nth_append del: fun_upd_apply)
  qed
  moreover have "same_words h ?h2 ids"
    using s pi pe by (auto simp: same_words_def)
  moreover have "length ids + length [p] + length fl' + sh_mem ?h2 = length ids + length fl + sh_mem h"
    using g(11) by simp
  ultimately show ?thesis
    unfolding enterable_def by blast
qed

lemma push_advance:
  assumes "stack_inv e h ids fl cur" "Suc cur < length ids \<or> fl \<noteq> [] \<or> 0 < sh_mem h"
  shows "enterable e h ids fl cur"
  using enterable_next [OF assms(1)] enterable_new [OF assms(1)] assms(2) stack_invD(5) [OF assms(1)]
  by (cases "Suc cur < length ids") auto

definition stack_repr ::
  "execute_s \<Rightarrow> 'w stack_heap \<Rightarrow> nat \<Rightarrow> 'w list \<Rightarrow> nat list \<Rightarrow> nat list \<Rightarrow> nat \<Rightarrow> bool" where
  "stack_repr e h room xs ids fl cur \<longleftrightarrow> stack_inv e h ids fl cur
     \<and> ex_pos e = int (length xs) \<and> \<not> ex_keep_stack e
     \<and> 4096 * cur \<le> length xs \<and> length xs \<le> 4096 * Suc cur \<and> words_at h ids xs
     \<and> length xs + room \<le> 4096 * (length ids + length fl + sh_mem h)"

lemma stack_rel_repr: "stack_rel (e, h) room xs \<longleftrightarrow> (\<exists>ids fl cur. stack_repr e h room xs ids fl cur)"
  by (simp add: stack_rel_def stack_repr_def)

lemma push_seek_here:
  assumes "sh_cell h (ex_stack e) = Some s" "ex_pos e < sk_my_offset s + sk_size s"
  shows "push_seek e h = Some (True, e, h)"
  using assms by (subst push_seek.simps) (simp add: not_le [symmetric])

lemma push_seek_repr:
  assumes "stack_repr e h (Suc room) xs ids fl cur"
  shows "\<exists>p h' ids' fl' cur'. push_seek e h = Some (True, e\<lparr>ex_stack := p\<rparr>, h')
    \<and> stack_repr (e\<lparr>ex_stack := p\<rparr>) h' (Suc room) xs ids' fl' cur' \<and> length xs < 4096 * Suc cur'"
proof -
  note R = assms [unfolded stack_repr_def]
  note D = stack_invD [OF R [THEN conjunct1]]
  obtain s where s: "sh_cell h (ex_stack e) = Some s" "chunk_ok ids cur s" using D(1) by blast
  have lim: "sk_my_offset s + sk_size s = int (4096 * Suc cur)"
    using s by (simp add: chunk_ok_def STACKLEN_def)
  show ?thesis
  proof (cases "length xs < 4096 * Suc cur")
    case True
    then have "push_seek e h = Some (True, e\<lparr>ex_stack := ex_stack e\<rparr>, h)"
      using push_seek_here [OF s(1)] lim R by simp
    then show ?thesis using True assms by fastforce
  next
    case False
    then have full: "length xs = 4096 * Suc cur" using R by simp
    have room: "Suc cur < length ids \<or> fl \<noteq> [] \<or> 0 < sh_mem h"
    proof (rule ccontr)
      assume "\<not> ?thesis"
      then have "length ids + length fl + sh_mem h \<le> Suc cur" by auto
      then have "4096 * (length ids + length fl + sh_mem h) \<le> 4096 * Suc cur" by simp
      then show False using R full by simp
    qed
    obtain n h1 h2 ids' fl' where n: "next_chunk (ex_stack e) h = Some (Some n, h1)"
        "upd_chunk n (link_to cur (ex_stack e)) h1 = Some h2"
        "stack_inv (e\<lparr>ex_stack := n\<rparr>) h2 (ids @ ids') fl' (Suc cur)" "same_words h h2 ids"
        "length ids + length ids' + length fl' + sh_mem h2 = length ids + length fl + sh_mem h"
      using push_advance [OF R [THEN conjunct1] room] unfolding enterable_def by blast
    obtain t where t: "sh_cell h2 n = Some t" "chunk_ok (ids @ ids') (Suc cur) t"
      using stack_invD(1) [OF n(3)] by auto
    have off: "sk_my_offset s + sk_size s = int (Suc cur) * STACKLEN" using lim by (simp add: STACKLEN_def)
    have "push_seek (e\<lparr>ex_stack := n\<rparr>) h2 = Some (True, e\<lparr>ex_stack := n\<rparr>, h2)"
      by (rule push_seek_here [of _ _ t]) (use t R full in \<open>simp_all add: chunk_ok_def STACKLEN_def\<close>)
    then have "push_seek e h = Some (True, e\<lparr>ex_stack := n\<rparr>, h2)"
      using s n(1,2) R full off by (subst push_seek.simps) (simp add: STACKLEN_def)
    moreover have "words_at h2 (ids @ ids') xs"
      by (rule words_at_same [of h ids _ _ "Suc cur"]) (use R n full D(5) in \<open>auto simp: same_words_def dest: in_set_takeD\<close>)
    ultimately show ?thesis
      using n R full unfolding stack_repr_def
      by (intro exI [where x = n] exI [where x = h2] exI [where x = "ids @ ids'"] exI [where x = fl'] exI [where x = "Suc cur"]) auto
  qed
qed

lemma words_at_write:
  assumes "words_at h ids xs" "sh_cell h (ids ! (length xs div 4096)) = Some s" "distinct ids"
    "length xs div 4096 < length ids"
  shows "words_at (h\<lparr>sh_cell := (sh_cell h)(ids ! (length xs div 4096) \<mapsto>
      s\<lparr>sk_stack := (sk_stack s)(length xs mod 4096 \<mapsto> w)\<rparr>)\<rparr>) ids (xs @ [w])"
  unfolding words_at_def
proof (intro allI impI)
  fix k assume k: "k < length (xs @ [w])"
  let ?h = "h\<lparr>sh_cell := (sh_cell h)(ids ! (length xs div 4096) \<mapsto>
      s\<lparr>sk_stack := (sk_stack s)(length xs mod 4096 \<mapsto> w)\<rparr>)\<rparr>"
  show "\<exists>s. sh_cell ?h (ids ! (k div 4096)) = Some s \<and> sk_stack s (k mod 4096) = Some ((xs @ [w]) ! k)"
  proof (cases "k = length xs")
    case False
    then have kl: "k < length xs" using k by simp
    then obtain u where u: "sh_cell h (ids ! (k div 4096)) = Some u" "sk_stack u (k mod 4096) = Some (xs ! k)"
      using assms(1) by (auto simp: words_at_def)
    have d: "k div 4096 \<le> length xs div 4096" using kl by (simp add: div_le_mono)
    then have "ids ! (k div 4096) = ids ! (length xs div 4096) \<longleftrightarrow> k div 4096 = length xs div 4096"
      using assms(3,4) by (auto simp: nth_eq_iff_index_eq)
    moreover have "k div 4096 = length xs div 4096 \<Longrightarrow> k mod 4096 \<noteq> length xs mod 4096"
      using kl by (metis div_mult_mod_eq less_irrefl)
    ultimately show ?thesis
      using u kl assms(2) by (auto simp: nth_append)
  qed simp
qed

lemma chunks_write:
  assumes "chunks h ids" "distinct ids" "i < length ids" "sh_cell h (ids ! i) = Some s"
  shows "chunks (h\<lparr>sh_cell := (sh_cell h)(ids ! i \<mapsto> s\<lparr>sk_stack := f\<rparr>)\<rparr>) ids"
  using chunks_upd [OF assms(1-3), of "\<lambda>s. s\<lparr>sk_stack := f\<rparr>"] assms(4)
  by (auto simp: chunk_ok_def)

lemma execute_push_repr:
  assumes "stack_repr e h (Suc room) xs ids fl cur"
  shows "\<exists>p h'. execute_push w e h = Some (e\<lparr>ex_stack := p, ex_pos := ex_pos e + 1\<rparr>, h')
    \<and> stack_rel (e\<lparr>ex_stack := p, ex_pos := ex_pos e + 1\<rparr>, h') room (xs @ [w])"
proof -
  obtain p h1 ids cur fl where sk: "push_seek e h = Some (True, e\<lparr>ex_stack := p\<rparr>, h1)"
      "stack_repr (e\<lparr>ex_stack := p\<rparr>) h1 (Suc room) xs ids fl cur" "length xs < 4096 * Suc cur"
    using push_seek_repr [OF assms] by blast
  note R = sk(2) [unfolded stack_repr_def]
  note D = stack_invD [OF R [THEN conjunct1]]
  obtain s where s: "sh_cell h1 p = Some s" "chunk_ok ids cur s" using D(1) by auto
  have p: "p = ids ! cur" using D(6) by simp
  have cur: "length xs div 4096 = cur" using R sk(3) by (intro div_nat_eqI) auto
  then have "length xs = 4096 * cur + length xs mod 4096" by (metis mult_div_mod_eq)
  then have md: "ex_pos e - sk_my_offset s = int (length xs mod 4096)"
    using R s(2) by (simp add: chunk_ok_def STACKLEN_def)
  let ?s = "s\<lparr>sk_stack := (sk_stack s)(length xs mod 4096 \<mapsto> w)\<rparr>"
  let ?h = "h1\<lparr>sh_cell := (sh_cell h1)(p \<mapsto> ?s)\<rparr>"
  have "chunk_write (ex_pos e - sk_my_offset s) w s = Some ?s"
    unfolding chunk_write_def md using s(2) by (simp add: chunk_ok_def STACKLEN_def)
  then have "execute_push w e h = Some (e\<lparr>ex_stack := p, ex_pos := ex_pos e + 1\<rparr>, ?h)"
    using sk(1) s(1) by (simp add: execute_push_def)
  moreover have "stack_repr (e\<lparr>ex_stack := p, ex_pos := ex_pos e + 1\<rparr>) ?h room (xs @ [w]) ids fl cur"
  proof -
    have "free_path ?h (sh_free ?h) fl"
      by (rule free_path_cong [of h1]) (use D(3,4) nth_mem [OF D(5)] p in auto)
    moreover have "chunks ?h ids" using chunks_write [of h1 ids cur s] D p s by auto
    moreover have "words_at ?h ids (xs @ [w])"
      using words_at_write [of h1 ids xs s w] R D cur p s by auto
    ultimately show ?thesis
      using R D sk(3) p by (auto simp: stack_repr_def stack_inv_def)
  qed
  ultimately show ?thesis
    unfolding stack_rel_repr by blast
qed

text \<open>Popping: the chunk that has become empty is put back.\<close>

lemma pop_seek_here:
  assumes "sh_cell h (ex_stack e) = Some s" "sk_my_offset s < ex_pos e"
  shows "pop_seek e h = Some (e, h)"
  using assms by (subst pop_seek.simps) (simp add: not_le [symmetric])

lemma chunks_butlast:
  assumes c: "chunks h ids" and d: "distinct ids" and l: "Suc i < length ids" "Suc (Suc i) = length ids"
    and h': "sh_cell h' = (sh_cell h)(ids ! Suc i := t, ids ! i \<mapsto> s\<lparr>sk_next := None\<rparr>)"
    and s: "sh_cell h (ids ! i) = Some s"
  shows "chunks h' (take (Suc i) ids)"
  unfolding chunks_def
proof (intro allI impI)
  fix j assume j: "j < length (take (Suc i) ids)"
  then obtain u where u: "sh_cell h (ids ! j) = Some u" "chunk_ok ids j u"
    using c chunksD by fastforce
  have "ids ! j \<noteq> ids ! Suc i" "ids ! j = ids ! i \<longleftrightarrow> j = i"
    using d j l by (auto simp: nth_eq_iff_index_eq)
  then show "\<exists>s. sh_cell h' (take (Suc i) ids ! j) = Some s \<and> chunk_ok (take (Suc i) ids) j s"
    using u j l s by (cases "j = i") (auto simp: h' chunk_ok_def)
qed

text \<open>Going back one chunk, which frees the chunk when no other one follows.\<close>

lemma pop_seek_back:
  assumes inv: "stack_inv e h ids fl (Suc i)" and k: "\<not> ex_keep_stack e"
    and s: "sh_cell h (ex_stack e) = Some s" and pos: "ex_pos e \<le> sk_my_offset s"
  shows "\<exists>h' ids' fl'. pop_seek e h = pop_seek (e\<lparr>ex_stack := ids ! i\<rparr>) h'
    \<and> stack_inv (e\<lparr>ex_stack := ids ! i\<rparr>) h' ids' fl' i \<and> same_words h h' ids \<and> take (Suc i) ids' = take (Suc i) ids
    \<and> length ids' + length fl' = length ids + length fl \<and> sh_mem h' = sh_mem h"
proof -
  note D = stack_invD [OF inv]
  have so: "chunk_ok ids (Suc i) s" using D(1) s by auto
  have prev: "sk_prev s = Some (ids ! i)" using so by (simp add: chunk_ok_def)
  show ?thesis
  proof (cases "sk_next s")
    case (Some n)
    have "pop_seek e h = pop_seek (e\<lparr>ex_stack := ids ! i\<rparr>) h"
      by (subst pop_seek.simps) (use s pos prev Some in simp)
    then show ?thesis
      using D by (intro exI [where x = h] exI [where x = ids] exI [where x = fl])
        (auto simp: stack_inv_def same_words_def)
  next
    case None
    then have last: "Suc (Suc i) = length ids" using so D(5) by (auto simp: chunk_ok_def split: if_splits)
    obtain sp where sp: "sh_cell h (ids ! i) = Some sp" "chunk_ok ids i sp"
      using chunksD [OF D(2), of i] D(5) by auto
    have ne: "ids ! i \<noteq> ids ! Suc i" using D(4,5) by (auto simp: nth_eq_iff_index_eq)
    have m: "ids ! Suc i \<in> set ids" "ids ! i \<in> set ids" using D(5) by simp_all
    then have "ids ! Suc i \<notin> set fl" "ids ! i \<notin> set fl" using D(4) by auto
    moreover have "ids ! Suc i \<notin> set (take (Suc i) ids)"
      using D(4,5) last by (auto simp: in_set_conv_nth nth_eq_iff_index_eq)
    ultimately have q: "ids ! Suc i \<notin> set fl" "ids ! i \<notin> set fl" "ids ! Suc i \<notin> set (take (Suc i) ids)"
      by blast+
    let ?h = "h\<lparr>sh_free := Some (ids ! Suc i),
        sh_cell := (sh_cell h)(ids ! Suc i \<mapsto> s\<lparr>sk_next := sh_free h\<rparr>, ids ! i \<mapsto> sp\<lparr>sk_next := None\<rparr>)\<rparr>"
    have "pop_seek e h = pop_seek (e\<lparr>ex_stack := ids ! i\<rparr>) ?h"
      by (subst pop_seek.simps)
        (use s pos prev None sp D(5,6) ne k in \<open>simp add: chunk_ok_def execute_put_stack_def upd_chunk_def\<close>)
    moreover have "chunks ?h (take (Suc i) ids)"
      by (rule chunks_butlast [OF D(2) _ D(5) last, where s = sp]) (use D(4) sp in auto)
    moreover have "free_path ?h (sh_free h) fl"
      by (rule free_path_cong [OF D(3)]) (use q in auto)
    then have "free_path ?h (sh_free ?h) (ids ! Suc i # fl)"
      using so ne by (auto simp: chunk_ok_def)
    moreover have "distinct (take (Suc i) ids @ ids ! Suc i # fl)"
      using D(4) q by (auto dest: in_set_takeD)
    moreover have "same_words h ?h ids"
      using s sp D(6) by (auto simp: same_words_def)
    ultimately show ?thesis
      using D last nth_mem [OF D(5)]
      by (intro exI [where x = ?h] exI [where x = "take (Suc i) ids"] exI [where x = "ids ! Suc i # fl"])
        (auto simp: stack_inv_def dest: in_set_takeD)
  qed
qed

lemma pop_seek_repr:
  assumes R: "stack_repr e h room xs ids fl cur" and ne: "xs \<noteq> []"
  shows "\<exists>p h' ids' fl' cur'. pop_seek e h = Some (e\<lparr>ex_stack := p\<rparr>, h')
    \<and> stack_repr (e\<lparr>ex_stack := p\<rparr>) h' room xs ids' fl' cur' \<and> 4096 * cur' < length xs"
proof -
  note R' = R [unfolded stack_repr_def]
  note D = stack_invD [OF R' [THEN conjunct1]]
  obtain s where s: "sh_cell h (ex_stack e) = Some s" "chunk_ok ids cur s" using D(1) by blast
  show ?thesis
  proof (cases "4096 * cur < length xs")
    case True
    then have "pop_seek e h = Some (e\<lparr>ex_stack := ex_stack e\<rparr>, h)"
      using pop_seek_here [OF s(1)] s(2) R' by (simp add: chunk_ok_def STACKLEN_def)
    then show ?thesis using True R by fastforce
  next
    case False
    then have len: "length xs = 4096 * cur" using R' by simp
    then obtain i where i: "cur = Suc i" using ne by (cases cur) auto
    have inv: "stack_inv e h ids fl (Suc i)" using R' i by simp
    have pos: "ex_pos e \<le> sk_my_offset s" using s(2) R' len by (simp add: chunk_ok_def STACKLEN_def)
    obtain h' ids' fl' where b: "pop_seek e h = pop_seek (e\<lparr>ex_stack := ids ! i\<rparr>) h'"
        "stack_inv (e\<lparr>ex_stack := ids ! i\<rparr>) h' ids' fl' i" "same_words h h' ids" "take (Suc i) ids' = take (Suc i) ids"
        "length ids' + length fl' = length ids + length fl" "sh_mem h' = sh_mem h"
      using pop_seek_back [OF inv _ s(1) pos] R' by blast
    obtain t where t: "sh_cell h' (ids ! i) = Some t" "chunk_ok ids' i t"
      using stack_invD(1) [OF b(2)] by auto
    have "pop_seek (e\<lparr>ex_stack := ids ! i\<rparr>) h' = Some (e\<lparr>ex_stack := ids ! i\<rparr>, h')"
      by (rule pop_seek_here) (use t R' len i in \<open>auto simp: chunk_ok_def STACKLEN_def\<close>)
    moreover have "words_at h' ids' xs"
      by (rule words_at_same [of h ids _ _ "Suc i"])
        (use R' b(3,4) len i D(5) stack_invD(5) [OF b(2)] in \<open>auto simp: same_words_def dest: in_set_takeD\<close>)
    ultimately show ?thesis
      using b R' len i unfolding stack_repr_def
      by (intro exI [where x = "ids ! i"] exI [where x = h'] exI [where x = ids'] exI [where x = fl'] exI [where x = i]) auto
  qed
qed

lemma execute_pop_repr:
  assumes "stack_repr e h room (xs @ [w]) ids fl cur"
  shows "\<exists>p h'. execute_pop zero e h = Some (w, e\<lparr>ex_stack := p, ex_pos := ex_pos e - 1\<rparr>, h')
    \<and> stack_rel (e\<lparr>ex_stack := p, ex_pos := ex_pos e - 1\<rparr>, h') (Suc room) xs"
proof -
  obtain p h1 ids cur fl where sk: "pop_seek e h = Some (e\<lparr>ex_stack := p\<rparr>, h1)"
      "stack_repr (e\<lparr>ex_stack := p\<rparr>) h1 room (xs @ [w]) ids fl cur" "4096 * cur < length (xs @ [w])"
    using pop_seek_repr [OF assms] by blast
  note R = sk(2) [unfolded stack_repr_def]
  obtain s where s: "sh_cell h1 p = Some s" "chunk_ok ids cur s" "p = ids ! cur"
    using stack_invD(1,6) [OF R [THEN conjunct1]] by auto
  have cur: "length xs div 4096 = cur" using R sk(3) by (intro div_nat_eqI) auto
  then have "length xs = 4096 * cur + length xs mod 4096" by (metis mult_div_mod_eq)
  then have md: "ex_pos e - 1 - sk_my_offset s = int (length xs mod 4096)"
    using R s(2) by (simp add: chunk_ok_def STACKLEN_def)
  have "words_at h1 ids (xs @ [w])" using R by simp
  then have "sk_stack s (length xs mod 4096) = Some w"
    using s cur unfolding words_at_def by (auto dest: spec [where x = "length xs"])
  then have "chunk_read (ex_pos e - 1 - sk_my_offset s) s = Some w"
    unfolding chunk_read_def md using s(2) by (simp add: chunk_ok_def STACKLEN_def)
  then have "execute_pop zero e h = Some (w, e\<lparr>ex_stack := p, ex_pos := ex_pos e - 1\<rparr>, h1)"
    using R sk(1) s(1) by (simp add: execute_pop_def)
  moreover have "words_at h1 ids xs"
    using R unfolding words_at_def by (metis length_append_singleton less_Suc_eq nth_append)
  then have "stack_repr (e\<lparr>ex_stack := p, ex_pos := ex_pos e - 1\<rparr>) h1 (Suc room) xs ids fl cur"
    using R sk(3) unfolding stack_repr_def stack_inv_def by auto
  ultimately show ?thesis
    unfolding stack_rel_repr by blast
qed

lemma execute_push_law:
  "stack_rel st (Suc room) xs \<Longrightarrow> \<exists>st'. execute_push w (fst st) (snd st) = Some st' \<and> stack_rel st' room (xs @ [w])"
  using execute_push_repr [of "fst st" "snd st"] by (cases st) (fastforce simp: stack_rel_repr)

lemma execute_pop_law:
  "stack_rel st room (xs @ [w]) \<Longrightarrow> \<exists>st'. execute_pop zero (fst st) (snd st) = Some (w, st') \<and> stack_rel st' (Suc room) xs"
  using execute_pop_repr [of "fst st" "snd st"] by (cases st) (fastforce simp: stack_rel_repr)

text \<open>Reading below the top. The backward search wants a chunk that begins strictly below the position.\<close>

lemma seek_back_repr:
  assumes "chunks h ids" "i < length ids" "0 < k"
  shows "\<exists>j < length ids. seek_back h (int k) (ids ! i) = Some (ids ! j) \<and> 4096 * j < k"
  using assms(2)
proof (induction i)
  case 0
  obtain s where s: "sh_cell h (ids ! 0) = Some s" "chunk_ok ids 0 s" using chunksD [OF assms(1) 0] by blast
  show ?case
    by (subst seek_back.simps) (use s 0 assms(3) in \<open>auto simp: chunk_ok_def intro!: exI [where x = 0]\<close>)
next
  case (Suc i)
  obtain s where s: "sh_cell h (ids ! Suc i) = Some s" "chunk_ok ids (Suc i) s"
    using chunksD [OF assms(1) Suc.prems] by blast
  show ?case
  proof (cases "4096 * Suc i < k")
    case True
    then show ?thesis
      by (subst seek_back.simps)
        (use s Suc.prems in \<open>auto simp: chunk_ok_def STACKLEN_def intro!: exI [where x = "Suc i"]\<close>)
  next
    case False
    then have "seek_back h (int k) (ids ! Suc i) = seek_back h (int k) (ids ! i)"
      by (subst seek_back.simps) (use s in \<open>auto simp: chunk_ok_def STACKLEN_def\<close>)
    then show ?thesis using Suc by auto
  qed
qed

lemma seek_forward_repr:
  assumes "chunks h ids" "j \<le> k div 4096" "k div 4096 < length ids"
  shows "seek_forward h (int k) (ids ! j) = Some (Some (ids ! (k div 4096)))"
  using assms(2)
proof (induction "k div 4096 - j" arbitrary: j)
  case 0
  then have j: "j = k div 4096" by simp
  obtain s where s: "sh_cell h (ids ! j) = Some s" "chunk_ok ids j s" using chunksD [OF assms(1)] j assms(3) by blast
  have "\<not> 4096 * Suc j \<le> k" unfolding j by (metis Suc_eq_plus1 add.commute dividend_less_times_div not_le mult_Suc_right zero_less_numeral)
  then show ?case
    by (subst seek_forward.simps) (use s j in \<open>auto simp: chunk_ok_def STACKLEN_def\<close>)
next
  case (Suc n)
  then have j: "Suc j \<le> k div 4096" "n = k div 4096 - Suc j" by auto
  obtain s where s: "sh_cell h (ids ! j) = Some s" "chunk_ok ids j s"
    using chunksD [OF assms(1), of j] j assms(3) by fastforce
  have "4096 * Suc j \<le> k" using j(1) by (metis dual_order.trans mult_le_mono2 times_div_less_eq_dividend)
  then have "seek_forward h (int k) (ids ! j) = seek_forward h (int k) (ids ! Suc j)"
    by (subst seek_forward.simps) (use s j assms(3) in \<open>auto simp: chunk_ok_def STACKLEN_def\<close>)
  then show ?case using Suc.hyps(1) [OF j(2)] j by simp
qed

lemma seek_repr:
  assumes "chunks h ids" "i < length ids" "0 < k" "k div 4096 < length ids"
  shows "\<exists>p. seek_back h (int k) (ids ! i) = Some p \<and> seek_forward h (int k) p = Some (Some (ids ! (k div 4096)))"
proof -
  obtain j where j: "j < length ids" "seek_back h (int k) (ids ! i) = Some (ids ! j)" "4096 * j < k"
    using seek_back_repr [OF assms(1-3)] by blast
  have "j \<le> k div 4096" using j(3) by (metis div_le_mono less_imp_le nonzero_mult_div_cancel_left zero_neq_numeral)
  then show ?thesis using seek_forward_repr [OF assms(1) _ assms(4)] j(2) by blast
qed

lemma execute_readstack_law:
  assumes "stack_rel st room xs" "0 < k" "k < length xs"
  shows "execute_readstack zero (fst st) (int k) (snd st) = Some (xs ! k)"
proof -
  obtain e h where st: "st = (e, h)" by (cases st)
  obtain ids fl cur where R: "stack_repr e h room xs ids fl cur"
    using assms(1) st stack_rel_repr by blast
  note R' = R [unfolded stack_repr_def]
  note D = stack_invD [OF R' [THEN conjunct1]]
  have kd: "k div 4096 < length ids" using R' D(5) assms(3) by auto
  obtain p where p: "seek_back h (int k) (ex_stack e) = Some p" "seek_forward h (int k) p = Some (Some (ids ! (k div 4096)))"
    using seek_repr [OF D(2,5) assms(2) kd] D(6) by auto
  obtain s where s: "sh_cell h (ids ! (k div 4096)) = Some s" "chunk_ok ids (k div 4096) s"
    using chunksD [OF D(2) kd] by blast
  have w: "sk_stack s (k mod 4096) = Some (xs ! k)" using R' s(1) assms(3) by (auto simp: words_at_def)
  have "int k - sk_my_offset s = int (k mod 4096)"
    using s(2) by (simp add: chunk_ok_def STACKLEN_def) (metis minus_mult_div_eq_mod mult.commute of_nat_numeral zmod_int zdiv_int)
  then have "chunk_read (int k - sk_my_offset s) s = Some (xs ! k)"
    using w s(2) by (simp add: chunk_read_def chunk_ok_def STACKLEN_def)
  then show ?thesis using p s(1) by (simp add: execute_readstack_def st)
qed

text \<open>A pointer to a word of the stack: writing through it replaces the word.\<close>

lemma words_at_update:
  assumes "words_at h ids xs" "sh_cell h (ids ! (k div 4096)) = Some s" "distinct ids" "k < length xs"
    "length xs \<le> 4096 * length ids"
  shows "words_at (h\<lparr>sh_cell := (sh_cell h)(ids ! (k div 4096) \<mapsto> s\<lparr>sk_stack := (sk_stack s)(k mod 4096 \<mapsto> w)\<rparr>)\<rparr>) ids (xs[k := w])"
  unfolding words_at_def
proof (intro allI impI)
  fix j assume j: "j < length (xs[k := w])"
  let ?h = "h\<lparr>sh_cell := (sh_cell h)(ids ! (k div 4096) \<mapsto> s\<lparr>sk_stack := (sk_stack s)(k mod 4096 \<mapsto> w)\<rparr>)\<rparr>"
  obtain t where t: "sh_cell h (ids ! (j div 4096)) = Some t" "sk_stack t (j mod 4096) = Some (xs ! j)"
    using assms(1) j by (auto simp: words_at_def)
  have l: "j div 4096 < length ids" "k div 4096 < length ids" using assms(4,5) j by (auto simp: less_mult_imp_div_less)
  show "\<exists>t. sh_cell ?h (ids ! (j div 4096)) = Some t \<and> sk_stack t (j mod 4096) = Some (xs[k := w] ! j)"
  proof (cases "j div 4096 = k div 4096")
    case True
    then have "j mod 4096 = k mod 4096 \<longleftrightarrow> j = k" by (metis div_mult_mod_eq)
    then show ?thesis using t True assms(2,4) by auto
  next
    case False
    then have "ids ! (j div 4096) \<noteq> ids ! (k div 4096)" "j \<noteq> k" using l assms(3) nth_eq_iff_index_eq by blast+
    then show ?thesis using t by auto
  qed
qed

lemma stack_slot_law:
  assumes "stack_rel (e, h) room xs" "0 < k" "k < length xs"
  shows "\<exists>q i c. execute_stack_pointer e (int k) h = Some (Some (q, i)) \<and> sh_cell h q = Some c \<and> chunk_read i c = Some (xs ! k)
    \<and> (\<forall>w. \<exists>c'. chunk_write i w c = Some c' \<and> stack_rel (e, h\<lparr>sh_cell := (sh_cell h)(q \<mapsto> c')\<rparr>) room (xs[k := w]))"
proof -
  obtain ids fl cur where R: "stack_repr e h room xs ids fl cur" using assms(1) stack_rel_repr by blast
  note R' = R [unfolded stack_repr_def]
  note D = stack_invD [OF R' [THEN conjunct1]]
  have "length xs \<le> 4096 * Suc cur" using R' by simp
  also have "4096 * Suc cur \<le> 4096 * length ids" using D(5) by (intro mult_le_mono2) simp
  finally have len: "length xs \<le> 4096 * length ids" .
  have kd: "k div 4096 < length ids" using assms(3) len by (auto simp: less_mult_imp_div_less)
  obtain p where p: "seek_back h (int k) (ids ! cur) = Some p" "seek_forward h (int k) p = Some (Some (ids ! (k div 4096)))"
    using seek_repr [OF D(2) D(5) assms(2) kd] by blast
  obtain c where c: "sh_cell h (ids ! (k div 4096)) = Some c" "chunk_ok ids (k div 4096) c" using chunksD [OF D(2) kd] by blast
  have "int k = int (4096 * (k div 4096) + k mod 4096)" by (simp only: mult_div_mod_eq)
  then have "int k - int (k div 4096) * 4096 = int (k mod 4096)" unfolding of_nat_add of_nat_mult by linarith
  then have off: "int k - sk_my_offset c = int (k mod 4096)" using c(2) unfolding chunk_ok_def STACKLEN_def by simp
  have ptr: "execute_stack_pointer e (int k) h = Some (Some (ids ! (k div 4096), int (k mod 4096)))"
    using p c(1) off D(6) by (simp add: execute_stack_pointer_def)
  have word: "sk_stack c (k mod 4096) = Some (xs ! k)" using R' c(1) assms(3) unfolding words_at_def by auto
  then have read: "chunk_read (int (k mod 4096)) c = Some (xs ! k)" using c(2) by (simp add: chunk_read_def chunk_ok_def STACKLEN_def)
  have wr: "\<exists>c'. chunk_write (int (k mod 4096)) w c = Some c'
      \<and> stack_rel (e, h\<lparr>sh_cell := (sh_cell h)(ids ! (k div 4096) \<mapsto> c')\<rparr>) room (xs[k := w])" for w
  proof -
    let ?c = "c\<lparr>sk_stack := (sk_stack c)(k mod 4096 \<mapsto> w)\<rparr>"
    let ?h = "h\<lparr>sh_cell := (sh_cell h)(ids ! (k div 4096) \<mapsto> ?c)\<rparr>"
    have "chunk_write (int (k mod 4096)) w c = Some ?c" using c(2) by (simp add: chunk_write_def chunk_ok_def STACKLEN_def)
    moreover have "stack_repr e ?h room (xs[k := w]) ids fl cur"
    proof -
      have "free_path ?h (sh_free ?h) fl" by (rule free_path_cong [of h]) (use D(3,4) nth_mem [OF kd] in auto)
      moreover have "chunks ?h ids" using chunks_write [of h ids "k div 4096" c] D kd c by auto
      moreover have "words_at ?h ids (xs[k := w])" using words_at_update [of h ids xs k c w] R' c(1) D(4) assms(3) len by auto
      ultimately show ?thesis using R' D by (auto simp: stack_repr_def stack_inv_def)
    qed
    ultimately show ?thesis unfolding stack_rel_repr by blast
  qed
  show ?thesis using ptr c(1) read wr by blast
qed

lemma seek_back_bottom:
  assumes "chunks h ids" "i < length ids"
  shows "seek_back h 0 (ids ! i) = None"
  using assms(2)
proof (induction i)
  case 0
  then show ?case
    using chunksD [OF assms(1) 0] by (subst seek_back.simps) (auto simp: chunk_ok_def)
next
  case (Suc i)
  then show ?case
    using chunksD [OF assms(1) Suc.prems] by (subst seek_back.simps) (auto simp: chunk_ok_def STACKLEN_def)
qed

lemma execute_pop_empty: "stack_rel st room [] \<Longrightarrow> execute_pop zero (fst st) (snd st) = Some (zero, st)"
  by (cases st) (auto simp: stack_rel_def execute_pop_def)

text \<open>The stack of a new buffer, whose position is 0.\<close>

lemma new_stack_rel:
  assumes "free_path h (sh_free h) fl" "distinct fl" "\<And>p. p \<in> set fl \<Longrightarrow> p < sh_brk h"
    and g: "execute_get_stack h = Some (Some p, h')"
  shows "stack_rel (e\<lparr>ex_stack := p, ex_pos := 0, ex_keep_stack := False\<rparr>, h') (4096 * (length fl + sh_mem h)) []"
proof -
  have "fl \<noteq> [] \<or> 0 < sh_mem h"
    using assms(1) g by (cases fl) (auto simp: execute_get_stack_def split: if_splits)
  then obtain fl' s where s: "sh_cell h' = (sh_cell h)(p \<mapsto> s)"
    "sk_size s = STACKLEN" "sk_next s = None" "sk_prev s = None" "sk_my_offset s = 0"
    "free_path h' (sh_free h') fl'" "distinct (p # fl')" "p \<in> set fl \<or> p = sh_brk h"
    "set fl' \<subseteq> set fl" "p < sh_brk h'" "sh_brk h \<le> sh_brk h'" "Suc (length fl' + sh_mem h') = length fl + sh_mem h"
    using execute_get_stack_ok [OF assms(1-3)] g by auto
  have "\<forall>q \<in> set [p] \<union> set fl'. q < sh_brk h'"
    using s(9-11) assms(3) by (auto intro: less_le_trans)
  moreover have "chunks h' [p]" using s(1-5) by (simp add: chunks_def chunk_ok_def)
  ultimately have "stack_repr (e\<lparr>ex_stack := p, ex_pos := 0, ex_keep_stack := False\<rparr>) h'
      (4096 * (length fl + sh_mem h)) [] [p] fl' 0"
    using s(6,7,12) by (simp add: stack_repr_def stack_inv_def words_at_def)
  then show ?thesis unfolding stack_rel_repr by blast
qed

subsection \<open>The contract\<close>

text \<open>A stack of words, as its users see it: \<open>rel s n xs\<close> says that \<open>s\<close> holds the words \<open>xs\<close> and has room
  for \<open>n\<close> more.\<close>

fun push_words :: "('w \<Rightarrow> 's \<Rightarrow> 's option) \<Rightarrow> 'w list \<Rightarrow> 's \<Rightarrow> 's option" where
  "push_words push [] s = Some s"
| "push_words push (w # ws) s = Option.bind (push w s) (push_words push ws)"

fun pop_words :: "('s \<Rightarrow> ('w \<times> 's) option) \<Rightarrow> nat \<Rightarrow> 's \<Rightarrow> ('w list \<times> 's) option" where
  "pop_words pop 0 s = Some ([], s)"
| "pop_words pop (Suc n) s = do {
     (w, s) \<leftarrow> pop s;
     (ws, s) \<leftarrow> pop_words pop n s;
     Some (w # ws, s) }"

locale lifo =
  fixes push :: "'w \<Rightarrow> 's \<Rightarrow> 's option"
    and pop :: "'s \<Rightarrow> ('w \<times> 's) option"
    and rel :: "'s \<Rightarrow> nat \<Rightarrow> 'w list \<Rightarrow> bool"
  assumes push_law: "rel s (Suc n) xs \<Longrightarrow> \<exists>s'. push w s = Some s' \<and> rel s' n (xs @ [w])"
    and pop_law: "rel s n (xs @ [w]) \<Longrightarrow> \<exists>s'. pop s = Some (w, s') \<and> rel s' (Suc n) xs"
begin

lemma push_words_law:
  "rel s (length ws + n) xs \<Longrightarrow> \<exists>s'. push_words push ws s = Some s' \<and> rel s' n (xs @ ws)"
proof (induction ws arbitrary: s xs)
  case (Cons w ws)
  then obtain s1 where s1: "push w s = Some s1" "rel s1 (length ws + n) (xs @ [w])"
    using push_law [of s "length ws + n" xs w] by auto
  then show ?case using Cons.IH [OF s1(2)] by auto
qed auto

lemma pop_words_law:
  "rel s n (xs @ ws) \<Longrightarrow> \<exists>s'. pop_words pop (length ws) s = Some (rev ws, s') \<and> rel s' (length ws + n) xs"
proof (induction ws arbitrary: s n rule: rev_induct)
  case (snoc w ws)
  then have "rel s n ((xs @ ws) @ [w])" by simp
  then obtain s1 where s1: "pop s = Some (w, s1)" "rel s1 (Suc n) (xs @ ws)"
    using pop_law by blast
  then show ?case using snoc.IH [OF s1(2)] by auto
qed simp

lemma push_then_pop:
  assumes "rel s (length ws + n) xs"
  shows "\<exists>s1 s2. push_words push ws s = Some s1 \<and> pop_words pop (length ws) s1 = Some (rev ws, s2)
    \<and> rel s2 (length ws + n) xs"
  using push_words_law [OF assms] pop_words_law by blast

end

interpretation est: lifo
  "\<lambda>w st. execute_push w (fst st) (snd st)" "\<lambda>st. execute_pop zero (fst st) (snd st)" stack_rel for zero
  by unfold_locales (fact execute_push_law, fact execute_pop_law)

subsection \<open>Sequences of operations\<close>

datatype 'w stack_op = Push 'w | Pop | Read nat

fun stack_run :: "'w \<Rightarrow> 'w stack_op list \<Rightarrow> execute_s \<times> 'w stack_heap \<Rightarrow> 'w list option" where
  "stack_run zero [] st = Some []"
| "stack_run zero (Push w # ops) st = do {
     st \<leftarrow> execute_push w (fst st) (snd st);
     stack_run zero ops st }"
| "stack_run zero (Pop # ops) st = do {
     (w, st) \<leftarrow> execute_pop zero (fst st) (snd st);
     ws \<leftarrow> stack_run zero ops st;
     Some (w # ws) }"
| "stack_run zero (Read k # ops) st = do {
     w \<leftarrow> execute_readstack zero (fst st) (int k) (snd st);
     ws \<leftarrow> stack_run zero ops st;
     Some (w # ws) }"

fun list_run :: "'w \<Rightarrow> 'w stack_op list \<Rightarrow> 'w list \<Rightarrow> 'w list" where
  "list_run zero [] xs = []"
| "list_run zero (Push w # ops) xs = list_run zero ops (xs @ [w])"
| "list_run zero (Pop # ops) xs = (if xs = [] then zero else last xs) # list_run zero ops (butlast xs)"
| "list_run zero (Read k # ops) xs = xs ! k # list_run zero ops xs"

fun ops_fit :: "nat \<Rightarrow> nat \<Rightarrow> 'w stack_op list \<Rightarrow> bool" where
  "ops_fit room n [] \<longleftrightarrow> True"
| "ops_fit room n (Push w # ops) \<longleftrightarrow> 0 < room \<and> ops_fit (room - 1) (Suc n) ops"
| "ops_fit room n (Pop # ops) \<longleftrightarrow> ops_fit (if n = 0 then room else Suc room) (n - 1) ops"
| "ops_fit room n (Read k # ops) \<longleftrightarrow> 0 < k \<and> k < n \<and> ops_fit room n ops"

text \<open>C25. The linked chunks of the interpreter's stack behave like one list of words: any sequence of
  pushes, pops and reads that fits into the memory and reads only between the bottom word and the top
  gives the words that the list gives, across all chunk boundaries.\<close>

theorem stack_runs_like_a_list:
  assumes "stack_rel st room xs" "ops_fit room (length xs) ops"
  shows "stack_run zero ops st = Some (list_run zero ops xs)"
  using assms
proof (induction ops arbitrary: st room xs)
  case (Cons op ops)
  show ?case
  proof (cases op)
    case (Push w)
    then obtain n where n: "room = Suc n" using Cons.prems(2) by (cases room) auto
    then show ?thesis
      using execute_push_law [of st n xs w] Cons Push by fastforce
  next
    case Pop
    show ?thesis
    proof (cases xs rule: rev_cases)
      case Nil
      then show ?thesis using execute_pop_empty [of st room zero] Cons Pop by fastforce
    next
      case (snoc ys w)
      then show ?thesis using execute_pop_law [of st room ys w zero] Cons Pop by fastforce
    qed
  next
    case (Read k)
    then show ?thesis using execute_readstack_law [OF Cons.prems(1), of k zero] Cons by simp
  qed
qed simp

definition demo_stack :: "execute_s \<times> nat stack_heap" where
  "demo_stack = (\<lparr>ex_stack = 0, ex_pos = 0, ex_base = 0, ex_start = 0, ex_p = 0, ex_fn_getsval_p = 0, ex_cont = 0,
      ex_h = None, ex_c = None, ex_keep_stack = False, ex_comm = None, ex_my_comm_buff = None\<rparr>,
    \<lparr>sh_cell = [0 \<mapsto> \<lparr>sk_prev = None, sk_next = None, sk_size = STACKLEN, sk_my_offset = 0, sk_stack = \<lambda>_. None\<rparr>],
      sh_brk = 1, sh_free = None, sh_mem = 1\<rparr>)"

lemma demo_stack_rel: "stack_rel demo_stack 8192 []"
proof -
  let ?h0 = "\<lparr>sh_cell = Map.empty, sh_brk = 0, sh_free = None, sh_mem = 2\<rparr> :: nat stack_heap"
  have "execute_get_stack ?h0 = Some (Some 0, snd demo_stack)"
    by (simp add: execute_get_stack_def demo_stack_def)
  from new_stack_rel [of ?h0 "[]", OF _ _ _ this, of "fst demo_stack"] show ?thesis
    by (simp add: demo_stack_def)
qed

theorem stack_runs_like_a_list_witness:
  "stack_run 0 [Pop, Push 7, Push 8, Push 9, Read 1, Pop, Read 1, Pop, Pop, Pop] demo_stack
     = Some [0, 8, 9, 8, 8, 7, 0]"
  by (subst stack_runs_like_a_list [OF demo_stack_rel]) simp_all

text \<open>The lowest word of the stack cannot be read: for position 0 the backward search runs past
  the first chunk into its null pointer, whatever the stack holds.\<close>

theorem bottom_word_unreadable:
  assumes "stack_rel st room xs"
  shows "execute_readstack zero (fst st) 0 (snd st) = None \<and> execute_stack_pointer (fst st) 0 (snd st) = None"
proof -
  obtain ids fl cur where R: "stack_repr (fst st) (snd st) room xs ids fl cur"
    using assms stack_rel_repr [of "fst st" "snd st"] by auto
  have "seek_back (snd st) 0 (ex_stack (fst st)) = None"
    using seek_back_bottom [OF stack_invD(2,5)] stack_invD(6) R unfolding stack_repr_def by metis
  then show ?thesis
    by (simp_all add: execute_readstack_def execute_stack_pointer_def)
qed

theorem bottom_word_unreadable_witness:
  "execute_readstack 0 (fst demo_stack) 0 (snd demo_stack) = None
   \<and> execute_stack_pointer (fst demo_stack) 0 (snd demo_stack) = None"
  using bottom_word_unreadable [OF demo_stack_rel] by simp

end
