(* ===== verification/Buffer_Queues.thy ===== *)
theory Buffer_Queues
  imports Prelude "HOL-Library.Monad_Syntax"
begin

text \<open>
  The queues of communication buffers (second half of \<open>comm_buf.c\<close>): lists of items that are linked by
  their \<open>next\<close> pointers, with a pointer to the last item, and a list of at most
  \<open>ITEM_FREE_LIST_CAPACITY\<close> free items that all queues share. Items are cells of a store; buffers are
  numbers. \<open>ih_mem\<close> counts the items that \<open>malloc\<close> can still give (\<open>free\<close> gives one back). \<open>None\<close> is
  an access through a null or dangling pointer, \<open>Some (Fatal m)\<close> the exit by \<open>fatal()\<close>.

  A set of queues is specified by the lists of their buffers, and the operations on the linked items
  are shown to be the operations on those lists, for all queues that share the items at once.
\<close>

record queue_item_s =
  qi_next :: "nat option"
  qi_buffer :: nat

record comm_buffer_queue_s =
  q_first :: "nat option"
  q_last :: "nat option"

record item_heap =
  ih_cell :: "nat \<Rightarrow> queue_item_s option"
  ih_brk :: nat
  ih_mem :: nat
  ih_ready :: nat
  ih_free :: "nat option"

definition ITEM_FREE_LIST_CAPACITY :: nat where "ITEM_FREE_LIST_CAPACITY = 10"

definition upd_item :: "nat \<Rightarrow> (queue_item_s \<Rightarrow> queue_item_s) \<Rightarrow> item_heap \<Rightarrow> item_heap option" where
  "upd_item p f h = map_option (\<lambda>i. h\<lparr>ih_cell := (ih_cell h)(p \<mapsto> f i)\<rparr>) (ih_cell h p)"

definition new_item :: "nat \<Rightarrow> item_heap \<Rightarrow> (nat \<times> item_heap) outcome option" where
  "new_item b h =
     (if ih_ready h \<noteq> 0 then do {
        p \<leftarrow> ih_free h;
        i \<leftarrow> ih_cell h p;
        Some (Ret (p, h\<lparr>ih_free := qi_next i, ih_ready := ih_ready h - 1,
          ih_cell := (ih_cell h)(p \<mapsto> \<lparr>qi_next = None, qi_buffer = b\<rparr>)\<rparr>)) }
      else if ih_mem h = 0 then Some (Fatal Out_of_memory)
      else Some (Ret (ih_brk h, h\<lparr>ih_brk := ih_brk h + 1, ih_mem := ih_mem h - 1,
        ih_cell := (ih_cell h)(ih_brk h \<mapsto> \<lparr>qi_next = None, qi_buffer = b\<rparr>)\<rparr>)))"

definition free_item :: "nat \<Rightarrow> item_heap \<Rightarrow> item_heap option" where
  "free_item p h =
     (if ih_ready h < ITEM_FREE_LIST_CAPACITY then
        map_option (\<lambda>h'. h'\<lparr>ih_free := Some p, ih_ready := ih_ready h + 1\<rparr>)
          (upd_item p (\<lambda>i. i\<lparr>qi_next := ih_free h\<rparr>) h)
      else map_option (\<lambda>_. h\<lparr>ih_cell := (ih_cell h)(p := None), ih_mem := ih_mem h + 1\<rparr>) (ih_cell h p))"

definition comm_buf_to_queue ::
  "comm_buffer_queue_s \<Rightarrow> nat \<Rightarrow> item_heap \<Rightarrow> (comm_buffer_queue_s \<times> item_heap) outcome option" where
  "comm_buf_to_queue q b h = bind_res (new_item b h) (\<lambda>(p, h).
     case q_last q of
       Some l \<Rightarrow> map_option (\<lambda>h. Ret (q\<lparr>q_last := Some p\<rparr>, h)) (upd_item l (\<lambda>i. i\<lparr>qi_next := Some p\<rparr>) h)
     | None \<Rightarrow> Some (Ret (q\<lparr>q_first := Some p, q_last := Some p\<rparr>, h)))"

definition comm_buf_from_queue ::
  "comm_buffer_queue_s \<Rightarrow> item_heap \<Rightarrow> (nat option \<times> comm_buffer_queue_s \<times> item_heap) option" where
  "comm_buf_from_queue q h =
     (case q_first q of
        None \<Rightarrow> Some (None, q, h)
      | Some p \<Rightarrow> do {
          i \<leftarrow> ih_cell h p;
          h \<leftarrow> free_item p h;
          Some (Some (qi_buffer i),
            (if qi_next i = None then q\<lparr>q_first := None, q_last := None\<rparr> else q\<lparr>q_first := qi_next i\<rparr>), h) })"

text \<open>\<open>comm_buf_del\<close>: the item is taken out of the list (its successor is \<open>next\<close>), then freed.\<close>

definition unlink_item ::
  "comm_buffer_queue_s \<Rightarrow> nat option \<Rightarrow> nat option \<Rightarrow> item_heap \<Rightarrow> (comm_buffer_queue_s \<times> item_heap) option" where
  "unlink_item q prev next h =
     (case prev of
        None \<Rightarrow>
          if next = None then Some (q\<lparr>q_first := None, q_last := None\<rparr>, h)
          else Some (q\<lparr>q_first := next\<rparr>, h)
      | Some r \<Rightarrow>
          if next = None then map_option (Pair (q\<lparr>q_last := Some r\<rparr>)) (upd_item r (\<lambda>j. j\<lparr>qi_next := None\<rparr>) h)
          else map_option (Pair q) (upd_item r (\<lambda>j. j\<lparr>qi_next := next\<rparr>) h))"

definition comm_buf_del ::
  "comm_buffer_queue_s \<Rightarrow> nat option \<Rightarrow> nat \<Rightarrow> item_heap \<Rightarrow> (nat \<times> comm_buffer_queue_s \<times> item_heap) option" where
  "comm_buf_del q prev p h = do {
     i \<leftarrow> ih_cell h p;
     (q, h) \<leftarrow> unlink_item q prev (qi_next i) h;
     h \<leftarrow> free_item p h;
     Some (qi_buffer i, q, h) }"

definition comm_buf_peek_first :: "comm_buffer_queue_s \<Rightarrow> item_heap \<Rightarrow> nat option option" where
  "comm_buf_peek_first q h =
     (case q_first q of None \<Rightarrow> Some None | Some p \<Rightarrow> map_option (\<lambda>i. Some (qi_buffer i)) (ih_cell h p))"

definition comm_buf_peek_last :: "comm_buffer_queue_s \<Rightarrow> item_heap \<Rightarrow> nat option option" where
  "comm_buf_peek_last q h =
     (case q_last q of None \<Rightarrow> Some None | Some p \<Rightarrow> map_option (\<lambda>i. Some (qi_buffer i)) (ih_cell h p))"

text \<open>The loop over a queue of waiting buffers in \<open>mcp_r_fetch_answer\<close> and \<open>mcp_r_update_answer\<close>: the
  first buffer that satisfies \<open>P\<close> is taken out.\<close>

partial_function (option) take_waiting ::
  "(nat \<Rightarrow> bool) \<Rightarrow> nat option \<Rightarrow> nat option \<Rightarrow> comm_buffer_queue_s \<Rightarrow> item_heap
     \<Rightarrow> (nat option \<times> comm_buffer_queue_s \<times> item_heap) option" where
  "take_waiting P prev item q h =
     (case item of
        None \<Rightarrow> Some (None, q, h)
      | Some p \<Rightarrow> do {
          i \<leftarrow> ih_cell h p;
          if P (qi_buffer i) then map_option (\<lambda>(b, r). (Some b, r)) (comm_buf_del q prev p h)
          else take_waiting P (Some p) (qi_next i) q h })"

subsection \<open>Queues as lists\<close>

fun item_path :: "item_heap \<Rightarrow> nat option \<Rightarrow> nat list \<Rightarrow> nat list \<Rightarrow> bool" where
  "item_path h p [] bs \<longleftrightarrow> p = None \<and> bs = []"
| "item_path h p (q # qs) bs \<longleftrightarrow> p = Some q \<and>
     (\<exists>i b bs'. ih_cell h q = Some i \<and> qi_buffer i = b \<and> bs = b # bs' \<and> item_path h (qi_next i) qs bs')"

fun free_items :: "item_heap \<Rightarrow> nat option \<Rightarrow> nat list \<Rightarrow> bool" where
  "free_items h p [] \<longleftrightarrow> True"
| "free_items h p (q # qs) \<longleftrightarrow> p = Some q \<and> (\<exists>i. ih_cell h q = Some i \<and> free_items h (qi_next i) qs)"

definition queue_rep :: "item_heap \<Rightarrow> comm_buffer_queue_s \<Rightarrow> nat list \<Rightarrow> nat list \<Rightarrow> bool" where
  "queue_rep h q ps bs \<longleftrightarrow> item_path h (q_first q) ps bs \<and> q_last q = (if ps = [] then None else Some (last ps))"

definition items_ok :: "item_heap \<Rightarrow> (nat \<Rightarrow> nat list) \<Rightarrow> nat list \<Rightarrow> bool" where
  "items_ok h pss fl \<longleftrightarrow> free_items h (ih_free h) fl \<and> length fl = ih_ready h
     \<and> ih_ready h \<le> ITEM_FREE_LIST_CAPACITY \<and> distinct fl \<and> (\<forall>p \<in> set fl. p < ih_brk h)
     \<and> (\<forall>k. distinct (pss k) \<and> set (pss k) \<inter> set fl = {} \<and> (\<forall>p \<in> set (pss k). p < ih_brk h))
     \<and> (\<forall>k l. k \<noteq> l \<longrightarrow> set (pss k) \<inter> set (pss l) = {})"

definition queues_rel ::
  "(nat \<Rightarrow> comm_buffer_queue_s) \<times> item_heap \<Rightarrow> nat \<Rightarrow> (nat \<Rightarrow> nat list) \<Rightarrow> bool" where
  "queues_rel st room bss \<longleftrightarrow> (\<exists>pss fl. items_ok (snd st) pss fl
     \<and> (\<forall>k. queue_rep (snd st) (fst st k) (pss k) (bss k)) \<and> room \<le> ih_ready (snd st) + ih_mem (snd st))"

lemma item_path_cong:
  "item_path h p ps bs \<Longrightarrow> (\<And>q. q \<in> set ps \<Longrightarrow> ih_cell h' q = ih_cell h q) \<Longrightarrow> item_path h' p ps bs"
  by (induction ps arbitrary: p bs) auto

lemma free_items_cong:
  "free_items h p fl \<Longrightarrow> (\<And>q. q \<in> set fl \<Longrightarrow> ih_cell h' q = ih_cell h q) \<Longrightarrow> free_items h' p fl"
  by (induction fl arbitrary: p) auto

lemma item_path_length: "item_path h p ps bs \<Longrightarrow> length ps = length bs"
  by (induction ps arbitrary: p bs) auto

lemma item_path_append:
  "item_path h p (ps @ [x]) bs \<Longrightarrow> \<exists>i. ih_cell h x = Some i \<and> qi_next i = None \<and> bs \<noteq> [] \<and> qi_buffer i = last bs"
proof (induction ps arbitrary: p bs)
  case (Cons a ps)
  then obtain i bs' where "ih_cell h a = Some i" "bs = qi_buffer i # bs'" "item_path h (qi_next i) (ps @ [x]) bs'" by auto
  then show ?case using Cons.IH by fastforce
qed auto

lemma item_path_snoc:
  assumes "item_path h p ps bs" "ps \<noteq> []" "ih_cell h (last ps) = Some i" "distinct (ps @ [x])"
    "ih_cell h' = (ih_cell h)(last ps \<mapsto> i\<lparr>qi_next := Some x\<rparr>, x \<mapsto> \<lparr>qi_next = None, qi_buffer = b\<rparr>)"
  shows "item_path h' p (ps @ [x]) (bs @ [b])"
  using assms
proof (induction ps arbitrary: p bs)
  case (Cons q qs)
  then obtain j c bs' where j: "p = Some q" "ih_cell h q = Some j" "qi_buffer j = c" "bs = c # bs'"
      "item_path h (qi_next j) qs bs'" by auto
  show ?case
  proof (cases qs)
    case Nil
    then show ?thesis using j Cons.prems by auto
  next
    case (Cons r rs)
    then have "item_path h' (qi_next j) (qs @ [x]) (bs' @ [b])"
      using Cons.IH [OF j(5)] Cons.prems Cons by simp
    moreover have "q \<noteq> last (q # qs)" "q \<noteq> x"
      using Cons Cons.prems(4) last_in_set [of qs] by (auto split: if_splits)
    ultimately show ?thesis using j Cons Cons.prems(5) by auto
  qed
qed simp

lemma items_okD:
  assumes "items_ok h pss fl"
  shows "free_items h (ih_free h) fl" "length fl = ih_ready h" "ih_ready h \<le> ITEM_FREE_LIST_CAPACITY" "distinct fl"
    "\<And>p. p \<in> set fl \<Longrightarrow> p < ih_brk h" "\<And>k. distinct (pss k)" "\<And>k p. p \<in> set (pss k) \<Longrightarrow> p \<notin> set fl"
    "\<And>k p. p \<in> set (pss k) \<Longrightarrow> p < ih_brk h" "\<And>k l p. p \<in> set (pss k) \<Longrightarrow> k \<noteq> l \<Longrightarrow> p \<notin> set (pss l)"
  using assms unfolding items_ok_def by blast+

lemma items_ok_cong:
  assumes "items_ok h pss fl" "free_items h' (ih_free h') fl'" "length fl' = ih_ready h'"
    "ih_ready h' \<le> ITEM_FREE_LIST_CAPACITY" "distinct fl'" "\<And>p. p \<in> set fl' \<Longrightarrow> p < ih_brk h'"
    "ih_brk h \<le> ih_brk h'" "\<And>k p. p \<in> set (pss k) \<Longrightarrow> p \<notin> set fl'"
  shows "items_ok h' pss fl'"
  using assms unfolding items_ok_def by (fastforce intro: less_le_trans)

lemma new_item_ok:
  assumes ok: "items_ok h pss fl" and room: "0 < ih_ready h + ih_mem h"
  shows "\<exists>p h' fl'. new_item b h = Some (Ret (p, h')) \<and> ih_cell h' = (ih_cell h)(p \<mapsto> \<lparr>qi_next = None, qi_buffer = b\<rparr>)
    \<and> items_ok h' pss fl' \<and> p \<notin> set fl' \<and> (\<forall>k. p \<notin> set (pss k)) \<and> p < ih_brk h'
    \<and> Suc (ih_ready h' + ih_mem h') = ih_ready h + ih_mem h"
proof (cases "ih_ready h")
  case 0
  let ?h = "h\<lparr>ih_brk := ih_brk h + 1, ih_mem := ih_mem h - 1,
        ih_cell := (ih_cell h)(ih_brk h \<mapsto> \<lparr>qi_next = None, qi_buffer = b\<rparr>)\<rparr>"
  have "fl = []" using items_okD(2) [OF ok] 0 by simp
  then have "items_ok ?h pss []" using 0 items_okD(8) [OF ok] by (intro items_ok_cong [OF ok]) auto
  then show ?thesis
    using 0 room items_okD(8) [OF ok]
    by (intro exI [where x = "ih_brk h"] exI [where x = ?h] exI [where x = "[]"]) (auto simp: new_item_def)
next
  case (Suc n)
  then obtain p fl' where fl: "fl = p # fl'" using items_okD(2) [OF ok] by (cases fl) auto
  then obtain i where i: "ih_free h = Some p" "ih_cell h p = Some i" "free_items h (qi_next i) fl'"
    using items_okD(1) [OF ok] by auto
  let ?h = "h\<lparr>ih_free := qi_next i, ih_ready := ih_ready h - 1,
        ih_cell := (ih_cell h)(p \<mapsto> \<lparr>qi_next = None, qi_buffer = b\<rparr>)\<rparr>"
  have "free_items ?h (qi_next i) fl'"
    by (rule free_items_cong [OF i(3)]) (use items_okD(4) [OF ok] fl in auto)
  then have "items_ok ?h pss fl'"
    using items_okD(2-5,7) [OF ok] fl Suc by (intro items_ok_cong [OF ok]) auto
  then show ?thesis
    using Suc i items_okD(4,5,7) [OF ok] fl
    by (intro exI [where x = p] exI [where x = ?h] exI [where x = fl']) (auto simp: new_item_def)
qed

lemma free_item_ok:
  assumes ok: "items_ok h pss fl" and p: "ih_cell h p = Some i" "p \<notin> set fl" "\<And>k. p \<notin> set (pss k)" "p < ih_brk h"
  shows "\<exists>h' fl'. free_item p h = Some h' \<and> items_ok h' pss fl' \<and> (\<forall>q. q \<noteq> p \<longrightarrow> ih_cell h' q = ih_cell h q)
    \<and> ih_ready h' + ih_mem h' = Suc (ih_ready h + ih_mem h)"
proof (cases "ih_ready h < ITEM_FREE_LIST_CAPACITY")
  case True
  let ?h = "h\<lparr>ih_cell := (ih_cell h)(p \<mapsto> i\<lparr>qi_next := ih_free h\<rparr>), ih_free := Some p, ih_ready := ih_ready h + 1\<rparr>"
  have "free_items ?h (ih_free h) fl"
    by (rule free_items_cong [OF items_okD(1) [OF ok]]) (use p in auto)
  then have "items_ok ?h pss (p # fl)"
    using True p items_okD(2,4,5,7) [OF ok] by (intro items_ok_cong [OF ok]) auto
  then show ?thesis
    using True p by (intro exI [where x = ?h] exI [where x = "p # fl"]) (simp add: free_item_def upd_item_def)
next
  case False
  let ?h = "h\<lparr>ih_cell := (ih_cell h)(p := None), ih_mem := ih_mem h + 1\<rparr>"
  have "free_items ?h (ih_free h) fl"
    by (rule free_items_cong [OF items_okD(1) [OF ok]]) (use p in auto)
  then have "items_ok ?h pss fl"
    using items_okD(2-5,7) [OF ok] by (intro items_ok_cong [OF ok]) auto
  then show ?thesis
    using False p by (intro exI [where x = ?h] exI [where x = fl]) (simp add: free_item_def)
qed

lemma items_ok_upd:
  assumes ok: "items_ok h pss fl" and ps: "distinct ps"
    "\<And>p. p \<in> set ps \<Longrightarrow> p \<in> set (pss k) \<or> p \<notin> set fl \<and> (\<forall>k. p \<notin> set (pss k)) \<and> p < ih_brk h"
  shows "items_ok h (pss(k := ps)) fl"
proof -
  note D = items_okD [OF ok]
  have p: "p \<notin> set fl \<and> p < ih_brk h \<and> (\<forall>l. l \<noteq> k \<longrightarrow> p \<notin> set (pss l))" if "p \<in> set ps" for p
    using ps(2) [OF that] D(7-9) by metis
  show ?thesis
    unfolding items_ok_def
  proof (intro conjI allI impI ballI)
    fix l show "set ((pss(k := ps)) l) \<inter> set fl = {}" using p D(7) by (cases "l = k") auto
  next
    fix l q assume "q \<in> set ((pss(k := ps)) l)" then show "q < ih_brk h" using p D(8) by (cases "l = k") auto
  next
    fix l m :: nat assume "l \<noteq> m" then show "set ((pss(k := ps)) l) \<inter> set ((pss(k := ps)) m) = {}"
      using p D(9) by (auto simp: disjoint_iff)
  qed (use D ps in auto)
qed

text \<open>The three operations that change a queue.\<close>

lemma queue_rep_cong:
  "queue_rep h q ps bs \<Longrightarrow> (\<And>p. p \<in> set ps \<Longrightarrow> ih_cell h' p = ih_cell h p) \<Longrightarrow> queue_rep h' q ps bs"
  unfolding queue_rep_def using item_path_cong by blast

lemma queues_rel_upd:
  assumes "items_ok h' (pss(k := ps)) fl" "queue_rep h' q' ps bs" "\<And>l. queue_rep h (qs l) (pss l) (bss l)"
    "\<And>l p. l \<noteq> k \<Longrightarrow> p \<in> set (pss l) \<Longrightarrow> ih_cell h' p = ih_cell h p" "room \<le> ih_ready h' + ih_mem h'"
  shows "queues_rel (qs(k := q'), h') room (bss(k := bs))"
proof -
  have "queue_rep h' ((qs(k := q')) l) ((pss(k := ps)) l) ((bss(k := bs)) l)" for l
    using assms(2) queue_rep_cong [OF assms(3) [of l] assms(4) [of l]] by simp
  then show ?thesis
    unfolding queues_rel_def using assms(1,5) by (metis fst_conv snd_conv)
qed

lemma queue_repD:
  assumes "queue_rep h q ps bs"
  shows "ps = [] \<Longrightarrow> bs = [] \<and> q_first q = None \<and> q_last q = None"
    and "ps \<noteq> [] \<Longrightarrow> q_last q = Some (last ps) \<and> (\<exists>i. ih_cell h (last ps) = Some i \<and> qi_next i = None \<and> qi_buffer i = last bs)"
    and "item_path h (q_first q) ps bs" "length ps = length bs"
proof -
  show "item_path h (q_first q) ps bs" and "length ps = length bs"
    using assms item_path_length unfolding queue_rep_def by blast+
  then show "ps \<noteq> [] \<Longrightarrow> q_last q = Some (last ps) \<and> (\<exists>i. ih_cell h (last ps) = Some i \<and> qi_next i = None \<and> qi_buffer i = last bs)"
    using assms item_path_append [of h "q_first q" "butlast ps" "last ps" bs] unfolding queue_rep_def by auto
qed (use assms in \<open>auto simp: queue_rep_def\<close>)

lemma enqueue_first:
  assumes rep: "queue_rep h q [] bs" and h': "ih_cell h' = (ih_cell h)(p \<mapsto> \<lparr>qi_next = None, qi_buffer = b\<rparr>)"
  shows "queue_rep h' (q\<lparr>q_first := Some p, q_last := Some p\<rparr>) [p] (bs @ [b])"
  using rep h' by (simp add: queue_rep_def)

lemma enqueue_last:
  assumes rep: "queue_rep h q ps bs" and ne: "ps \<noteq> []" and d: "distinct (ps @ [p])" and i: "ih_cell h (last ps) = Some i"
    and h': "ih_cell h' = (ih_cell h)(last ps \<mapsto> i\<lparr>qi_next := Some p\<rparr>, p \<mapsto> \<lparr>qi_next = None, qi_buffer = b\<rparr>)"
  shows "queue_rep h' (q\<lparr>q_last := Some p\<rparr>) (ps @ [p]) (bs @ [b])"
  using item_path_snoc [OF queue_repD(3) [OF rep] ne i d h'] by (simp add: queue_rep_def)

lemma comm_buf_to_queue_law:
  assumes "queues_rel (qs, h) (Suc room) bss"
  shows "\<exists>q' h'. comm_buf_to_queue (qs k) b h = Some (Ret (q', h'))
    \<and> queues_rel (qs(k := q'), h') room (bss(k := bss k @ [b]))"
proof -
  obtain pss fl where ok: "items_ok h pss fl" and rep: "\<And>k. queue_rep h (qs k) (pss k) (bss k)"
      and room: "Suc room \<le> ih_ready h + ih_mem h"
    using assms unfolding queues_rel_def by auto
  have "0 < ih_ready h + ih_mem h" using room by linarith
  then obtain p h1 fl' where n: "new_item b h = Some (Ret (p, h1))" "ih_cell h1 = (ih_cell h)(p \<mapsto> \<lparr>qi_next = None, qi_buffer = b\<rparr>)"
      "items_ok h1 pss fl'" "p \<notin> set fl'" "\<And>k. p \<notin> set (pss k)" "p < ih_brk h1"
      "Suc (ih_ready h1 + ih_mem h1) = ih_ready h + ih_mem h"
    using new_item_ok [OF ok] by metis
  have room1: "room \<le> ih_ready h1 + ih_mem h1" using n(7) room by linarith
  have ok1: "items_ok h1 (pss(k := pss k @ [p])) fl'"
    by (rule items_ok_upd [OF n(3)]) (use n items_okD(6) [OF ok] in auto)
  have cell: "ih_cell h1 x = ih_cell h x" if "x \<in> set (pss l)" for x l using that n(2,5) by auto
  show ?thesis
  proof (cases "pss k = []")
    case True
    have "queues_rel (qs(k := (qs k)\<lparr>q_first := Some p, q_last := Some p\<rparr>), h1) room (bss(k := bss k @ [b]))"
      by (rule queues_rel_upd [OF ok1 _ rep cell room1]) (use enqueue_first [OF _ n(2)] rep [of k] True in auto)
    then show ?thesis using n(1) queue_repD(1) [OF rep [of k] True] by (auto simp: comm_buf_to_queue_def)
  next
    case False
    then obtain i where i: "q_last (qs k) = Some (last (pss k))" "ih_cell h (last (pss k)) = Some i"
      using queue_repD(2) [OF rep [of k]] by auto
    have lp: "last (pss k) \<noteq> p" using n(5) False last_in_set by metis
    let ?h = "h1\<lparr>ih_cell := (ih_cell h1)(last (pss k) \<mapsto> i\<lparr>qi_next := Some p\<rparr>)\<rparr>"
    have lf: "last (pss k) \<notin> set fl'" using items_okD(7) [OF n(3), of _ k] False last_in_set by metis
    have "free_items ?h (ih_free ?h) fl'"
      by (rule free_items_cong [of h1]) (use items_okD(1) [OF ok1] lf in auto)
    then have "items_ok ?h (pss(k := pss k @ [p])) fl'"
      by (rule items_ok_cong [OF ok1]) (use items_okD [OF ok1] in auto)
    then have "queues_rel (qs(k := (qs k)\<lparr>q_last := Some p\<rparr>), ?h) room (bss(k := bss k @ [b]))"
    proof (rule queues_rel_upd)
      show "queue_rep ?h ((qs k)\<lparr>q_last := Some p\<rparr>) (pss k @ [p]) (bss k @ [b])"
        by (rule enqueue_last [OF rep False _ i(2)]) (use n(2,5) items_okD(6) [OF ok] lp in \<open>auto simp: fun_upd_twist\<close>)
      fix l x assume "l \<noteq> k" "x \<in> set (pss l)"
      then have "x \<noteq> last (pss k)" using items_okD(9) [OF ok] False last_in_set by metis
      then show "ih_cell ?h x = ih_cell h x" using cell \<open>x \<in> set (pss l)\<close> by simp
    qed (use rep room1 in auto)
    then show ?thesis using n(1,2) i lp by (auto simp: comm_buf_to_queue_def upd_item_def)
  qed
qed

text \<open>Removal of an item, at the head or behind another item.\<close>

lemma comm_buf_from_queue_del:
  "q_first q = Some p \<Longrightarrow> comm_buf_from_queue q h = map_option (\<lambda>(b, r). (Some b, r)) (comm_buf_del q None p h)"
  by (cases "ih_cell h p"; cases "free_item p h") (auto simp: comm_buf_from_queue_def comm_buf_del_def unlink_item_def)

lemma item_path_split:
  "item_path h f (ps1 @ p # ps2) bs \<Longrightarrow>
     \<exists>i bs1 bs2. ih_cell h p = Some i \<and> bs = bs1 @ qi_buffer i # bs2 \<and> length bs1 = length ps1
       \<and> item_path h (qi_next i) ps2 bs2"
proof (induction ps1 arbitrary: f bs)
  case (Cons a ps1)
  then obtain j bs' where j: "ih_cell h a = Some j" "bs = qi_buffer j # bs'" "item_path h (qi_next j) (ps1 @ p # ps2) bs'" by auto
  then show ?case using Cons.IH [OF j(3)] by (metis append_Cons length_Cons)
qed auto

lemma item_path_del:
  assumes "item_path h f (ps1 @ p # ps2) bs" "distinct (ps1 @ p # ps2)" "ps1 \<noteq> []" "ih_cell h p = Some i"
    "ih_cell h (last ps1) = Some j" "ih_cell h' = (ih_cell h)(last ps1 \<mapsto> j\<lparr>qi_next := qi_next i\<rparr>)"
    "bs = bs1 @ b # bs2" "length bs1 = length ps1"
  shows "item_path h' f (ps1 @ ps2) (bs1 @ bs2)"
  using assms
proof (induction ps1 arbitrary: f bs bs1)
  case (Cons a ps1)
  then obtain c cs where bs1: "bs1 = c # cs" by (cases bs1) auto
  then obtain k where k: "f = Some a" "ih_cell h a = Some k" "qi_buffer k = c"
      "item_path h (qi_next k) (ps1 @ p # ps2) (cs @ b # bs2)"
    using Cons.prems by auto
  show ?case
  proof (cases "ps1 = []")
    case True
    then have cs: "cs = []" using Cons.prems bs1 by simp
    have "item_path h' (qi_next i) ps2 bs2"
      by (rule item_path_cong [of h]) (use k True cs Cons.prems in auto)
    then show ?thesis using True cs k bs1 Cons.prems by auto
  next
    case False
    then have "a \<noteq> last ps1" using Cons.prems(2) last_in_set [OF False] by auto
    moreover have "item_path h' (qi_next k) (ps1 @ ps2) (cs @ bs2)"
      by (rule Cons.IH [OF k(4)]) (use Cons.prems False bs1 in auto)
    ultimately show ?thesis using False k bs1 Cons.prems(6) by auto
  qed
qed simp

lemma unlink_item_law:
  assumes ok: "items_ok h (pss(k := ps1 @ ps2)) fl" and rep: "queue_rep h q (ps1 @ p # ps2) bs"
    and d: "distinct (ps1 @ p # ps2)" and i: "ih_cell h p = Some i"
    and prev: "prev = (if ps1 = [] then None else Some (last ps1))"
    and bs: "bs = bs1 @ b # bs2" "length bs1 = length ps1"
  shows "\<exists>q1 h1. unlink_item q prev (qi_next i) h = Some (q1, h1) \<and> queue_rep h1 q1 (ps1 @ ps2) (bs1 @ bs2)
    \<and> items_ok h1 (pss(k := ps1 @ ps2)) fl \<and> (\<forall>x. x \<notin> set ps1 \<longrightarrow> ih_cell h1 x = ih_cell h x)
    \<and> ih_ready h1 + ih_mem h1 = ih_ready h + ih_mem h \<and> ih_brk h1 = ih_brk h"
proof -
  note R = queue_repD [OF rep]
  have p2: "item_path h (qi_next i) ps2 bs2"
    using item_path_split [OF R(3)] bs i by auto
  then have nx: "qi_next i = None \<longleftrightarrow> ps2 = []" by (cases ps2) auto
  show ?thesis
  proof (cases "ps1 = []")
    case True
    let ?q = "if qi_next i = None then q\<lparr>q_first := None, q_last := None\<rparr> else q\<lparr>q_first := qi_next i\<rparr>"
    have "queue_rep h ?q ps2 bs2"
      using R(2) True p2 nx by (cases ps2) (auto simp: queue_rep_def)
    then show ?thesis
      using True prev ok bs by (intro exI [where x = ?q] exI [where x = h]) (auto simp: unlink_item_def)
  next
    case False
    have "ps1 @ p # ps2 = butlast ps1 @ last ps1 # p # ps2" using False by simp
    then obtain j where j: "ih_cell h (last ps1) = Some j"
      using item_path_split [of h _ "butlast ps1" "last ps1"] R(3) by metis
    have lp: "last ps1 \<noteq> p" "last ps1 \<notin> set fl" "last ps1 \<in> set ps1"
      using d False items_okD(7) [OF ok, of _ k] last_in_set [OF False] by auto
    let ?h = "h\<lparr>ih_cell := (ih_cell h)(last ps1 \<mapsto> j\<lparr>qi_next := qi_next i\<rparr>)\<rparr>"
    let ?q = "if qi_next i = None then q\<lparr>q_last := Some (last ps1)\<rparr> else q"
    have "free_items ?h (ih_free ?h) fl"
      by (rule free_items_cong [of h]) (use items_okD(1) [OF ok] lp in auto)
    then have "items_ok ?h (pss(k := ps1 @ ps2)) fl"
      by (rule items_ok_cong [OF ok]) (use items_okD [OF ok] in auto)
    moreover have "queue_rep ?h ?q (ps1 @ ps2) (bs1 @ bs2)"
      using item_path_del [OF R(3) d False i j, of ?h] bs R(2) False nx
      by (cases "ps2 = []") (auto simp: queue_rep_def)
    ultimately show ?thesis
      using False prev j lp by (intro exI [where x = ?q] exI [where x = ?h]) (auto simp: unlink_item_def upd_item_def)
  qed
qed

lemma comm_buf_del_law:
  assumes ok: "items_ok h pss fl" and rep: "\<And>l. queue_rep h (qs l) (pss l) (bss l)"
    and room: "room \<le> ih_ready h + ih_mem h" and ps: "pss k = ps1 @ p # ps2"
    and prev: "prev = (if ps1 = [] then None else Some (last ps1))"
    and bs: "bss k = bs1 @ b # bs2" "length bs1 = length ps1"
  shows "\<exists>q' h'. comm_buf_del (qs k) prev p h = Some (b, q', h') \<and> queues_rel (qs(k := q'), h') (Suc room) (bss(k := bs1 @ bs2))"
proof -
  have repk: "queue_rep h (qs k) (ps1 @ p # ps2) (bss k)" using rep [of k] ps by simp
  obtain i where i: "ih_cell h p = Some i" "qi_buffer i = b"
    using item_path_split [OF queue_repD(3) [OF repk]] bs by auto
  have d: "distinct (ps1 @ p # ps2)" using items_okD(6) [OF ok, of k] ps by simp
  have pm: "p \<in> set (pss k)" using ps by simp
  have "items_ok h (pss(k := ps1 @ ps2)) fl" by (rule items_ok_upd [OF ok]) (use d ps in auto)
  then obtain q1 h1 where q1: "unlink_item (qs k) prev (qi_next i) h = Some (q1, h1)" "queue_rep h1 q1 (ps1 @ ps2) (bs1 @ bs2)"
      "items_ok h1 (pss(k := ps1 @ ps2)) fl" "\<And>x. x \<notin> set ps1 \<Longrightarrow> ih_cell h1 x = ih_cell h x"
      "ih_ready h1 + ih_mem h1 = ih_ready h + ih_mem h" "ih_brk h1 = ih_brk h"
    using unlink_item_law [OF _ repk d i(1) prev bs] by blast
  have pk: "p \<notin> set ((pss(k := ps1 @ ps2)) l)" for l
    using d items_okD(9) [OF ok pm, of l] by (cases "l = k") auto
  have p1: "ih_cell h1 p = Some i" "p \<notin> set fl" "p < ih_brk h1"
    using q1(4) [of p] d i(1) items_okD(7,8) [OF ok pm] q1(6) by auto
  obtain h2 fl' where h2: "free_item p h1 = Some h2" "items_ok h2 (pss(k := ps1 @ ps2)) fl'"
      "\<And>q. q \<noteq> p \<Longrightarrow> ih_cell h2 q = ih_cell h1 q" "ih_ready h2 + ih_mem h2 = Suc (ih_ready h1 + ih_mem h1)"
    using free_item_ok [OF q1(3) p1(1,2) pk p1(3)] by blast
  have "queues_rel (qs(k := q1), h2) (Suc room) (bss(k := bs1 @ bs2))"
  proof (rule queues_rel_upd [OF h2(2) _ rep])
    show "queue_rep h2 q1 (ps1 @ ps2) (bs1 @ bs2)"
      by (rule queue_rep_cong [OF q1(2)], rule h2(3)) (use d in auto)
    fix l x assume lx: "l \<noteq> k" "x \<in> set (pss l)"
    then have "x \<notin> set ps1" "x \<noteq> p" using items_okD(9) [OF ok lx(2), of k] ps lx(1) by auto
    then show "ih_cell h2 x = ih_cell h x" using h2(3) q1(4) by simp
  qed (use h2(4) q1(5) room in linarith)
  then show ?thesis using q1(1) h2(1) i by (auto simp: comm_buf_del_def)
qed

lemma comm_buf_from_queue_law:
  assumes "queues_rel (qs, h) room bss"
  shows "\<exists>q' h'. comm_buf_from_queue (qs k) h = Some (if bss k = [] then None else Some (hd (bss k)), q', h')
    \<and> queues_rel (qs(k := q'), h') (if bss k = [] then room else Suc room) (bss(k := tl (bss k)))"
proof -
  obtain pss fl where ok: "items_ok h pss fl" and rep: "\<And>l. queue_rep h (qs l) (pss l) (bss l)"
      and room: "room \<le> ih_ready h + ih_mem h"
    using assms unfolding queues_rel_def by auto
  show ?thesis
  proof (cases "pss k")
    case Nil
    then have b: "bss k = []" "q_first (qs k) = None" using queue_repD(1) [OF rep [of k]] by auto
    then have "bss(k := []) = bss" by auto
    then show ?thesis using assms b by (simp add: comm_buf_from_queue_def)
  next
    case (Cons p ps)
    then obtain b bs where b: "bss k = b # bs" "q_first (qs k) = Some p"
      using queue_repD(3) [OF rep [of k]] by auto
    show ?thesis
      using comm_buf_del_law [OF ok rep room, of k "[]" p ps None "[]" b bs] Cons b
      by (auto simp: comm_buf_from_queue_del)
  qed
qed

definition take_first :: "('a \<Rightarrow> bool) \<Rightarrow> 'a list \<Rightarrow> 'a option \<times> 'a list" where
  "take_first P bs = (case dropWhile (\<lambda>b. \<not> P b) bs of
      [] \<Rightarrow> (None, bs) | b # bs' \<Rightarrow> (Some b, takeWhile (\<lambda>b. \<not> P b) bs @ bs'))"

lemma take_first_skip: "\<forall>b \<in> set bs1. \<not> P b \<Longrightarrow>
    take_first P (bs1 @ bs2) = (fst (take_first P bs2), bs1 @ snd (take_first P bs2))"
  by (induction bs1) (auto simp: take_first_def simp del: dropWhile_eq_Nil_conv split: list.splits)

lemma take_waiting_from:
  assumes ok: "items_ok h pss fl" and rep: "\<And>l. queue_rep h (qs l) (pss l) (bss l)"
    and room: "room \<le> ih_ready h + ih_mem h"
    and ps: "pss k = ps1 @ ps2" and bs: "bss k = bs1 @ bs2" "length bs1 = length ps1" and none: "\<forall>b \<in> set bs1. \<not> P b"
  shows "\<exists>q' h'. take_waiting P (if ps1 = [] then None else Some (last ps1)) (if ps2 = [] then None else Some (hd ps2)) (qs k) h
      = Some (fst (take_first P (bss k)), q', h')
    \<and> queues_rel (qs(k := q'), h') room (bss(k := snd (take_first P (bss k))))"
  using ps bs none
proof (induction ps2 arbitrary: ps1 bs1 bs2)
  case Nil
  then have "bs2 = []" using queue_repD(4) [OF rep [of k]] by auto
  then have t: "take_first P (bss k) = (None, bss k)" using Nil take_first_skip [of bs1 P "[]"] by (simp add: take_first_def)
  have "queues_rel (qs, h) room bss" unfolding queues_rel_def using ok rep room by auto
  then show ?case using t by (subst take_waiting.simps) simp
next
  case (Cons p ps)
  have path: "item_path h (q_first (qs k)) (ps1 @ p # ps) (bss k)" using queue_repD(3) [OF rep [of k]] Cons.prems(1) by simp
  obtain i bs3 where i: "ih_cell h p = Some i" "bs2 = qi_buffer i # bs3" "item_path h (qi_next i) ps bs3"
    using item_path_split [OF path] Cons.prems by auto
  show ?case
  proof (cases "P (qi_buffer i)")
    case True
    then have "take_first P (bss k) = (Some (qi_buffer i), bs1 @ bs3)"
      using Cons.prems i take_first_skip [of bs1 P bs2] by (simp add: take_first_def)
    moreover obtain q' h' where "comm_buf_del (qs k) (if ps1 = [] then None else Some (last ps1)) p h = Some (qi_buffer i, q', h')"
        "queues_rel (qs(k := q'), h') (Suc room) (bss(k := bs1 @ bs3))"
      using comm_buf_del_law [OF ok rep room Cons.prems(1) refl] Cons.prems i(2) by blast
    moreover have "queues_rel (qs(k := q'), h') room (bss(k := bs1 @ bs3))"
      using calculation(3) unfolding queues_rel_def by (meson Suc_leD)
    ultimately show ?thesis using True i(1) by (subst take_waiting.simps) simp
  next
    case False
    have "(if ps = [] then None else Some (hd ps)) = qi_next i" using i(3) by (cases ps) auto
    moreover have "\<forall>b \<in> set (bs1 @ [qi_buffer i]). \<not> P b" using False Cons.prems by auto
    ultimately obtain q' h' where "take_waiting P (Some p) (qi_next i) (qs k) h = Some (fst (take_first P (bss k)), q', h')"
        "queues_rel (qs(k := q'), h') room (bss(k := snd (take_first P (bss k))))"
      using Cons.IH [of "ps1 @ [p]" "bs1 @ [qi_buffer i]" bs3] Cons.prems i(2) by (auto simp del: fun_upd_apply)
    then show ?thesis
      using i(1) False by (subst take_waiting.simps) simp
  qed
qed

lemma take_waiting_law:
  assumes "queues_rel (qs, h) room bss"
  shows "\<exists>q' h'. take_waiting P None (q_first (qs k)) (qs k) h = Some (fst (take_first P (bss k)), q', h')
    \<and> queues_rel (qs(k := q'), h') room (bss(k := snd (take_first P (bss k))))"
proof -
  obtain pss fl where ok: "items_ok h pss fl" and rep: "\<And>l. queue_rep h (qs l) (pss l) (bss l)"
      and room: "room \<le> ih_ready h + ih_mem h"
    using assms unfolding queues_rel_def by auto
  have "q_first (qs k) = (if pss k = [] then None else Some (hd (pss k)))"
    using queue_repD(3) [OF rep [of k]] by (cases "pss k") auto
  then show ?thesis
    using take_waiting_from [OF ok rep room, of k "[]" "pss k" "[]" "bss k" P] by simp
qed

lemma comm_buf_peek_law:
  assumes "queues_rel (qs, h) room bss"
  shows "comm_buf_peek_first (qs k) h = Some (if bss k = [] then None else Some (hd (bss k)))"
    and "comm_buf_peek_last (qs k) h = Some (if bss k = [] then None else Some (last (bss k)))"
proof -
  obtain pss where rep: "queue_rep h (qs k) (pss k) (bss k)"
    using assms unfolding queues_rel_def by auto
  note R = queue_repD [OF rep]
  show "comm_buf_peek_first (qs k) h = Some (if bss k = [] then None else Some (hd (bss k)))"
    using R(3,4) by (cases "pss k") (auto simp: comm_buf_peek_first_def)
  show "comm_buf_peek_last (qs k) h = Some (if bss k = [] then None else Some (last (bss k)))"
    using R by (cases "pss k = []") (auto simp: comm_buf_peek_last_def)
qed

subsection \<open>The interface of the queues\<close>

definition enq_at :: "nat \<Rightarrow> nat \<Rightarrow> (nat \<Rightarrow> comm_buffer_queue_s) \<times> item_heap
    \<Rightarrow> ((nat \<Rightarrow> comm_buffer_queue_s) \<times> item_heap) outcome option" where
  "enq_at k b st = bind_res (comm_buf_to_queue (fst st k) b (snd st)) (\<lambda>(q, h). Some (Ret ((fst st)(k := q), h)))"

definition deq_at :: "nat \<Rightarrow> (nat \<Rightarrow> comm_buffer_queue_s) \<times> item_heap
    \<Rightarrow> (nat option \<times> (nat \<Rightarrow> comm_buffer_queue_s) \<times> item_heap) option" where
  "deq_at k st = map_option (\<lambda>(b, q, h). (b, (fst st)(k := q), h)) (comm_buf_from_queue (fst st k) (snd st))"

definition take_at :: "nat \<Rightarrow> (nat \<Rightarrow> bool) \<Rightarrow> (nat \<Rightarrow> comm_buffer_queue_s) \<times> item_heap
    \<Rightarrow> (nat option \<times> (nat \<Rightarrow> comm_buffer_queue_s) \<times> item_heap) option" where
  "take_at k P st = map_option (\<lambda>(b, q, h). (b, (fst st)(k := q), h))
     (take_waiting P None (q_first (fst st k)) (fst st k) (snd st))"

text \<open>The loop that empties one queue into another, as \<open>comm_buf_free\<close> does with \<open>to_wake\<close>.\<close>

partial_function (option) move_all ::
  "('b \<Rightarrow> 's \<Rightarrow> 's outcome option) \<Rightarrow> ('s \<Rightarrow> ('b option \<times> 's) option) \<Rightarrow> 's \<Rightarrow> 's outcome option" where
  "move_all enq deq s = do {
     (b, s) \<leftarrow> deq s;
     case b of
       None \<Rightarrow> Some (Ret s)
     | Some b \<Rightarrow> do {
         r \<leftarrow> enq b s;
         case r of Ret s \<Rightarrow> move_all enq deq s | Fatal m \<Rightarrow> Some (Fatal m) } }"

locale fifo_queues =
  fixes enq :: "nat \<Rightarrow> 'b \<Rightarrow> 's \<Rightarrow> 's outcome option"
    and deq :: "nat \<Rightarrow> 's \<Rightarrow> ('b option \<times> 's) option"
    and rel :: "'s \<Rightarrow> nat \<Rightarrow> (nat \<Rightarrow> 'b list) \<Rightarrow> bool"
  assumes enq_law: "rel s (Suc n) bss \<Longrightarrow> \<exists>s'. enq k b s = Some (Ret s') \<and> rel s' n (bss(k := bss k @ [b]))"
    and deq_law: "rel s n bss \<Longrightarrow> \<exists>s'. deq k s = Some (if bss k = [] then None else Some (hd (bss k)), s')
      \<and> rel s' (if bss k = [] then n else Suc n) (bss(k := tl (bss k)))"
begin

lemma move_all_law:
  assumes "k \<noteq> l" "rel s n bss"
  shows "\<exists>s'. move_all (enq l) (deq k) s = Some (Ret s') \<and> rel s' n (bss(l := bss l @ bss k, k := []))"
  using assms(2)
proof (induction "bss k" arbitrary: s bss)
  case Nil
  then have "bss(l := bss l @ bss k, k := []) = bss" "bss(k := []) = bss" using assms(1) by auto
  then show ?case
    using deq_law [OF Nil.prems, of k] Nil.hyps by (subst move_all.simps) auto
next
  case (Cons b bs)
  have bk: "bss k = b # bs" using Cons.hyps(2) by simp
  obtain s1 where s1: "deq k s = Some (Some b, s1)" "rel s1 (Suc n) (bss(k := bs))"
    using deq_law [OF Cons.prems, of k] bk by (auto simp del: fun_upd_apply)
  obtain s2 where s2: "enq l b s1 = Some (Ret s2)" "rel s2 n (bss(k := bs, l := bss l @ [b]))"
    using enq_law [OF s1(2), of l b] assms(1) by (metis fun_upd_other)
  have "\<exists>s'. move_all (enq l) (deq k) s2 = Some (Ret s') \<and> rel s' n (bss(l := bss l @ b # bs, k := []))"
    using Cons.hyps(1) [OF _ s2(2)] assms(1) by (simp add: fun_upd_twist)
  then show ?case
    using s1(1) s2(1) bk by (subst move_all.simps) (simp del: fun_upd_apply)
qed

end

lemma enq_at_law:
  assumes "queues_rel s (Suc n) bss"
  shows "\<exists>s'. enq_at k b s = Some (Ret s') \<and> queues_rel s' n (bss(k := bss k @ [b]))"
  using comm_buf_to_queue_law [of "fst s" "snd s" n bss k b] assms by (auto simp: enq_at_def)

lemma deq_at_law:
  assumes "queues_rel s n bss"
  shows "\<exists>s'. deq_at k s = Some (if bss k = [] then None else Some (hd (bss k)), s')
    \<and> queues_rel s' (if bss k = [] then n else Suc n) (bss(k := tl (bss k)))"
  using comm_buf_from_queue_law [of "fst s" "snd s" n bss k] assms by (auto simp: deq_at_def)

interpretation bufq: fifo_queues enq_at deq_at queues_rel
  by unfold_locales (fact enq_at_law, fact deq_at_law)

subsection \<open>Sequences of operations\<close>

datatype queue_op = Enq nat nat | Deq nat | Take nat "nat \<Rightarrow> bool" | First nat | Last nat | Move nat nat

fun queue_run :: "queue_op list \<Rightarrow> (nat \<Rightarrow> comm_buffer_queue_s) \<times> item_heap \<Rightarrow> nat option list outcome option" where
  "queue_run [] st = Some (Ret [])"
| "queue_run (Enq k b # ops) st = bind_res (enq_at k b st) (queue_run ops)"
| "queue_run (Move k l # ops) st = bind_res (move_all (enq_at l) (deq_at k) st) (queue_run ops)"
| "queue_run (Deq k # ops) st = do {
     (b, st) \<leftarrow> deq_at k st;
     bind_res (queue_run ops st) (\<lambda>bs. Some (Ret (b # bs))) }"
| "queue_run (Take k P # ops) st = do {
     (b, st) \<leftarrow> take_at k P st;
     bind_res (queue_run ops st) (\<lambda>bs. Some (Ret (b # bs))) }"
| "queue_run (First k # ops) st = do {
     b \<leftarrow> comm_buf_peek_first (fst st k) (snd st);
     bind_res (queue_run ops st) (\<lambda>bs. Some (Ret (b # bs))) }"
| "queue_run (Last k # ops) st = do {
     b \<leftarrow> comm_buf_peek_last (fst st k) (snd st);
     bind_res (queue_run ops st) (\<lambda>bs. Some (Ret (b # bs))) }"

fun lists_run :: "queue_op list \<Rightarrow> (nat \<Rightarrow> nat list) \<Rightarrow> nat option list" where
  "lists_run [] bss = []"
| "lists_run (Enq k b # ops) bss = lists_run ops (bss(k := bss k @ [b]))"
| "lists_run (Move k l # ops) bss = lists_run ops (bss(l := bss l @ bss k, k := []))"
| "lists_run (Deq k # ops) bss =
     (if bss k = [] then None else Some (hd (bss k))) # lists_run ops (bss(k := tl (bss k)))"
| "lists_run (Take k P # ops) bss =
     fst (take_first P (bss k)) # lists_run ops (bss(k := snd (take_first P (bss k))))"
| "lists_run (First k # ops) bss = (if bss k = [] then None else Some (hd (bss k))) # lists_run ops bss"
| "lists_run (Last k # ops) bss = (if bss k = [] then None else Some (last (bss k))) # lists_run ops bss"

fun enqueued :: "queue_op list \<Rightarrow> nat" where
  "enqueued [] = 0"
| "enqueued (Enq k b # ops) = Suc (enqueued ops)"
| "enqueued (op # ops) = enqueued ops"

fun moves_ok :: "queue_op list \<Rightarrow> bool" where
  "moves_ok [] \<longleftrightarrow> True"
| "moves_ok (Move k l # ops) \<longleftrightarrow> k \<noteq> l \<and> moves_ok ops"
| "moves_ok (op # ops) \<longleftrightarrow> moves_ok ops"

lemma queues_rel_mono: "queues_rel st m bss \<Longrightarrow> n \<le> m \<Longrightarrow> queues_rel st n bss"
  unfolding queues_rel_def by (meson le_trans)

lemma take_at_law:
  assumes "queues_rel st n bss"
  shows "\<exists>st'. take_at k P st = Some (fst (take_first P (bss k)), st')
    \<and> queues_rel st' n (bss(k := snd (take_first P (bss k))))"
  using take_waiting_law [of "fst st" "snd st" n bss P k] assms by (auto simp: take_at_def simp del: fun_upd_apply)

text \<open>C24. The linked queues of buffers behave like lists, for any number of queues that share the free
  items: any sequence of enqueueing, dequeueing, taking out the first buffer of a kind, looking at
  either end and emptying one queue into another gives what the same operations on lists give.\<close>

theorem queues_run_like_lists:
  assumes "queues_rel st (enqueued ops) bss" "moves_ok ops"
  shows "queue_run ops st = Some (Ret (lists_run ops bss))"
  using assms
proof (induction ops arbitrary: st bss)
  case (Cons op ops)
  have peek: "comm_buf_peek_first (fst st k) (snd st) = Some (if bss k = [] then None else Some (hd (bss k)))"
    "comm_buf_peek_last (fst st k) (snd st) = Some (if bss k = [] then None else Some (last (bss k)))" for k
    using comm_buf_peek_law [of "fst st" "snd st"] Cons.prems(1) by simp_all
  show ?case
  proof (cases op)
    case (Enq k b)
    then show ?thesis using enq_at_law [of st "enqueued ops" bss k b] Cons by auto
  next
    case (Deq k)
    then obtain st' where st': "deq_at k st = Some (if bss k = [] then None else Some (hd (bss k)), st')"
        "queues_rel st' (enqueued ops) (bss(k := tl (bss k)))"
      using deq_at_law [of st "enqueued ops" bss k] Cons.prems(1) queues_rel_mono [of st' "Suc (enqueued ops)" for st'] 
      by (fastforce split: if_splits)
    then show ?thesis using Cons.IH [OF st'(2)] Cons.prems Deq by (simp del: fun_upd_apply)
  next
    case (Take k P)
    then show ?thesis using take_at_law [of st "enqueued ops" bss k P] Cons by (auto simp del: fun_upd_apply)
  next
    case (Move k l)
    then show ?thesis using bufq.move_all_law [of k l st "enqueued ops" bss] Cons by (auto simp del: fun_upd_apply)
  qed (use Cons peek in auto)
qed simp

definition demo_queues :: "(nat \<Rightarrow> comm_buffer_queue_s) \<times> item_heap" where
  "demo_queues = (\<lambda>_. \<lparr>q_first = None, q_last = None\<rparr>,
     \<lparr>ih_cell = Map.empty, ih_brk = 0, ih_mem = 5, ih_ready = 0, ih_free = None\<rparr>)"

lemma demo_queues_rel: "queues_rel demo_queues (Suc (Suc (Suc (Suc (Suc 0))))) (\<lambda>_. [])"
proof -
  have "items_ok (snd demo_queues) (\<lambda>_. []) []"
    by (simp add: items_ok_def demo_queues_def)
  moreover have "\<forall>k. queue_rep (snd demo_queues) (fst demo_queues k) [] []"
    by (simp add: queue_rep_def demo_queues_def)
  ultimately show ?thesis
    unfolding queues_rel_def by (intro exI [where x = "\<lambda>_. []"] exI [where x = "[]"]) (simp add: demo_queues_def)
qed

theorem queues_run_like_lists_witness:
  "queue_run [Enq 0 7, Enq 1 8, Enq 0 9, Take 0 (\<lambda>b. b = 9), Enq 0 3, Last 0, Move 0 1, First 0, Deq 1, Enq 0 5, Deq 1, Deq 1, Deq 1]
     demo_queues = Some (Ret [Some 9, Some 3, None, Some 8, Some 7, Some 3, None])"
  by (subst queues_run_like_lists [where bss = "\<lambda>_. []"]) (simp_all add: demo_queues_rel take_first_def)

end
