(* ===== verification/Comm_Buf.thy ===== *)
theory Comm_Buf
  imports Generic Exec_Stack Buffer_Queues
begin

text \<open>
  Communication buffers and the worker (\<open>comm_buf.c\<close>, \<open>comm.c\<close>). Buffers are cells of a store; a
  connection is a number. Queues of buffers are lists, which \<open>Buffer_Queues\<close> justifies, with the
  semaphores that count them; the allocation of a queue item is taken to succeed (the program exits
  otherwise). Locks are not part of the model: an operation is one step. A buffer's \<open>p_comm_buf\<close> points to
  the bytes of a buffer or to the data of an object; \<open>var_data\<close> is an offset in the buffer's own
  bytes. The number 0 is the null pointer of stack chunks.

  \<open>None\<close> is a null or dangling pointer or an access outside a buffer, \<open>Some (Fatal m)\<close> the exit by
  \<open>fatal()\<close>. \<open>co_input\<close> holds the bytes that the peer of a connection will still send, \<open>co_sent\<close> the
  messages written to it; \<open>w_objs\<close> are the objects of the configuration's variables,
  \<open>w_fetch_id\<close> and \<open>w_update_id\<close> the static counters of requests, and \<open>w_st\<close> is the
  rest of the program's state, on which event handlers act.
\<close>

datatype obj_ref = Ctx_operation nat | Ctx_subject nat | Ctx_object nat | Var nat
datatype user_ptr = Null_ptr | Obj_ptr obj_ref | Buf_ptr nat
datatype data_ptr = In_buf nat | In_obj obj_ref

text \<open>The functions that a buffer's \<open>completed\<close> may point to.\<close>

datatype mcp_fn = R_greeting | R_head | R_query | R_classdef_attr | R_acctypedef_attr | R_discard
  | R_ready_request | R_fetch_answer | R_fetch_answer_done | R_update_answer

record wait_info_s =
  wi_to :: "32 word"
  wi_cid :: "64 word"
  wi_seq :: "64 word"

record 'st comm_buffer_s =
  b_next :: "nat option"
  b_n :: int
  b_size :: int
  b_id :: "32 word"
  b_comm :: "nat option"
  b_open_counter :: int
  b_user1 :: user_ptr
  b_user_data :: int
  b_execute :: execute_s
  b_do_phase :: nat
  b_ehh_list :: nat
  b_hh :: "event_hadler_hash_s list"
  b_ch :: "'st tree_handler list"
  b_context :: event_context_s
  b_event :: "nat option"
  b_init_handler :: "nat option"
  b_to_wake :: "nat list"
  b_waiting :: wait_info_s
  b_len :: int
  b_want :: int
  b_completed :: "mcp_fn option"
  b_var_data :: "nat option"
  b_p_comm_buf :: data_ptr
  b_comm_buf :: bytes

record comm_s =
  co_fd :: int
  co_open_counter :: int
  co_state :: int
  co_init_buffer :: "nat option"
  co_flags :: "32 word"
  co_version :: "64 word"
  co_classes :: "nat hash_s"
  co_events :: "nat hash_s"
  co_output :: "nat list"
  co_output_sem :: nat
  co_wait_for_answer :: "nat list"
  co_input :: bytes
  co_sent :: "bytes list"

record 'st world =
  w_buf :: "nat \<Rightarrow> 'st comm_buffer_s option"
  w_brk :: nat
  w_mem :: nat
  w_buffers :: "nat option list"
  w_buf_id :: "32 word"
  w_stacks :: "64 word stack_heap"
  w_todo :: "nat list"
  w_todo_sem :: nat
  w_comm :: "nat \<Rightarrow> comm_s"
  w_function_init :: "nat option"
  w_var_data_size :: int
  w_cs :: "'st tree_handler class_state"
  w_es :: event_state
  w_objs :: "nat \<Rightarrow> object_s option"
  w_fetch_id :: "64 word"
  w_update_id :: "64 word"
  w_st :: 'st

definition upd_buf :: "nat \<Rightarrow> ('st comm_buffer_s \<Rightarrow> 'st comm_buffer_s) \<Rightarrow> 'st world \<Rightarrow> 'st world" where
  "upd_buf b f w = w\<lparr>w_buf := (w_buf w)(b := map_option f (w_buf w b))\<rparr>"

definition upd_comm :: "nat \<Rightarrow> (comm_s \<Rightarrow> comm_s) \<Rightarrow> 'st world \<Rightarrow> 'st world" where
  "upd_comm c f w = w\<lparr>w_comm := (w_comm w)(c := f (w_comm w c))\<rparr>"

subsection \<open>Buffers\<close>

definition zero_execute :: "nat \<Rightarrow> execute_s" where
  "zero_execute p = \<lparr>ex_stack = p, ex_pos = 0, ex_base = 0, ex_start = 0, ex_p = 0, ex_fn_getsval_p = 0,
     ex_cont = 0, ex_h = None, ex_c = None, ex_keep_stack = False, ex_comm = None, ex_my_comm_buff = None\<rparr>"

definition zero_context :: event_context_s where
  "zero_context = \<lparr>ec_operation = empty_object, ec_subject = empty_object, ec_object = empty_object,
     ec_result = 0, ec_unhandled = False\<rparr>"

text \<open>\<open>malloc_buf\<close>: \<open>b\<close> is the address of the new buffer, \<open>p\<close> its stack.\<close>

definition zero_buf :: "nat \<Rightarrow> nat \<Rightarrow> int \<Rightarrow> 'st comm_buffer_s" where
  "zero_buf b p sz = \<lparr>b_next = None, b_n = -1, b_size = sz, b_id = 0, b_comm = None, b_open_counter = 0,
     b_user1 = Null_ptr, b_user_data = 0, b_execute = zero_execute p, b_do_phase = 0, b_ehh_list = 0,
     b_hh = [], b_ch = [], b_context = zero_context, b_event = None, b_init_handler = None, b_to_wake = [],
     b_waiting = \<lparr>wi_to = 0, wi_cid = 0, wi_seq = 0\<rparr>, b_len = 0, b_want = 0, b_completed = None,
     b_var_data = None, b_p_comm_buf = In_buf b, b_comm_buf = replicate (nat sz) 0\<rparr>"

definition malloc_buf :: "int \<Rightarrow> 'st world \<Rightarrow> (nat \<times> 'st world) outcome option" where
  "malloc_buf sz w =
     (if w_mem w = 0 then Some (Fatal Out_of_memory)
      else do {
        (p, h) \<leftarrow> execute_get_stack (w_stacks w);
        let b = w_brk w;
        Some (Ret (b, w\<lparr>w_mem := w_mem w - 1, w_brk := b + 1, w_stacks := h,
          w_buf := (w_buf w)(b \<mapsto> zero_buf b (case p of None \<Rightarrow> 0 | Some p \<Rightarrow> p) sz)\<rparr>)) })"

definition comm_buf_init :: "nat \<Rightarrow> 'st world \<Rightarrow> 'st comm_buffer_s \<Rightarrow> 'st comm_buffer_s" where
  "comm_buf_init c w x =
     x\<lparr>b_comm := Some c, b_open_counter := co_open_counter (w_comm w c),
       b_execute := (b_execute x)\<lparr>ex_pos := 0, ex_base := 0, ex_h := None, ex_c := None, ex_keep_stack := False\<rparr>,
       b_do_phase := 0, b_ehh_list := EHH_VS_ALLOW, b_var_data := None,
       b_waiting := \<lparr>wi_to = 0, wi_cid = 0, wi_seq = 0\<rparr>\<rparr>"

text \<open>The first list of free buffers whose first buffer is large enough.\<close>

definition fits :: "int \<Rightarrow> 'st world \<Rightarrow> nat \<Rightarrow> bool option" where
  "fits sz w i =
     (case w_buffers w ! i of
        None \<Rightarrow> Some False
      | Some b \<Rightarrow> map_option (\<lambda>x. sz \<le> b_size x) (w_buf w b))"

fun pick_list :: "int \<Rightarrow> 'st world \<Rightarrow> nat list \<Rightarrow> nat option option" where
  "pick_list sz w [] = Some None"
| "pick_list sz w (i # is) =
     (case fits sz w i of
        None \<Rightarrow> None
      | Some True \<Rightarrow> Some (Some i)
      | Some False \<Rightarrow> pick_list sz w is)"

definition comm_buf_get :: "int \<Rightarrow> nat \<Rightarrow> 'st world \<Rightarrow> (nat \<times> 'st world) outcome option" where
  "comm_buf_get sz c w0 =
     (let id = w_buf_id w0; w = w0\<lparr>w_buf_id := id + 1\<rparr> in
      case pick_list sz w [0..<length (w_buffers w)] of
        None \<Rightarrow> None
      | Some None \<Rightarrow>
          bind_res (malloc_buf sz w) (\<lambda>(b, w).
            Some (Ret (b, upd_buf b (\<lambda>x. comm_buf_init c w (x\<lparr>b_id := id\<rparr>)) w)))
      | Some (Some i) \<Rightarrow> do {
          b \<leftarrow> w_buffers w ! i;
          x \<leftarrow> w_buf w b;
          Some (Ret (b, upd_buf b (\<lambda>x. comm_buf_init c w
              (x\<lparr>b_len := 0, b_want := 0, b_p_comm_buf := In_buf b, b_completed := None, b_to_wake := [],
                 b_init_handler := None, b_id := id\<rparr>))
            (w\<lparr>w_buffers := (w_buffers w)[i := b_next x]\<rparr>))) })"

subsection \<open>Queues with semaphores\<close>

definition comm_buf_todo :: "nat \<Rightarrow> 'st world \<Rightarrow> 'st world" where
  "comm_buf_todo b w = w\<lparr>w_todo := w_todo w @ [b], w_todo_sem := w_todo_sem w + 1\<rparr>"

definition comm_buf_output_enqueue :: "nat \<Rightarrow> nat \<Rightarrow> 'st world \<Rightarrow> 'st world" where
  "comm_buf_output_enqueue c b =
     upd_comm c (\<lambda>co. co\<lparr>co_output := co_output co @ [b], co_output_sem := co_output_sem co + 1\<rparr>)"

subsection \<open>Release of a buffer\<close>

definition MEDUSA_COMM_READY_ANSWER :: "64 word" where "MEDUSA_COMM_READY_ANSWER = 0x86"

definition mcp_ready_answer :: "nat \<Rightarrow> 'st world \<Rightarrow> 'st world outcome option" where
  "mcp_ready_answer c w =
     bind_res (comm_buf_get 8 c w) (\<lambda>(r, w).
       Some (Ret (comm_buf_output_enqueue c r
         (upd_buf r (\<lambda>x. x\<lparr>b_comm_buf := put_bytes 0 (ptr_bytes MEDUSA_COMM_READY_ANSWER) (b_comm_buf x),
            b_len := 8, b_want := 0, b_completed := None\<rparr>) w))))"

text \<open>The end of \<open>comm_buf_free\<close>: back to the list of free buffers, or to \<open>free\<close>.\<close>

definition release :: "nat \<Rightarrow> 'st world \<Rightarrow> 'st world option" where
  "release b w = do {
     x \<leftarrow> w_buf w b;
     if 0 \<le> b_n x then
       (if nat (b_n x) < length (w_buffers w) then
          Some (upd_buf b (\<lambda>x. x\<lparr>b_next := w_buffers w ! nat (b_n x)\<rparr>) w
            \<lparr>w_buffers := (w_buffers w)[nat (b_n x) := Some b]\<rparr>)
        else None)
     else do {
       h \<leftarrow> execute_put_stack (ex_stack (b_execute x)) (w_stacks w);
       Some (w\<lparr>w_stacks := h, w_buf := (w_buf w)(b := None)\<rparr>) } }"

definition is_init_buffer :: "nat \<Rightarrow> 'st comm_buffer_s \<Rightarrow> 'st world \<Rightarrow> bool" where
  "is_init_buffer b x w \<longleftrightarrow> w_function_init w \<noteq> None \<and>
     (case b_comm x of None \<Rightarrow> False
      | Some c \<Rightarrow> 2 < co_version (w_comm w c) \<and> co_init_buffer (w_comm w c) = Some b)"

definition comm_buf_free :: "nat \<Rightarrow> 'st world \<Rightarrow> 'st world outcome option" where
  "comm_buf_free b w = do {
     x \<leftarrow> w_buf w b;
     let w = upd_buf b (\<lambda>x. x\<lparr>b_to_wake := []\<rparr>)
               (w\<lparr>w_todo := w_todo w @ b_to_wake x, w_todo_sem := w_todo_sem w + length (b_to_wake x)\<rparr>);
     bind_res (if is_init_buffer b x w then mcp_ready_answer (the (b_comm x)) w else Some (Ret w))
       (\<lambda>w. map_option Ret (release b w)) }"

subsection \<open>Growth of a buffer\<close>

definition comm_buf_resize :: "int \<Rightarrow> nat \<Rightarrow> 'st world \<Rightarrow> (nat \<times> 'st world) outcome option" where
  "comm_buf_resize sz b w = do {
     x \<leftarrow> w_buf w b;
     if sz \<le> b_size x then Some (Ret (b, w))
     else if b_var_data x \<noteq> None then Some (Fatal ''Can't resize comm buffer with var_data!'')
     else do {
       c \<leftarrow> b_comm x;
       bind_res (comm_buf_get sz c w) (\<lambda>(n, w). do {
         x \<leftarrow> w_buf w b;
         y \<leftarrow> w_buf w n;
         if 0 \<le> b_len x \<and> nat (b_len x) \<le> length (b_comm_buf x) \<and> nat (b_len x) \<le> length (b_comm_buf y) then
           bind_res (comm_buf_free b (upd_buf b (\<lambda>x. x\<lparr>b_to_wake := []\<rparr>)
             (upd_buf n (\<lambda>_. x\<lparr>b_id := b_id y, b_n := b_n y, b_size := b_size y, b_next := b_next y,
                b_comm_buf := put_bytes 0 (take (nat (b_len x)) (b_comm_buf x)) (b_comm_buf y)\<rparr>) w)))
             (\<lambda>w. Some (Ret (n, w)))
         else None }) } }"

subsection \<open>Initialisation\<close>

definition buffers_init :: "'st world \<Rightarrow> 'st world" where
  "buffers_init w = w\<lparr>w_todo := [], w_buffers := [None, None], w_todo_sem := 0\<rparr>"

definition add_free_buffer :: "int \<Rightarrow> int \<Rightarrow> 'st world \<Rightarrow> 'st world outcome option" where
  "add_free_buffer sz n w =
     bind_res (malloc_buf sz w) (\<lambda>(b, w). comm_buf_free b (upd_buf b (\<lambda>x. x\<lparr>b_n := n\<rparr>) w))"

fun alloc_pairs :: "nat \<Rightarrow> 'st world \<Rightarrow> (int \<times> 'st world) outcome option" where
  "alloc_pairs 0 w = Some (Ret (0, w))"
| "alloc_pairs (Suc num) w =
     bind_res (add_free_buffer 4096 0 w) (\<lambda>w.
       bind_res (add_free_buffer 8192 1 w) (\<lambda>w.
         bind_res (alloc_pairs num w) (\<lambda>(n, w). Some (Ret (n + 2, w)))))"

definition buffers_alloc :: "nat \<Rightarrow> 'st world \<Rightarrow> (int \<times> 'st world) outcome option" where
  "buffers_alloc connections w =
     bind_res (alloc_pairs connections w) (\<lambda>(n, w). Some (Ret (if n = 0 then -1 else n, w)))"

subsection \<open>Who owns a buffer\<close>

fun pool_path :: "(nat \<Rightarrow> 'st comm_buffer_s option) \<Rightarrow> nat \<Rightarrow> nat option \<Rightarrow> nat list \<Rightarrow> bool" where
  "pool_path B i p [] \<longleftrightarrow> p = None"
| "pool_path B i p (b # bs) \<longleftrightarrow> p = Some b \<and> (\<exists>x. B b = Some x \<and> b_n x = int i \<and> pool_path B i (b_next x) bs)"

definition buf_ok :: "nat \<Rightarrow> 'st comm_buffer_s \<Rightarrow> bool" where
  "buf_ok k x \<longleftrightarrow> length (b_comm_buf x) = nat (b_size x) \<and> b_n x < int k"

definition bufs_ok :: "'st world \<Rightarrow> nat list list \<Rightarrow> bool" where
  "bufs_ok w pls \<longleftrightarrow> length (w_buffers w) = length pls
     \<and> (\<forall>i < length pls. pool_path (w_buf w) i (w_buffers w ! i) (pls ! i)) \<and> distinct (concat pls)
     \<and> (\<forall>b x. w_buf w b = Some x \<longrightarrow> b < w_brk w \<and> buf_ok (length pls) x)"

definition in_use :: "'st world \<Rightarrow> nat list list \<Rightarrow> nat set" where
  "in_use w pls = {b. w_buf w b \<noteq> None} - set (concat pls)"

lemma pool_path_cong:
  "pool_path B i p bs \<Longrightarrow> (\<And>b x. b \<in> set bs \<Longrightarrow> B b = Some x \<Longrightarrow> \<exists>y. B' b = Some y \<and> b_n y = b_n x \<and> b_next y = b_next x)
     \<Longrightarrow> pool_path B' i p bs"
proof (induction bs arbitrary: p)
  case (Cons b bs)
  then obtain x where x: "p = Some b" "B b = Some x" "b_n x = int i" "pool_path B i (b_next x) bs" by auto
  then obtain y where "B' b = Some y" "b_n y = b_n x" "b_next y = b_next x" using Cons.prems(2) [of b x] by auto
  then show ?case using x Cons.IH [OF x(4)] Cons.prems(2) by auto
qed auto

lemma pool_path_allocated: "pool_path B i p bs \<Longrightarrow> b \<in> set bs \<Longrightarrow> B b \<noteq> None"
  by (induction bs arbitrary: p) auto

lemma bufs_okD:
  assumes "bufs_ok w pls"
  shows "length (w_buffers w) = length pls" "\<And>i. i < length pls \<Longrightarrow> pool_path (w_buf w) i (w_buffers w ! i) (pls ! i)"
    "distinct (concat pls)" "\<And>b x. w_buf w b = Some x \<Longrightarrow> b < w_brk w \<and> buf_ok (length pls) x"
  using assms unfolding bufs_ok_def by blast+

text \<open>What may change in the buffers without harm to the lists of free ones.\<close>

definition keeps :: "('st comm_buffer_s \<Rightarrow> 'st comm_buffer_s) \<Rightarrow> bool" where
  "keeps f \<longleftrightarrow> (\<forall>x. b_n (f x) = b_n x \<and> b_next (f x) = b_next x \<and> b_size (f x) = b_size x
     \<and> length (b_comm_buf (f x)) = length (b_comm_buf x))"

lemma bufs_ok_cong:
  assumes "bufs_ok w pls" "w_buffers w' = w_buffers w" "w_brk w' = w_brk w"
    "\<And>b. w_buf w' b = w_buf w b \<or> (\<exists>f. keeps f \<and> w_buf w' b = map_option f (w_buf w b))"
  shows "bufs_ok w' pls \<and> in_use w' pls = in_use w pls"
proof -
  have rel: "\<exists>y. w_buf w' b = Some y \<and> b_n y = b_n x \<and> b_next y = b_next x" if "w_buf w b = Some x" for b x
    using assms(4) [of b] that by (auto simp: keeps_def)
  have "pool_path (w_buf w') i (w_buffers w' ! i) (pls ! i)" if "i < length pls" for i
    by (subst assms(2), rule pool_path_cong [OF bufs_okD(2) [OF assms(1) that]]) (rule rel)
  moreover have "b < w_brk w' \<and> buf_ok (length pls) x" if z: "w_buf w' b = Some x" for b x
  proof -
    obtain y where "w_buf w b = Some y" "b_n x = b_n y" "b_size x = b_size y" "length (b_comm_buf x) = length (b_comm_buf y)"
      using assms(4) [of b] z by (cases "w_buf w b") (auto simp: keeps_def)
    then show ?thesis using bufs_okD(4) [OF assms(1), of b y] assms(3) by (simp add: buf_ok_def)
  qed
  moreover have "w_buf w' b \<noteq> None \<longleftrightarrow> w_buf w b \<noteq> None" for b
    using assms(4) [of b] by (cases "w_buf w b") auto
  ultimately show ?thesis
    using assms(1,2) by (auto simp: bufs_ok_def in_use_def)
qed

lemma bufs_ok_upd_buf:
  assumes "bufs_ok w pls" "keeps f"
  shows "bufs_ok (upd_buf b f w) pls \<and> in_use (upd_buf b f w) pls = in_use w pls"
  by (rule bufs_ok_cong [OF assms(1)]) (use assms(2) in \<open>auto simp: upd_buf_def\<close>)

lemma pick_list_pool: "pick_list sz w is = Some (Some i) \<Longrightarrow> i \<in> set is \<and> fits sz w i = Some True"
  by (induction "is") (auto split: option.splits bool.splits)

text \<open>\<open>comm_buf_get\<close>: what a successful call leaves.\<close>

definition fresh_for :: "int \<Rightarrow> nat \<Rightarrow> nat \<Rightarrow> 'st comm_buffer_s \<Rightarrow> bool" where
  "fresh_for sz c b y \<longleftrightarrow> sz \<le> b_size y \<and> b_comm y = Some c \<and> b_p_comm_buf y = In_buf b \<and> b_completed y = None
     \<and> b_to_wake y = [] \<and> b_len y = 0 \<and> b_want y = 0 \<and> b_do_phase y = 0 \<and> b_ehh_list y = EHH_VS_ALLOW
     \<and> b_var_data y = None \<and> b_init_handler y = None"

definition same_but_buf :: "nat \<Rightarrow> 'st world \<Rightarrow> 'st world \<Rightarrow> bool" where
  "same_but_buf b w w' \<longleftrightarrow> (\<forall>a. a \<noteq> b \<longrightarrow> w_buf w' a = w_buf w a) \<and> w_todo w' = w_todo w \<and> w_todo_sem w' = w_todo_sem w
     \<and> w_comm w' = w_comm w \<and> w_function_init w' = w_function_init w \<and> w_cs w' = w_cs w \<and> w_es w' = w_es w
     \<and> w_objs w' = w_objs w \<and> w_fetch_id w' = w_fetch_id w \<and> w_update_id w' = w_update_id w \<and> w_st w' = w_st w
     \<and> w_var_data_size w' = w_var_data_size w"

lemma malloc_bufD:
  assumes "malloc_buf sz w = Some (Ret (b, w'))"
  shows "\<exists>p. b = w_brk w \<and> w_buf w' = (w_buf w)(b \<mapsto> zero_buf b p sz) \<and> w_brk w' = b + 1
    \<and> w_buffers w' = w_buffers w \<and> same_but_buf b w w' \<and> w_buf_id w' = w_buf_id w"
  using assms by (auto simp: malloc_buf_def Let_def bind_eq_Some_conv same_but_buf_def split: if_splits)

text \<open>A new buffer, and one taken out of the pool \<open>i\<close>.\<close>

lemma bufs_ok_new:
  assumes ok: "bufs_ok w pls" and new: "w_buf w b = None" "w_buf w' = (w_buf w)(b \<mapsto> x)" "b = w_brk w" "w_brk w' = b + 1"
    "w_buffers w' = w_buffers w" "buf_ok (length pls) x"
  shows "bufs_ok w' pls \<and> in_use w' pls = insert b (in_use w pls)"
proof -
  note D = bufs_okD [OF ok]
  have bn: "b \<notin> set (concat pls)"
    using pool_path_allocated [OF D(2)] new(1) by (fastforce simp: in_set_conv_nth)
  have "pool_path (w_buf w') i (w_buffers w' ! i) (pls ! i)" if "i < length pls" for i
    by (subst new(5), rule pool_path_cong [OF D(2) [OF that]]) (use bn that new(2) in auto)
  moreover have "a < w_brk w' \<and> buf_ok (length pls) y" if "w_buf w' a = Some y" for a y
    using that new(2,3,4,6) D(4) [of a y] by (auto split: if_splits)
  ultimately show ?thesis
    using D(1,3) new(2,5) bn by (auto simp: bufs_ok_def in_use_def)
qed

lemma concat_update:
  "i < length pls \<Longrightarrow> pls ! i = b # bs \<Longrightarrow> distinct (concat pls) \<Longrightarrow>
     distinct (concat (pls[i := bs])) \<and> b \<in> set (concat pls) \<and> set (concat (pls[i := bs])) = set (concat pls) - {b}"
proof (induction pls arbitrary: i)
  case (Cons ps pls)
  then show ?case by (cases i) auto
qed simp

lemma bufs_ok_take:
  assumes ok: "bufs_ok w pls" and i: "i < length pls" "w_buffers w ! i = Some b" "w_buf w b = Some x"
    and w': "w_buffers w' = (w_buffers w)[i := b_next x]" "w_buf w' = (w_buf w)(b \<mapsto> y)" "w_brk w' = w_brk w" "buf_ok (length pls) y"
  shows "\<exists>pls'. bufs_ok w' pls' \<and> b \<notin> in_use w pls \<and> in_use w' pls' = insert b (in_use w pls) \<and> length pls' = length pls"
proof -
  note D = bufs_okD [OF ok]
  obtain bs where bs: "pls ! i = b # bs" "pool_path (w_buf w) i (b_next x) bs"
    using D(2) [OF i(1)] i(2,3) by (cases "pls ! i") auto
  note cu = concat_update [OF i(1) bs(1) D(3)]
  have nb: "b \<notin> set ((pls[i := bs]) ! j)" if "j < length pls" for j
    using cu that nth_mem [of j "pls[i := bs]"] by fastforce
  have "pool_path (w_buf w') j (w_buffers w' ! j) (pls[i := bs] ! j)" if j: "j < length pls" for j
  proof (cases "j = i")
    case True
    have "pool_path (w_buf w') i (b_next x) bs"
      by (rule pool_path_cong [OF bs(2)]) (use nb [OF i(1)] i(1) w'(2) in auto)
    then show ?thesis using True i(1) w'(1) D(1) by simp
  next
    case False
    then have "pool_path (w_buf w') j (w_buffers w ! j) (pls ! j)"
      by (intro pool_path_cong [OF D(2) [OF j]]) (use nb [OF j] w'(2) in auto)
    then show ?thesis using False w'(1) by simp
  qed
  moreover have "a < w_brk w' \<and> buf_ok (length pls) z" if "w_buf w' a = Some z" for a z
    using that w'(2-4) D(4) [of a z] D(4) [OF i(3)] by (auto split: if_splits)
  ultimately have "bufs_ok w' (pls[i := bs])"
    using D(1) cu w'(1) by (simp add: bufs_ok_def)
  moreover have "in_use w' (pls[i := bs]) = insert b (in_use w pls)" "b \<notin> in_use w pls"
    using cu i(3) w'(2) by (auto simp: in_use_def)
  ultimately show ?thesis by (intro exI [where x = "pls[i := bs]"]) simp
qed

lemma comm_buf_get_cases:
  assumes "comm_buf_get sz c w = Some (Ret (b, w'))"
  obtains (new) w1 where "malloc_buf sz (w\<lparr>w_buf_id := w_buf_id w + 1\<rparr>) = Some (Ret (b, w1))"
      "w' = upd_buf b (\<lambda>x. comm_buf_init c w1 (x\<lparr>b_id := w_buf_id w\<rparr>)) w1"
  | (pool) i x where "pick_list sz (w\<lparr>w_buf_id := w_buf_id w + 1\<rparr>) [0..<length (w_buffers w)] = Some (Some i)"
      "w_buffers w ! i = Some b" "w_buf w b = Some x"
      "w' = upd_buf b (\<lambda>x. comm_buf_init c (w\<lparr>w_buf_id := w_buf_id w + 1\<rparr>) (x\<lparr>b_len := 0, b_want := 0, b_p_comm_buf := In_buf b,
          b_completed := None, b_to_wake := [], b_init_handler := None, b_id := w_buf_id w\<rparr>))
        (w\<lparr>w_buf_id := w_buf_id w + 1, w_buffers := (w_buffers w)[i := b_next x]\<rparr>)"
  using assms unfolding comm_buf_get_def Let_def
  by (auto split: option.splits simp: bind_eq_Some_conv)

lemma comm_buf_get_ok:
  assumes ok: "bufs_ok w pls" and get: "comm_buf_get sz c w = Some (Ret (b, w'))"
  shows "\<exists>pls' y. bufs_ok w' pls' \<and> b \<notin> in_use w pls \<and> in_use w' pls' = insert b (in_use w pls) \<and> length pls' = length pls
    \<and> same_but_buf b w w' \<and> w_buf w' b = Some y \<and> fresh_for sz c b y \<and> b_open_counter y = co_open_counter (w_comm w c)"
proof -
  note D = bufs_okD [OF ok]
  let ?w = "w\<lparr>w_buf_id := w_buf_id w + 1\<rparr>"
  show ?thesis
    using get
  proof (cases rule: comm_buf_get_cases)
    case (new w1)
    obtain p where p: "b = w_brk w" "w_buf w1 = (w_buf w)(b \<mapsto> zero_buf b p sz)" "w_brk w1 = b + 1"
        "w_buffers w1 = w_buffers w" "same_but_buf b w w1"
      using malloc_bufD [OF new(1)] by (auto simp: same_but_buf_def)
    let ?y = "comm_buf_init c w1 ((zero_buf b p sz)\<lparr>b_id := w_buf_id w\<rparr>)"
    have none: "w_buf w b = None" using D(4) [of b] p(1) by (cases "w_buf w b") auto
    have w': "w_buf w' = (w_buf w)(b \<mapsto> ?y)" using new(2) p(2) by (simp add: upd_buf_def)
    have "bufs_ok w' pls \<and> in_use w' pls = insert b (in_use w pls)"
      by (rule bufs_ok_new [OF ok none w' p(1)])
        (use new(2) p(3,4) in \<open>simp_all add: upd_buf_def buf_ok_def comm_buf_init_def zero_buf_def\<close>)
    moreover have "same_but_buf b w w'" using p(5) new(2) by (simp add: same_but_buf_def upd_buf_def)
    moreover have "fresh_for sz c b ?y" "b_open_counter ?y = co_open_counter (w_comm w c)"
      using p(5) by (simp_all add: fresh_for_def comm_buf_init_def zero_buf_def same_but_buf_def)
    ultimately show ?thesis using w' none by (intro exI [where x = pls] exI [where x = ?y]) (simp add: in_use_def)
  next
    case (pool i x)
    have i: "i < length pls" "sz \<le> b_size x"
      using pick_list_pool [OF pool(1)] pool(2,3) D(1) by (auto simp: fits_def)
    let ?y = "comm_buf_init c ?w (x\<lparr>b_len := 0, b_want := 0, b_p_comm_buf := In_buf b,
          b_completed := None, b_to_wake := [], b_init_handler := None, b_id := w_buf_id w\<rparr>)"
    have w': "w_buf w' = (w_buf w)(b \<mapsto> ?y)" using pool(3,4) by (simp add: upd_buf_def)
    obtain pls' where "bufs_ok w' pls'" "b \<notin> in_use w pls" "in_use w' pls' = insert b (in_use w pls)" "length pls' = length pls"
      using bufs_ok_take [OF ok i(1) pool(2,3) _ w'] pool(4) D(4) [OF pool(3)]
      by (auto simp: upd_buf_def buf_ok_def comm_buf_init_def)
    moreover have "same_but_buf b w w'" using pool(4) by (simp add: same_but_buf_def upd_buf_def)
    moreover have "fresh_for sz c b ?y" "b_open_counter ?y = co_open_counter (w_comm w c)"
      using i(2) by (simp_all add: fresh_for_def comm_buf_init_def)
    ultimately show ?thesis using w' by (intro exI [where x = pls'] exI [where x = ?y]) simp
  qed
qed

text \<open>\<open>comm_buf_free\<close>.\<close>

lemma concat_insert:
  "i < length pls \<Longrightarrow> b \<notin> set (concat pls) \<Longrightarrow> distinct (concat pls) \<Longrightarrow>
     distinct (concat (pls[i := b # pls ! i])) \<and> set (concat (pls[i := b # pls ! i])) = insert b (set (concat pls))"
proof (induction pls arbitrary: i)
  case (Cons ps pls)
  then show ?case by (cases i) auto
qed simp

lemma bufs_ok_put:
  assumes ok: "bufs_ok w pls" and b: "b \<in> in_use w pls" "w_buf w b = Some x" "b_n x = int i" "i < length pls"
    and w': "w_buffers w' = (w_buffers w)[i := Some b]" "w_buf w' = (w_buf w)(b \<mapsto> x\<lparr>b_next := w_buffers w ! i\<rparr>)"
      "w_brk w' = w_brk w"
  shows "\<exists>pls'. bufs_ok w' pls' \<and> in_use w' pls' = in_use w pls - {b} \<and> length pls' = length pls"
proof -
  note D = bufs_okD [OF ok]
  have nb: "b \<notin> set (pls ! j)" if "j < length pls" for j
    using b(1) nth_mem [OF that] by (auto simp: in_use_def)
  have path: "pool_path (w_buf w') j (w_buffers w ! j) (pls ! j)" if "j < length pls" for j
    by (rule pool_path_cong [OF D(2) [OF that]]) (use nb [OF that] w'(2) in auto)
  have "pool_path (w_buf w') j (w_buffers w' ! j) (pls[i := b # pls ! i] ! j)" if "j < length pls" for j
    using path [OF that] w'(1,2) b(3,4) D(1) by (cases "j = i") auto
  moreover have "a < w_brk w' \<and> buf_ok (length pls) z" if "w_buf w' a = Some z" for a z
    using that w'(2,3) D(4) [of a z] D(4) [OF b(2)] by (auto simp: buf_ok_def split: if_splits)
  moreover have "b \<notin> set (concat pls)" using b(1) by (simp add: in_use_def)
  note concat_insert [OF b(4) this D(3)]
  ultimately have "bufs_ok w' (pls[i := b # pls ! i])" "in_use w' (pls[i := b # pls ! i]) = in_use w pls - {b}"
    using D(1) w'(1,2) b(2) by (auto simp: bufs_ok_def in_use_def)
  then show ?thesis by (intro exI [where x = "pls[i := b # pls ! i]"]) simp
qed

lemma bufs_ok_drop:
  assumes ok: "bufs_ok w pls" and b: "b \<in> in_use w pls"
    and w': "w_buffers w' = w_buffers w" "w_buf w' = (w_buf w)(b := None)" "w_brk w' = w_brk w"
  shows "bufs_ok w' pls \<and> in_use w' pls = in_use w pls - {b}"
proof -
  note D = bufs_okD [OF ok]
  have "pool_path (w_buf w') j (w_buffers w' ! j) (pls ! j)" if "j < length pls" for j
    by (subst w'(1), rule pool_path_cong [OF D(2) [OF that]])
      (use b nth_mem [OF that] w'(2) in \<open>auto simp: in_use_def\<close>)
  moreover have "a < w_brk w' \<and> buf_ok (length pls) z" if "w_buf w' a = Some z" for a z
    using that w'(2,3) D(4) [of a z] by (auto split: if_splits)
  ultimately show ?thesis
    using D(1,3) w'(1,2) by (auto simp: bufs_ok_def in_use_def)
qed

lemma release_ok:
  assumes ok: "bufs_ok w pls" and b: "b \<in> in_use w pls" and rel: "release b w = Some w'"
  shows "\<exists>pls'. bufs_ok w' pls' \<and> in_use w' pls' = in_use w pls - {b} \<and> length pls' = length pls \<and> same_but_buf b w w'"
proof -
  obtain x where x: "w_buf w b = Some x" using b by (auto simp: in_use_def)
  show ?thesis
  proof (cases "0 \<le> b_n x")
    case True
    then have i: "b_n x = int (nat (b_n x))" "nat (b_n x) < length pls"
      using bufs_okD(4) [OF ok x] by (auto simp: buf_ok_def)
    have w': "w' = upd_buf b (\<lambda>x. x\<lparr>b_next := w_buffers w ! nat (b_n x)\<rparr>) w
            \<lparr>w_buffers := (w_buffers w)[nat (b_n x) := Some b]\<rparr>"
      using rel x True i bufs_okD(1) [OF ok] by (simp add: release_def)
    then have "same_but_buf b w w'" by (simp add: same_but_buf_def upd_buf_def)
    moreover have "w_buffers w' = (w_buffers w)[nat (b_n x) := Some b]" "w_brk w' = w_brk w"
      "w_buf w' = (w_buf w)(b \<mapsto> x\<lparr>b_next := w_buffers w ! nat (b_n x)\<rparr>)"
      using w' x by (simp_all add: upd_buf_def)
    ultimately show ?thesis using bufs_ok_put [OF ok b x i] by blast
  next
    case False
    then obtain h where w': "w' = w\<lparr>w_stacks := h, w_buf := (w_buf w)(b := None)\<rparr>"
      using rel x by (auto simp: release_def bind_eq_Some_conv)
    have "bufs_ok w' pls \<and> in_use w' pls = in_use w pls - {b}"
      by (rule bufs_ok_drop [OF ok b]) (simp_all add: w')
    then show ?thesis using w' by (intro exI [where x = pls]) (simp add: same_but_buf_def)
  qed
qed

lemma mcp_ready_answerD:
  assumes "mcp_ready_answer c w = Some (Ret w')"
  shows "\<exists>r w1. comm_buf_get 8 c w = Some (Ret (r, w1)) \<and> w' = comm_buf_output_enqueue c r
         (upd_buf r (\<lambda>x. x\<lparr>b_comm_buf := put_bytes 0 (ptr_bytes MEDUSA_COMM_READY_ANSWER) (b_comm_buf x),
            b_len := 8, b_want := 0, b_completed := None\<rparr>) w1)"
  using assms by (auto simp: mcp_ready_answer_def)

lemma mcp_ready_answer_ok:
  assumes ok: "bufs_ok w pls" and ra: "mcp_ready_answer c w = Some (Ret w')"
  shows "\<exists>pls' r y. bufs_ok w' pls' \<and> r \<notin> in_use w pls \<and> in_use w' pls' = insert r (in_use w pls) \<and> length pls' = length pls
    \<and> (\<forall>a. a \<noteq> r \<longrightarrow> w_buf w' a = w_buf w a) \<and> w_todo w' = w_todo w \<and> w_todo_sem w' = w_todo_sem w
    \<and> w_comm w' = (w_comm w)(c := (w_comm w c)\<lparr>co_output := co_output (w_comm w c) @ [r],
         co_output_sem := co_output_sem (w_comm w c) + 1\<rparr>)
    \<and> w_buf w' r = Some y \<and> b_len y = 8 \<and> take 8 (b_comm_buf y) = ptr_bytes MEDUSA_COMM_READY_ANSWER \<and> b_comm y = Some c
    \<and> b_p_comm_buf y = In_buf r"
proof -
  let ?g = "\<lambda>x. x\<lparr>b_comm_buf := put_bytes 0 (ptr_bytes MEDUSA_COMM_READY_ANSWER) (b_comm_buf x),
            b_len := 8, b_want := 0, b_completed := None\<rparr>"
  obtain r w1 where get: "comm_buf_get 8 c w = Some (Ret (r, w1))"
    and w': "w' = comm_buf_output_enqueue c r (upd_buf r ?g w1)"
    using mcp_ready_answerD [OF ra] by blast
  obtain pls' y where y: "bufs_ok w1 pls'" "r \<notin> in_use w pls" "in_use w1 pls' = insert r (in_use w pls)"
    "length pls' = length pls" "same_but_buf r w w1" "w_buf w1 r = Some y" "fresh_for 8 c r y"
    using comm_buf_get_ok [OF ok get] by blast
  have len: "8 \<le> length (b_comm_buf y)"
    using bufs_okD(4) [OF y(1) y(6)] y(7) by (simp add: buf_ok_def fresh_for_def le_nat_iff)
  have "bufs_ok w' pls' \<and> in_use w' pls' = in_use w1 pls'"
  proof (rule bufs_ok_cong [OF y(1)])
    fix b show "w_buf w' b = w_buf w1 b \<or> (\<exists>f. keeps f \<and> w_buf w' b = map_option f (w_buf w1 b))"
    proof (cases "b = r")
      case True
      have "keeps (\<lambda>x. if 8 \<le> length (b_comm_buf x) then ?g x else x)"
        by (simp add: keeps_def length_put_bytes)
      moreover have "w_buf w' b = map_option (\<lambda>x. if 8 \<le> length (b_comm_buf x) then ?g x else x) (w_buf w1 b)"
        using True w' y(6) len by (simp add: upd_buf_def comm_buf_output_enqueue_def upd_comm_def)
      ultimately show ?thesis by blast
    qed (simp add: w' upd_buf_def comm_buf_output_enqueue_def upd_comm_def)
  qed (simp_all add: w' upd_buf_def comm_buf_output_enqueue_def upd_comm_def)
  moreover have "w_buf w' r = Some (?g y)"
    using w' y(6) by (simp add: upd_buf_def comm_buf_output_enqueue_def upd_comm_def)
  moreover have "b_len (?g y) = 8 \<and> take 8 (b_comm_buf (?g y)) = ptr_bytes MEDUSA_COMM_READY_ANSWER \<and> b_comm (?g y) = Some c
      \<and> b_p_comm_buf (?g y) = In_buf r"
    using y(7) len by (simp add: fresh_for_def put_bytes_def)
  moreover have "\<forall>a. a \<noteq> r \<longrightarrow> w_buf w' a = w_buf w a" "w_todo w' = w_todo w" "w_todo_sem w' = w_todo_sem w"
    "w_comm w' = (w_comm w)(c := (w_comm w c)\<lparr>co_output := co_output (w_comm w c) @ [r],
         co_output_sem := co_output_sem (w_comm w c) + 1\<rparr>)"
    using w' y(5) by (simp_all add: same_but_buf_def upd_buf_def comm_buf_output_enqueue_def upd_comm_def)
  ultimately show ?thesis
    using y(2-4) by (intro exI [where x = pls'] exI [where x = r] exI [where x = "?g y"]) simp
qed

lemma comm_buf_free_ok:
  assumes ok: "bufs_ok w pls" and b: "b \<in> in_use w pls" "w_buf w b = Some x" and fr: "comm_buf_free b w = Some (Ret w')"
  shows "\<exists>pls' R. bufs_ok w' pls' \<and> length pls' = length pls \<and> in_use w' pls' = (in_use w pls \<union> R) - {b}
    \<and> (if is_init_buffer b x w then \<exists>r. R = {r} \<and> r \<notin> in_use w pls else R = {}) \<and> w_todo w' = w_todo w @ b_to_wake x
    \<and> w_todo_sem w' = w_todo_sem w + length (b_to_wake x)"
proof -
  let ?w = "upd_buf b (\<lambda>x. x\<lparr>b_to_wake := []\<rparr>)
               (w\<lparr>w_todo := w_todo w @ b_to_wake x, w_todo_sem := w_todo_sem w + length (b_to_wake x)\<rparr>)"
  have init: "is_init_buffer b x ?w = is_init_buffer b x w" by (simp add: is_init_buffer_def upd_buf_def cong: option.case_cong)
  have w1: "bufs_ok ?w pls \<and> in_use ?w pls = in_use w pls"
  proof (rule bufs_ok_cong [OF ok])
    fix a
    have "keeps (\<lambda>x. x\<lparr>b_to_wake := []\<rparr>)" by (simp add: keeps_def)
    then show "w_buf ?w a = w_buf w a \<or> (\<exists>f. keeps f \<and> w_buf ?w a = map_option f (w_buf w a))"
      by (auto simp: upd_buf_def)
  qed (simp_all add: upd_buf_def)
  show ?thesis
  proof (cases "is_init_buffer b x w")
    case True
    then obtain w2 where w2: "mcp_ready_answer (the (b_comm x)) ?w = Some (Ret w2)" "release b w2 = Some w'"
      using fr b(2) init by (auto simp: comm_buf_free_def Let_def bind_eq_Some_conv split: outcome.splits option.splits)
    obtain p2 r y where r: "bufs_ok w2 p2" "r \<notin> in_use ?w pls" "in_use w2 p2 = insert r (in_use ?w pls)" "length p2 = length pls"
      "w_todo w2 = w_todo ?w" "w_todo_sem w2 = w_todo_sem ?w"
      using mcp_ready_answer_ok [OF conjunct1 [OF w1] w2(1)] by blast
    have "b \<in> in_use w2 p2" using r(3) w1 b(1) by simp
    from release_ok [OF r(1) this w2(2)] obtain p3 where p3: "bufs_ok w' p3" "in_use w' p3 = in_use w2 p2 - {b}"
      "length p3 = length p2" "same_but_buf b w2 w'" by blast
    show ?thesis using p3 r w1 True
      by (intro exI [where x = p3] exI [where x = "{r}"]) (simp add: same_but_buf_def upd_buf_def)
  next
    case False
    then have rel: "release b ?w = Some w'"
      using fr b(2) init by (auto simp: comm_buf_free_def Let_def bind_eq_Some_conv)
    have "b \<in> in_use ?w pls" using w1 b(1) by simp
    from release_ok [OF conjunct1 [OF w1] this rel] obtain p3 where "bufs_ok w' p3" "in_use w' p3 = in_use ?w pls - {b}"
      "length p3 = length pls" "same_but_buf b ?w w'" by blast
    then show ?thesis using w1 False
      by (intro exI [where x = p3] exI [where x = "{}"]) (simp add: same_but_buf_def upd_buf_def)
  qed
qed

text \<open>The buffers of \<open>buffers_alloc\<close>.\<close>

lemma add_free_buffer_ok:
  assumes ok: "bufs_ok w pls" and i: "i < length pls" and add: "add_free_buffer sz (int i) w = Some (Ret w')"
  shows "\<exists>pls'. bufs_ok w' pls' \<and> length pls' = length pls \<and> in_use w' pls' = in_use w pls"
proof -
  obtain b w1 where w1: "malloc_buf sz w = Some (Ret (b, w1))"
      "comm_buf_free b (upd_buf b (\<lambda>x. x\<lparr>b_n := int i\<rparr>) w1) = Some (Ret w')"
    using add by (auto simp: add_free_buffer_def)
  obtain p where p: "b = w_brk w" "w_buf w1 = (w_buf w)(b \<mapsto> zero_buf b p sz)" "w_brk w1 = b + 1" "w_buffers w1 = w_buffers w"
    using malloc_bufD [OF w1(1)] by blast
  let ?x = "(zero_buf b p sz)\<lparr>b_n := int i\<rparr>" and ?w = "upd_buf b (\<lambda>x. x\<lparr>b_n := int i\<rparr>) w1"
  have none: "w_buf w b = None" using bufs_okD(4) [OF ok, of b] p(1) by (cases "w_buf w b") auto
  have w2: "w_buf ?w = (w_buf w)(b \<mapsto> ?x)" using p(2) by (simp add: upd_buf_def)
  have "bufs_ok ?w pls \<and> in_use ?w pls = insert b (in_use w pls)"
    by (rule bufs_ok_new [OF ok none w2 p(1)])
      (use p(3,4) i in \<open>simp_all add: upd_buf_def buf_ok_def zero_buf_def\<close>)
  moreover have "\<not> is_init_buffer b ?x ?w" by (simp add: is_init_buffer_def zero_buf_def)
  moreover have "b \<notin> in_use w pls" using none by (simp add: in_use_def)
  moreover have "w_buf ?w b = Some ?x" using w2 by simp
  ultimately show ?thesis using comm_buf_free_ok [OF _ _ _ w1(2), of pls ?x] by auto
qed

lemma alloc_pairs_ok:
  "bufs_ok w pls \<Longrightarrow> length pls = 2 \<Longrightarrow> alloc_pairs k w = Some (Ret (n, w')) \<Longrightarrow>
     n = 2 * int k \<and> (\<exists>pls'. bufs_ok w' pls' \<and> length pls' = 2 \<and> in_use w' pls' = in_use w pls)"
proof (induction k arbitrary: w pls n w')
  case (Suc k)
  obtain w1 w2 m where s: "add_free_buffer 4096 0 w = Some (Ret w1)" "add_free_buffer 8192 1 w1 = Some (Ret w2)"
      "alloc_pairs k w2 = Some (Ret (m, w'))" "n = m + 2"
    using Suc.prems(3) by auto
  obtain p1 where p1: "bufs_ok w1 p1" "length p1 = 2" "in_use w1 p1 = in_use w pls"
    using add_free_buffer_ok [OF Suc.prems(1), of 0 4096 w1] s(1) Suc.prems(2) by auto
  obtain p2 where p2: "bufs_ok w2 p2" "length p2 = 2" "in_use w2 p2 = in_use w pls"
    using add_free_buffer_ok [OF p1(1), of 1 8192 w2] s(2) p1(2,3) by auto
  show ?case using Suc.IH [OF p2(1,2) s(3)] p2(3) s(4) by simp
qed auto

lemma buffers_init_ok:
  assumes "\<forall>b. w_buf w b = None"
  shows "bufs_ok (buffers_init w) [[], []] \<and> in_use (buffers_init w) [[], []] = {}"
proof -
  have "pool_path (w_buf (buffers_init w)) i (w_buffers (buffers_init w) ! i) ([[], []] ! i)" if "i < 2" for i
    using that by (cases i) (auto simp: buffers_init_def less_Suc_eq)
  then show ?thesis using assms by (simp add: bufs_ok_def in_use_def) (simp add: buffers_init_def)
qed

lemma comm_buf_get_succeeds:
  assumes ok: "bufs_ok w pls" and i: "i < length (w_buffers w)" "fits sz w i = Some True"
  shows "\<exists>b w'. comm_buf_get sz c w = Some (Ret (b, w')) \<and> w_stacks w' = w_stacks w"
proof -
  let ?w = "w\<lparr>w_buf_id := w_buf_id w + 1\<rparr>"
  note D = bufs_okD [OF ok]
  have fits: "fits sz ?w j = fits sz w j" for j by (simp add: fits_def cong: option.case_cong)
  have head: "fits sz w j \<noteq> None" if "j < length (w_buffers w)" for j
    using D(2) [of j] that D(1) by (cases "pls ! j") (auto simp: fits_def)
  have "\<exists>k. pick_list sz ?w is = Some (Some k) \<and> k \<in> set is \<and> fits sz w k = Some True"
    if "i \<in> set is" "\<forall>j \<in> set is. j < length (w_buffers w)" for "is"
    using that by (induction "is") (use i head fits in \<open>auto split: option.splits bool.splits\<close>)
  from this [of "[0..<length (w_buffers w)]"] i(1) obtain k where k:
    "pick_list sz ?w [0..<length (w_buffers w)] = Some (Some k)" "fits sz w k = Some True" by auto
  then obtain b x where "w_buffers w ! k = Some b" "w_buf w b = Some x"
    by (auto simp: fits_def split: option.splits)
  then show ?thesis using k(1) by (simp add: comm_buf_get_def Let_def upd_buf_def)
qed

text \<open>C13. A communication buffer has one owner at a time. \<open>buffers_alloc\<close> makes two lists of free buffers with the
  given number of buffers each and nobody owns a buffer; \<open>comm_buf_get\<close> hands out a
  buffer that nobody uses, reset and bound to the connection, and it succeeds when a list starts with a buffer that is large enough; \<open>comm_buf_free\<close> takes its buffer out of use, wakes
  the buffers that waited for it, in their order, and, for the buffer of \<open>_init\<close> on a connection of version 3 or
  more, brings one new buffer, the message READY, into use.\<close>

theorem buffers_have_one_owner:
  assumes ok: "bufs_ok w pls"
  shows "((\<forall>b. w_buf w b = None) \<longrightarrow> alloc_pairs k (buffers_init w) = Some (Ret (n, w1)) \<longrightarrow>
            n = 2 * int k \<and> (\<exists>pls'. bufs_ok w1 pls' \<and> length pls' = 2 \<and> in_use w1 pls' = {}))
    \<and> (comm_buf_get sz c w = Some (Ret (b, w2)) \<longrightarrow>
         (\<exists>pls' y. bufs_ok w2 pls' \<and> b \<notin> in_use w pls \<and> in_use w2 pls' = insert b (in_use w pls)
            \<and> w_buf w2 b = Some y \<and> fresh_for sz c b y \<and> same_but_buf b w w2))
    \<and> (i < length (w_buffers w) \<and> fits sz w i = Some True \<longrightarrow> (\<exists>b w'. comm_buf_get sz c w = Some (Ret (b, w'))))
    \<and> (b' \<in> in_use w pls \<and> w_buf w b' = Some x \<and> comm_buf_free b' w = Some (Ret w3) \<longrightarrow>
         (\<exists>pls' R. bufs_ok w3 pls' \<and> in_use w3 pls' = (in_use w pls \<union> R) - {b'}
            \<and> (if is_init_buffer b' x w then \<exists>r. R = {r} \<and> r \<notin> in_use w pls else R = {})
            \<and> w_todo w3 = w_todo w @ b_to_wake x \<and> w_todo_sem w3 = w_todo_sem w + length (b_to_wake x)))"
proof (intro conjI impI)
  assume none: "\<forall>b. w_buf w b = None" and al: "alloc_pairs k (buffers_init w) = Some (Ret (n, w1))"
  note init = buffers_init_ok [OF none]
  note ap = alloc_pairs_ok [OF conjunct1 [OF init] _ al]
  show "n = 2 * int k" using ap by simp
  show "\<exists>pls'. bufs_ok w1 pls' \<and> length pls' = 2 \<and> in_use w1 pls' = {}" using ap init by auto
next
  assume get: "comm_buf_get sz c w = Some (Ret (b, w2))"
  show "\<exists>pls' y. bufs_ok w2 pls' \<and> b \<notin> in_use w pls \<and> in_use w2 pls' = insert b (in_use w pls)
            \<and> w_buf w2 b = Some y \<and> fresh_for sz c b y \<and> same_but_buf b w w2"
    using comm_buf_get_ok [OF ok get] by blast
next
  assume "i < length (w_buffers w) \<and> fits sz w i = Some True"
  then show "\<exists>b w'. comm_buf_get sz c w = Some (Ret (b, w'))" using comm_buf_get_succeeds [OF ok] by blast
next
  assume "b' \<in> in_use w pls \<and> w_buf w b' = Some x \<and> comm_buf_free b' w = Some (Ret w3)"
  then show "\<exists>pls' R. bufs_ok w3 pls' \<and> in_use w3 pls' = (in_use w pls \<union> R) - {b'}
            \<and> (if is_init_buffer b' x w then \<exists>r. R = {r} \<and> r \<notin> in_use w pls else R = {})
            \<and> w_todo w3 = w_todo w @ b_to_wake x \<and> w_todo_sem w3 = w_todo_sem w + length (b_to_wake x)"
    using comm_buf_free_ok [OF ok] by blast
qed

definition gone :: "nat \<Rightarrow> 'st comm_buffer_s \<Rightarrow> 'st world \<Rightarrow> bool" where
  "gone b x w \<longleftrightarrow>
     (if b_n x < 0 then w_buf w b = None \<and> sh_free (w_stacks w) = Some (ex_stack (b_execute x))
      else \<exists>z. w_buf w b = Some z \<and> b_execute z = b_execute x \<and> b_size z = b_size x)"

lemma gone_to_wake [simp]: "gone b (x\<lparr>b_to_wake := l\<rparr>) w = gone b x w" by (simp add: gone_def)

lemma release_effect:
  assumes "release b w = Some w'" "w_buf w b = Some x"
  shows "gone b x w' \<and> (\<forall>a. a \<noteq> b \<longrightarrow> w_buf w' a = w_buf w a)"
  using assms by (auto simp: release_def gone_def execute_put_stack_def upd_buf_def bind_eq_Some_conv split: if_splits)

lemma comm_buf_free_effect:
  assumes ok: "bufs_ok w pls" and x: "b \<in> in_use w pls" "w_buf w b = Some x" and fr: "comm_buf_free b w = Some (Ret w')"
  shows "gone b x w' \<and> (\<forall>a. a \<noteq> b \<and> a \<in> in_use w pls \<longrightarrow> w_buf w' a = w_buf w a)"
proof -
  let ?w = "upd_buf b (\<lambda>x. x\<lparr>b_to_wake := []\<rparr>)
               (w\<lparr>w_todo := w_todo w @ b_to_wake x, w_todo_sem := w_todo_sem w + length (b_to_wake x)\<rparr>)"
  let ?x = "x\<lparr>b_to_wake := []\<rparr>"
  have w1: "bufs_ok ?w pls \<and> in_use ?w pls = in_use w pls"
  proof (rule bufs_ok_cong [OF ok])
    fix a
    have "keeps (\<lambda>x. x\<lparr>b_to_wake := []\<rparr>)" by (simp add: keeps_def)
    then show "w_buf ?w a = w_buf w a \<or> (\<exists>f. keeps f \<and> w_buf ?w a = map_option f (w_buf w a))"
      by (auto simp: upd_buf_def)
  qed (simp_all add: upd_buf_def)
  have at: "w_buf ?w b = Some ?x" "\<And>a. a \<noteq> b \<Longrightarrow> w_buf ?w a = w_buf w a" using x(2) by (simp_all add: upd_buf_def)
  obtain w2 where w2: "if is_init_buffer b x ?w then mcp_ready_answer (the (b_comm x)) ?w = Some (Ret w2) else w2 = ?w"
      "release b w2 = Some w'"
    using fr x(2) by (auto simp: comm_buf_free_def Let_def bind_eq_Some_conv split: if_splits)
  have same: "w_buf w2 a = w_buf ?w a" if a: "a \<in> in_use w pls" for a
  proof (cases "is_init_buffer b x ?w")
    case True
    then obtain r where "r \<notin> in_use ?w pls" "\<forall>a. a \<noteq> r \<longrightarrow> w_buf w2 a = w_buf ?w a"
      using mcp_ready_answer_ok [OF conjunct1 [OF w1], of "the (b_comm x)" w2] w2(1) by auto
    then show ?thesis using a w1 by auto
  qed (use w2(1) in simp)
  have "gone b ?x w' \<and> (\<forall>a. a \<noteq> b \<longrightarrow> w_buf w' a = w_buf w2 a)"
    using release_effect [OF w2(2), of ?x] same [OF x(1)] at(1) by simp
  then show ?thesis using same at(2) by simp
qed

lemma comm_buf_resize_effect:
  assumes ok: "bufs_ok w pls" and b: "b \<in> in_use w pls" "w_buf w b = Some x"
    and big: "b_size x < sz" and res: "comm_buf_resize sz b w = Some (Ret (n, w'))"
  shows "\<exists>pls' y. bufs_ok w' pls' \<and> n \<notin> in_use w pls \<and> n \<in> in_use w' pls' \<and> b \<notin> in_use w' pls' \<and> gone b x w'
    \<and> w_buf w' n = Some y \<and> sz \<le> b_size y \<and> b_p_comm_buf y = b_p_comm_buf x \<and> b_len y = b_len x \<and> b_to_wake y = b_to_wake x
    \<and> b_comm y = b_comm x \<and> b_want y = b_want x \<and> take (nat (b_len x)) (b_comm_buf y) = take (nat (b_len x)) (b_comm_buf x) \<and> b_execute y = b_execute x"
proof -
  obtain c where c: "b_var_data x = None" "b_comm x = Some c"
    using res b(2) big by (auto simp: comm_buf_resize_def bind_eq_Some_conv split: if_splits)
  obtain w1 where get: "comm_buf_get sz c w = Some (Ret (n, w1))"
    using res b(2) big c by (auto simp: comm_buf_resize_def bind_eq_Some_conv split: if_splits)
  obtain p1 y where y: "bufs_ok w1 p1" "n \<notin> in_use w pls" "in_use w1 p1 = insert n (in_use w pls)"
      "same_but_buf n w w1" "w_buf w1 n = Some y" "fresh_for sz c n y"
    using comm_buf_get_ok [OF ok get] by blast
  have nb: "n \<noteq> b" using y(2) b(1) by blast
  then have xb: "w_buf w1 b = Some x" using y(4) b(2) by (simp add: same_but_buf_def)
  let ?l = "nat (b_len x)"
  let ?y = "x\<lparr>b_id := b_id y, b_n := b_n y, b_size := b_size y, b_next := b_next y,
                b_comm_buf := put_bytes 0 (take ?l (b_comm_buf x)) (b_comm_buf y)\<rparr>"
  let ?w = "upd_buf b (\<lambda>x. x\<lparr>b_to_wake := []\<rparr>) (upd_buf n (\<lambda>_. ?y) w1)"
  have res': "comm_buf_resize sz b w = (if 0 \<le> b_len x \<and> ?l \<le> length (b_comm_buf x) \<and> ?l \<le> length (b_comm_buf y)
      then bind_res (comm_buf_free b ?w) (\<lambda>w. Some (Ret (n, w))) else None)"
    using b(2) big get y(5) xb c by (simp add: comm_buf_resize_def)
  have len: "?l \<le> length (b_comm_buf x)" "?l \<le> length (b_comm_buf y)" "comm_buf_free b ?w = Some (Ret w')"
    using res unfolding res' by (auto split: if_splits)
  have w2: "bufs_ok ?w p1 \<and> in_use ?w p1 = in_use w1 p1"
  proof (rule bufs_ok_cong [OF y(1)])
    fix a
    consider "a = b" | "a = n" | "a \<noteq> b" "a \<noteq> n" by blast
    then show "w_buf ?w a = w_buf w1 a \<or> (\<exists>f. keeps f \<and> w_buf ?w a = map_option f (w_buf w1 a))"
    proof cases
      case 1
      have "keeps (\<lambda>x. x\<lparr>b_to_wake := []\<rparr>)" by (simp add: keeps_def)
      then show ?thesis using 1 nb by (auto simp: upd_buf_def)
    next
      case 2
      have "keeps (\<lambda>z. if z = y then ?y else z)" using len(1,2) by (simp add: keeps_def length_put_bytes)
      moreover have "w_buf ?w a = map_option (\<lambda>z. if z = y then ?y else z) (w_buf w1 a)"
        using 2 nb y(5) by (simp add: upd_buf_def)
      ultimately show ?thesis by blast
    qed (simp add: upd_buf_def)
  qed (simp_all add: upd_buf_def)
  have at: "w_buf ?w n = Some ?y" "w_buf ?w b = Some (x\<lparr>b_to_wake := []\<rparr>)"
    using nb y(5) xb by (simp_all add: upd_buf_def)
  have bu: "b \<in> in_use ?w p1" "n \<in> in_use ?w p1" using w2 y(3) b(1) by auto
  note ef = comm_buf_free_effect [OF conjunct1 [OF w2] bu(1) at(2) len(3)]
  obtain p3 R where p3: "bufs_ok w' p3" "in_use w' p3 = (in_use ?w p1 \<union> R) - {b}"
    using comm_buf_free_ok [OF conjunct1 [OF w2] bu(1) at(2) len(3)] by blast
  have "w_buf w' n = Some ?y" using ef nb bu(2) at(1) by simp
  moreover have "gone b x w'" using ef by simp
  moreover have "n \<in> in_use w' p3" "b \<notin> in_use w' p3" using p3(2) bu nb by auto
  moreover have "take ?l (b_comm_buf ?y) = take ?l (b_comm_buf x)" using len by (simp add: put_bytes_def)
  ultimately show ?thesis
    using p3(1) y(2,6) by (intro exI [where x = p3] exI [where x = ?y]) (simp add: fresh_for_def)
qed

text \<open>C28. A buffer that grows keeps pointing to the bytes it had: after \<open>comm_buf_resize\<close> made a larger buffer
  \<open>n\<close> with the read bytes copied, \<open>p_comm_buf\<close> of \<open>n\<close> is still the data of the old buffer \<open>b\<close>, which is
  nobody's any more, and \<open>n\<close> runs on the stack of \<open>b\<close>, which the free buffer \<open>b\<close> keeps, or which is
  the first free stack when \<open>b\<close> came from \<open>malloc\<close>.\<close>

theorem resize_points_into_released_buffer:
  assumes "bufs_ok w pls" "b \<in> in_use w pls" "w_buf w b = Some x" "b_p_comm_buf x = In_buf b" "b_size x < sz"
    "comm_buf_resize sz b w = Some (Ret (n, w'))"
  shows "\<exists>pls' y. bufs_ok w' pls' \<and> n \<noteq> b \<and> n \<in> in_use w' pls' \<and> b \<notin> in_use w' pls' \<and> w_buf w' n = Some y
    \<and> sz \<le> b_size y \<and> b_len y = b_len x \<and> take (nat (b_len x)) (b_comm_buf y) = take (nat (b_len x)) (b_comm_buf x)
    \<and> b_p_comm_buf y = In_buf b \<and> ex_stack (b_execute y) = ex_stack (b_execute x)
    \<and> (if b_n x < 0 then w_buf w' b = None \<and> sh_free (w_stacks w') = Some (ex_stack (b_execute x))
       else \<exists>z. w_buf w' b = Some z \<and> ex_stack (b_execute z) = ex_stack (b_execute x))"
proof -
  obtain pls' y where "bufs_ok w' pls'" "n \<notin> in_use w pls" "n \<in> in_use w' pls'" "b \<notin> in_use w' pls'" "gone b x w'"
    "w_buf w' n = Some y" "sz \<le> b_size y" "b_p_comm_buf y = b_p_comm_buf x" "b_len y = b_len x"
    "take (nat (b_len x)) (b_comm_buf y) = take (nat (b_len x)) (b_comm_buf x)" "b_execute y = b_execute x"
    using comm_buf_resize_effect [OF assms(1-3,5,6)] by blast
  then show ?thesis
    using assms(2,4) by (intro exI [where x = pls'] exI [where x = y]) (auto simp: gone_def split: if_splits)
qed

text \<open>The state at the start of the program: static data are zero, \<open>mem\<close> is the memory for buffers and stacks.\<close>

definition no_comm :: comm_s where
  "no_comm = \<lparr>co_fd = 0, co_open_counter = 0, co_state = 0, co_init_buffer = None, co_flags = 0, co_version = 0,
     co_classes = hash_empty, co_events = hash_empty, co_output = [], co_output_sem = 0, co_wait_for_answer = [],
     co_input = [], co_sent = []\<rparr>"

definition start_world :: "nat \<Rightarrow> 'st \<Rightarrow> 'st world" where
  "start_world mem st = \<lparr>w_buf = (\<lambda>_. None), w_brk = 0, w_mem = mem, w_buffers = [], w_buf_id = 0,
     w_stacks = \<lparr>sh_cell = (\<lambda>_. None), sh_brk = 1, sh_free = None, sh_mem = mem\<rparr>, w_todo = [], w_todo_sem = 0,
     w_comm = (\<lambda>_. no_comm), w_function_init = None, w_var_data_size = 0,
     w_cs = \<lparr>cs_names = [], cs_heap = (\<lambda>_. None), cs_next = 0\<rparr>,
     w_es = \<lparr>es_names = [], es_heap = (\<lambda>_. None), es_next = 0\<rparr>, w_objs = (\<lambda>_. None),
     w_fetch_id = 0, w_update_id = 0, w_st = st\<rparr>"

lemma start_buffers_init: "bufs_ok (buffers_init (start_world mem st)) [[], []]
    \<and> in_use (buffers_init (start_world mem st)) [[], []] = {}"
  by (rule buffers_init_ok) (simp add: start_world_def)

lemma start_get:
  "\<exists>w. comm_buf_get 4 0 (buffers_init (start_world (Suc m) st)) = Some (Ret (0, w)) \<and> w_buf w 0 \<noteq> None
     \<and> (\<forall>x. w_buf w 0 = Some x \<longrightarrow> b_p_comm_buf x = In_buf 0 \<and> b_size x = 4 \<and> b_n x = -1 \<and> b_len x = 0
          \<and> b_comm x = Some 0 \<and> b_var_data x = None)
     \<and> w_mem w = m \<and> w_buffers w = [None, None] \<and> w_function_init w = None"
  by (simp add: comm_buf_get_def malloc_buf_def execute_get_stack_def upd_buf_def buffers_init_def start_world_def
      fits_def comm_buf_init_def zero_buf_def upt_rec)

fun the_ret :: "'a outcome option \<Rightarrow> 'a" where
  "the_ret (Some (Ret a)) = a"

lemmas start_simps = comm_buf_get_def malloc_buf_def execute_get_stack_def upd_buf_def buffers_init_def start_world_def
  fits_def comm_buf_init_def zero_buf_def zero_execute_def upt_rec comm_buf_free_def is_init_buffer_def release_def
  execute_put_stack_def upd_chunk_def Let_def

lemma start_free:
  assumes "comm_buf_get 4 0 (buffers_init (start_world (Suc m) st)) = Some (Ret (0, w))"
  shows "\<exists>w'. comm_buf_free 0 w = Some (Ret w')"
proof -
  have "w = snd (the_ret (comm_buf_get 4 0 (buffers_init (start_world (Suc m) st))))" using assms by simp
  then show ?thesis by (simp add: start_simps)
qed

lemma start_resize:
  assumes "comm_buf_get 4 0 (buffers_init (start_world (Suc (Suc m)) st)) = Some (Ret (0, w))"
  shows "\<exists>n w'. comm_buf_resize 8 0 w = Some (Ret (n, w'))"
proof -
  have "w = snd (the_ret (comm_buf_get 4 0 (buffers_init (start_world (Suc (Suc m)) st))))" using assms by simp
  then show ?thesis by (simp add: start_simps comm_buf_resize_def)
qed

lemma start_alloc:
  "\<exists>n w. alloc_pairs (Suc 0) (buffers_init (start_world (Suc (Suc m)) st)) = Some (Ret (n, w))"
  by (simp add: start_simps add_free_buffer_def)

lemma buffers_have_one_owner_witness:
  "\<exists>w w1 w3 n. comm_buf_get 4 0 (buffers_init (start_world 2 ())) = Some (Ret (0, w)) \<and> comm_buf_free 0 w = Some (Ret w3)
     \<and> alloc_pairs 1 (buffers_init (start_world 2 ())) = Some (Ret (n, w1)) \<and> n = 2
     \<and> (\<exists>pls. bufs_ok w1 pls \<and> in_use w1 pls = {})
     \<and> (\<exists>pls. bufs_ok w pls \<and> in_use w pls = {0} \<and> (\<exists>pls'. bufs_ok w3 pls' \<and> in_use w3 pls' = {}))"
proof -
  note init = start_buffers_init [of 2 "()"]
  obtain w x where w: "comm_buf_get 4 0 (buffers_init (start_world 2 ())) = Some (Ret (0, w))" "w_buf w 0 = Some x"
      "w_function_init w = None"
    using start_get [of 1 "()"] by (auto simp: numeral_2_eq_2)
  obtain w3 where w3: "comm_buf_free 0 w = Some (Ret w3)" using start_free [of 1 "()" w] w(1) by (auto simp: numeral_2_eq_2)
  obtain n w1 where w1: "alloc_pairs 1 (buffers_init (start_world 2 ())) = Some (Ret (n, w1))" using start_alloc [of 0 "()"] by (auto simp: numeral_2_eq_2)
  have none: "\<forall>b. w_buf (buffers_init (start_world 2 ())) b = None" by (simp add: buffers_init_def start_world_def)
  have idem: "buffers_init (buffers_init (start_world 2 ())) = buffers_init (start_world 2 ())" by (simp add: buffers_init_def)
  note t1 = buffers_have_one_owner [OF conjunct1 [OF init], of 1 n w1 4 0 0 w 0]
  obtain pls where pls: "bufs_ok w pls" "in_use w pls = {0}" using t1 w(1) init by auto
  have "\<not> is_init_buffer 0 x w" using w(3) by (simp add: is_init_buffer_def)
  then obtain pls' where "bufs_ok w3 pls'" "in_use w3 pls' = {}"
    using buffers_have_one_owner [OF pls(1), of 0 undefined undefined 4 0 0 undefined 0 0 x w3] pls(2) w(2) w3 by auto
  moreover have "n = 2 \<and> (\<exists>pls. bufs_ok w1 pls \<and> in_use w1 pls = {})"
    using t1 none w1 idem by auto
  ultimately show ?thesis using w(1) w3 w1 pls by blast
qed

lemma resize_points_into_released_buffer_witness:
  "\<exists>w n w' y. comm_buf_get 4 0 (buffers_init (start_world 2 ())) = Some (Ret (0, w))
     \<and> comm_buf_resize 8 0 w = Some (Ret (n, w')) \<and> n \<noteq> 0 \<and> w_buf w' 0 = None \<and> w_buf w' n = Some y
     \<and> b_p_comm_buf y = In_buf 0"
proof -
  note init = start_buffers_init [of 2 "()"]
  obtain w x where w: "comm_buf_get 4 0 (buffers_init (start_world 2 ())) = Some (Ret (0, w))" "w_buf w 0 = Some x"
      "b_p_comm_buf x = In_buf 0" "b_size x = 4" "b_n x = -1"
    using start_get [of 1 "()"] by (auto simp: numeral_2_eq_2)
  obtain n w' where r: "comm_buf_resize 8 0 w = Some (Ret (n, w'))"
    using start_resize [of 0 "()" w] w(1) by (auto simp: numeral_2_eq_2)
  obtain pls where "bufs_ok w pls" "in_use w pls = {0}"
    using comm_buf_get_ok [OF conjunct1 [OF init] w(1)] init by auto
  then show ?thesis
    using resize_points_into_released_buffer [of w pls 0 x 8 n w'] w r by auto
qed

lemma comm_buf_free_succeeds:
  assumes ok: "bufs_ok w pls" and x: "w_buf w b = Some x" "\<not> is_init_buffer b x w"
    "b_n x < 0 \<longrightarrow> sh_cell (w_stacks w) (ex_stack (b_execute x)) \<noteq> None"
  shows "\<exists>w'. comm_buf_free b w = Some (Ret w') \<and> w_comm w' = w_comm w"
proof -
  let ?w = "upd_buf b (\<lambda>x. x\<lparr>b_to_wake := []\<rparr>)
               (w\<lparr>w_todo := w_todo w @ b_to_wake x, w_todo_sem := w_todo_sem w + length (b_to_wake x)\<rparr>)"
  have init: "is_init_buffer b x ?w = is_init_buffer b x w" by (simp add: is_init_buffer_def upd_buf_def cong: option.case_cong)
  have n: "nat (b_n x) < length (w_buffers w)" if "0 \<le> b_n x"
    using bufs_okD(4) [OF ok x(1)] bufs_okD(1) [OF ok] that by (auto simp: buf_ok_def)
  have "\<exists>w'. release b ?w = Some w' \<and> w_comm w' = w_comm w"
    using x n by (auto simp: release_def upd_buf_def execute_put_stack_def upd_chunk_def)
  then show ?thesis using x init by (auto simp: comm_buf_free_def Let_def)
qed

end
