(* ===== verification/Worker.thy ===== *)
theory Worker
  imports Comm_Buf
begin

text \<open>
  The worker (\<open>comm_worker\<close>, \<open>comm_conn_init\<close> and their helpers in \<open>comm.c\<close>). \<open>worker_step\<close> is one round of the
  loop of \<open>comm_worker\<close>: it takes the first buffer of the queue \<open>comm_todo\<close>, decides its event or sends its
  answer, and puts it back, releases it, or leaves it to whoever will wake it. A worker that waits on
  the semaphore does nothing. The decision is \<open>do_event\<close> of \<open>Events\<close>, run on the fields of the buffer;
  the connection's \<open>answer\<close> is an argument of the step.
\<close>

type_synonym 'st answer = "nat \<Rightarrow> nat \<Rightarrow> 'st world \<Rightarrow> (int \<times> 'st world) outcome option"

definition comm_alloc_var_data :: "nat \<Rightarrow> 'st world \<Rightarrow> (nat \<times> 'st world) outcome option" where
  "comm_alloc_var_data b w = do {
     x \<leftarrow> w_buf w b;
     let len = (if b_p_comm_buf x = In_buf b then b_len x else 0);
     bind_res (comm_buf_resize (len + w_var_data_size w) b w) (\<lambda>(b, w).
       Some (Ret (b, upd_buf b (\<lambda>x. x\<lparr>b_var_data := Some (nat len)\<rparr>) w))) }"

text \<open>What \<open>do_event\<close> finds behind the pointers of the connection's data. The class of the operation
  object is a field of the event type \<open>a\<close>; its address is \<open>op_class_addr a\<close>, above those of classes.\<close>

definition op_classes :: nat where "op_classes = 2 ^ 64"

definition op_class_addr :: "nat \<Rightarrow> nat" where "op_class_addr a = op_classes + a"

definition class_at :: "'st world \<Rightarrow> nat \<Rightarrow> class_s option" where
  "class_at w a = (if a < op_classes then cs_heap (w_cs w) a else map_option et_class (es_heap (w_es w) (a - op_classes)))"

lemma class_at_cong: "w_cs w' = w_cs w \<Longrightarrow> w_es w' = w_es w \<Longrightarrow> class_at w' = class_at w"
  by (rule ext) (simp add: class_at_def)

record 'st program =
  p_node :: "'st \<Rightarrow> nat \<Rightarrow> tree_s"
  p_run :: "nat \<Rightarrow> 'st \<Rightarrow> event_context_s \<Rightarrow> (int \<times> 'st \<times> event_context_s) option"

definition env_of :: "'st program \<Rightarrow> 'st world \<Rightarrow> 'st ev_env" where
  "env_of prg w = \<lparr>e_class = \<lambda>a. the (class_at w a), e_handlers = \<lambda>n. cn_handlers (cs_names (w_cs w) ! n),
     e_names = \<lambda>n. en_handlers (es_names (w_es w) ! n), e_node = p_node prg, e_run = p_run prg\<rparr>"

text \<open>\<open>do_event\<close> on the buffer.\<close>

definition event_cb_of :: "'st world \<Rightarrow> 'st comm_buffer_s \<Rightarrow> 'st event_cb option" where
  "event_cb_of w x = do {
     ev \<leftarrow> (case b_event x of
              None \<Rightarrow> (if b_init_handler x = None then None else Some None)
            | Some a \<Rightarrow> map_option (\<lambda>t. Some (et_evname t)) (es_heap (w_es w) a));
     Some \<lparr>cb_phase = b_do_phase x, cb_list = b_ehh_list x, cb_hh = b_hh x, cb_ch = b_ch x,
       cb_context = b_context x, cb_event = ev,
       cb_init_handler = (case b_init_handler x of None \<Rightarrow> 0 | Some h \<Rightarrow> h), cb_st = w_st w\<rparr> }"

definition set_event_cb :: "'st event_cb \<Rightarrow> 'st comm_buffer_s \<Rightarrow> 'st comm_buffer_s" where
  "set_event_cb cb x = x\<lparr>b_do_phase := cb_phase cb, b_ehh_list := cb_list cb, b_hh := cb_hh cb, b_ch := cb_ch cb,
     b_context := cb_context cb\<rparr>"

definition buf_do_event :: "'st program \<Rightarrow> nat \<Rightarrow> 'st world \<Rightarrow> (int \<times> 'st world) option" where
  "buf_do_event prg b w = do {
     x \<leftarrow> w_buf w b;
     cb \<leftarrow> event_cb_of w x;
     (r, cb) \<leftarrow> do_event (env_of prg w) cb;
     Some (r, upd_buf b (set_event_cb cb) (w\<lparr>w_st := cb_st cb\<rparr>)) }"

text \<open>The end of a round, by the result \<open>r\<close>.\<close>

definition worker_finish :: "int \<Rightarrow> nat \<Rightarrow> 'st world \<Rightarrow> 'st world outcome option" where
  "worker_finish r b w =
     (if r = 1 then Some (Ret (comm_buf_todo b w))
      else if r \<le> 0 then do {
        x \<leftarrow> w_buf w b;
        if b_do_phase x < 1000
        then Some (Ret (comm_buf_todo b (upd_buf b (\<lambda>x. x\<lparr>b_do_phase := 1000\<rparr>) w)))
        else comm_buf_free b w }
      else Some (Ret w))"

definition worker_run ::
  "'st program \<Rightarrow> 'st answer \<Rightarrow> nat \<Rightarrow> 'st world \<Rightarrow> 'st world outcome option" where
  "worker_run prg ans b w = do {
     x \<leftarrow> w_buf w b;
     if b_do_phase x < 1000 then do {
       (r, w) \<leftarrow> buf_do_event prg b w;
       worker_finish r b w }
     else if w_function_init w \<noteq> None \<and> b_init_handler x = w_function_init w then do {
       c \<leftarrow> b_comm x;
       bind_res (comm_buf_free b w) (\<lambda>w. Some (Ret (upd_comm c (\<lambda>co. co\<lparr>co_init_buffer := None\<rparr>) w))) }
     else do {
       c \<leftarrow> b_comm x;
       bind_res (ans c b w) (\<lambda>(r, w). worker_finish r b w) } }"

definition worker_step ::
  "'st program \<Rightarrow> 'st answer \<Rightarrow> 'st world \<Rightarrow> 'st world outcome option" where
  "worker_step prg ans w =
     (if w_todo_sem w = 0 then Some (Ret w)
      else
        (case w_todo w of
           [] \<Rightarrow> None
         | b # bs \<Rightarrow> do {
             let w = w\<lparr>w_todo := bs, w_todo_sem := w_todo_sem w - 1\<rparr>;
             x \<leftarrow> w_buf w b;
             bind_res (if b_var_data x = None then comm_alloc_var_data b w else Some (Ret (b, w)))
               (\<lambda>(b, w). worker_run prg ans b w) }))"

fun worker_steps ::
  "'st program \<Rightarrow> 'st answer \<Rightarrow> nat \<Rightarrow> 'st world \<Rightarrow> 'st world outcome option" where
  "worker_steps prg ans 0 w = Some (Ret w)"
| "worker_steps prg ans (Suc n) w = bind_res (worker_step prg ans w) (worker_steps prg ans n)"

text \<open>\<open>comm_conn_init\<close>: \<open>lang\<close>, \<open>masks\<close> and \<open>classes\<close> are \<open>language_init_comm_datatypes\<close>,
  \<open>space_init_event_mask\<close> and \<open>class_comm_init\<close> for the connection, on the rest of the state.\<close>

definition comm_conn_init ::
  "('st world \<Rightarrow> 'st world) \<Rightarrow> ('st \<Rightarrow> 'st \<times> int) \<Rightarrow> ('st \<Rightarrow> 'st \<times> int) \<Rightarrow> nat \<Rightarrow> 'st world
     \<Rightarrow> (int \<times> 'st world) outcome option" where
  "comm_conn_init lang masks classes c w0 =
     (let w = lang w0; (s, r) = masks (w_st w) in
      if r < 0 then Some (Ret (-1, w\<lparr>w_st := s\<rparr>))
      else (case classes s of
        (s, r) \<Rightarrow>
          if r < 0 then Some (Ret (-1, w\<lparr>w_st := s\<rparr>))
          else bind_res
            (case w_function_init w of
               None \<Rightarrow> Some (Ret (w\<lparr>w_st := s\<rparr>))
             | Some f \<Rightarrow> bind_res (comm_buf_get 0 c (w\<lparr>w_st := s\<rparr>)) (\<lambda>(p, w).
                 Some (Ret (comm_buf_todo p (upd_comm c (\<lambda>co. co\<lparr>co_init_buffer := Some p\<rparr>)
                   (upd_buf p (\<lambda>x. x\<lparr>b_context := get_empty_context (b_context x), b_event := None,
                      b_init_handler := Some f, b_ehh_list := EHH_NOTIFY_ALLOW\<rparr>) w))))))
            (\<lambda>w. Some (Ret (0, upd_comm c (\<lambda>co. co\<lparr>co_state := 1\<rparr>) w)))))"

subsection \<open>A decision takes finitely many rounds\<close>

text \<open>\<open>decision prg b k\<close>: the event of \<open>b\<close> is suspended \<open>k\<close> times and then ends.\<close>

fun decision :: "'st program \<Rightarrow> nat \<Rightarrow> nat \<Rightarrow> 'st world \<Rightarrow> 'st world option" where
  "decision prg b k w =
     (case buf_do_event prg b w of
        None \<Rightarrow> None
      | Some (r, w') \<Rightarrow>
          (case w_buf w' b of
             None \<Rightarrow> None
           | Some x \<Rightarrow>
               if 1000 \<le> b_do_phase x then None
               else (case k of
                   0 \<Rightarrow> if r \<le> 0 then Some w' else None
                 | Suc k \<Rightarrow> if r = 1 then decision prg b k w' else None)))"

declare decision.simps [simp del]

definition same_but_event :: "nat \<Rightarrow> 'st world \<Rightarrow> 'st world \<Rightarrow> bool" where
  "same_but_event b w w' \<longleftrightarrow> (\<exists>cb st. w' = upd_buf b (set_event_cb cb) (w\<lparr>w_st := st\<rparr>))"

lemma set_event_cb_twice: "set_event_cb cb' (set_event_cb cb x) = set_event_cb cb' x"
  by (simp add: set_event_cb_def)

lemma same_but_event_trans: "same_but_event b w w' \<Longrightarrow> same_but_event b w' w'' \<Longrightarrow> same_but_event b w w''"
  unfolding same_but_event_def
  by (elim exE) (rule exI, rule exI, auto simp: upd_buf_def set_event_cb_twice comp_def option.map_comp)

lemma buf_do_event_same: "buf_do_event prg b w = Some (r, w') \<Longrightarrow> same_but_event b w w'"
  by (auto simp: buf_do_event_def same_but_event_def bind_eq_Some_conv split: prod.splits)

lemma same_but_eventD:
  assumes "same_but_event b w w'"
  shows "w_todo w' = w_todo w" "w_todo_sem w' = w_todo_sem w" "w_comm w' = w_comm w" "w_function_init w' = w_function_init w"
    "w_buffers w' = w_buffers w" "w_brk w' = w_brk w" "a \<noteq> b \<Longrightarrow> w_buf w' a = w_buf w a" "w_stacks w' = w_stacks w"
    "w_mem w' = w_mem w" "w_buf_id w' = w_buf_id w" "w_cs w' = w_cs w" "w_es w' = w_es w"
  using assms by (auto simp: same_but_event_def upd_buf_def)

lemma same_but_event_buf:
  assumes "same_but_event b w w'" "w_buf w b = Some x"
  shows "\<exists>cb. w_buf w' b = Some (set_event_cb cb x)"
  using assms by (auto simp: same_but_event_def upd_buf_def)

lemma set_event_cb_keeps: "keeps (set_event_cb cb)"
  by (simp add: keeps_def set_event_cb_def)

lemma same_but_event_ok:
  assumes "bufs_ok w pls" "same_but_event b w w'"
  shows "bufs_ok w' pls \<and> in_use w' pls = in_use w pls"
proof -
  obtain cb st where w': "w' = upd_buf b (set_event_cb cb) (w\<lparr>w_st := st\<rparr>)" using assms(2) by (auto simp: same_but_event_def)
  show ?thesis
    by (rule bufs_ok_cong [OF assms(1)]) (use set_event_cb_keeps in \<open>auto simp: w' upd_buf_def\<close>)
qed

lemma buf_do_event_todo:
  "buf_do_event prg b (w\<lparr>w_todo := t, w_todo_sem := s\<rparr>)
     = map_option (\<lambda>(r, w). (r, w\<lparr>w_todo := t, w_todo_sem := s\<rparr>)) (buf_do_event prg b w)"
proof -
  have "event_cb_of (w\<lparr>w_todo := t, w_todo_sem := s\<rparr>) = event_cb_of w"
    "env_of prg (w\<lparr>w_todo := t, w_todo_sem := s\<rparr>) = env_of prg w"
    by (rule ext, simp add: event_cb_of_def cong: option.case_cong) (simp add: env_of_def class_at_def cong: if_cong)
  then show ?thesis
    by (cases "w_buf w b") (auto simp: buf_do_event_def upd_buf_def map_option_case split: option.splits bind_split)
qed

lemma decision_same: "decision prg b k w = Some w' \<Longrightarrow> same_but_event b w w'"
proof (induction k arbitrary: w)
  case 0
  then show ?case using buf_do_event_same by (fastforce simp: decision.simps [of prg b 0] split: option.splits if_splits)
next
  case (Suc k)
  then obtain w1 where "buf_do_event prg b w = Some (1, w1)" "decision prg b k w1 = Some w'"
    by (auto simp: decision.simps [of prg b "Suc k"] split: option.splits if_splits)
  then show ?case using Suc.IH buf_do_event_same same_but_event_trans by blast
qed

text \<open>One buffer in the queue.\<close>

lemma worker_step_event:
  assumes todo: "w_todo w = [b]" "w_todo_sem w = 1" and x: "w_buf w b = Some x" "b_var_data x \<noteq> None" "b_do_phase x < 1000"
    and ev: "buf_do_event prg b w = Some (r, w')"
  shows "worker_step prg ans w = worker_finish r b (w'\<lparr>w_todo := [], w_todo_sem := 0\<rparr>)"
  using assms by (auto simp: worker_step_def worker_run_def buf_do_event_todo Let_def)

lemma finish_again:
  assumes "w_todo w = [b]" "w_todo_sem w = 1"
  shows "comm_buf_todo b (w\<lparr>w_todo := [], w_todo_sem := 0\<rparr>) = w"
  using assms by (cases w) (simp add: comm_buf_todo_def)

lemma worker_decides:
  assumes "w_todo w = [b]" "w_todo_sem w = 1" "w_buf w b = Some x" "b_var_data x \<noteq> None" "b_do_phase x < 1000"
    "decision prg b k w = Some w'"
  shows "worker_steps prg ans (Suc k) w = Some (Ret (upd_buf b (\<lambda>x. x\<lparr>b_do_phase := 1000\<rparr>) w'))"
  using assms
proof (induction k arbitrary: w x)
  case 0
  then obtain r where ev: "buf_do_event prg b w = Some (r, w')" "r \<le> 0" and w': "\<exists>y. w_buf w' b = Some y \<and> b_do_phase y < 1000"
    by (auto simp: decision.simps [of prg b 0] split: option.splits if_splits)
  note same = same_but_eventD [OF buf_do_event_same [OF ev(1)]]
  have "worker_finish r b (w'\<lparr>w_todo := [], w_todo_sem := 0\<rparr>)
      = Some (Ret (upd_buf b (\<lambda>x. x\<lparr>b_do_phase := 1000\<rparr>) (comm_buf_todo b (w'\<lparr>w_todo := [], w_todo_sem := 0\<rparr>))))"
    using ev(2) w' by (auto simp: worker_finish_def upd_buf_def comm_buf_todo_def)
  then show ?case
    using worker_step_event [OF 0(1-5) ev(1), of ans] finish_again [of w' b] same(1,2) 0(1,2) by simp
next
  case (Suc k)
  then obtain w1 y where ev: "buf_do_event prg b w = Some (1, w1)" "decision prg b k w1 = Some w'"
      and y: "w_buf w1 b = Some y" "b_do_phase y < 1000"
    by (auto simp: decision.simps [of prg b "Suc k"] split: option.splits if_splits)
  note same = same_but_eventD [OF buf_do_event_same [OF ev(1)]]
  have var: "b_var_data y \<noteq> None"
    using same_but_event_buf [OF buf_do_event_same [OF ev(1)] Suc.prems(3)] y(1) Suc.prems(4) by (auto simp: set_event_cb_def)
  have "worker_step prg ans w = Some (Ret w1)"
    using worker_step_event [OF Suc.prems(1-5) ev(1), of ans] finish_again [of w1 b] same(1,2) Suc.prems(1,2)
    by (simp add: worker_finish_def)
  then show ?case using Suc.IH [OF _ _ y(1) var y(2) ev(2)] same(1,2) Suc.prems(1,2) by simp
qed

lemma bind_res_assoc: "bind_res (bind_res m f) g = bind_res m (\<lambda>a. bind_res (f a) g)"
  by (cases "(m, f)" rule: bind_res.cases) simp_all

lemma worker_steps_add: "worker_steps prg ans (n + m) w = bind_res (worker_steps prg ans n w) (worker_steps prg ans m)"
proof (induction n arbitrary: w)
  case (Suc n)
  then have "worker_steps prg ans (n + m) = (\<lambda>w. bind_res (worker_steps prg ans n w) (worker_steps prg ans m))" by auto
  then show ?case by (simp add: bind_res_assoc)
qed simp

lemma worker_steps_one: "worker_steps prg ans (Suc 0) w = worker_step prg ans w"
proof (cases "worker_step prg ans w")
  case (Some r)
  then show ?thesis by (cases r) simp_all
qed simp

end
