(* ===== verification/Byte_Words.thy ===== *)
theory Byte_Words
  imports Object_Endian "HOL-Library.Monad_Syntax"
begin

text \<open>Little-endian fields of messages and registers: the bytes of a machine word and the word of bytes.\<close>

definition word_bytes :: "nat \<Rightarrow> 'a :: len word \<Rightarrow> bytes" where
  "word_bytes n w = map (\<lambda>i. ucast (drop_bit (8 * i) w)) [0..<n]"

definition bytes_word :: "bytes \<Rightarrow> 'a :: len word" where
  "bytes_word bs = foldr (\<lambda>b w. ucast b OR push_bit 8 w) bs 0"

definition get_field :: "nat \<Rightarrow> nat \<Rightarrow> bytes \<Rightarrow> 'a :: len word option" where
  "get_field off n d = (if off + n \<le> length d then Some (bytes_word (take n (drop off d))) else None)"

lemma length_word_bytes [simp]: "length (word_bytes n w) = n"
  by (simp add: word_bytes_def)

lemma nth_word_bytes [simp]: "i < n \<Longrightarrow> word_bytes n w ! i = ucast (drop_bit (8 * i) w)"
  by (simp add: word_bytes_def)

lemma bytes_word_Nil [simp]: "bytes_word [] = 0"
  by (simp add: bytes_word_def)

lemma bytes_word_Cons [simp]: "bytes_word (b # bs) = ucast b OR push_bit 8 (bytes_word bs)"
  by (simp add: bytes_word_def)

lemma bit_bytes_word:
  fixes i :: nat
  assumes "i < LENGTH('a :: len)"
  shows "bit (bytes_word bs :: 'a word) i \<longleftrightarrow> i < 8 * length bs \<and> bit (bs ! (i div 8)) (i mod 8)"
  using assms
proof (induction bs arbitrary: i)
  case (Cons b bs)
  show ?case
  proof (cases "i < 8")
    case True
    then show ?thesis using Cons.prems by (simp add: bit_or_iff bit_push_bit_iff bit_ucast_iff)
  next
    case False
    then have "bit (bytes_word (b # bs) :: 'a word) i \<longleftrightarrow> bit (bytes_word bs :: 'a word) (i - 8)"
      using Cons.prems bit_imp_le_length [of b i] by (auto simp: bit_or_iff bit_push_bit_iff bit_ucast_iff)
    also have "\<dots> \<longleftrightarrow> i - 8 < 8 * length bs \<and> bit (bs ! ((i - 8) div 8)) ((i - 8) mod 8)"
      using Cons.IH [of "i - 8"] Cons.prems by simp
    also have "\<dots> \<longleftrightarrow> i < 8 * length (b # bs) \<and> bit ((b # bs) ! (i div 8)) (i mod 8)"
    proof -
      obtain k where "i = k + 8" using False by (metis add.commute le_Suc_ex not_less)
      moreover have "(k + 8) div 8 = Suc (k div 8)" by simp
      ultimately show ?thesis by simp
    qed
    finally show ?thesis .
  qed
qed simp

lemma bytes_word_bytes:
  assumes "LENGTH('a :: len) \<le> 8 * n"
  shows "bytes_word (word_bytes n w) = (w :: 'a word)"
proof (rule bit_word_eqI)
  fix i assume i: "i < LENGTH('a)"
  then have "i div 8 < n" using assms by (simp add: less_mult_imp_div_less)
  then show "bit (bytes_word (word_bytes n w) :: 'a word) i \<longleftrightarrow> bit w i"
    using i assms \<open>i div 8 < n\<close> mod_less_divisor [of 8 i]
    by (simp add: bit_bytes_word bit_ucast_iff bit_drop_bit_eq ac_simps del: mod_less_divisor)
qed

lemma word_bytes_word:
  assumes "length bs = n" "8 * n \<le> LENGTH('a :: len)"
  shows "word_bytes n (bytes_word bs :: 'a word) = bs"
proof (rule nth_equalityI)
  fix i assume "i < length (word_bytes n (bytes_word bs :: 'a word))"
  then have i: "i < n" by simp
  show "word_bytes n (bytes_word bs :: 'a word) ! i = bs ! i"
  proof (rule bit_word_eqI)
    fix j :: nat assume j: "j < LENGTH(8)"
    then have "8 * i + j < LENGTH('a)" "8 * i + j < 8 * n" using i assms(2) by simp_all
    moreover have "(8 * i + j) div 8 = i" "(8 * i + j) mod 8 = j" using j by simp_all
    ultimately show "bit (word_bytes n (bytes_word bs :: 'a word) ! i) j \<longleftrightarrow> bit (bs ! i) j"
      using i j assms by (simp add: bit_ucast_iff bit_drop_bit_eq bit_bytes_word)
  qed
qed (simp add: assms)

text \<open>Names are C strings in fields of fixed length; an attribute has 32 bytes.\<close>

definition get_name :: "nat \<Rightarrow> nat \<Rightarrow> bytes \<Rightarrow> string" where
  "get_name off n d = map (\<lambda>b. char_of (unat b)) (takeWhile (\<lambda>b. b \<noteq> 0) (take n (drop off d)))"

definition parse_attr :: "nat \<Rightarrow> bytes \<Rightarrow> attr option" where
  "parse_attr off d = do {
     o' \<leftarrow> get_field off 2 d;
     l \<leftarrow> get_field (off + 2) 2 d;
     t \<leftarrow> get_field (off + 4) 1 d;
     Some \<lparr>a_offset = o', a_length = l, a_type = t, a_name = get_name (off + 5) MEDUSA_ATTRNAME_MAX d\<rparr> }"

end
