(* ===== verification/Mcp.thy ===== *)
theory Mcp
  imports Worker Byte_Words
begin

text \<open>
  The Medusa communication protocol (\<open>mcp.c\<close>): reading of messages, a chain of functions in which each
  says how many bytes the next one wants; requests to fetch and to update an object of the kernel, with
  the buffers that wait for their answers; the answer to a decision request; writing and closing. The
  bytes a peer sends are the list \<open>co_input\<close>; the loop around \<open>read\<close> takes as many of them as a function
  wants, and an exhausted list is the end of the connection.
\<close>

datatype read_result = READ_ERROR | READ_DONE | READ_FREE

definition FETCH_REQUEST :: "64 word" where "FETCH_REQUEST = 0x88"
definition UPDATE_REQUEST :: "64 word" where "UPDATE_REQUEST = 0x8a"
definition UPDATE_ANSWER :: "32 word" where "UPDATE_ANSWER = 0x0a"
definition FETCH_ANSWER :: "32 word" where "FETCH_ANSWER = 0x08"
definition FETCH_ERROR :: "32 word" where "FETCH_ERROR = 0x09"
definition AUTHANSWER :: "64 word" where "AUTHANSWER = 0x81"

subsection \<open>Objects behind pointers\<close>

definition get_obj :: "obj_ref \<Rightarrow> 'st world \<Rightarrow> object_s option" where
  "get_obj r w =
     (case r of
        Ctx_operation b \<Rightarrow> map_option (\<lambda>x. ec_operation (b_context x)) (w_buf w b)
      | Ctx_subject b \<Rightarrow> map_option (\<lambda>x. ec_subject (b_context x)) (w_buf w b)
      | Ctx_object b \<Rightarrow> map_option (\<lambda>x. ec_object (b_context x)) (w_buf w b)
      | Var n \<Rightarrow> w_objs w n)"

definition set_obj :: "obj_ref \<Rightarrow> object_s \<Rightarrow> 'st world \<Rightarrow> 'st world" where
  "set_obj r ob w =
     (case r of
        Ctx_operation b \<Rightarrow> upd_buf b (\<lambda>x. x\<lparr>b_context := (b_context x)\<lparr>ec_operation := ob\<rparr>\<rparr>) w
      | Ctx_subject b \<Rightarrow> upd_buf b (\<lambda>x. x\<lparr>b_context := (b_context x)\<lparr>ec_subject := ob\<rparr>\<rparr>) w
      | Ctx_object b \<Rightarrow> upd_buf b (\<lambda>x. x\<lparr>b_context := (b_context x)\<lparr>ec_object := ob\<rparr>\<rparr>) w
      | Var n \<Rightarrow> w\<lparr>w_objs := (w_objs w)(n \<mapsto> ob)\<rparr>)"

definition class_size :: "class_s \<Rightarrow> nat" where "class_size c = unat (m_size (c_m c))"

subsection \<open>Requests to the kernel\<close>

text \<open>The message of a fetch or an update: command, class, number of the request and the object's data.\<close>

definition request_bytes :: "64 word \<Rightarrow> class_s \<Rightarrow> 64 word \<Rightarrow> bytes \<Rightarrow> bytes" where
  "request_bytes cmd c seq d =
     word_bytes 8 cmd @ word_bytes 8 (m_classid (c_m c)) @ word_bytes 8 seq @ take (class_size c) d"

text \<open>\<open>wake\<close> is queued to wait on its own connection, the message \<open>r\<close> to be written on \<open>c\<close>; \<open>seq\<close> is the
  number of the request, from a static counter that the functions advance.\<close>

definition send_request ::
  "nat \<Rightarrow> bytes \<Rightarrow> 32 word \<Rightarrow> 64 word \<Rightarrow> 64 word \<Rightarrow> nat \<Rightarrow> nat \<Rightarrow> 'st world \<Rightarrow> 'st world option" where
  "send_request c msg to cid seq wake r w = do {
     x \<leftarrow> w_buf w wake;
     wc \<leftarrow> b_comm x;
     Some (comm_buf_output_enqueue c r
       (upd_comm wc (\<lambda>co. co\<lparr>co_wait_for_answer := co_wait_for_answer co @ [wake]\<rparr>)
         (upd_buf wake (\<lambda>x. x\<lparr>b_waiting := \<lparr>wi_to = to, wi_cid = cid, wi_seq = seq\<rparr>\<rparr>)
           (upd_buf r (\<lambda>x. x\<lparr>b_comm_buf := put_bytes 0 msg (b_comm_buf x), b_len := int (length msg), b_want := 0,
              b_completed := None\<rparr>) w)))) }"

text \<open>\<open>mcp_fetch_object\<close>: the byte order of the object is set before its data are copied.\<close>

definition mcp_fetch_object ::
  "nat \<Rightarrow> int \<Rightarrow> obj_ref \<Rightarrow> nat \<Rightarrow> 'st world \<Rightarrow> (int \<times> 'st world) outcome option" where
  "mcp_fetch_object c cont ob_ref wake w =
     (if cont = 3 then map_option (\<lambda>x. Ret (b_user_data x, w)) (w_buf w wake)
      else do {
        ob \<leftarrow> get_obj ob_ref w;
        a \<leftarrow> o_class ob;
        cl \<leftarrow> class_at w a;
        bind_res (comm_buf_get (24 + int (class_size cl)) c (upd_buf wake (\<lambda>x. x\<lparr>b_user_data := -1\<rparr>) w)) (\<lambda>(r, w). do {
          let seq = w_fetch_id w;
          let w = upd_buf wake (\<lambda>x. x\<lparr>b_user1 := Obj_ptr ob_ref\<rparr>) w;
          ob \<leftarrow> get_obj ob_ref w;
          let ob = object_set_byte_order cl ob (co_flags (w_comm w c));
          let w = set_obj ob_ref ob w;
          w \<leftarrow> send_request c (request_bytes FETCH_REQUEST cl seq (o_data ob)) (ucast FETCH_REQUEST)
                 (m_classid (c_m cl)) seq wake r w;
          Some (Ret (3, w\<lparr>w_fetch_id := seq + 1\<rparr>)) }) })"

text \<open>\<open>mcp_update_object\<close>: the data are copied before the byte order of the object is set.\<close>

definition mcp_update_object ::
  "nat \<Rightarrow> int \<Rightarrow> obj_ref \<Rightarrow> nat \<Rightarrow> 'st world \<Rightarrow> (int \<times> 'st world) outcome option" where
  "mcp_update_object c cont ob_ref wake w =
     (if cont = 3 then map_option (\<lambda>x. Ret (if b_user_data x = RESULT_ALLOW then 0 else -1, w)) (w_buf w wake)
      else do {
        ob \<leftarrow> get_obj ob_ref w;
        a \<leftarrow> o_class ob;
        cl \<leftarrow> class_at w a;
        bind_res (comm_buf_get (24 + int (class_size cl)) c (upd_buf wake (\<lambda>x. x\<lparr>b_user_data := RESULT_ERR\<rparr>) w)) (\<lambda>(r, w). do {
          let seq = w_update_id w;
          ob \<leftarrow> get_obj ob_ref w;
          let msg = request_bytes UPDATE_REQUEST cl seq (o_data ob);
          let w = set_obj ob_ref (object_set_byte_order cl ob (co_flags (w_comm w c))) w;
          w \<leftarrow> send_request c msg UPDATE_ANSWER (m_classid (c_m cl)) seq wake r w;
          Some (Ret (3, w\<lparr>w_update_id := seq + 1\<rparr>)) }) })"

text \<open>\<open>mcp_answer\<close>: an update of the subject comes first when there is one; its failure is ignored.\<close>

definition send_answer :: "nat \<Rightarrow> nat \<Rightarrow> 'st world \<Rightarrow> (int \<times> 'st world) outcome option" where
  "send_answer c b w =
     bind_res (comm_buf_get 18 c w) (\<lambda>(r, w). do {
       x \<leftarrow> w_buf w b;
       id \<leftarrow> get_field 8 8 (b_comm_buf x);
       let msg = word_bytes 8 AUTHANSWER @ word_bytes 8 (id :: 64 word)
                   @ word_bytes 2 (word_of_int (ec_result (b_context x)) :: 16 word);
       Some (Ret (0, comm_buf_output_enqueue c r
         (upd_buf r (\<lambda>x. x\<lparr>b_comm_buf := put_bytes 0 msg (b_comm_buf x), b_len := 18, b_want := 0,
            b_completed := None\<rparr>) w))) })"

definition mcp_answer :: "'st answer" where
  "mcp_answer c b w = do {
     x \<leftarrow> w_buf w b;
     bind_res
       (if 0 \<le> ec_result (b_context x) \<and> o_class (ec_subject (b_context x)) \<noteq> None then
          (let ph = (if b_do_phase x = 0 then 1000 else b_do_phase x) in
           mcp_update_object c (int ph - 1000) (Ctx_subject b) b (upd_buf b (\<lambda>x. x\<lparr>b_do_phase := ph\<rparr>) w))
        else Some (Ret (0, w)))
       (\<lambda>(i, w).
          if 0 < i then Some (Ret (i, upd_buf b (\<lambda>x. x\<lparr>b_do_phase := nat (i + 1000)\<rparr>) w))
          else send_answer c b w) }"

subsection \<open>Writing and closing\<close>

text \<open>\<open>mcp_write\<close> for the first buffer of the output queue; \<open>ok\<close> says whether \<open>write\<close> succeeds. A writer
  that waits on the semaphore does nothing.\<close>

definition message_of :: "'st comm_buffer_s \<Rightarrow> 'st world \<Rightarrow> bytes option" where
  "message_of x w =
     (case b_p_comm_buf x of
        In_buf p \<Rightarrow> do {
          y \<leftarrow> w_buf w p;
          if 0 \<le> b_want x \<and> nat (b_len x) \<le> length (b_comm_buf y)
          then Some (take (nat (b_len x - b_want x)) (drop (nat (b_want x)) (b_comm_buf y))) else None }
      | In_obj _ \<Rightarrow> None)"

definition mcp_write :: "bool \<Rightarrow> nat \<Rightarrow> 'st world \<Rightarrow> (int \<times> 'st world) outcome option" where
  "mcp_write ok c w =
     (let co = w_comm w c in
      if co_output_sem co = 0 then Some (Ret (1, w))
      else
        (case co_output co of
           [] \<Rightarrow> None
         | b # bs \<Rightarrow> do {
             let w = upd_comm c (\<lambda>co. co\<lparr>co_output := bs, co_output_sem := co_output_sem co - 1\<rparr>) w;
             x \<leftarrow> w_buf w b;
             if b_open_counter x \<noteq> co_open_counter co
             then bind_res (comm_buf_free b w) (\<lambda>w. Some (Ret (1, w)))
             else if b_want x < b_len x then do {
               msg \<leftarrow> message_of x w;
               if ok then bind_res (comm_buf_free b
                   (upd_buf b (\<lambda>x. x\<lparr>b_want := b_len x\<rparr>) (upd_comm c (\<lambda>co. co\<lparr>co_sent := co_sent co @ [msg]\<rparr>) w)))
                 (\<lambda>w. Some (Ret (1, w)))
               else Some (Ret (-1, w)) }
             else bind_res (comm_buf_free b w) (\<lambda>w. Some (Ret (1, w))) }))"

fun free_buffers :: "nat list \<Rightarrow> 'st world \<Rightarrow> 'st world outcome option" where
  "free_buffers [] w = Some (Ret w)"
| "free_buffers (b # bs) w = bind_res (comm_buf_free b w) (free_buffers bs)"

definition mcp_close :: "nat \<Rightarrow> 'st world \<Rightarrow> 'st world outcome option" where
  "mcp_close c w =
     bind_res (free_buffers (co_output (w_comm w c)) (upd_comm c (\<lambda>co. co\<lparr>co_fd := -1, co_output := []\<rparr>) w)) (\<lambda>w.
       bind_res (free_buffers (co_wait_for_answer (w_comm w c)) (upd_comm c (\<lambda>co. co\<lparr>co_wait_for_answer := []\<rparr>) w)) (\<lambda>w.
         Some (Ret (upd_comm c (\<lambda>co. co\<lparr>co_open_counter := co_open_counter co - 1\<rparr>) w))))"

text \<open>\<open>mcp_nowrite\<close>, for a connection that only listens, releases one buffer.\<close>

definition mcp_nowrite :: "nat \<Rightarrow> 'st world \<Rightarrow> 'st world outcome option" where
  "mcp_nowrite c w =
     (case co_output (w_comm w c) of
        [] \<Rightarrow> Some (Ret w)
      | b # bs \<Rightarrow> comm_buf_free b (upd_comm c (\<lambda>co. co\<lparr>co_output := bs\<rparr>) w))"

subsection \<open>Reading\<close>

definition mcp_opened :: "nat \<Rightarrow> 'st world \<Rightarrow> (nat \<times> 'st world) outcome option" where
  "mcp_opened c w =
     bind_res (comm_buf_get 2048 c
        (upd_comm c (\<lambda>co. co\<lparr>co_open_counter := co_open_counter co + 1\<rparr>)
          (w\<lparr>w_cs := class_free_all_clases c (w_cs w), w_es := event_free_all_events c (w_es w)\<rparr>)))
       (\<lambda>(b, w). Some (Ret (b, upd_buf b (\<lambda>x. x\<lparr>b_want := 16, b_completed := Some R_greeting\<rparr>) w)))"

text \<open>A function of the chain: the result, and the world it leaves.\<close>

type_synonym 'st reader = "nat \<Rightarrow> 'st world \<Rightarrow> (read_result \<times> 'st world) outcome option"

definition next_fn :: "mcp_fn option \<Rightarrow> int \<Rightarrow> nat \<Rightarrow> 'st world \<Rightarrow> 'st world" where
  "next_fn f want b = upd_buf b (\<lambda>x. x\<lparr>b_want := want, b_completed := f\<rparr>)"

definition finished :: "nat \<Rightarrow> 'st world \<Rightarrow> 'st world" where
  "finished b = upd_buf b (\<lambda>x. x\<lparr>b_completed := None\<rparr>)"

definition mcp_r_greeting :: "'st reader" where
  "mcp_r_greeting b w = do {
     x \<leftarrow> w_buf w b;
     c \<leftarrow> b_comm x;
     magic \<leftarrow> get_field 0 8 (b_comm_buf x);
     version \<leftarrow> get_field 8 8 (b_comm_buf x);
     if (magic :: 64 word) = 0x66007e5a \<or> magic = 0x5a7e0066 then
       Some (Ret (READ_FREE, finished b (upd_comm c (\<lambda>co. co\<lparr>co_version := version,
          co_flags := (if magic = 0x66007e5a then 0 else OBJECT_FLAG_CHENDIAN)\<rparr>) w)))
     else if magic = 0 then
       Some (Ret (READ_DONE, next_fn (Some R_head) 12 b (upd_comm c (\<lambda>co. co\<lparr>co_flags := 0\<rparr>) w)))
     else Some (Ret (READ_ERROR, w)) }"

definition op_size :: "'st world \<Rightarrow> nat option \<Rightarrow> int option" where
  "op_size w a = (case a of None \<Rightarrow> Some 0 | Some a \<Rightarrow> map_option (int \<circ> class_size) (cs_heap (w_cs w) a))"

definition mcp_r_head :: "'st reader" where
  "mcp_r_head b w = do {
     x \<leftarrow> w_buf w b;
     c \<leftarrow> b_comm x;
     id \<leftarrow> get_field 0 8 (b_comm_buf x);
     if (id :: 64 word) \<noteq> 0 then
       (case hash_find (co_events (w_comm w c)) id of
          None \<Rightarrow> Some (Ret (READ_ERROR, upd_buf b (\<lambda>x. x\<lparr>b_event := None\<rparr>) w))
        | Some ev \<Rightarrow> do {
            t \<leftarrow> es_heap (w_es w) ev;
            n0 \<leftarrow> op_size w (et_op0 t);
            n1 \<leftarrow> op_size w (et_op1 t);
            Some (Ret (READ_DONE, next_fn (Some R_query) (4 + b_len x + int (unat (ac_size (et_acctype t))) + n0 + n1) b
              (upd_buf b (\<lambda>x. x\<lparr>b_event := Some ev\<rparr>) w))) })
     else do {
       cmd \<leftarrow> get_field 8 4 (b_comm_buf x);
       let go = (\<lambda>f n. Some (Ret (READ_DONE, next_fn (Some f) (b_len x + n) b w)));
       if (cmd :: 32 word) = 0x02 then go R_classdef_attr (40 + 32)
       else if cmd = 0x04 then go R_acctypedef_attr (112 + 32)
       else if cmd = 0x03 \<or> cmd = 0x05 then go R_discard 4
       else if cmd = FETCH_ERROR \<or> cmd = FETCH_ANSWER then go R_fetch_answer 16
       else if cmd = UPDATE_ANSWER then go R_update_answer 20
       else if cmd = 0x06 then
         Some (Ret (READ_DONE, upd_buf b (\<lambda>x. x\<lparr>b_completed := Some R_ready_request\<rparr>) w))
       else Some (Ret (READ_ERROR, w)) } }"

text \<open>\<open>get_event_context\<close>: the operation, the subject and the object of a decision request, cut out of the
  bytes of its message.\<close>

definition kobject :: "string \<Rightarrow> 32 word \<Rightarrow> nat option \<Rightarrow> bytes \<Rightarrow> object_s" where
  "kobject name flags a d =
     \<lparr>o_attr = \<lparr>a_offset = 0, a_length = of_nat (length d), a_type = MED_TYPE_END, a_name = take MEDUSA_ATTRNAME_MAX name\<rparr>,
      o_flags = flags, o_class = a, o_data = d\<rparr>"

definition get_event_context ::
  "32 word \<Rightarrow> nat \<Rightarrow> event_type_s \<Rightarrow> nat \<Rightarrow> nat \<Rightarrow> bytes \<Rightarrow> event_context_s \<Rightarrow> event_context_s option" where
  "get_event_context flags ev t n0 n1 d c =
     (let n = unat (ac_size (et_acctype t)) in
      if 16 + n + n0 + n1 \<le> length d then
        Some (c\<lparr>ec_operation := kobject (ac_name (et_acctype t)) flags (Some (op_class_addr ev)) (take n (drop 16 d)),
          ec_subject := kobject (fst (ac_op_name (et_acctype t))) flags (et_op0 t) (take n0 (drop (16 + n) d)),
          ec_object := kobject (snd (ac_op_name (et_acctype t))) flags (et_op1 t) (take n1 (drop (16 + n + n0) d))\<rparr>)
      else None)"

definition set_request_context :: "nat \<Rightarrow> 'st world \<Rightarrow> 'st world option" where
  "set_request_context b w = do {
     x \<leftarrow> w_buf w b;
     c \<leftarrow> b_comm x;
     ev \<leftarrow> b_event x;
     t \<leftarrow> es_heap (w_es w) ev;
     n0 \<leftarrow> op_size w (et_op0 t);
     n1 \<leftarrow> op_size w (et_op1 t);
     ec \<leftarrow> get_event_context (co_flags (w_comm w c)) ev t (nat n0) (nat n1) (b_comm_buf x) (b_context x);
     Some (upd_buf b (\<lambda>x. x\<lparr>b_context := ec, b_ehh_list := EHH_VS_ALLOW\<rparr>) w) }"

text \<open>\<open>mcp_r_query\<close>; \<open>init\<close> is \<open>comm_conn_init\<close> of the connection. A request that arrives while
  \<open>_init\<close> has not finished waits in the queue \<open>to_wake\<close> of its buffer.\<close>

definition dispatch_query :: "nat \<Rightarrow> nat \<Rightarrow> 'st world \<Rightarrow> (read_result \<times> 'st world) outcome option" where
  "dispatch_query c b w =
     (case co_init_buffer (w_comm w c) of
        Some ib \<Rightarrow>
          if w_function_init w \<noteq> None then do {
            y \<leftarrow> w_buf w ib;
            Some (Ret (READ_DONE, finished b (upd_buf ib (\<lambda>x. x\<lparr>b_to_wake := b_to_wake x @ [b]\<rparr>) w))) }
          else Some (Ret (READ_DONE, comm_buf_todo b (finished b w)))
      | None \<Rightarrow> Some (Ret (READ_DONE, comm_buf_todo b (finished b w))))"

definition mcp_r_query :: "(nat \<Rightarrow> 'st world \<Rightarrow> (int \<times> 'st world) outcome option) \<Rightarrow> 'st reader" where
  "mcp_r_query init b w = do {
     x \<leftarrow> w_buf w b;
     c \<leftarrow> b_comm x;
     w \<leftarrow> set_request_context b w;
     if co_state (w_comm w c) = 0 then
       (if co_version (w_comm w c) < 3 then
          bind_res (init c w) (\<lambda>(r, w). if r < 0 then Some (Ret (READ_ERROR, w)) else dispatch_query c b w)
        else Some (Ret (READ_ERROR, w)))
     else dispatch_query c b w }"

text \<open>Definitions of classes and of event types. A definition is read attribute by attribute until the
  last one read has the type \<open>MED_TYPE_END\<close>; names are C strings in fields of fixed length.\<close>

fun parse_attrs :: "nat \<Rightarrow> nat \<Rightarrow> bytes \<Rightarrow> attr list option" where
  "parse_attrs 0 off d = None"
| "parse_attrs (Suc n) off d = do {
     a \<leftarrow> parse_attr off d;
     if a_type a = MED_TYPE_END then Some []
     else map_option (Cons a) (parse_attrs n (off + 32) d) }"

definition parse_class :: "nat \<Rightarrow> bytes \<Rightarrow> medusa_class option" where
  "parse_class off d = do {
     id \<leftarrow> get_field off 8 d;
     s \<leftarrow> get_field (off + 8) 2 d;
     Some \<lparr>m_classid = id, m_size = s, m_name = get_name (off + 10) MEDUSA_CLASSNAME_MAX d\<rparr> }"

definition parse_acctype :: "nat \<Rightarrow> bytes \<Rightarrow> medusa_acctype option" where
  "parse_acctype off d = do {
     id \<leftarrow> get_field off 8 d;
     s \<leftarrow> get_field (off + 8) 2 d;
     ab \<leftarrow> get_field (off + 10) 2 d;
     c0 \<leftarrow> get_field (off + 12) 8 d;
     c1 \<leftarrow> get_field (off + 20) 8 d;
     Some \<lparr>ac_opid = id, ac_size = s, ac_actbit = ab, ac_op_class = (c0, c1),
       ac_name = get_name (off + 28) MEDUSA_OPNAME_MAX d,
       ac_op_name = (get_name (off + 58) MEDUSA_ATTRNAME_MAX d, get_name (off + 85) MEDUSA_ATTRNAME_MAX d)\<rparr> }"

definition unify_bitmap_types :: "attr list \<Rightarrow> attr list" where
  "unify_bitmap_types = map (\<lambda>a. if a_type a = 4 \<or> a_type a = 5 \<or> a_type a = 6 then a\<lparr>a_type := MED_TYPE_BITMAP\<rparr> else a)"

text \<open>The last attribute read so far is the end of the list.\<close>

definition at_end :: "'st comm_buffer_s \<Rightarrow> bool option" where
  "at_end x = (if 32 \<le> b_len x then map_option (\<lambda>t. t = MED_TYPE_END) (get_field (nat (b_len x) - 28) 1 (b_comm_buf x)) else None)"

definition want_more :: "nat \<Rightarrow> int \<Rightarrow> 'st world \<Rightarrow> 'st world" where
  "want_more b n = upd_buf b (\<lambda>x. x\<lparr>b_want := b_len x + n\<rparr>)"

text \<open>\<open>ok\<close>: the allocations of the new class or event type succeed.\<close>

definition mcp_r_classdef_attr :: "bool \<Rightarrow> 'st reader" where
  "mcp_r_classdef_attr ok b w = do {
     x \<leftarrow> w_buf w b;
     c \<leftarrow> b_comm x;
     e \<leftarrow> at_end x;
     if \<not> e then Some (Ret (READ_DONE, want_more b 32 w))
     else do {
       mc \<leftarrow> parse_class 12 (b_comm_buf x);
       as \<leftarrow> parse_attrs (nat (b_len x)) 52 (b_comm_buf x);
       let flags = co_flags (w_comm w c);
       let (cs, tab, _) = add_class c (byte_reorder_class flags mc) (unify_bitmap_types (byte_reorder_attrs flags as))
              ok ok (w_cs w) (co_classes (w_comm w c));
       Some (Ret (READ_FREE, finished b (upd_comm c (\<lambda>co. co\<lparr>co_classes := tab\<rparr>) (w\<lparr>w_cs := cs\<rparr>)))) } }"

definition mcp_r_acctypedef_attr :: "bool \<Rightarrow> 'st reader" where
  "mcp_r_acctypedef_attr ok b w = do {
     x \<leftarrow> w_buf w b;
     c \<leftarrow> b_comm x;
     e \<leftarrow> at_end x;
     if \<not> e then Some (Ret (READ_DONE, want_more b 32 w))
     else do {
       ac \<leftarrow> parse_acctype 12 (b_comm_buf x);
       as \<leftarrow> parse_attrs (nat (b_len x)) 124 (b_comm_buf x);
       let flags = co_flags (w_comm w c);
       let (es, tab, _) = event_type_add c (byte_reorder_acctype flags ac) (unify_bitmap_types (byte_reorder_attrs flags as))
              ok ok (co_classes (w_comm w c)) (w_es w) (co_events (w_comm w c));
       Some (Ret (READ_FREE, finished b (upd_comm c (\<lambda>co. co\<lparr>co_events := tab\<rparr>) (w\<lparr>w_es := es\<rparr>)))) } }"

definition mcp_r_discard :: "'st reader" where
  "mcp_r_discard b w = Some (Ret (READ_FREE, finished b w))"

definition mcp_r_ready_request :: "(nat \<Rightarrow> 'st world \<Rightarrow> (int \<times> 'st world) outcome option) \<Rightarrow> 'st reader" where
  "mcp_r_ready_request init b w = do {
     x \<leftarrow> w_buf w b;
     c \<leftarrow> b_comm x;
     bind_res (init c (finished b w)) (\<lambda>(r, w).
       if r < 0 then Some (Ret (READ_ERROR, w))
       else if w_function_init w = None
       then bind_res (mcp_ready_answer c w) (\<lambda>w. Some (Ret (READ_FREE, w)))
       else Some (Ret (READ_FREE, w))) }"

text \<open>Answers to requests: the buffer that waits for the answer is taken out of the queue of waiting
  buffers and woken. An answer that nobody waits for ends the program.\<close>

definition waits_for :: "'st world \<Rightarrow> 32 word \<Rightarrow> 64 word \<Rightarrow> 64 word \<Rightarrow> nat \<Rightarrow> bool" where
  "waits_for w to cid seq b =
     (case w_buf w b of None \<Rightarrow> False
      | Some x \<Rightarrow> b_waiting x = \<lparr>wi_to = to, wi_cid = cid, wi_seq = seq\<rparr>)"

definition take_waiter ::
  "nat \<Rightarrow> 32 word \<Rightarrow> 64 word \<Rightarrow> 64 word \<Rightarrow> 'st world \<Rightarrow> (nat option \<times> 'st world) option" where
  "take_waiter c to cid seq w =
     (if list_all (\<lambda>b. w_buf w b \<noteq> None) (co_wait_for_answer (w_comm w c)) then
        let (p, bs) = take_first (waits_for w to cid seq) (co_wait_for_answer (w_comm w c)) in
        Some (p, upd_comm c (\<lambda>co. co\<lparr>co_wait_for_answer := bs\<rparr>) w)
      else None)"

definition mcp_r_fetch_answer :: "'st reader" where
  "mcp_r_fetch_answer b w = do {
     x \<leftarrow> w_buf w b;
     c \<leftarrow> b_comm x;
     cmd \<leftarrow> get_field 8 4 (b_comm_buf x);
     cid \<leftarrow> get_field 12 8 (b_comm_buf x);
     seq \<leftarrow> get_field 20 8 (b_comm_buf x);
     (p, w) \<leftarrow> take_waiter c (ucast FETCH_REQUEST) cid seq w;
     if (cmd :: 32 word) = FETCH_ERROR then
       Some (Ret (READ_FREE, finished b (case p of None \<Rightarrow> w | Some p \<Rightarrow> comm_buf_todo p w)))
     else
       (case p of
          None \<Rightarrow> Some (Fatal ''Arrived answer to FETCH request, nobody is waiting for it!'')
        | Some p \<Rightarrow> do {
            y \<leftarrow> w_buf w p;
            r \<leftarrow> (case b_user1 y of Obj_ptr r \<Rightarrow> Some r | _ \<Rightarrow> None);
            ob \<leftarrow> get_obj r w;
            a \<leftarrow> o_class ob;
            cl \<leftarrow> class_at w a;
            Some (Ret (READ_DONE, upd_buf b (\<lambda>x. x\<lparr>b_len := 0, b_want := int (class_size cl), b_p_comm_buf := In_obj r,
               b_user1 := Buf_ptr p, b_completed := Some R_fetch_answer_done\<rparr>) w)) }) }"

definition mcp_r_fetch_answer_done :: "'st reader" where
  "mcp_r_fetch_answer_done b w = do {
     x \<leftarrow> w_buf w b;
     p \<leftarrow> (case b_user1 x of Buf_ptr p \<Rightarrow> Some p | _ \<Rightarrow> None);
     y \<leftarrow> w_buf w p;
     Some (Ret (READ_FREE, finished b (comm_buf_todo p
       (upd_buf p (\<lambda>y. y\<lparr>b_user_data := 0, b_waiting := (b_waiting y)\<lparr>wi_to := 0\<rparr>, b_user1 := Null_ptr\<rparr>) w)))) }"

definition mcp_r_update_answer :: "'st reader" where
  "mcp_r_update_answer b w = do {
     x \<leftarrow> w_buf w b;
     c \<leftarrow> b_comm x;
     cid \<leftarrow> get_field 12 8 (b_comm_buf x);
     seq \<leftarrow> get_field 20 8 (b_comm_buf x);
     res \<leftarrow> get_field 28 4 (b_comm_buf x);
     (p, w) \<leftarrow> take_waiter c UPDATE_ANSWER cid seq w;
     case p of
       None \<Rightarrow> Some (Fatal ''Arrived answer to UPDATE request, nobody is waiting for it!'')
     | Some p \<Rightarrow> Some (Ret (READ_FREE, finished b (comm_buf_todo p
         (upd_buf p (\<lambda>y. y\<lparr>b_user_data := sint (res :: 32 word), b_waiting := (b_waiting y)\<lparr>wi_to := 0\<rparr>\<rparr>) w)))) }"

text \<open>The call through \<open>completed\<close>.\<close>

definition run_reader ::
  "(nat \<Rightarrow> 'st world \<Rightarrow> (int \<times> 'st world) outcome option) \<Rightarrow> bool \<Rightarrow> mcp_fn \<Rightarrow> 'st reader" where
  "run_reader init ok f =
     (case f of
        R_greeting \<Rightarrow> mcp_r_greeting
      | R_head \<Rightarrow> mcp_r_head
      | R_query \<Rightarrow> mcp_r_query init
      | R_classdef_attr \<Rightarrow> mcp_r_classdef_attr ok
      | R_acctypedef_attr \<Rightarrow> mcp_r_acctypedef_attr ok
      | R_discard \<Rightarrow> mcp_r_discard
      | R_ready_request \<Rightarrow> mcp_r_ready_request init
      | R_fetch_answer \<Rightarrow> mcp_r_fetch_answer
      | R_fetch_answer_done \<Rightarrow> mcp_r_fetch_answer_done
      | R_update_answer \<Rightarrow> mcp_r_update_answer)"

text \<open>The bytes that are read go where \<open>p_comm_buf\<close> points. The result is \<open>False\<close> at the end of the
  connection; the bytes of an incomplete message are dropped with the buffer.\<close>

definition store_at :: "data_ptr \<Rightarrow> nat \<Rightarrow> bytes \<Rightarrow> 'st world \<Rightarrow> 'st world option" where
  "store_at p off bs w =
     (case p of
        In_buf a \<Rightarrow> do {
          y \<leftarrow> w_buf w a;
          if off + length bs \<le> length (b_comm_buf y)
          then Some (upd_buf a (\<lambda>y. y\<lparr>b_comm_buf := put_bytes off bs (b_comm_buf y)\<rparr>) w) else None }
      | In_obj r \<Rightarrow> do {
          ob \<leftarrow> get_obj r w;
          if off + length bs \<le> length (o_data ob)
          then Some (set_obj r (ob\<lparr>o_data := put_bytes off bs (o_data ob)\<rparr>) w) else None })"

definition mcp_check_size_and_read :: "nat \<Rightarrow> 'st world \<Rightarrow> (bool \<times> nat \<times> 'st world) outcome option" where
  "mcp_check_size_and_read b w = do {
     x \<leftarrow> w_buf w b;
     bind_res (if b_size x < b_want x \<and> b_p_comm_buf x = In_buf b then comm_buf_resize (b_want x) b w else Some (Ret (b, w)))
       (\<lambda>(b, w). do {
          x \<leftarrow> w_buf w b;
          c \<leftarrow> b_comm x;
          let n = nat (b_want x - b_len x);
          let inp = co_input (w_comm w c);
          if length inp < n then Some (Ret (False, b, upd_comm c (\<lambda>co. co\<lparr>co_input := []\<rparr>) w))
          else do {
            w \<leftarrow> store_at (b_p_comm_buf x) (nat (b_len x)) (take n inp)
                  (upd_comm c (\<lambda>co. co\<lparr>co_input := drop n inp\<rparr>) w);
            Some (Ret (True, b, upd_buf b (\<lambda>x. x\<lparr>b_len := b_len x + int n\<rparr>) w)) } }) }"

definition read_failed :: "nat \<Rightarrow> 'st world \<Rightarrow> (int \<times> 'st world) outcome option" where
  "read_failed b w = do {
     x \<leftarrow> w_buf w b;
     c \<leftarrow> b_comm x;
     bind_res (mcp_close c w) (\<lambda>w. bind_res (comm_buf_free b w) (\<lambda>w. Some (Ret (-1, w)))) }"

partial_function (option) mcp_read_loop ::
  "(nat \<Rightarrow> 'st world \<Rightarrow> (int \<times> 'st world) outcome option) \<Rightarrow> bool \<Rightarrow> nat \<Rightarrow> 'st world \<Rightarrow> (int \<times> 'st world) outcome option" where
  "mcp_read_loop init ok b w = do {
     x \<leftarrow> w_buf w b;
     case b_completed x of
       None \<Rightarrow> Some (Ret (0, w))
     | Some f \<Rightarrow> do {
         r \<leftarrow> mcp_check_size_and_read b w;
         case r of
           Fatal m \<Rightarrow> Some (Fatal m)
         | Ret (ok1, b, w) \<Rightarrow>
             if \<not> ok1 then read_failed b w
             else do {
               r \<leftarrow> run_reader init ok f b w;
               case r of
                 Fatal m \<Rightarrow> Some (Fatal m)
               | Ret (READ_ERROR, w) \<Rightarrow> read_failed b w
               | Ret (READ_FREE, w) \<Rightarrow> bind_res (comm_buf_free b w) (\<lambda>w. Some (Ret (0, w)))
               | Ret (READ_DONE, w) \<Rightarrow> mcp_read_loop init ok b w } } }"

definition mcp_receive_greeting ::
  "(nat \<Rightarrow> 'st world \<Rightarrow> (int \<times> 'st world) outcome option) \<Rightarrow> bool \<Rightarrow> nat \<Rightarrow> 'st world \<Rightarrow> (int \<times> 'st world) outcome option" where
  "mcp_receive_greeting init ok c w = bind_res (mcp_opened c w) (\<lambda>(b, w). mcp_read_loop init ok b w)"

text \<open>One round of \<open>mcp_read_worker\<close>: a message is read; after an error the connection is closed once more
  and the thread ends.\<close>

definition mcp_read_worker ::
  "(nat \<Rightarrow> 'st world \<Rightarrow> (int \<times> 'st world) outcome option) \<Rightarrow> bool \<Rightarrow> nat \<Rightarrow> 'st world \<Rightarrow> (int \<times> 'st world) outcome option" where
  "mcp_read_worker init ok c w =
     bind_res (comm_buf_get 2048 c w) (\<lambda>(b, w).
       bind_res (mcp_read_loop init ok b (upd_buf b (\<lambda>x. x\<lparr>b_want := 12, b_completed := Some R_head\<rparr>) w)) (\<lambda>(r, w).
         if r \<noteq> 0 then bind_res (mcp_close c w) (\<lambda>w. Some (Ret (-1, w))) else Some (Ret (0, w))))"

subsection \<open>The answer to a decision request\<close>

definition answer_message :: "64 word \<Rightarrow> int \<Rightarrow> bytes" where
  "answer_message num res = word_bytes 8 AUTHANSWER @ word_bytes 8 num @ word_bytes 2 (word_of_int res :: 16 word)"

text \<open>\<open>ready_to_answer b x c w\<close>: \<open>b\<close> holds the request with the number \<open>num\<close> of connection \<open>c\<close> and can be released.\<close>

definition ready_to_answer :: "nat \<Rightarrow> 'st comm_buffer_s \<Rightarrow> nat \<Rightarrow> 64 word \<Rightarrow> 'st world \<Rightarrow> bool" where
  "ready_to_answer b x c num w \<longleftrightarrow> w_buf w b = Some x \<and> b_comm x = Some c \<and> b_var_data x \<noteq> None
     \<and> get_field 8 8 (b_comm_buf x) = Some num \<and> \<not> is_init_buffer b x w \<and> b_init_handler x = None
     \<and> (b_n x < 0 \<longrightarrow> sh_cell (w_stacks w) (ex_stack (b_execute x)) \<noteq> None)
     \<and> (\<exists>i < length (w_buffers w). fits 18 w i = Some True)"

text \<open>No update of the subject is to be made, or it is over.\<close>

definition updated :: "'st comm_buffer_s \<Rightarrow> bool" where
  "updated x \<longleftrightarrow> ec_result (b_context x) < 0 \<or> o_class (ec_subject (b_context x)) = None \<or> b_do_phase x = 1003"

lemma send_answer_ok:
  assumes ok: "bufs_ok w pls" and b: "b \<in> in_use w pls" "w_buf w b = Some x" "get_field 8 8 (b_comm_buf x) = Some num"
    and room: "i < length (w_buffers w)" "fits 18 w i = Some True"
  shows "\<exists>w' pls' r y. send_answer c b w = Some (Ret (0, w')) \<and> bufs_ok w' pls' \<and> in_use w' pls' = insert r (in_use w pls)
    \<and> r \<notin> in_use w pls \<and> w_buf w' b = Some x \<and> w_buf w' r = Some y \<and> b_comm y = Some c \<and> b_p_comm_buf y = In_buf r
    \<and> message_of y w' = Some (answer_message num (ec_result (b_context x)))
    \<and> w_comm w' = (w_comm w)(c := (w_comm w c)\<lparr>co_output := co_output (w_comm w c) @ [r],
         co_output_sem := co_output_sem (w_comm w c) + 1\<rparr>)
    \<and> w_todo w' = w_todo w \<and> w_todo_sem w' = w_todo_sem w \<and> w_stacks w' = w_stacks w \<and> w_function_init w' = w_function_init w"
proof -
  obtain r w1 where get: "comm_buf_get 18 c w = Some (Ret (r, w1))" "w_stacks w1 = w_stacks w"
    using comm_buf_get_succeeds [OF ok room] by blast
  obtain p1 y where y: "bufs_ok w1 p1" "r \<notin> in_use w pls" "in_use w1 p1 = insert r (in_use w pls)"
      "same_but_buf r w w1" "w_buf w1 r = Some y" "fresh_for 18 c r y"
    using comm_buf_get_ok [OF ok get(1)] by blast
  let ?msg = "answer_message num (ec_result (b_context x))"
  let ?g = "\<lambda>x. x\<lparr>b_comm_buf := put_bytes 0 ?msg (b_comm_buf x), b_len := 18, b_want := 0, b_completed := None\<rparr>"
  have msg: "length ?msg = 18" by (simp add: answer_message_def)
  have len: "18 \<le> length (b_comm_buf y)"
    using bufs_okD(4) [OF y(1,5)] y(6) by (simp add: buf_ok_def fresh_for_def le_nat_iff)
  have nb: "r \<noteq> b" using y(2) b(1) by blast
  then have xb: "w_buf w1 b = Some x" using y(4) b(2) by (simp add: same_but_buf_def)
  let ?w = "comm_buf_output_enqueue c r (upd_buf r ?g w1)"
  have "send_answer c b w = Some (Ret (0, ?w))"
    using get(1) xb b(3) by (simp add: send_answer_def answer_message_def)
  moreover have "bufs_ok ?w p1 \<and> in_use ?w p1 = in_use w1 p1"
  proof (rule bufs_ok_cong [OF y(1)])
    fix a
    have "keeps (\<lambda>x. if 18 \<le> length (b_comm_buf x) then ?g x else x)" using msg by (simp add: keeps_def length_put_bytes)
    moreover have "w_buf ?w r = map_option (\<lambda>x. if 18 \<le> length (b_comm_buf x) then ?g x else x) (w_buf w1 r)"
      using y(5) len by (simp add: upd_buf_def comm_buf_output_enqueue_def upd_comm_def)
    moreover have "a \<noteq> r \<Longrightarrow> w_buf ?w a = w_buf w1 a"
      by (simp add: upd_buf_def comm_buf_output_enqueue_def upd_comm_def)
    ultimately show "w_buf ?w a = w_buf w1 a \<or> (\<exists>f. keeps f \<and> w_buf ?w a = map_option f (w_buf w1 a))"
      by (cases "a = r") blast+
  qed (simp_all add: upd_buf_def comm_buf_output_enqueue_def upd_comm_def)
  moreover have wr: "w_buf ?w r = Some (?g y)" "w_buf ?w b = Some x"
    using nb xb y(5) by (simp_all add: upd_buf_def comm_buf_output_enqueue_def upd_comm_def)
  moreover have "message_of (?g y) ?w = Some ?msg"
    using y(6) wr(1) msg len by (simp add: message_of_def fresh_for_def put_bytes_def)
  moreover have "w_comm ?w = (w_comm w)(c := (w_comm w c)\<lparr>co_output := co_output (w_comm w c) @ [r],
         co_output_sem := co_output_sem (w_comm w c) + 1\<rparr>)" "w_todo ?w = w_todo w" "w_todo_sem ?w = w_todo_sem w"
      "w_stacks ?w = w_stacks w" "w_function_init ?w = w_function_init w"
    using y(4) get(2) by (simp_all add: same_but_buf_def upd_buf_def comm_buf_output_enqueue_def upd_comm_def)
  ultimately show ?thesis using y(2,3,6)
    by (intro exI [where x = ?w] exI [where x = p1] exI [where x = r] exI [where x = "?g y"]) (simp add: fresh_for_def)
qed

lemma same_phase_buf: "w_buf w b = Some x \<Longrightarrow> b_do_phase x = p \<Longrightarrow> upd_buf b (\<lambda>x. x\<lparr>b_do_phase := p\<rparr>) w = w"
  by (cases w) (auto simp: upd_buf_def)

lemma mcp_answer_updated:
  assumes "w_buf w b = Some x" "updated x" "1000 \<le> b_do_phase x" "send_answer c b w = Some (Ret (0, w'))"
  shows "mcp_answer c b w = Some (Ret (0, w'))"
  using assms same_phase_buf [OF assms(1), of 1003]
  by (auto simp: mcp_answer_def updated_def mcp_update_object_def Let_def)

lemma answer_round:
  assumes ok: "bufs_ok w pls" and todo: "w_todo w = [b]" "w_todo_sem w = 1" and b: "b \<in> in_use w pls"
    and ready: "ready_to_answer b x c num w" "1000 \<le> b_do_phase x" "updated x"
  shows "\<exists>w' pls' r y. worker_step prg mcp_answer w = Some (Ret w') \<and> bufs_ok w' pls'
    \<and> in_use w' pls' = insert r (in_use w pls) - {b} \<and> r \<notin> in_use w pls
    \<and> co_output (w_comm w' c) = co_output (w_comm w c) @ [r] \<and> co_output_sem (w_comm w' c) = co_output_sem (w_comm w c) + 1
    \<and> w_buf w' r = Some y \<and> b_comm y = Some c
    \<and> message_of y w' = Some (answer_message num (ec_result (b_context x)))
    \<and> w_todo w' = b_to_wake x \<and> w_todo_sem w' = length (b_to_wake x)"
proof -
  let ?w = "w\<lparr>w_todo := [], w_todo_sem := 0\<rparr>"
  note R = ready(1) [unfolded ready_to_answer_def]
  have "bufs_ok ?w pls \<and> in_use ?w pls = in_use w pls" by (rule bufs_ok_cong [OF ok]) auto
  then have ok0: "bufs_ok ?w pls" and b0: "b \<in> in_use ?w pls" "in_use ?w pls = in_use w pls" using b by auto
  have at: "w_buf ?w b = Some x" "get_field 8 8 (b_comm_buf x) = Some num" using R by auto
  obtain i where i: "i < length (w_buffers ?w)" "fits 18 ?w i = Some True"
    using R by (auto simp: fits_def cong: option.case_cong)
  obtain w1 p1 r y where s: "send_answer c b ?w = Some (Ret (0, w1))" "bufs_ok w1 p1" "in_use w1 p1 = insert r (in_use ?w pls)"
      "r \<notin> in_use ?w pls" "w_buf w1 b = Some x" "w_buf w1 r = Some y" "b_comm y = Some c"
      "message_of y w1 = Some (answer_message num (ec_result (b_context x)))"
      "w_comm w1 = (w_comm ?w)(c := (w_comm ?w c)\<lparr>co_output := co_output (w_comm ?w c) @ [r],
         co_output_sem := co_output_sem (w_comm ?w c) + 1\<rparr>)"
      "w_todo w1 = w_todo ?w" "w_todo_sem w1 = w_todo_sem ?w" "w_stacks w1 = w_stacks ?w" "w_function_init w1 = w_function_init ?w"
      "b_p_comm_buf y = In_buf r"
    using send_answer_ok [OF ok0 b0(1) at i, of c] by (elim exE conjE) blast
  have b1: "b \<in> in_use w1 p1" "r \<noteq> b" "r \<in> in_use w1 p1" using s(3,4) b0 by auto
  have init: "\<not> is_init_buffer b x w1" using R s(9,13) by (auto simp: is_init_buffer_def)
  obtain w' where fr: "comm_buf_free b w1 = Some (Ret w')" "w_comm w' = w_comm w1"
    using comm_buf_free_succeeds [OF s(2,5) init] R s(12) by auto
  have "worker_step prg mcp_answer w = Some (Ret w')"
    using todo at R ready(2) mcp_answer_updated [OF at(1) ready(3,2) s(1)] fr(1) s(5)
    by (auto simp: worker_step_def worker_run_def worker_finish_def Let_def)
  moreover obtain p2 where "bufs_ok w' p2" "in_use w' p2 = in_use w1 p1 - {b}" "w_todo w' = w_todo w1 @ b_to_wake x"
      "w_todo_sem w' = w_todo_sem w1 + length (b_to_wake x)"
    using comm_buf_free_ok [OF s(2) b1(1) s(5) fr(1)] init by auto
  moreover have ef: "w_buf w' r = Some y"
    using comm_buf_free_effect [OF s(2) b1(1) s(5) fr(1)] b1(2,3) s(6) by simp
  moreover have "message_of y w' = message_of y w1"
    using ef s(6,14) by (simp add: message_of_def)
  ultimately show ?thesis
    using s(3,4,7-11) b0(2) fr(2) by (intro exI [where x = w'] exI [where x = p2] exI [where x = r] exI [where x = y]) simp
qed

lemma ready_after_decision:
  assumes "ready_to_answer b x c num w" "same_but_event b w w1"
  shows "\<exists>x1. w_buf w1 b = Some x1 \<and> b_to_wake x1 = b_to_wake x
    \<and> ready_to_answer b (x1\<lparr>b_do_phase := 1000\<rparr>) c num (upd_buf b (\<lambda>x. x\<lparr>b_do_phase := 1000\<rparr>) w1)"
proof -
  note R = assms(1) [unfolded ready_to_answer_def]
  obtain cb st where w1: "w1 = upd_buf b (set_event_cb cb) (w\<lparr>w_st := st\<rparr>)"
    using assms(2) by (auto simp: same_but_event_def)
  have "fits 18 (upd_buf b (\<lambda>x. x\<lparr>b_do_phase := 1000\<rparr>) w1) i = fits 18 w i" for i
    by (cases "w_buffers w ! i") (auto simp: fits_def w1 upd_buf_def set_event_cb_def option.map_comp comp_def)
  then have "\<exists>i < length (w_buffers w1). fits 18 (upd_buf b (\<lambda>x. x\<lparr>b_do_phase := 1000\<rparr>) w1) i = Some True"
    using R w1 by (auto simp: upd_buf_def)
  then have "ready_to_answer b ((set_event_cb cb x)\<lparr>b_do_phase := 1000\<rparr>) c num (upd_buf b (\<lambda>x. x\<lparr>b_do_phase := 1000\<rparr>) w1)"
    using R w1 by (auto simp: ready_to_answer_def is_init_buffer_def set_event_cb_def upd_buf_def)
  moreover have "w_buf w1 b = Some (set_event_cb cb x)" using R w1 by (simp add: upd_buf_def)
  ultimately show ?thesis by (intro exI [where x = "set_event_cb cb x"]) (simp add: set_event_cb_def)
qed

text \<open>The round in which the update of the subject is asked for.\<close>

definition waits_for_update :: "nat \<Rightarrow> class_s \<Rightarrow> 64 word \<Rightarrow> 'st comm_buffer_s \<Rightarrow> 'st comm_buffer_s \<Rightarrow> bool" where
  "waits_for_update b cl seq x x' \<longleftrightarrow> b_do_phase x' = 1003 \<and> b_user_data x' = RESULT_ERR
     \<and> b_waiting x' = \<lparr>wi_to = UPDATE_ANSWER, wi_cid = m_classid (c_m cl), wi_seq = seq\<rparr>
     \<and> ec_result (b_context x') = ec_result (b_context x) \<and> b_comm_buf x' = b_comm_buf x \<and> b_comm x' = b_comm x
     \<and> b_to_wake x' = b_to_wake x"

lemma update_round:
  assumes ok: "bufs_ok w pls" and todo: "w_todo w = [b]" "w_todo_sem w = 1" and b: "b \<in> in_use w pls"
    and ready: "ready_to_answer b x c num w" "b_do_phase x = 1000"
    and up: "0 \<le> ec_result (b_context x)" "o_class (ec_subject (b_context x)) = Some a" "class_at w a = Some cl"
    and room: "i < length (w_buffers w)" "fits (24 + int (class_size cl)) w i = Some True"
  shows "\<exists>w' pls' r x' y. worker_step prg mcp_answer w = Some (Ret w') \<and> bufs_ok w' pls'
    \<and> in_use w' pls' = insert r (in_use w pls) \<and> r \<notin> in_use w pls
    \<and> co_output (w_comm w' c) = co_output (w_comm w c) @ [r]
    \<and> co_wait_for_answer (w_comm w' c) = co_wait_for_answer (w_comm w c) @ [b]
    \<and> w_buf w' b = Some x' \<and> waits_for_update b cl (w_update_id w) x x' \<and> w_buf w' r = Some y \<and> b_comm y = Some c
    \<and> message_of y w' = Some (request_bytes UPDATE_REQUEST cl (w_update_id w) (o_data (ec_subject (b_context x))))
    \<and> w_todo w' = [] \<and> w_todo_sem w' = 0 \<and> w_update_id w' = w_update_id w + 1"
proof -
  let ?w = "w\<lparr>w_todo := [], w_todo_sem := 0\<rparr>"
  let ?e = "\<lambda>x. x\<lparr>b_user_data := RESULT_ERR\<rparr>"
  let ?v = "upd_buf b ?e ?w"
  note R = ready(1) [unfolded ready_to_answer_def]
  have keeps_e: "keeps ?e" by (simp add: keeps_def)
  have ok0: "bufs_ok ?v pls \<and> in_use ?v pls = in_use w pls"
  proof (rule bufs_ok_cong [OF ok])
    fix a
    have "a \<noteq> b \<Longrightarrow> w_buf ?v a = w_buf w a" "w_buf ?v b = map_option ?e (w_buf w b)" by (simp_all add: upd_buf_def)
    with keeps_e show "w_buf ?v a = w_buf w a \<or> (\<exists>f. keeps f \<and> w_buf ?v a = map_option f (w_buf w a))" by metis
  qed (simp_all add: upd_buf_def)
  have "fits (24 + int (class_size cl)) ?v i = Some True"
    using room by (auto simp: fits_def upd_buf_def option.map_comp comp_def split: option.splits)
  then obtain r w1 where get: "comm_buf_get (24 + int (class_size cl)) c ?v = Some (Ret (r, w1))"
    using comm_buf_get_succeeds [OF conjunct1 [OF ok0], of i "24 + int (class_size cl)" c] room(1) by (auto simp: upd_buf_def)
  obtain p1 y where y: "bufs_ok w1 p1" "r \<notin> in_use w pls" "in_use w1 p1 = insert r (in_use w pls)"
      "same_but_buf r ?v w1" "w_buf w1 r = Some y" "fresh_for (24 + int (class_size cl)) c r y"
    using comm_buf_get_ok [OF conjunct1 [OF ok0] get] ok0 by metis
  have nb: "r \<noteq> b" using y(2) b by blast
  have xb: "w_buf w b = Some x" using R by simp
  then have xb1: "w_buf w1 b = Some (?e x)" using y(4) nb by (simp add: same_but_buf_def upd_buf_def)
  let ?msg = "request_bytes UPDATE_REQUEST cl (w_update_id w) (o_data (ec_subject (b_context x)))"
  let ?ob = "object_set_byte_order cl (ec_subject (b_context x)) (co_flags (w_comm w c))"
  let ?x = "(x\<lparr>b_user_data := RESULT_ERR, b_context := (b_context x)\<lparr>ec_subject := ?ob\<rparr>,
      b_waiting := \<lparr>wi_to = UPDATE_ANSWER, wi_cid = m_classid (c_m cl), wi_seq = w_update_id w\<rparr>, b_do_phase := 1003\<rparr>)"
  let ?y = "y\<lparr>b_comm_buf := put_bytes 0 ?msg (b_comm_buf y), b_len := int (length ?msg), b_want := 0, b_completed := None\<rparr>"
  have w1: "w_comm w1 = w_comm w" "w_update_id w1 = w_update_id w" "w_todo w1 = []" "w_todo_sem w1 = 0"
    using y(4) by (simp_all add: same_but_buf_def upd_buf_def)
  have msg: "length ?msg \<le> 24 + class_size cl" by (simp add: request_bytes_def)
  moreover have "24 + class_size cl \<le> length (b_comm_buf y)"
    using bufs_okD(4) [OF y(1,5)] y(6) by (simp add: buf_ok_def fresh_for_def le_nat_iff)
  ultimately have len: "length ?msg \<le> length (b_comm_buf y)" by simp
  have cl: "class_at ?w a = Some cl" "class_at w1 a = Some cl"
    using up(3) y(4) class_at_cong [of ?w w] class_at_cong [of w1 w] by (simp_all add: same_but_buf_def upd_buf_def)
  have u1: "mcp_update_object c 0 (Ctx_subject b) b ?w
      = map_option (\<lambda>v. Ret (3, v\<lparr>w_update_id := w_update_id w1 + 1\<rparr>))
          (send_request c ?msg UPDATE_ANSWER (m_classid (c_m cl)) (w_update_id w) b r (set_obj (Ctx_subject b) ?ob w1))"
    using get xb xb1 up(2) cl(1) w1(1,2)
    by (cases "send_request c ?msg UPDATE_ANSWER (m_classid (c_m cl)) (w_update_id w) b r (set_obj (Ctx_subject b) ?ob w1)")
      (simp_all add: mcp_update_object_def get_obj_def)
  have "b_comm x = Some c" using R by simp
  then have upd: "\<exists>W. mcp_update_object c 0 (Ctx_subject b) b ?w = Some (Ret (3, W))
      \<and> w_buf W = (w_buf w1)(r \<mapsto> ?y, b \<mapsto> ?x\<lparr>b_do_phase := 1000\<rparr>)
      \<and> w_comm W = (w_comm w1)(c := (w_comm w1 c)\<lparr>co_output := co_output (w_comm w1 c) @ [r],
           co_output_sem := co_output_sem (w_comm w1 c) + 1, co_wait_for_answer := co_wait_for_answer (w_comm w1 c) @ [b]\<rparr>)
      \<and> w_update_id W = w_update_id w + 1 \<and> w_todo W = [] \<and> w_todo_sem W = 0 \<and> w_buffers W = w_buffers w1 \<and> w_brk W = w_brk w1"
    using xb1 y(5) nb w1 ready(2) unfolding u1
    by (simp add: set_obj_def send_request_def upd_buf_def upd_comm_def comm_buf_output_enqueue_def fun_eq_iff)
  obtain W where W: "mcp_update_object c 0 (Ctx_subject b) b ?w = Some (Ret (3, W))"
      "w_buf W = (w_buf w1)(r \<mapsto> ?y, b \<mapsto> ?x\<lparr>b_do_phase := 1000\<rparr>)"
      "w_comm W = (w_comm w1)(c := (w_comm w1 c)\<lparr>co_output := co_output (w_comm w1 c) @ [r],
           co_output_sem := co_output_sem (w_comm w1 c) + 1, co_wait_for_answer := co_wait_for_answer (w_comm w1 c) @ [b]\<rparr>)"
      "w_update_id W = w_update_id w + 1" "w_todo W = []" "w_todo_sem W = 0" "w_buffers W = w_buffers w1" "w_brk W = w_brk w1"
    using upd by blast
  let ?W = "upd_buf b (\<lambda>x. x\<lparr>b_do_phase := 1003\<rparr>) W"
  have "w_buf ?w b = Some x" using xb by simp
  then have "mcp_answer c b ?w = Some (Ret (3, ?W))"
    using W(1) up(1,2) ready(2) same_phase_buf [of ?w b x 1000] by (simp add: mcp_answer_def Let_def)
  then have "worker_step prg mcp_answer w = Some (Ret ?W)"
    using todo xb R ready(2) by (auto simp: worker_step_def worker_run_def worker_finish_def Let_def)
  moreover have buf: "w_buf ?W = (w_buf w1)(r \<mapsto> ?y, b \<mapsto> ?x)"
    using W(2) nb by (simp add: upd_buf_def)
  moreover have "bufs_ok ?W p1 \<and> in_use ?W p1 = in_use w1 p1"
  proof (rule bufs_ok_cong [OF y(1)])
    fix a
    consider "a = b" | "a = r" | "a \<noteq> b" "a \<noteq> r" by blast
    then show "w_buf ?W a = w_buf w1 a \<or> (\<exists>f. keeps f \<and> w_buf ?W a = map_option f (w_buf w1 a))"
    proof cases
      case 1
      have "keeps (\<lambda>z. if z = ?e x then ?x else z)" by (simp add: keeps_def)
      moreover have "w_buf ?W a = map_option (\<lambda>z. if z = ?e x then ?x else z) (w_buf w1 a)" using 1 buf xb1 by simp
      ultimately show ?thesis by blast
    next
      case 2
      have "keeps (\<lambda>z. if z = y then ?y else z)" using len by (simp add: keeps_def length_put_bytes)
      moreover have "w_buf ?W a = map_option (\<lambda>z. if z = y then ?y else z) (w_buf w1 a)" using 2 nb buf y(5) by simp
      ultimately show ?thesis by blast
    qed (simp add: buf)
  qed (use W in \<open>simp_all add: upd_buf_def\<close>)
  moreover have "message_of ?y ?W = Some ?msg"
    using y(6) buf nb len by (simp add: message_of_def fresh_for_def put_bytes_def)
  moreover have "waits_for_update b cl (w_update_id w) x ?x" by (simp add: waits_for_update_def)
  moreover have "w_comm ?W = w_comm W" "w_todo ?W = []" "w_todo_sem ?W = 0" "w_update_id ?W = w_update_id w + 1"
    using W by (simp_all add: upd_buf_def)
  ultimately show ?thesis
    using y(2,3,6) nb W(3) w1(1)
    by (intro exI [where x = ?W] exI [where x = p1] exI [where x = r] exI [where x = ?x] exI [where x = ?y])
      (simp add: fresh_for_def)
qed

lemma fits_mono: "n \<le> m \<Longrightarrow> fits m w i = Some True \<Longrightarrow> fits n w i = Some True"
  by (auto simp: fits_def split: option.splits)

lemma fits_after_decision:
  assumes "same_but_event b w w1"
  shows "fits m (upd_buf b (\<lambda>x. x\<lparr>b_do_phase := p\<rparr>) w1) i = fits m w i"
proof -
  obtain cb st where w1: "w1 = upd_buf b (set_event_cb cb) (w\<lparr>w_st := st\<rparr>)"
    using assms by (auto simp: same_but_event_def)
  show ?thesis
    by (cases "w_buffers w ! i") (auto simp: fits_def w1 upd_buf_def set_event_cb_def option.map_comp comp_def)
qed


lemma fits_cong:
  assumes "w_buffers w' = w_buffers w" "\<And>b. map_option b_size (w_buf w' b) = map_option b_size (w_buf w b)"
  shows "fits m w' i = fits m w i"
proof (cases "w_buffers w ! i")
  case (Some b)
  then show ?thesis using assms(1) assms(2) [of b] by (cases "w_buf w b"; cases "w_buf w' b") (simp_all add: fits_def)
qed (simp add: fits_def assms(1))

lemma take_waiter_first:
  assumes "co_wait_for_answer (w_comm w c) = ps @ b # qs" "\<forall>p \<in> set (ps @ b # qs). w_buf w p \<noteq> None"
    "\<forall>p \<in> set ps. \<not> waits_for w to cid seq p" "waits_for w to cid seq b"
  shows "take_waiter c to cid seq w = Some (Some b, upd_comm c (\<lambda>co. co\<lparr>co_wait_for_answer := ps @ qs\<rparr>) w)"
  using assms take_first_skip [of ps "waits_for w to cid seq" "b # qs"]
  by (simp add: take_waiter_def take_first_def list_all_iff)

lemma update_answer_wakes:
  assumes ok: "bufs_ok w pls" and b: "ready_to_answer b x c num w"
    and rb: "w_buf w rb = Some z" "rb \<noteq> b" "b_comm z = Some c" "get_field 12 8 (b_comm_buf z) = Some cid"
      "get_field 20 8 (b_comm_buf z) = Some seq" "get_field 28 4 (b_comm_buf z) = Some (res :: 32 word)"
    and wait: "co_wait_for_answer (w_comm w c) = ps @ b # qs" "\<forall>p \<in> set (ps @ b # qs). w_buf w p \<noteq> None"
      "\<forall>p \<in> set ps. \<not> waits_for w UPDATE_ANSWER cid seq p" "waits_for w UPDATE_ANSWER cid seq b"
  shows "\<exists>w1. mcp_r_update_answer rb w = Some (Ret (READ_FREE, w1)) \<and> bufs_ok w1 pls \<and> in_use w1 pls = in_use w pls
    \<and> w_comm w1 = (w_comm w)(c := (w_comm w c)\<lparr>co_wait_for_answer := ps @ qs\<rparr>)
    \<and> w_todo w1 = w_todo w @ [b] \<and> w_todo_sem w1 = w_todo_sem w + 1
    \<and> ready_to_answer b (x\<lparr>b_user_data := sint res, b_waiting := (b_waiting x)\<lparr>wi_to := 0\<rparr>\<rparr>) c num w1"
proof -
  let ?f = "\<lambda>y. y\<lparr>b_user_data := sint res, b_waiting := (b_waiting y)\<lparr>wi_to := 0\<rparr>\<rparr>"
  let ?g = "\<lambda>x. x\<lparr>b_completed := None\<rparr>"
  let ?w = "finished rb (comm_buf_todo b (upd_buf b ?f (upd_comm c (\<lambda>co. co\<lparr>co_wait_for_answer := ps @ qs\<rparr>) w)))"
  have "mcp_r_update_answer rb w = Some (Ret (READ_FREE, ?w))"
    using rb take_waiter_first [OF wait] by (simp add: mcp_r_update_answer_def)
  moreover have x: "w_buf w b = Some x" using b by (simp add: ready_to_answer_def)
  have buf: "w_buf ?w b = Some (?f x)" "w_buf ?w rb = Some (?g z)" "\<And>a. a \<noteq> b \<Longrightarrow> a \<noteq> rb \<Longrightarrow> w_buf ?w a = w_buf w a"
    using x rb(1,2) by (simp_all add: finished_def comm_buf_todo_def upd_buf_def upd_comm_def)
  have "bufs_ok ?w pls \<and> in_use ?w pls = in_use w pls"
  proof (rule bufs_ok_cong [OF ok])
    fix a
    have "keeps ?f" "keeps ?g" by (simp_all add: keeps_def)
    moreover have "a = b \<Longrightarrow> w_buf ?w a = map_option ?f (w_buf w a)" "a = rb \<Longrightarrow> w_buf ?w a = map_option ?g (w_buf w a)"
      using buf(1,2) x rb(1) by simp_all
    ultimately show "w_buf ?w a = w_buf w a \<or> (\<exists>f. keeps f \<and> w_buf ?w a = map_option f (w_buf w a))"
      using buf(3) [of a] by blast
  qed (simp_all add: finished_def comm_buf_todo_def upd_buf_def upd_comm_def)
  moreover have misc: "w_comm ?w = (w_comm w)(c := (w_comm w c)\<lparr>co_wait_for_answer := ps @ qs\<rparr>)"
      "w_todo ?w = w_todo w @ [b]" "w_todo_sem ?w = w_todo_sem w + 1"
      "w_function_init ?w = w_function_init w" "w_stacks ?w = w_stacks w" "w_buffers ?w = w_buffers w"
    by (simp_all add: finished_def comm_buf_todo_def upd_buf_def upd_comm_def)
  moreover have fit: "fits 18 ?w i = fits 18 w i" for i
  proof (rule fits_cong [OF misc(6)])
    fix a
    consider "a = b" | "a = rb" | "a \<noteq> b" "a \<noteq> rb" by blast
    then show "map_option b_size (w_buf ?w a) = map_option b_size (w_buf w a)"
    proof cases
      case 1 show ?thesis unfolding 1 buf(1) x by simp
    next
      case 2 show ?thesis unfolding 2 buf(2) rb(1) by simp
    next
      case 3 show ?thesis unfolding buf(3) [OF 3] by simp
    qed
  qed
  moreover have "ready_to_answer b (?f x) c num ?w"
  proof -
    note B = b [unfolded ready_to_answer_def]
    have "co_version (w_comm ?w a) = co_version (w_comm w a)" "co_init_buffer (w_comm ?w a) = co_init_buffer (w_comm w a)" for a
      unfolding misc(1) by simp_all
    then have init: "is_init_buffer b (?f x) ?w = is_init_buffer b x w"
      unfolding is_init_buffer_def misc(4) by (simp cong: option.case_cong)
    show ?thesis
      unfolding ready_to_answer_def buf(1) init misc(5,6) fit using B by simp
  qed
  ultimately show ?thesis by (intro exI [where x = ?w]) simp
qed

text \<open>C9. The answer to the update completes the request: \<open>mcp_r_update_answer\<close> takes out of the queue of waiting
  buffers the first one that waits for an update of this class and number, and no other, and the next
  round of the worker sends the answer with the number and the result of the decision that this buffer
  carries, whatever the update returned, and releases it.\<close>

theorem updated_request_is_answered:
  assumes ok: "bufs_ok w pls" and b: "b \<in> in_use w pls" "ready_to_answer b x c num w" "b_do_phase x = 1003"
    and todo: "w_todo w = []" "w_todo_sem w = 0"
    and rb: "w_buf w rb = Some z" "rb \<noteq> b" "b_comm z = Some c" "get_field 12 8 (b_comm_buf z) = Some cid"
      "get_field 20 8 (b_comm_buf z) = Some seq" "get_field 28 4 (b_comm_buf z) = Some (res :: 32 word)"
    and wait: "co_wait_for_answer (w_comm w c) = ps @ b # qs" "\<forall>p \<in> set (ps @ b # qs). w_buf w p \<noteq> None"
      "\<forall>p \<in> set ps. \<not> waits_for w UPDATE_ANSWER cid seq p" "waits_for w UPDATE_ANSWER cid seq b"
  shows "\<exists>w1 w' pls' r y. mcp_r_update_answer rb w = Some (Ret (READ_FREE, w1))
    \<and> co_wait_for_answer (w_comm w1 c) = ps @ qs \<and> in_use w1 pls = in_use w pls
    \<and> worker_step prg mcp_answer w1 = Some (Ret w') \<and> bufs_ok w' pls'
    \<and> in_use w' pls' = insert r (in_use w pls) - {b} \<and> r \<notin> in_use w pls
    \<and> co_output (w_comm w' c) = co_output (w_comm w c) @ [r] \<and> w_buf w' r = Some y \<and> b_comm y = Some c
    \<and> message_of y w' = Some (answer_message num (ec_result (b_context x))) \<and> w_todo w' = b_to_wake x"
proof -
  let ?x = "x\<lparr>b_user_data := sint res, b_waiting := (b_waiting x)\<lparr>wi_to := 0\<rparr>\<rparr>"
  obtain w1 where w1: "mcp_r_update_answer rb w = Some (Ret (READ_FREE, w1))" "bufs_ok w1 pls" "in_use w1 pls = in_use w pls"
    "w_comm w1 = (w_comm w)(c := (w_comm w c)\<lparr>co_wait_for_answer := ps @ qs\<rparr>)"
    "w_todo w1 = w_todo w @ [b]" "w_todo_sem w1 = w_todo_sem w + 1" "ready_to_answer b ?x c num w1"
    using update_answer_wakes [OF ok b(2) rb wait] by blast
  have "updated ?x" using b(3) by (simp add: updated_def)
  then obtain w' pls' r y where "worker_step prg mcp_answer w1 = Some (Ret w')" "bufs_ok w' pls'"
      "in_use w' pls' = insert r (in_use w1 pls) - {b}" "r \<notin> in_use w1 pls"
      "co_output (w_comm w' c) = co_output (w_comm w1 c) @ [r]" "w_buf w' r = Some y" "b_comm y = Some c"
      "message_of y w' = Some (answer_message num (ec_result (b_context ?x)))" "w_todo w' = b_to_wake ?x"
    using answer_round [OF w1(2) _ _ _ w1(7), of prg] w1(3,5,6) todo b(1,3) by auto
  then show ?thesis
    using w1(1,3,4)
    by (intro exI [where x = w1] exI [where x = w'] exI [where x = pls'] exI [where x = r] exI [where x = y]) simp
qed

text \<open>An instance: a request in the buffer 0, whose event has one handler, suspended once; the buffer 1 is free.\<close>

definition demo_program :: "nat program" where
  "demo_program = \<lparr>p_node = (\<lambda>_ _. fresh_node None 0 ''/''),
     p_run = (\<lambda>h st c. if st < h then Some (1, Suc st, c) else Some (0, st, c\<lparr>ec_result := RESULT_DENY\<rparr>))\<rparr>"

definition demo_request :: "nat comm_buffer_s" where
  "demo_request = (zero_buf 0 1 32)\<lparr>b_n := 0, b_comm := Some 0, b_event := Some 0, b_var_data := Some 24,
     b_context := zero_context\<lparr>ec_subject := demo_object\<rparr>\<rparr>"

definition demo_event :: event_type_s where
  "demo_event = \<lparr>et_evname = 0, et_op0 = None, et_op1 = None, et_monitored = None, et_mask = (replicate 8 0, replicate 8 0),
     et_acctype = \<lparr>ac_opid = 1, ac_size = 0, ac_actbit = 0, ac_op_class = (0, 0), ac_name = ''e'', ac_op_name = ([], [])\<rparr>,
     et_class = demo_class\<rparr>"

definition demo_event_name :: event_names_s where
  "demo_event_name = \<lparr>en_name = ''e'', en_events = (\<lambda>_. None),
     en_handlers = (\<lambda>l. if l = EHH_VS_ALLOW then [demo_hh 1] else [])\<rparr>"

definition demo_class_name :: "nat tree_handler class_names_s" where
  "demo_class_name = \<lparr>cn_name = ''c'', cn_classes = (\<lambda>_. None), cn_handlers = []\<rparr>"

definition demo_world :: "nat world" where
  "demo_world = (start_world 0 0)\<lparr>w_buf := [0 \<mapsto> demo_request, 1 \<mapsto> (zero_buf 1 2 64)\<lparr>b_n := 0\<rparr>], w_brk := 2,
     w_buffers := [Some 1], w_todo := [0], w_todo_sem := 1,
     w_es := \<lparr>es_names = [demo_event_name], es_heap = (\<lambda>_. Some demo_event), es_next = 1\<rparr>,
     w_cs := \<lparr>cs_names = [demo_class_name], cs_heap = (\<lambda>_. Some demo_class), cs_next = 1\<rparr>\<rparr>"

definition demo_step_env :: "nat ev_env" where
  "demo_step_env = \<lparr>e_class = (\<lambda>_. demo_class), e_handlers = (\<lambda>n. cn_handlers ([demo_class_name] ! n)),
     e_names = (\<lambda>n. en_handlers ([demo_event_name] ! n)), e_node = p_node demo_program, e_run = p_run demo_program\<rparr>"

definition demo_start_cb :: "nat event_cb" where
  "demo_start_cb = \<lparr>cb_phase = 0, cb_list = 0, cb_hh = [], cb_ch = [], cb_context = zero_context\<lparr>ec_subject := demo_object\<rparr>,
     cb_event = Some 0, cb_init_handler = 0, cb_st = 0\<rparr>"

lemma demo_world_ok: "bufs_ok demo_world [[1]] \<and> in_use demo_world [[1]] = {0}"
  by (auto simp: bufs_ok_def in_use_def demo_world_def demo_request_def zero_buf_def start_world_def buf_ok_def)

lemma demo_env_of: "w_cs w = w_cs demo_world \<Longrightarrow> w_es w = w_es demo_world \<Longrightarrow> env_of demo_program w = demo_step_env"
  by (simp add: env_of_def demo_step_env_def class_at_def demo_world_def demo_event_def cong: if_cong)

lemma demo_events:
  "case do_event demo_step_env demo_start_cb of
     None \<Rightarrow> False
   | Some (r, cb) \<Rightarrow> r = 1 \<and> cb_event cb = Some 0 \<and> cb_init_handler cb = 0 \<and> cb_phase cb < 10 \<and>
       (case do_event demo_step_env cb of
          None \<Rightarrow> False
        | Some (r, cb) \<Rightarrow> r \<le> 0 \<and> cb_phase cb < 10 \<and> ec_result (cb_context cb) = RESULT_DENY
            \<and> o_class (ec_subject (cb_context cb)) = Some 0)"
  by code_simp

lemma buf_do_eventI:
  assumes "w_buf w b = Some x" "event_cb_of w x = Some cb" "do_event (env_of prg w) cb = Some (r, cb')"
  shows "buf_do_event prg b w = Some (r, upd_buf b (set_event_cb cb') (w\<lparr>w_st := cb_st cb'\<rparr>))"
  using assms by (simp add: buf_do_event_def)

lemma demo_decision:
  "\<exists>w x. decision demo_program 0 1 demo_world = Some w \<and> w_buf w 0 = Some x \<and> ec_result (b_context x) = RESULT_DENY
     \<and> o_class (ec_subject (b_context x)) = Some 0"
proof -
  obtain cb cb' r where cb: "do_event demo_step_env demo_start_cb = Some (1, cb)" "cb_event cb = Some 0" "cb_init_handler cb = 0"
      "cb_phase cb < 10" "do_event demo_step_env cb = Some (r, cb')" "r \<le> 0" "cb_phase cb' < 10"
      "ec_result (cb_context cb') = RESULT_DENY" "o_class (ec_subject (cb_context cb')) = Some 0"
    using demo_events by (auto split: option.splits prod.splits)
  let ?w = "upd_buf 0 (set_event_cb cb) (demo_world\<lparr>w_st := cb_st cb\<rparr>)"
  let ?v = "upd_buf 0 (set_event_cb cb') (?w\<lparr>w_st := cb_st cb'\<rparr>)"
  have b: "w_buf demo_world 0 = Some demo_request" "w_buf ?w 0 = Some (set_event_cb cb demo_request)"
      "w_buf ?v 0 = Some (set_event_cb cb' demo_request)"
    by (simp_all add: demo_world_def upd_buf_def set_event_cb_def)
  have "event_cb_of demo_world demo_request = Some demo_start_cb"
    by (simp add: event_cb_of_def demo_world_def demo_request_def demo_event_def demo_start_cb_def zero_buf_def start_world_def
        EHH_VS_ALLOW_def)
  then have 1: "buf_do_event demo_program 0 demo_world = Some (1, ?w)"
    by (rule buf_do_eventI [OF b(1)]) (simp add: demo_env_of cb(1))
  have "event_cb_of ?w (set_event_cb cb demo_request) = Some cb"
    using cb(2,3) by (cases cb) (simp add: event_cb_of_def demo_world_def demo_request_def demo_event_def
        zero_buf_def set_event_cb_def upd_buf_def)
  then have 2: "buf_do_event demo_program 0 ?w = Some (r, ?v)"
    by (rule buf_do_eventI [OF b(2)]) (subst demo_env_of, simp_all add: upd_buf_def cb(5))
  have "decision demo_program 0 0 ?w = Some ?v"
    using b(3) cb(6,7) 2 by (simp add: decision.simps set_event_cb_def)
  then have "decision demo_program 0 1 demo_world = Some ?v"
    using b(2) cb(4) 1 by (simp add: decision.simps [of _ _ "Suc 0"] set_event_cb_def)
  then show ?thesis using b(3) cb(8,9) by (intro exI [where x = ?v] exI [where x = "set_event_cb cb' demo_request"])
      (simp add: set_event_cb_def)
qed

lemma zero_fields:
  "get_field 8 8 (replicate 32 0) = Some (0 :: 64 word)" "get_field 12 8 (replicate 32 0) = Some (0 :: 64 word)"
  "get_field 20 8 (replicate 32 0) = Some (0 :: 64 word)" "get_field 28 4 (replicate 32 0) = Some (0 :: 32 word)"
  by code_simp+

lemma demo_ready: "ready_to_answer 0 demo_request 0 0 demo_world"
proof -
  have "w_buf demo_world 0 = Some demo_request" "w_function_init demo_world = None" "w_buffers demo_world = [Some 1]"
    "fits 18 demo_world 0 = Some True"
    by (simp_all add: demo_world_def start_world_def fits_def zero_buf_def)
  moreover have "b_comm demo_request = Some 0" "b_var_data demo_request = Some 24" "b_comm_buf demo_request = replicate 32 0"
      "b_init_handler demo_request = None" "b_n demo_request = 0"
    by (simp_all only: demo_request_def zero_buf_def) (simp_all del: replicate.simps)
  ultimately show ?thesis
    unfolding ready_to_answer_def is_init_buffer_def using zero_fields(1) by simp
qed


definition demo_waiting :: "nat comm_buffer_s" where
  "demo_waiting = demo_request\<lparr>b_do_phase := 1003, b_waiting := \<lparr>wi_to = UPDATE_ANSWER, wi_cid = 0, wi_seq = 0\<rparr>,
     b_context := zero_context\<lparr>ec_result := RESULT_DENY\<rparr>\<rparr>"

definition demo_waiting_world :: "nat world" where
  "demo_waiting_world = (start_world 0 0)\<lparr>w_buf := [0 \<mapsto> demo_waiting, 1 \<mapsto> (zero_buf 1 2 64)\<lparr>b_n := 0\<rparr>,
       2 \<mapsto> (zero_buf 2 3 32)\<lparr>b_comm := Some 0\<rparr>], w_brk := 3, w_buffers := [Some 1],
     w_comm := (\<lambda>_. no_comm\<lparr>co_wait_for_answer := [0]\<rparr>)\<rparr>"

theorem updated_request_is_answered_witness:
  "\<exists>w1 w' r y. mcp_r_update_answer 2 demo_waiting_world = Some (Ret (READ_FREE, w1))
     \<and> worker_step demo_program mcp_answer w1 = Some (Ret w') \<and> co_output (w_comm w' 0) = [r] \<and> w_buf w' r = Some y
     \<and> message_of y w' = Some (answer_message 0 RESULT_DENY)"
proof -
  have ok: "bufs_ok demo_waiting_world [[1]] \<and> in_use demo_waiting_world [[1]] = {0, 2}"
    by (auto simp: bufs_ok_def in_use_def demo_waiting_world_def demo_waiting_def demo_request_def zero_buf_def
        start_world_def buf_ok_def)
  have r: "ready_to_answer 0 demo_waiting 0 0 demo_waiting_world"
  proof -
    have "w_buf demo_waiting_world 0 = Some demo_waiting" "w_function_init demo_waiting_world = None"
      "w_buffers demo_waiting_world = [Some 1]" "fits 18 demo_waiting_world 0 = Some True"
      by (simp_all add: demo_waiting_world_def start_world_def fits_def zero_buf_def)
    moreover have "b_comm demo_waiting = Some 0" "b_var_data demo_waiting = Some 24" "b_comm_buf demo_waiting = replicate 32 0"
        "b_init_handler demo_waiting = None" "b_n demo_waiting = 0"
      by (simp_all only: demo_waiting_def demo_request_def zero_buf_def) (simp_all del: replicate.simps)
    ultimately show ?thesis
      unfolding ready_to_answer_def is_init_buffer_def using zero_fields(1) by simp
  qed
  have z: "w_buf demo_waiting_world 2 = Some ((zero_buf 2 3 32)\<lparr>b_comm := Some 0\<rparr>)"
    "w_todo demo_waiting_world = []" "w_todo_sem demo_waiting_world = 0"
    "co_wait_for_answer (w_comm demo_waiting_world 0) = [] @ 0 # []"
    "w_buf demo_waiting_world 0 = Some demo_waiting" "co_output (w_comm demo_waiting_world 0) = []"
    by (simp_all add: demo_waiting_world_def start_world_def no_comm_def)
  have p: "b_do_phase demo_waiting = 1003" "ec_result (b_context demo_waiting) = RESULT_DENY"
    "waits_for demo_waiting_world UPDATE_ANSWER 0 0 0"
    using z(5) by (simp_all add: demo_waiting_def waits_for_def)
  have b: "0 \<in> in_use demo_waiting_world [[1]]" "(2 :: nat) \<noteq> 0" using ok by simp_all
  let ?z = "(zero_buf 2 3 32)\<lparr>b_comm := Some 0\<rparr> :: nat comm_buffer_s"
  have f: "b_comm ?z = Some 0" "b_comm_buf ?z = replicate 32 0"
    by (simp_all add: zero_buf_def del: replicate.simps)
  have w: "\<forall>p \<in> set ([] @ 0 # []). w_buf demo_waiting_world p \<noteq> None"
    "\<forall>p \<in> set []. \<not> waits_for demo_waiting_world UPDATE_ANSWER 0 0 p" using z(5) by simp_all
  show ?thesis
    using updated_request_is_answered [where prg = demo_program, OF conjunct1 [OF ok] b(1) r p(1) z(2,3,1) b(2) f(1)
        zero_fields(2-4) [folded f(2)] z(4) w p(3)]
    unfolding z(6) p(2) append_Nil by blast
qed

subsection \<open>Messages that are longer than their buffer\<close>

text \<open>C29. A message that needs more than the buffer of its reader leaves the buffer: \<open>mcp_check_size_and_read\<close> gets a
  large enough buffer, but reads on behind the bytes of the old one, which is free or gone, so the access lies
  outside of its bytes.\<close>

theorem long_message_leaves_its_buffer:
  assumes ok: "bufs_ok w pls" and b: "b \<in> in_use w pls" "w_buf w b = Some x" "b_p_comm_buf x = In_buf b"
    and long: "0 \<le> b_len x" "b_len x \<le> b_size x" "b_size x < b_want x"
    and res: "comm_buf_resize (b_want x) b w = Some (Ret (n, w1))" "b_comm x = Some c"
      "nat (b_want x - b_len x) \<le> length (co_input (w_comm w1 c))"
  shows "mcp_check_size_and_read b w = None"
proof -
  obtain pls' y where y: "bufs_ok w1 pls'" "n \<notin> in_use w pls" "gone b x w1" "w_buf w1 n = Some y"
    "b_p_comm_buf y = b_p_comm_buf x" "b_len y = b_len x" "b_comm y = b_comm x" "b_want y = b_want x"
    using comm_buf_resize_effect [OF ok b(1,2) long(3) res(1)] by blast
  let ?n = "nat (b_want x - b_len x)"
  have n: "nat (b_len x) + ?n = nat (b_want x)" using long by simp
  have "w_buf w1 b = None \<or> (\<exists>z. w_buf w1 b = Some z \<and> length (b_comm_buf z) < nat (b_want x))"
  proof (cases "w_buf w1 b")
    case (Some z)
    then have "b_size z = b_size x" using y(3) by (auto simp: gone_def split: if_splits)
    then have "length (b_comm_buf z) < nat (b_want x)"
      using bufs_okD(4) [OF y(1) Some] long by (simp add: buf_ok_def)
    then show ?thesis using Some by simp
  qed simp
  then have "store_at (In_buf b) (nat (b_len x)) (take ?n (co_input (w_comm w1 c))) v = None"
    if "w_buf v = w_buf w1" for v
    using that n res(3) by (auto simp: store_at_def)
  then show ?thesis
    using b(2,3) long res y(4-8) by (simp add: mcp_check_size_and_read_def Let_def upd_comm_def)
qed

text \<open>An instance: the buffer 0 of 4 bytes, a message of 8.\<close>

definition demo_long_world :: "nat world" where
  "demo_long_world = (start_world 0 0)\<lparr>w_buf := [0 \<mapsto> (zero_buf 0 1 4)\<lparr>b_n := 0, b_comm := Some 0, b_want := 8\<rparr>,
       1 \<mapsto> (zero_buf 1 2 16)\<lparr>b_n := 1\<rparr>], w_brk := 2, w_buffers := [None, Some 1],
     w_comm := (\<lambda>_. no_comm\<lparr>co_input := [1, 2, 3, 4, 5, 6, 7, 8]\<rparr>)\<rparr>"

theorem long_message_leaves_its_buffer_witness: "mcp_check_size_and_read 0 demo_long_world = None"
proof -
  let ?x = "(zero_buf 0 1 4)\<lparr>b_n := 0, b_comm := Some 0, b_want := 8\<rparr> :: nat comm_buffer_s"
  have ok: "bufs_ok demo_long_world [[], [1]]" "in_use demo_long_world [[], [1]] = {0}"
    by (auto simp: bufs_ok_def in_use_def demo_long_world_def zero_buf_def start_world_def buf_ok_def less_Suc_eq)
  have x: "w_buf demo_long_world 0 = Some ?x" by (simp add: demo_long_world_def)
  have f: "b_p_comm_buf ?x = In_buf 0" "b_len ?x = 0" "b_size ?x = 4" "b_want ?x = 8" "b_comm ?x = Some 0" "b_var_data ?x = None"
    by (simp_all add: zero_buf_def)
  have "\<exists>n w1. comm_buf_resize 8 0 demo_long_world = Some (Ret (n, w1)) \<and> co_input (w_comm w1 0) = [1, 2, 3, 4, 5, 6, 7, 8]"
    by (simp add: comm_buf_resize_def demo_long_world_def start_simps no_comm_def)
  then obtain n w1 where r: "comm_buf_resize 8 0 demo_long_world = Some (Ret (n, w1))"
    "co_input (w_comm w1 0) = [1, 2, 3, 4, 5, 6, 7, 8]" by blast
  have l: "0 \<le> b_len ?x" "b_len ?x \<le> b_size ?x" "b_size ?x < b_want ?x" "0 \<in> in_use demo_long_world [[], [1]]"
    "nat (b_want ?x - b_len ?x) \<le> length (co_input (w_comm w1 0))"
    unfolding f r(2) ok(2) by simp_all
  have r': "comm_buf_resize (b_want ?x) 0 demo_long_world = Some (Ret (n, w1))" unfolding f(4) by (rule r(1))
  show ?thesis
    by (rule long_message_leaves_its_buffer [OF ok(1) l(4) x f(1) l(1-3) r' f(5) l(5)])
qed

end
