(* ===== verification/Variables.thy ===== *)
theory Variables
  imports Object_Endian
begin

text \<open>
  Variables of the configuration language (\<open>language/variables.c\<close>): cells of a store, linked into lists that
  are sorted by name. The data of a variable are a block of bytes; \<open>alloc_var\<close> gets the cell and its block
  from one allocation, so that they have one address, and \<open>data_alias_var\<close> makes a cell that shares the
  block of another. \<open>None\<close> is an access through a null or dangling pointer. The name field has
  \<open>MEDUSA_ATTRNAME_MAX\<close> characters and need not end with a NUL.
\<close>

record var_s =
  v_attr :: attr
  v_flags :: "32 word"
  v_class :: "nat option"
  v_data :: nat
  v_next :: "nat option"

record vmem =
  vm_var :: "nat \<Rightarrow> var_s option"
  vm_block :: "nat \<Rightarrow> bytes option"
  vm_brk :: nat
  vm_room :: nat

definition upd_var :: "nat \<Rightarrow> (var_s \<Rightarrow> var_s) \<Rightarrow> vmem \<Rightarrow> vmem" where
  "upd_var p f m = m\<lparr>vm_var := (vm_var m)(p := map_option f (vm_var m p))\<rparr>"

definition var_name :: "string \<Rightarrow> string" where "var_name s = take MEDUSA_ATTRNAME_MAX s"

text \<open>The first test of \<open>alloc_var\<close> holds when both pointers are null and when neither is.\<close>

definition alloc_var :: "string \<Rightarrow> attr option \<Rightarrow> (nat \<times> class_s) option \<Rightarrow> vmem \<Rightarrow> nat option \<times> vmem" where
  "alloc_var name attr cl m =
     (if (attr = None) = (cl = None) \<or> vm_room m = 0 then (None, m)
      else
        (let p = vm_brk m;
             a = (case cl of
                    None \<Rightarrow> (the attr)\<lparr>a_offset := 0, a_name := var_name name\<rparr>
                  | Some (c, k) \<Rightarrow> \<lparr>a_offset = 0, a_length = m_size (c_m k), a_type = MED_TYPE_END, a_name = var_name name\<rparr>) in
         (Some p,
          m\<lparr>vm_var := (vm_var m)(p \<mapsto> \<lparr>v_attr = a, v_flags = OBJECT_FLAG_LOCAL, v_class = map_option fst cl,
               v_data = p, v_next = None\<rparr>),
            vm_block := (vm_block m)(p \<mapsto> replicate (alen a) 0), vm_brk := p + 1, vm_room := vm_room m - 1\<rparr>)))"

definition data_alias_var :: "string \<Rightarrow> nat option \<Rightarrow> vmem \<Rightarrow> (nat option \<times> vmem) option" where
  "data_alias_var name q m =
     (case q of
        None \<Rightarrow> Some (None, m)
      | Some q \<Rightarrow>
          if vm_room m = 0 then Some (None, m)
          else map_option (\<lambda>v. (Some (vm_brk m),
            m\<lparr>vm_var := (vm_var m)(vm_brk m \<mapsto> v\<lparr>v_attr := (v_attr v)\<lparr>a_name := var_name name\<rparr>, v_next := None\<rparr>),
              vm_brk := vm_brk m + 1, vm_room := vm_room m - 1\<rparr>)) (vm_var m q))"

definition free_var :: "nat \<Rightarrow> vmem \<Rightarrow> (nat option \<times> vmem) option" where
  "free_var p m =
     map_option (\<lambda>v. (v_next v, m\<lparr>vm_var := (vm_var m)(p := None), vm_block := (vm_block m)(p := None)\<rparr>)) (vm_var m p)"

partial_function (option) free_vars :: "nat option \<Rightarrow> vmem \<Rightarrow> vmem option" where
  "free_vars p m =
     (case p of
        None \<Rightarrow> Some m
      | Some q \<Rightarrow> Option.bind (free_var q m) (\<lambda>r. free_vars (fst r) (snd r)))"

text \<open>\<open>var_link\<close>: the pointer it starts at is an argument, and what is left there a result, with whether the variable
  was linked.\<close>

partial_function (option) var_link :: "nat option \<Rightarrow> nat \<Rightarrow> vmem \<Rightarrow> (nat option \<times> bool \<times> vmem) option" where
  "var_link p v m =
     (case vm_var m v of
        None \<Rightarrow> None
      | Some y \<Rightarrow>
          (case p of
             None \<Rightarrow> Some (Some v, True, upd_var v (\<lambda>y. y\<lparr>v_next := None\<rparr>) m)
           | Some q \<Rightarrow>
               (case vm_var m q of
                  None \<Rightarrow> None
                | Some x \<Rightarrow>
                    (let r = strncmp (a_name (v_attr x)) (a_name (v_attr y)) MEDUSA_ATTRNAME_MAX in
                     if r = 0 then Some (p, False, m)
                     else if 0 < r then Some (Some v, True, upd_var v (\<lambda>y. y\<lparr>v_next := p\<rparr>) m)
                     else Option.bind (var_link (v_next x) v m)
                            (\<lambda>r. Some (p, fst (snd r), upd_var q (\<lambda>x. x\<lparr>v_next := fst r\<rparr>) (snd (snd r))))))))"

partial_function (option) get_var :: "nat option \<Rightarrow> string \<Rightarrow> vmem \<Rightarrow> nat option option" where
  "get_var p name m =
     (case p of
        None \<Rightarrow> Some None
      | Some q \<Rightarrow>
          (case vm_var m q of
             None \<Rightarrow> None
           | Some x \<Rightarrow>
               (let r = strncmp (a_name (v_attr x)) name MEDUSA_ATTRNAME_MAX in
                if 0 \<le> r then Some (if r = 0 then Some q else None)
                else get_var (v_next x) name m)))"

subsection \<open>Lists of variables as finite maps\<close>

text \<open>\<open>vars_path m p xs\<close>: \<open>p\<close> leads through the cells of \<open>xs\<close>, which have the names of \<open>xs\<close>.\<close>

fun vars_path :: "vmem \<Rightarrow> nat option \<Rightarrow> (string \<times> nat) list \<Rightarrow> bool" where
  "vars_path m p [] \<longleftrightarrow> p = None"
| "vars_path m p (x # xs) \<longleftrightarrow> p = Some (snd x)
     \<and> (\<exists>v. vm_var m (snd x) = Some v \<and> a_name (v_attr v) = fst x \<and> vars_path m (v_next v) xs)"

definition name_ok :: "string \<Rightarrow> bool" where "name_ok s \<longleftrightarrow> length s \<le> MEDUSA_ATTRNAME_MAX"

definition sorted_names :: "(string \<times> nat) list \<Rightarrow> bool" where
  "sorted_names xs \<longleftrightarrow> sorted_wrt (\<lambda>x y. strcmp (fst x) (fst y) < 0) xs \<and> (\<forall>x \<in> set xs. name_ok (fst x))"

text \<open>The state is the pointer to the first cell and the store.\<close>

definition vars_rel :: "nat option \<times> vmem \<Rightarrow> (string \<rightharpoonup> nat) \<Rightarrow> bool" where
  "vars_rel s f \<longleftrightarrow> (\<exists>xs. vars_path (snd s) (fst s) xs \<and> sorted_names xs \<and> distinct (map snd xs) \<and> f = map_of xs)"

definition unlinked :: "nat option \<times> vmem \<Rightarrow> nat \<Rightarrow> string \<Rightarrow> (string \<rightharpoonup> nat) \<Rightarrow> bool" where
  "unlinked s v k f \<longleftrightarrow> (\<exists>x. vm_var (snd s) v = Some x \<and> a_name (v_attr x) = k) \<and> name_ok k \<and> v \<notin> ran f"

lemma strncmp_names: "name_ok a \<Longrightarrow> name_ok b \<Longrightarrow> strncmp a b MEDUSA_ATTRNAME_MAX = strcmp a b"
  by (simp add: strncmp_def name_ok_def)

lemma sorted_names_Cons [simp]:
  "sorted_names (x # xs) \<longleftrightarrow> name_ok (fst x) \<and> (\<forall>y \<in> set xs. strcmp (fst x) (fst y) < 0) \<and> sorted_names xs"
  by (auto simp: sorted_names_def)

lemma sorted_names_Nil [simp]: "sorted_names []" by (simp add: sorted_names_def)

lemma sorted_below:
  "sorted_names xs \<Longrightarrow> \<forall>y \<in> set xs. strcmp k (fst y) < 0 \<Longrightarrow> map_of xs k = None"
  by (auto simp: map_of_eq_None_iff)

lemma vars_path_cong:
  "(\<And>x. x \<in> set xs \<Longrightarrow> vm_var m' (snd x) = vm_var m (snd x)) \<Longrightarrow> vars_path m' p xs = vars_path m p xs"
  by (induction xs arbitrary: p) auto

lemma get_var_path:
  "vars_path m p xs \<Longrightarrow> sorted_names xs \<Longrightarrow> name_ok k \<Longrightarrow> get_var p k m = Some (map_of xs k)"
proof (induction xs arbitrary: p)
  case Nil
  then show ?case by (simp add: get_var.simps)
next
  case (Cons x xs)
  then obtain v where v: "p = Some (snd x)" "vm_var m (snd x) = Some v" "a_name (v_attr v) = fst x" "vars_path m (v_next v) xs"
    by auto
  have s: "sorted_names xs" "\<forall>y \<in> set xs. strcmp (fst x) (fst y) < 0" "name_ok (fst x)" using Cons.prems(2) by simp_all
  consider "strcmp (fst x) k = 0" | "0 < strcmp (fst x) k" | "strcmp (fst x) k < 0" by linarith
  then show ?case
  proof cases
    case 1
    then show ?thesis using v s(3) Cons.prems(3) by (cases x) (simp add: get_var.simps strncmp_names)
  next
    case 2
    then have "strcmp k (fst x) < 0" using strcmp_antisym [of "fst x" k] by simp
    then have "\<forall>y \<in> set (x # xs). strcmp k (fst y) < 0" using s(2) strcmp_less_trans by (metis set_ConsD)
    then have "map_of (x # xs) k = None" using sorted_below Cons.prems(2) by blast
    moreover have "fst x \<noteq> k" using 2 by auto
    ultimately show ?thesis using 2 v s(3) Cons.prems(3) by (simp add: get_var.simps strncmp_names)
  next
    case 3
    then have "fst x \<noteq> k" by auto
    then show ?thesis using 3 v s Cons.IH [OF v(4) s(1) Cons.prems(3)] Cons.prems(3)
      by (cases x) (simp add: get_var.simps strncmp_names)
  qed
qed

lemma sorted_insert:
  assumes "sorted_names (x # xs)" "strcmp (fst x) k < 0" "sorted_names zs" "set zs = insert (k, v) (set xs)"
  shows "sorted_names (x # zs)"
  using assms by auto

text \<open>What \<open>var_link\<close> does to a sorted list: the new list has the new cell in its place, and no cell that is not of the list changes.\<close>

lemma var_link_path:
  assumes "vars_path m p xs" "sorted_names xs" "distinct (map snd xs)" "vm_var m v = Some y" "a_name (v_attr y) = k"
    "name_ok k" "v \<notin> set (map snd xs)"
  shows "if map_of xs k = None then
      \<exists>p' m' zs. var_link p v m = Some (p', True, m') \<and> vars_path m' p' zs \<and> sorted_names zs \<and> distinct (map snd zs)
        \<and> set zs = insert (k, v) (set xs) \<and> (\<forall>q. map_option v_attr (vm_var m' q) = map_option v_attr (vm_var m q))
        \<and> (\<forall>q. q \<notin> insert v (set (map snd xs)) \<longrightarrow> vm_var m' q = vm_var m q) \<and> vm_block m' = vm_block m
    else var_link p v m = Some (p, False, m)"
  using assms
proof (induction xs arbitrary: p)
  case Nil
  let ?m = "upd_var v (\<lambda>y. y\<lparr>v_next := None\<rparr>) m"
  have "var_link p v m = Some (Some v, True, ?m)" using Nil by (simp add: var_link.simps)
  moreover have "vars_path ?m (Some v) [(k, v)]" using Nil by (simp add: upd_var_def)
  moreover have "\<forall>q. map_option v_attr (vm_var ?m q) = map_option v_attr (vm_var m q)" "vm_block ?m = vm_block m"
    using Nil by (simp_all add: upd_var_def)
  moreover have "\<forall>q. q \<notin> insert v (set (map snd [])) \<longrightarrow> vm_var ?m q = vm_var m q" by (simp add: upd_var_def)
  ultimately show ?case using Nil.prems(6)
    by (simp only: map_of.simps if_True simp_thms) (intro exI [where x = "Some v"] exI [where x = ?m] exI [where x = "[(k, v)]"], simp)
next
  case (Cons x xs)
  then obtain z where z: "p = Some (snd x)" "vm_var m (snd x) = Some z" "a_name (v_attr z) = fst x" "vars_path m (v_next z) xs"
    by auto
  have s: "sorted_names xs" "\<forall>y \<in> set xs. strcmp (fst x) (fst y) < 0" "name_ok (fst x)" using Cons.prems(2) by simp_all
  note cmp = strncmp_names [OF s(3) Cons.prems(6)]
  consider "strcmp (fst x) k = 0" | "0 < strcmp (fst x) k" | "strcmp (fst x) k < 0" by linarith
  then show ?case
  proof cases
    case 1
    then have k: "fst x = k" by simp
    have "var_link p v m = Some (p, False, m)"
      using z Cons.prems(4,5) k cmp by (simp add: var_link.simps Let_def)
    then show ?thesis using k by (cases x) simp
  next
    case 2
    then have "strcmp k (fst x) < 0" using strcmp_antisym [of "fst x" k] by simp
    then have low: "\<forall>y \<in> set (x # xs). strcmp k (fst y) < 0" using s(2) strcmp_less_trans by (metis set_ConsD)
    let ?m = "upd_var v (\<lambda>y. y\<lparr>v_next := p\<rparr>) m"
    have "fst x \<noteq> k" using 2 by auto
    then have link: "var_link p v m = Some (Some v, True, ?m)"
      using z Cons.prems(4,5) 2 cmp by (simp add: var_link.simps Let_def)
    have "vars_path ?m p (x # xs)"
      by (subst vars_path_cong [of "x # xs" ?m m]) (use Cons.prems(1,7) in \<open>auto simp: upd_var_def\<close>)
    moreover have "vm_var ?m v = Some (y\<lparr>v_next := p\<rparr>)" using Cons.prems(4) by (simp add: upd_var_def)
    ultimately have "vars_path ?m (Some v) ((k, v) # x # xs)"
      using Cons.prems(5) by (simp del: vars_path.simps add: vars_path.simps(2) [of _ _ "(k, v)"])
    moreover have "sorted_names ((k, v) # x # xs)" using low Cons.prems(2,6) by auto
    moreover have "\<forall>q. map_option v_attr (vm_var ?m q) = map_option v_attr (vm_var m q)" "vm_block ?m = vm_block m"
      using Cons.prems(4) by (simp_all add: upd_var_def)
    moreover have "\<forall>q. q \<notin> insert v (set (map snd (x # xs))) \<longrightarrow> vm_var ?m q = vm_var m q" by (simp add: upd_var_def)
    moreover have "map_of (x # xs) k = None" using sorted_below [OF Cons.prems(2) low] .
    ultimately show ?thesis using Cons.prems(3,7) link
      by (simp only: if_True simp_thms) (intro exI [where x = "Some v"] exI [where x = ?m] exI [where x = "(k, v) # x # xs"], simp)
  next
    case 3
    then have ne: "fst x \<noteq> k" by auto
    have link: "var_link p v m = Option.bind (var_link (v_next z) v m)
        (\<lambda>r. Some (p, fst (snd r), upd_var (snd x) (\<lambda>x. x\<lparr>v_next := fst r\<rparr>) (snd (snd r))))"
      using z Cons.prems(4,5) 3 cmp ne by (subst var_link.simps) (simp add: Let_def)
    note IH = Cons.IH [OF z(4) s(1) _ Cons.prems(4-6)]
    show ?thesis
    proof (cases "map_of xs k = None")
      case True
      then obtain p' m' zs where r: "var_link (v_next z) v m = Some (p', True, m')" "vars_path m' p' zs" "sorted_names zs"
          "distinct (map snd zs)" "set zs = insert (k, v) (set xs)"
          "\<forall>q. map_option v_attr (vm_var m' q) = map_option v_attr (vm_var m q)"
          "\<forall>q. q \<notin> insert v (set (map snd xs)) \<longrightarrow> vm_var m' q = vm_var m q" "vm_block m' = vm_block m"
        using IH Cons.prems(3,7) by auto
      let ?m = "upd_var (snd x) (\<lambda>x. x\<lparr>v_next := p'\<rparr>) m'"
      have x: "snd x \<notin> set (map snd zs)" "snd x \<noteq> v" using Cons.prems(3,7) r(5) by auto
      have mx: "vm_var m' (snd x) = Some z" using r(7) x(2) Cons.prems(3) z(2) by simp
      have "vars_path ?m p' zs"
      proof (subst vars_path_cong [of zs ?m m'])
        fix q assume "q \<in> set zs"
        then have "snd q \<in> set (map snd zs)" by simp
        with x(1) have "snd q \<noteq> snd x" by metis
        then show "vm_var ?m (snd q) = vm_var m' (snd q)" by (simp add: upd_var_def)
      qed (fact r(2))
      then have "vars_path ?m p (x # zs)" using z(1,3) mx by (simp add: upd_var_def)
      moreover have "sorted_names (x # zs)" using sorted_insert [OF Cons.prems(2) 3 r(3,5)] .
      moreover have "distinct (map snd (x # zs))" using r(4) x(1) by simp
      moreover have "set (x # zs) = insert (k, v) (set (x # xs))" using r(5) by auto
      moreover have "\<forall>q. map_option v_attr (vm_var ?m q) = map_option v_attr (vm_var m q)" "vm_block ?m = vm_block m"
        using r(6,8) by (auto simp: upd_var_def option.map_comp comp_def)
      moreover have "\<forall>q. q \<notin> insert v (set (map snd (x # xs))) \<longrightarrow> vm_var ?m q = vm_var m q"
        using r(7) by (simp add: upd_var_def)
      moreover have "map_of (x # xs) k = None" using True ne by (cases x) simp
      moreover have "var_link p v m = Some (p, True, ?m)" using link r(1) by simp
      ultimately show ?thesis
        by (simp only: if_True simp_thms) (intro exI [where x = p] exI [where x = ?m] exI [where x = "x # zs"], simp)
    next
      case False
      then have "var_link (v_next z) v m = Some (v_next z, False, m)" using IH Cons.prems(3,7) by simp
      then have "var_link p v m = Some (p, False, upd_var (snd x) (\<lambda>x. x\<lparr>v_next := v_next z\<rparr>) m)" using link by simp
      also have "upd_var (snd x) (\<lambda>x. x\<lparr>v_next := v_next z\<rparr>) m = m" using z(2) by (cases m) (auto simp: upd_var_def)
      finally show ?thesis using False ne by (cases x) simp
    qed
  qed
qed

definition add_first :: "(string \<rightharpoonup> nat) \<Rightarrow> string \<times> nat \<Rightarrow> (string \<rightharpoonup> nat)" where
  "add_first f kv = (if f (fst kv) = None then f(fst kv \<mapsto> snd kv) else f)"

fun link_all :: "(nat \<Rightarrow> 's \<Rightarrow> ('s \<times> bool) option) \<Rightarrow> (string \<times> nat) list \<Rightarrow> 's \<Rightarrow> 's option" where
  "link_all link [] s = Some s"
| "link_all link (kv # kvs) s = Option.bind (link (snd kv) s) (\<lambda>r. link_all link kvs (fst r))"

text \<open>The contract of a table of variables: linking adds a variable unless its name is taken, looking up finds it.\<close>

locale symbol_table =
  fixes link :: "nat \<Rightarrow> 's \<Rightarrow> ('s \<times> bool) option"
    and lookup :: "'s \<Rightarrow> string \<Rightarrow> nat option option"
    and rel :: "'s \<Rightarrow> (string \<rightharpoonup> nat) \<Rightarrow> bool"
    and fresh :: "'s \<Rightarrow> nat \<Rightarrow> string \<Rightarrow> (string \<rightharpoonup> nat) \<Rightarrow> bool"
  assumes link_law: "rel s f \<Longrightarrow> fresh s v k f \<Longrightarrow>
      \<exists>s'. link v s = Some (s', f k = None) \<and> rel s' (add_first f (k, v))
        \<and> (\<forall>v' k'. v' \<noteq> v \<longrightarrow> fresh s v' k' f \<longrightarrow> fresh s' v' k' (add_first f (k, v)))"
    and lookup_law: "rel s f \<Longrightarrow> name_ok k \<Longrightarrow> lookup s k = Some (f k)"
begin

lemma link_all_law:
  "rel s f \<Longrightarrow> \<forall>kv \<in> set kvs. fresh s (snd kv) (fst kv) f \<Longrightarrow> distinct (map snd kvs) \<Longrightarrow>
    \<exists>s'. link_all link kvs s = Some s' \<and> rel s' (foldl add_first f kvs)"
proof (induction kvs arbitrary: s f)
  case (Cons kv kvs)
  then obtain s1 where s1: "link (snd kv) s = Some (s1, f (fst kv) = None)" "rel s1 (add_first f kv)"
      "\<forall>v' k'. v' \<noteq> snd kv \<longrightarrow> fresh s v' k' f \<longrightarrow> fresh s1 v' k' (add_first f kv)"
    using link_law [of s f "snd kv" "fst kv"] by auto
  have "\<forall>kv' \<in> set kvs. fresh s1 (snd kv') (fst kv') (add_first f kv)"
  proof
    fix kv' assume "kv' \<in> set kvs"
    then have "snd kv' \<in> set (map snd kvs)" by simp
    moreover have "snd kv \<notin> set (map snd kvs)" using Cons.prems(3) by simp
    ultimately have "snd kv' \<noteq> snd kv" by metis
    moreover have "fresh s (snd kv') (fst kv') f" using Cons.prems(2) \<open>kv' \<in> set kvs\<close> by simp
    ultimately show "fresh s1 (snd kv') (fst kv') (add_first f kv)" using s1(3) by blast
  qed
  then show ?case using Cons.IH [OF s1(2)] Cons.prems(3) s1(1) by auto
qed simp

lemma linked_found:
  assumes "rel s f" "\<forall>kv \<in> set kvs. fresh s (snd kv) (fst kv) f" "distinct (map snd kvs)"
  shows "\<exists>s'. link_all link kvs s = Some s' \<and> (\<forall>k. name_ok k \<longrightarrow> lookup s' k = Some (foldl add_first f kvs k))"
  using link_all_law [OF assms] lookup_law by blast

end

definition link_var :: "nat \<Rightarrow> nat option \<times> vmem \<Rightarrow> ((nat option \<times> vmem) \<times> bool) option" where
  "link_var v s = map_option (\<lambda>r. ((fst r, snd (snd r)), fst (snd r))) (var_link (fst s) v (snd s))"

lemma link_var_law:
  assumes "vars_rel s f" "unlinked s v k f"
  shows "\<exists>s'. link_var v s = Some (s', f k = None) \<and> vars_rel s' (add_first f (k, v))
        \<and> (\<forall>v' k'. v' \<noteq> v \<longrightarrow> unlinked s v' k' f \<longrightarrow> unlinked s' v' k' (add_first f (k, v)))"
proof -
  obtain p m where s: "s = (p, m)" by (cases s)
  obtain xs where xs: "vars_path m p xs" "sorted_names xs" "distinct (map snd xs)" "f = map_of xs"
    using assms(1) s by (auto simp: vars_rel_def)
  have keys: "distinct (map fst ys)" if "sorted_names ys" for ys :: "(string \<times> nat) list"
    using that by (induction ys) auto
  have ran: "ran (map_of ys) = snd ` set ys" if "sorted_names ys" for ys :: "(string \<times> nat) list"
    using keys [OF that] by (rule ran_distinct)
  obtain y where y: "vm_var m v = Some y" "a_name (v_attr y) = k" "name_ok k" "v \<notin> set (map snd xs)"
    using assms(2) s xs(2,4) ran [OF xs(2)] by (auto simp: unlinked_def)
  note link = var_link_path [OF xs(1-3) y]
  show ?thesis
  proof (cases "f k = None")
    case True
    then obtain p' m' zs where r: "var_link p v m = Some (p', True, m')" "vars_path m' p' zs" "sorted_names zs"
        "distinct (map snd zs)" "set zs = insert (k, v) (set xs)"
        "\<forall>q. map_option v_attr (vm_var m' q) = map_option v_attr (vm_var m q)"
      using link xs(4) by auto
    have fk: "map_of zs = add_first f (k, v)"
    proof -
      have "map_of zs = map_of ((k, v) # xs)"
      proof (rule map_of_inject_set [THEN iffD2])
        show "distinct (map fst zs)" using keys r(3) .
        have "k \<notin> fst ` set xs" using True xs(4) by (simp add: map_of_eq_None_iff)
        then show "distinct (map fst ((k, v) # xs))" using keys [OF xs(2)] by simp
        show "set zs = set ((k, v) # xs)" using r(5) by simp
      qed
      then show ?thesis using True xs(4) by (simp add: add_first_def)
    qed
    have "unlinked (p', m') v' k' (add_first f (k, v))" if u: "v' \<noteq> v" "unlinked s v' k' f" for v' k'
    proof -
      obtain z where z: "vm_var m v' = Some z" "a_name (v_attr z) = k'" "name_ok k'" "v' \<notin> ran f"
        using u(2) s by (auto simp: unlinked_def)
      have "map_option v_attr (vm_var m' v') = map_option v_attr (Some z)" using r(6) z(1) by metis
      then obtain z' where "vm_var m' v' = Some z'" "v_attr z' = v_attr z" by (cases "vm_var m' v'") auto
      moreover have "v' \<notin> ran (add_first f (k, v))"
        using ran [OF r(3)] fk r(5) u(1) z(4) xs(4) ran [OF xs(2)] by auto
      ultimately show ?thesis using z(2,3) by (simp add: unlinked_def)
    qed
    moreover have "vars_rel (p', m') (add_first f (k, v))"
      unfolding vars_rel_def using r(2-4) fk by (intro exI [where x = zs]) simp
    ultimately show ?thesis using r(1) s True by (simp add: link_var_def)
  next
    case False
    then have "link_var v s = Some (s, f k = None)" using link xs(4) s by (simp add: link_var_def)
    moreover have "add_first f (k, v) = f" using False unfolding add_first_def fst_conv by (rule if_not_P)
    ultimately show ?thesis using assms(1) by simp
  qed
qed

lemma get_var_law: "vars_rel s f \<Longrightarrow> name_ok k \<Longrightarrow> get_var (fst s) k (snd s) = Some (f k)"
  using get_var_path by (auto simp: vars_rel_def)

interpretation vars: symbol_table link_var "\<lambda>s k. get_var (fst s) k (snd s)" vars_rel unlinked
  by unfold_locales (fact link_var_law, fact get_var_law)

text \<open>C32. The sorted lists of variables behave like a map: after \<open>var_link\<close> of any variables that are not yet in the
  list, \<open>get_var\<close> finds under every name the variable that was linked first with it, and the list
  stays sorted without a name twice.\<close>

theorem variables_run_like_a_map:
  assumes "vars_rel s f" "\<forall>kv \<in> set kvs. unlinked s (snd kv) (fst kv) f" "distinct (map snd kvs)"
  shows "\<exists>s'. link_all link_var kvs s = Some s' \<and> vars_rel s' (foldl add_first f kvs)
    \<and> (\<forall>k. name_ok k \<longrightarrow> get_var (fst s') k (snd s') = Some (foldl add_first f kvs k))"
  using vars.link_all_law [OF assms] vars.lookup_law by blast

definition demo_var :: "string \<Rightarrow> var_s" where
  "demo_var name = \<lparr>v_attr = \<lparr>a_offset = 0, a_length = 4, a_type = MED_TYPE_SIGNED, a_name = name\<rparr>, v_flags = OBJECT_FLAG_LOCAL,
     v_class = None, v_data = 0, v_next = None\<rparr>"

definition demo_vmem :: vmem where
  "demo_vmem = \<lparr>vm_var = [1 \<mapsto> demo_var ''b'', 2 \<mapsto> demo_var ''a'', 3 \<mapsto> demo_var ''b''],
     vm_block = (\<lambda>_. None), vm_brk = 4, vm_room = 0\<rparr>"

theorem variables_run_like_a_map_witness:
  "\<exists>s'. link_all link_var [(''b'', 1), (''a'', 2), (''b'', 3)] (None, demo_vmem) = Some s'
     \<and> get_var (fst s') ''b'' (snd s') = Some (Some 1) \<and> get_var (fst s') ''a'' (snd s') = Some (Some 2)"
proof -
  have "vars_rel (None, demo_vmem) (\<lambda>_. None)"
    unfolding vars_rel_def by (intro exI [where x = "[]"]) (simp add: map_of.simps(1) [abs_def] empty_def)
  moreover have "\<forall>kv \<in> set [(''b'', 1), (''a'', 2), (''b'', 3)]. unlinked (None, demo_vmem) (snd kv) (fst kv) (\<lambda>_. None)"
    by (simp add: unlinked_def demo_vmem_def demo_var_def name_ok_def MEDUSA_ATTRNAME_MAX_def ran_def)
  moreover have "distinct (map snd [(''b'', 1), (''a'', 2), (''b'', 3 :: nat)])" by simp
  ultimately obtain s' where "link_all link_var [(''b'', 1), (''a'', 2), (''b'', 3)] (None, demo_vmem) = Some s'"
    "\<forall>k. name_ok k \<longrightarrow> get_var (fst s') k (snd s') = Some (foldl add_first (\<lambda>_. None) [(''b'', 1), (''a'', 2), (''b'', 3)] k)"
    using variables_run_like_a_map by blast
  then show ?thesis by (simp add: name_ok_def MEDUSA_ATTRNAME_MAX_def add_first_def)
qed

end
