(* ===== verification/Registers.thy ===== *)
theory Registers
  imports Variables Byte_Words "HOL-Library.Monad_Syntax"
begin

text \<open>
  Registers of the interpreter (\<open>execute.h\<close>, \<open>alu2.c\<close>). A register refers to an attribute, which says how its data
  are read, and its data are its own buffer of \<open>MAX_REG_SIZE\<close> bytes or a block of the store. The attribute is
  one of the three static ones, the register's own \<open>tmp_attr\<close>, or one of a class or an object, given
  by its address and its value. \<open>runtime\<close> prints a message and goes on: the messages are part
  of the result. \<open>None\<close> is an access outside of a buffer or through a dangling pointer.
\<close>

definition MAX_REG_SIZE :: nat where "MAX_REG_SIZE = 4096"

datatype attr_ref = Attr_int | Attr_str | Attr_pointer | Attr_tmp | Attr_of nat attr

record register_s =
  r_attr :: attr_ref
  r_tmp :: attr
  r_object :: "nat option"
  r_class :: "nat option"
  r_flags :: "32 word"
  r_data :: "nat option"
  r_buf :: bytes

definition execute_attr_int :: attr where
  "execute_attr_int = \<lparr>a_offset = 0, a_length = 4, a_type = MED_TYPE_SIGNED OR MED_TYPE_READ_ONLY, a_name = []\<rparr>"

definition execute_attr_str :: attr where
  "execute_attr_str = \<lparr>a_offset = 0, a_length = of_nat MAX_REG_SIZE, a_type = MED_TYPE_STRING OR MED_TYPE_READ_ONLY, a_name = []\<rparr>"

definition execute_attr_pointer :: attr where
  "execute_attr_pointer = \<lparr>a_offset = 0, a_length = 8, a_type = MED_TYPE_UNSIGNED OR MED_TYPE_READ_ONLY, a_name = []\<rparr>"

definition attr_of :: "register_s \<Rightarrow> attr" where
  "attr_of r =
     (case r_attr r of
        Attr_int \<Rightarrow> execute_attr_int
      | Attr_str \<Rightarrow> execute_attr_str
      | Attr_pointer \<Rightarrow> execute_attr_pointer
      | Attr_tmp \<Rightarrow> r_tmp r
      | Attr_of _ a \<Rightarrow> a)"

definition rlen :: "register_s \<Rightarrow> nat" where "rlen r = alen (attr_of r)"
definition rkind :: "register_s \<Rightarrow> byte" where "rkind r = akind (attr_of r)"

text \<open>\<open>r2o\<close>: the bytes of the object that the attribute is an attribute of, and the attribute in it. A
  buffer is taken as the place of the attribute itself.\<close>

definition r2o :: "register_s \<Rightarrow> vmem \<Rightarrow> (bytes \<times> attr) option" where
  "r2o r m =
     (case r_data r of
        None \<Rightarrow> Some (r_buf r, (attr_of r)\<lparr>a_offset := 0\<rparr>)
      | Some p \<Rightarrow> map_option (\<lambda>d. (d, attr_of r)) (vm_block m p))"

definition r_int :: "register_s \<Rightarrow> vmem \<Rightarrow> int option" where
  "r_int r m =
     (if rkind r = MED_TYPE_SIGNED \<or> rkind r = MED_TYPE_UNSIGNED then do {
        (d, a) \<leftarrow> r2o r m;
        (_, bs) \<leftarrow> object_get_val (r_flags r) d a (replicate 4 0);
        Some (sint (bytes_word bs :: 32 word)) }
      else Some 0)"

definition len_align :: "nat \<Rightarrow> nat" where "len_align x = 8 * ((x + 7) div 8)"
definition LEN_MAX :: nat where "LEN_MAX = MAX_REG_SIZE"

definition r_imm :: "register_s \<Rightarrow> vmem \<Rightarrow> (register_s \<times> string list) option" where
  "r_imm r m =
     (case r_data r of
        None \<Rightarrow> Some (r, [])
      | Some p \<Rightarrow>
          (let long = MAX_REG_SIZE < len_align (rlen r);
               n = (if long then LEN_MAX else len_align (rlen r));
               done = (\<lambda>bs fl. (r\<lparr>r_buf := bs @ drop n (r_buf r), r_data := None,
                   r_flags := fl AND NOT OBJECT_FLAG_LOCAL, r_object := None\<rparr>,
                   if long then [''Variable too long''] else []));
               off = aoff (attr_of r) in
           if a_type (attr_of r) = MED_TYPE_END \<and> 0 < n then do {
             d \<leftarrow> vm_block m p;
             if off + n \<le> length d then Some (done (take n (drop off d)) (r_flags r)) else None }
           else do {
             (d, a) \<leftarrow> r2o r m;
             (_, bs) \<leftarrow> object_get_val (r_flags r) d a (take n (r_buf r));
             Some (done bs (r_flags r AND NOT OBJECT_FLAG_CHENDIAN)) }))"

text \<open>\<open>r_sto\<close>: the type with which the value is stored, \<open>None\<close> when the conversion is illegal.\<close>

definition sto_type :: "byte \<Rightarrow> byte \<Rightarrow> byte option" where
  "sto_type t d =
     (if t = MED_TYPE_UNSIGNED \<and> d = MED_TYPE_SIGNED then Some MED_TYPE_UNSIGNED
      else if t = MED_TYPE_SIGNED \<and> d = MED_TYPE_UNSIGNED then Some MED_TYPE_UNSIGNED
      else if t = MED_TYPE_BITMAP \<and> d = MED_TYPE_SIGNED then Some MED_TYPE_SIGNED
      else if t = MED_TYPE_BITMAP \<and> d = MED_TYPE_UNSIGNED then Some MED_TYPE_UNSIGNED
      else if t \<noteq> d then None
      else Some t)"

definition set_block :: "nat \<Rightarrow> bytes \<Rightarrow> vmem \<Rightarrow> vmem" where
  "set_block p d m = m\<lparr>vm_block := (vm_block m)(p \<mapsto> d)\<rparr>"

definition as_object :: "register_s \<Rightarrow> attr \<Rightarrow> bytes \<Rightarrow> object_s" where
  "as_object r a d = \<lparr>o_attr = a, o_flags = r_flags r, o_class = r_class r, o_data = d\<rparr>"

definition r_sto ::
  "(nat \<Rightarrow> class_s option) \<Rightarrow> register_s \<Rightarrow> register_s \<Rightarrow> vmem \<Rightarrow> (register_s \<times> vmem \<times> string list) option" where
  "r_sto cls v d m =
     (case r_data v of
        None \<Rightarrow> Some (d, m, [''Invalid lvalue''])
      | Some p \<Rightarrow>
          if r_flags v AND OBJECT_FLAG_LOCAL = 0 \<and> a_type (attr_of v) AND MED_TYPE_READ_ONLY \<noteq> 0
          then Some (d, m, [''Changing read-only varible''])
          else
            (case sto_type (rkind v) (rkind d) of
               None \<Rightarrow> Some (d, m, [''Illegal type conversion''])
             | Some t \<Rightarrow>
                 if t = MED_TYPE_END then do {
                   (dv, av) \<leftarrow> r2o v m;
                   (dd, ad) \<leftarrow> r2o d m;
                   if r_class v \<noteq> r_class d then Some (d, m, [''Class of object don't match''])
                   else do {
                     c \<leftarrow> Option.bind (r_class v) cls;
                     ob \<leftarrow> object_copy c (as_object v av dv) (as_object d ad dd);
                     Some (d, set_block p (o_data ob) m, []) } }
                 else do {
                   (d, e) \<leftarrow> r_imm d m;
                   (dv, av) \<leftarrow> r2o v m;
                   if rlen d \<le> length (r_buf d) then do {
                     (_, dv) \<leftarrow> object_set_val (r_flags v) dv (av\<lparr>a_type := t\<rparr>) (take (rlen d) (r_buf d));
                     Some (d, set_block p dv m, e) }
                   else None }))"

definition r_resize :: "register_s \<Rightarrow> nat \<Rightarrow> vmem \<Rightarrow> (register_s \<times> string list) option" where
  "r_resize v n m = do {
     (v, e) \<leftarrow> r_imm v m;
     if rkind v = MED_TYPE_END then Some (v, e @ [''Object can't be resized''])
     else
       (let nv = (if rkind v = MED_TYPE_UNSIGNED \<or> rkind v = MED_TYPE_SIGNED then len_align (rlen v) else rlen v) in
        if n \<le> nv then Some (v, e)
        else do {
          (_, buf) \<leftarrow> object_resize_data (r_buf v) (attr_of v) n;
          Some (v\<lparr>r_buf := buf\<rparr>, e) }) }"

end
