(* ===== verification/Alu.thy ===== *)
theory Alu
  imports Registers "HOL-Library.Signed_Division"
begin

text \<open>
  The arithmetic and logic unit of the interpreter (\<open>alu.c\<close>): \<open>do_bin_op\<close> and the functions of its table, for
  unsigned and signed integers, strings and bitmaps. The macros that make the functions are definitions with the
  types and the operation as arguments. Integers are read from the first 4 or 8 bytes of the buffers and
  the operation is that of C on the operand types: it is unsigned as soon as one of them is. An
  overflow wraps around; a division by zero, the overflow of a signed division and a shift by a negative number or by the
  width or more are \<open>None\<close>.
\<close>

datatype binop = oADD | oSUB | oMUL | oDIV | oMOD | oSHL | oSHR | oLT | oGT | oLE | oGE | oEQ | oNE | oOR | oAND | oXOR

type_synonym alu_fn = "register_s \<Rightarrow> register_s \<Rightarrow> vmem \<Rightarrow> (register_s \<times> register_s \<times> string list) option"

subsection \<open>Operations of C on machine words\<close>

text \<open>\<open>s1\<close>, \<open>s2\<close>: the operand is signed.\<close>

definition c_div :: "bool \<Rightarrow> bool \<Rightarrow> 'a :: len word \<Rightarrow> 'a word \<Rightarrow> 'a word option" where
  "c_div s1 s2 x y =
     (if y = 0 then None
      else if s1 \<and> s2 then
        (if y = -1 \<and> x = push_bit (LENGTH('a) - 1) 1 then None else Some (word_of_int (sint x sdiv sint y)))
      else Some (x div y))"

definition c_mod :: "bool \<Rightarrow> bool \<Rightarrow> 'a :: len word \<Rightarrow> 'a word \<Rightarrow> 'a word option" where
  "c_mod s1 s2 x y =
     (if y = 0 then None
      else if s1 \<and> s2 then
        (if y = -1 \<and> x = push_bit (LENGTH('a) - 1) 1 then None else Some (word_of_int (sint x smod sint y)))
      else Some (x mod y))"

definition shift_count :: "bool \<Rightarrow> 'a :: len word \<Rightarrow> nat option" where
  "shift_count s2 y = (if unat y < LENGTH('a) then Some (unat y) else None)"

definition c_shr :: "bool \<Rightarrow> nat \<Rightarrow> 'a :: len word \<Rightarrow> 'a word" where
  "c_shr s1 n x = (if s1 then signed_drop_bit n x else drop_bit n x)"

definition c_less :: "bool \<Rightarrow> bool \<Rightarrow> 'a :: len word \<Rightarrow> 'a word \<Rightarrow> bool" where
  "c_less s1 s2 x y = (if s1 \<and> s2 then sint x < sint y else unat x < unat y)"

unbundle bit_operations_syntax

definition c_arith :: "binop \<Rightarrow> bool \<Rightarrow> bool \<Rightarrow> 'a :: len word \<Rightarrow> 'a word \<Rightarrow> 'a word option" where
  "c_arith b s1 s2 x y =
     (case b of
        oADD \<Rightarrow> Some (x + y)
      | oSUB \<Rightarrow> Some (x - y)
      | oMUL \<Rightarrow> Some (x * y)
      | oDIV \<Rightarrow> c_div s1 s2 x y
      | oMOD \<Rightarrow> c_mod s1 s2 x y
      | oSHL \<Rightarrow> map_option (\<lambda>n. push_bit n x) (shift_count s2 y)
      | oSHR \<Rightarrow> map_option (\<lambda>n. c_shr s1 n x) (shift_count s2 y)
      | oAND \<Rightarrow> Some (x AND y)
      | oOR \<Rightarrow> Some (x OR y)
      | oXOR \<Rightarrow> Some (x XOR y)
      | _ \<Rightarrow> None)"

definition c_compare :: "binop \<Rightarrow> bool \<Rightarrow> bool \<Rightarrow> 'a :: len word \<Rightarrow> 'a word \<Rightarrow> bool" where
  "c_compare b s1 s2 x y =
     (case b of
        oLT \<Rightarrow> c_less s1 s2 x y
      | oGT \<Rightarrow> c_less s1 s2 y x
      | oLE \<Rightarrow> \<not> c_less s1 s2 y x
      | oGE \<Rightarrow> \<not> c_less s1 s2 x y
      | oEQ \<Rightarrow> x = y
      | _ \<Rightarrow> x \<noteq> y)"

subsection \<open>The functions of the table\<close>

definition set_tmp :: "nat \<Rightarrow> byte \<Rightarrow> register_s \<Rightarrow> register_s" where
  "set_tmp n t v = v\<lparr>r_tmp := (r_tmp v)\<lparr>a_length := of_nat n, a_type := t\<rparr>, r_attr := Attr_tmp\<rparr>"

definition units :: "register_s \<Rightarrow> register_s \<Rightarrow> nat" where
  "units v d = max ((rlen v + 3) div 4) ((rlen d + 3) div 4)"

definition put_buf :: "bytes \<Rightarrow> register_s \<Rightarrow> register_s" where
  "put_buf bs v = v\<lparr>r_buf := put_bytes 0 bs (r_buf v)\<rparr>"

definition both_resized :: "register_s \<Rightarrow> register_s \<Rightarrow> vmem \<Rightarrow> (nat \<times> register_s \<times> register_s \<times> string list) option" where
  "both_resized v d m = do {
     let n = units v d;
     (v, e1) \<leftarrow> r_resize v (4 * n) m;
     (d, e2) \<leftarrow> r_resize d (4 * n) m;
     Some (n, v, d, e1 @ e2) }"

definition bool_word :: "bool \<Rightarrow> 32 word" where "bool_word b = (if b then 1 else 0)"

text \<open>\<open>OPi\<close> and \<open>ROPi\<close>; \<open>t3\<close> is the type of the result.\<close>

definition op_i :: "binop \<Rightarrow> bool \<Rightarrow> bool \<Rightarrow> byte \<Rightarrow> alu_fn" where
  "op_i b s1 s2 t3 v d m = do {
     (n, v, d, e) \<leftarrow> both_resized v d m;
     let v = set_tmp (4 * n) t3 v;
     if n = 1 then do {
       x \<leftarrow> get_field 0 4 (r_buf v);
       y \<leftarrow> get_field 0 4 (r_buf d);
       z \<leftarrow> c_arith b s1 s2 (x :: 32 word) y;
       Some (put_buf (word_bytes 4 z) v, d, e) }
     else do {
       x \<leftarrow> get_field 0 8 (r_buf v);
       y \<leftarrow> get_field 0 8 (r_buf d);
       z \<leftarrow> c_arith b s1 s2 (x :: 64 word) y;
       Some (put_buf (word_bytes 8 z) v, d, e) } }"

definition rop_i :: "binop \<Rightarrow> bool \<Rightarrow> bool \<Rightarrow> alu_fn" where
  "rop_i b s1 s2 v d m = do {
     (n, v, d, e) \<leftarrow> both_resized v d m;
     let v = set_tmp 4 MED_TYPE_UNSIGNED v;
     r \<leftarrow> (if n = 1 then do {
          x \<leftarrow> get_field 0 4 (r_buf v);
          y \<leftarrow> get_field 0 4 (r_buf d);
          Some (c_compare b s1 s2 (x :: 32 word) y) }
        else do {
          x \<leftarrow> get_field 0 8 (r_buf v);
          y \<leftarrow> get_field 0 8 (r_buf d);
          Some (c_compare b s1 s2 (x :: 64 word) y) });
     Some (put_buf (word_bytes 4 (bool_word r)) v, d, e) }"

text \<open>\<open>OPbb\<close>, on all \<open>n\<close> bytes, and \<open>ROPb\<close>, whose loop runs over as many bytes as there are units of 4.\<close>

definition byte_op :: "binop \<Rightarrow> byte \<Rightarrow> byte \<Rightarrow> byte" where
  "byte_op b x y =
     (case b of oSUB \<Rightarrow> x AND NOT y | oAND \<Rightarrow> x AND y | oXOR \<Rightarrow> x XOR y | _ \<Rightarrow> x OR y)"

definition op_bb :: "binop \<Rightarrow> alu_fn" where
  "op_bb b v d m = do {
     (n, v, d, e) \<leftarrow> both_resized v d m;
     let v = set_tmp (4 * n) MED_TYPE_BITMAP v;
     if 4 * n \<le> length (r_buf v) \<and> 4 * n \<le> length (r_buf d)
     then Some (put_buf (map2 (byte_op b) (take (4 * n) (r_buf v)) (take (4 * n) (r_buf d))) v, d, e) else None }"

definition rop_bb :: "(byte \<Rightarrow> byte \<Rightarrow> bool) \<Rightarrow> alu_fn" where
  "rop_bb f v d m = do {
     (n, v, d, e) \<leftarrow> both_resized v d m;
     let v = set_tmp 4 MED_TYPE_UNSIGNED v;
     if n \<le> length (r_buf v) \<and> n \<le> length (r_buf d)
     then Some (put_buf (word_bytes 4 (bool_word (\<forall>i < n. f (r_buf v ! i) (r_buf d ! i)))) v, d, e) else None }"

text \<open>\<open>OPbx\<close>: \<open>setbit\<close> and \<open>clrbit\<close>. A negative number leads in front of the buffer.\<close>

definition op_bx :: "bool \<Rightarrow> bool \<Rightarrow> alu_fn" where
  "op_bx add s2 v d m = do {
     i \<leftarrow> get_field 0 4 (r_buf d);
     let i = (if s2 then sint (i :: 32 word) else int (unat i));
     if int (8 * rlen v) < i then Some (v, d, [''Cannot set bit of bitfield''])
     else if i < 0 \<or> length (r_buf v) \<le> nat i div 8 then None
     else
       (let k = nat i div 8; x = r_buf v ! k; bit = push_bit (nat i mod 8) 1 in
        Some (v\<lparr>r_buf := (r_buf v)[k := (if add then x OR bit else x AND NOT bit)]\<rparr>, d, [])) }"

text \<open>\<open>ROPc\<close>. The characters are signed; the loop stops at the first difference, at a NUL or at the end of the
  shorter operand, and a character behind an operand counts as NUL. The other one is undefined when there is no first character.\<close>

fun cmp_loop :: "bytes \<Rightarrow> bytes \<Rightarrow> byte \<times> byte \<Rightarrow> nat \<Rightarrow> (byte \<times> byte) \<times> nat" where
  "cmp_loop (a # as) (b # bs) _ i =
     (if a = 0 \<or> b = 0 \<or> a \<noteq> b then ((a, b), i) else cmp_loop as bs (a, b) (Suc i))"
| "cmp_loop _ _ ab i = (ab, i)"

definition signed_op :: "binop \<Rightarrow> byte \<Rightarrow> byte \<Rightarrow> bool" where
  "signed_op b x y = c_compare b True True x y"

definition rop_cc :: "binop \<Rightarrow> alu_fn" where
  "rop_cc b v d m =
     (let nv = rlen v; nd = rlen d; v = set_tmp 4 MED_TYPE_SIGNED v in
      if length (r_buf v) < nv \<or> length (r_buf d) < nd \<or> (nv = 0) \<noteq> (nd = 0) then None
      else (case cmp_loop (take nv (r_buf v)) (take nd (r_buf d)) (0, 0) 0 of
        ((x, y), i) \<Rightarrow>
          let x = (if nv \<le> i then 0 else x); y = (if nd \<le> i then 0 else y) in
          Some (put_buf (word_bytes 4 (bool_word (signed_op b x y))) v, d, [])))"

text \<open>\<open>r_neg\<close>, \<open>r_nz\<close> and \<open>r_not\<close> work on the bytes that \<open>data\<close> points to, whatever the offset of the attribute.\<close>

definition raw :: "register_s \<Rightarrow> vmem \<Rightarrow> bytes option" where
  "raw v m = (case r_data v of None \<Rightarrow> Some (r_buf v) | Some p \<Rightarrow> vm_block m p)"

definition put_raw :: "bytes \<Rightarrow> register_s \<Rightarrow> vmem \<Rightarrow> (register_s \<times> vmem) option" where
  "put_raw bs v m = do {
     d \<leftarrow> raw v m;
     if length bs \<le> length d then
       Some (case r_data v of None \<Rightarrow> (put_buf bs v, m) | Some p \<Rightarrow> (v, set_block p (put_bytes 0 bs d) m))
     else None }"

definition r_neg :: "register_s \<Rightarrow> vmem \<Rightarrow> (register_s \<times> vmem) option" where
  "r_neg v m = do {
     d \<leftarrow> raw v m;
     let n = 4 * ((rlen v + 3) div 4);
     if n \<le> length d then put_raw (map (\<lambda>x. NOT x) (take n d)) v m else None }"

definition r_nz :: "register_s \<Rightarrow> vmem \<Rightarrow> bool option" where
  "r_nz v m = do {
     d \<leftarrow> raw v m;
     let n = 4 * ((rlen v + 3) div 4);
     if n \<le> length d then Some (\<exists>x \<in> set (take n d). x \<noteq> 0) else None }"

definition r_not :: "register_s \<Rightarrow> vmem \<Rightarrow> (register_s \<times> vmem) option" where
  "r_not v m = do {
     z \<leftarrow> r_nz v m;
     put_raw (word_bytes 4 (bool_word (\<not> z))) (set_tmp 4 MED_TYPE_UNSIGNED v) m }"

subsection \<open>Strings\<close>

definition strnlen :: "nat \<Rightarrow> bytes \<Rightarrow> nat" where
  "strnlen n s = length (takeWhile (\<lambda>b. b \<noteq> 0) (take n s))"

text \<open>The register gets a copy of its attribute in \<open>tmp_attr\<close>, of length \<open>n\<close>.\<close>

definition own_attr :: "nat \<Rightarrow> register_s \<Rightarrow> register_s" where
  "own_attr n v = v\<lparr>r_tmp := (attr_of v)\<lparr>a_length := of_nat n\<rparr>, r_attr := Attr_tmp\<rparr>"

definition put_at :: "nat \<Rightarrow> bytes \<Rightarrow> register_s \<Rightarrow> register_s option" where
  "put_at off bs v =
     (if off + length bs \<le> length (r_buf v) then Some (v\<lparr>r_buf := put_bytes off bs (r_buf v)\<rparr>) else None)"

definition r_add_cc :: alu_fn where
  "r_add_cc v d m =
     (let l = strnlen (rlen v) (r_buf v); x = strnlen (rlen d) (r_buf d); n = l + x + 1 in
      if n < MAX_REG_SIZE then
        map_option (\<lambda>v. (own_attr n v, d, [])) (put_at l (take x (r_buf d) @ [0]) v)
      else if MAX_REG_SIZE < l then None
      else map_option (\<lambda>v. (own_attr MAX_REG_SIZE v, d, [])) (put_at l (take (MAX_REG_SIZE - l) (r_buf d)) v))"

text \<open>Numbers and bytes as text.\<close>

definition digit :: "nat \<Rightarrow> byte" where "digit n = of_nat (if n < 10 then 48 + n else 87 + n)"

fun decimal :: "nat \<Rightarrow> bytes" where
  "decimal n = (if n < 10 then [digit n] else decimal (n div 10) @ [digit (n mod 10)])"

declare decimal.simps [simp del]

definition decimal_int :: "int \<Rightarrow> bytes" where
  "decimal_int y = (if y < 0 then 45 # decimal (nat (- y)) else decimal (nat y))"

definition number_of :: "bool \<Rightarrow> register_s \<Rightarrow> int option" where
  "number_of s2 d =
     (if rlen d div 4 = 1
      then map_option (\<lambda>y :: 32 word. if s2 then sint y else int (unat y)) (get_field 0 4 (r_buf d))
      else map_option (\<lambda>y :: 64 word. if s2 then sint y else int (unat y)) (get_field 0 8 (r_buf d)))"

definition r_add_ci :: "bool \<Rightarrow> alu_fn" where
  "r_add_ci s2 v d m = do {
     let l = strnlen (rlen v) (r_buf v);
     y \<leftarrow> number_of s2 d;
     let n = l + 10 * (rlen d div 4) + 1;
     if n < MAX_REG_SIZE
     then map_option (\<lambda>v. (own_attr n v, d, [])) (put_at l (decimal_int y @ [0]) v)
     else Some (own_attr MAX_REG_SIZE v, d, []) }"

text \<open>\<open>r_add_cb\<close>: \<open>%02x\<close> of a \<open>char\<close>, which is signed, prints a byte from \<open>0x80\<close> on as 32-bit number of eight digits. The loop
  then goes on two characters further.\<close>

definition hex_char :: "byte \<Rightarrow> bytes" where
  "hex_char b =
     (let two = [digit (unat b div 16), digit (unat b mod 16)] in
      if sint b < 0 then replicate 6 (digit 15) @ two else two)"

fun bitmap_text :: "bytes \<Rightarrow> nat \<Rightarrow> nat \<Rightarrow> register_s \<Rightarrow> (nat \<times> register_s) option" where
  "bitmap_text bs 0 l v = Some (l, v)"
| "bitmap_text bs (Suc j) l v = do {
     v \<leftarrow> put_at l (hex_char (bs ! j) @ [0]) v;
     let l = l + 2;
     if 0 < j \<and> j mod 4 = 0 then do { v \<leftarrow> put_at l [58] v; bitmap_text bs j (l + 1) v }
     else bitmap_text bs j l v }"

definition r_add_cb :: alu_fn where
  "r_add_cb v d m =
     (let l = strnlen (rlen v) (r_buf v); n = rlen d in
      if MAX_REG_SIZE \<le> l + n + n + n div 4 + 1 then Some (own_attr (rlen v) v, d, [])
      else do {
        (l, w) \<leftarrow> bitmap_text (r_buf d) n l v;
        w \<leftarrow> put_at l [0] w;
        Some (own_attr (l + 1) w, d, []) })"

subsection \<open>The table\<close>

text \<open>The columns and rows of the table: the types 1 to 4.\<close>

datatype kind = U | S | C | B

definition kind_of :: "byte \<Rightarrow> kind option" where
  "kind_of t = (if t = MED_TYPE_UNSIGNED then Some U else if t = MED_TYPE_SIGNED then Some S
     else if t = MED_TYPE_STRING then Some C else if t = MED_TYPE_BITMAP then Some B else None)"

definition is_signed :: "kind \<Rightarrow> bool" where "is_signed k \<longleftrightarrow> k = S"

definition result_type :: "binop \<Rightarrow> kind \<Rightarrow> kind \<Rightarrow> byte" where
  "result_type b k1 k2 =
     (if b = oSUB then MED_TYPE_SIGNED
      else if b = oSHL \<or> b = oSHR then (if k1 = U then MED_TYPE_UNSIGNED else MED_TYPE_SIGNED)
      else if k1 = U \<and> k2 = U then MED_TYPE_UNSIGNED else MED_TYPE_SIGNED)"

definition is_compare :: "binop \<Rightarrow> bool" where
  "is_compare b \<longleftrightarrow> b \<in> {oLT, oGT, oLE, oGE, oEQ, oNE}"

definition op_func :: "binop \<Rightarrow> kind \<Rightarrow> kind \<Rightarrow> alu_fn option" where
  "op_func b k1 k2 =
     (if k1 \<in> {U, S} \<and> k2 \<in> {U, S} then
        Some (if is_compare b then rop_i b (is_signed k1) (is_signed k2)
              else op_i b (is_signed k1) (is_signed k2) (result_type b k1 k2))
      else if k1 = C \<and> k2 = C then
        (if b = oADD then Some r_add_cc else if is_compare b then Some (rop_cc b) else None)
      else if k1 = C then
        (if b = oADD then Some (if k2 = B then r_add_cb else r_add_ci (is_signed k2)) else None)
      else if k1 = B \<and> k2 = B then
        (if b \<in> {oADD, oSUB, oAND, oOR, oXOR} then Some (op_bb b)
         else if b = oEQ then Some (rop_bb (=)) else if b = oNE then Some (rop_bb (\<noteq>)) else None)
      else if k1 = B \<and> k2 \<in> {U, S} then
        (if b = oADD then Some (op_bx True (is_signed k2)) else if b = oSUB then Some (op_bx False (is_signed k2)) else None)
      else None)"

definition do_bin_op :: "binop \<Rightarrow> alu_fn" where
  "do_bin_op b v d m = do {
     (v, e1) \<leftarrow> r_imm v m;
     (d, e2) \<leftarrow> r_imm d m;
     case (kind_of (rkind v), kind_of (rkind d)) of
       (Some k1, Some k2) \<Rightarrow>
         (case op_func b k1 k2 of
            None \<Rightarrow> Some (v, d, e1 @ e2 @ [''Illegal operation''])
          | Some f \<Rightarrow> map_option (\<lambda>(v, d, e). (v, d, e1 @ e2 @ e)) (f v d m))
     | _ \<Rightarrow> Some (v, d, e1 @ e2 @ [''Illegal operand type'']) }"

subsection \<open>Types and sizes\<close>

definition reg_ok :: "register_s \<Rightarrow> bool" where "reg_ok r \<longleftrightarrow> length (r_buf r) = MAX_REG_SIZE"

lemma get_val_length:
  assumes "object_get_val fl d a buf = Some (r, bs)"
  shows "length bs = length buf"
  using assms by (auto simp: object_get_val_def Let_def attr_in_def extension_def split: if_splits)

lemma r_imm_ok:
  assumes "r_imm r m = Some (r', e)" "reg_ok r"
  shows "reg_ok r' \<and> r_data r' = None \<and> attr_of r' = attr_of r \<and> r_class r' = r_class r"
proof (cases "r_data r")
  case None
  then show ?thesis using assms by (simp add: r_imm_def)
next
  case (Some p)
  let ?n = "if MAX_REG_SIZE < len_align (rlen r) then LEN_MAX else len_align (rlen r)"
  have n: "?n \<le> MAX_REG_SIZE" by (simp add: LEN_MAX_def)
  obtain bs fl o' where r': "r' = r\<lparr>r_buf := bs @ drop ?n (r_buf r), r_data := None, r_flags := fl, r_object := o'\<rparr>"
    "length bs = ?n"
  proof (cases "a_type (attr_of r) = MED_TYPE_END \<and> 0 < ?n")
    case True
    then obtain d where "vm_block m p = Some d" "aoff (attr_of r) + ?n \<le> length d"
        "r' = r\<lparr>r_buf := take ?n (drop (aoff (attr_of r)) d) @ drop ?n (r_buf r), r_data := None,
          r_flags := r_flags r AND NOT OBJECT_FLAG_LOCAL, r_object := None\<rparr>"
      using assms(1) Some by (auto simp: r_imm_def Let_def bind_eq_Some_conv split: if_splits)
    then show ?thesis using that by simp
  next
    case False
    then obtain d a x bs where bs: "object_get_val (r_flags r) d a (take ?n (r_buf r)) = Some (x, bs)"
        "r' = r\<lparr>r_buf := bs @ drop ?n (r_buf r), r_data := None,
          r_flags := (r_flags r AND NOT OBJECT_FLAG_CHENDIAN) AND NOT OBJECT_FLAG_LOCAL, r_object := None\<rparr>"
      using assms(1) Some unfolding r_imm_def Let_def option.case if_not_P [OF False] by (auto simp: bind_eq_Some_conv)
    moreover have "length bs = ?n" using get_val_length [OF bs(1)] assms(2) n by (simp add: reg_ok_def)
    ultimately show ?thesis using that by blast
  qed
  then show ?thesis using assms(2) n by (cases "r_attr r") (simp_all add: reg_ok_def attr_of_def)
qed

lemma r_imm_buffer [simp]: "r_data r = None \<Longrightarrow> r_imm r m = Some (r, [])"
  by (simp add: r_imm_def)

lemma resize_data_length: "object_resize_data buf a n = Some (r, bs) \<Longrightarrow> length bs = length buf"
  by (auto simp: object_resize_data_def object_resize_data_short_def put_bytes_def split: if_splits)

lemma r_resize_ok:
  assumes "r_resize v n m = Some (v', e)" "reg_ok v"
  shows "reg_ok v' \<and> r_data v' = None \<and> attr_of v' = attr_of v"
proof -
  obtain w e1 where w: "r_imm v m = Some (w, e1)" using assms(1) by (auto simp: r_resize_def bind_eq_Some_conv)
  have "v' = w \<or> (\<exists>buf r. object_resize_data (r_buf w) (attr_of w) n = Some (r, buf) \<and> v' = w\<lparr>r_buf := buf\<rparr>)"
    using assms(1) w by (auto simp: r_resize_def Let_def bind_eq_Some_conv split: if_splits)
  then show ?thesis
    using r_imm_ok [OF w assms(2)] resize_data_length [of "r_buf w"]
    by (elim disjE exE conjE) (auto simp: reg_ok_def attr_of_def split: attr_ref.splits)
qed

lemma both_resized_ok:
  assumes "both_resized v d m = Some (n, v', d', e)" "reg_ok v" "reg_ok d"
  shows "n = units v d \<and> reg_ok v' \<and> reg_ok d' \<and> r_data v' = None \<and> r_data d' = None \<and> attr_of v' = attr_of v"
  using assms r_resize_ok by (fastforce simp: both_resized_def Let_def bind_eq_Some_conv)

lemma set_tmp_fields [simp]:
  "r_buf (set_tmp n t v) = r_buf v" "r_data (set_tmp n t v) = r_data v" "rkind (set_tmp n t v) = t AND 0x0f"
  "a_type (attr_of (set_tmp n t v)) = t" "a_length (attr_of (set_tmp n t v)) = of_nat n" "reg_ok (set_tmp n t v) = reg_ok v"
  by (simp_all add: set_tmp_def attr_of_def rkind_def akind_def reg_ok_def)

lemma put_buf_fields [simp]: "r_data (put_buf bs v) = r_data v" "attr_of (put_buf bs v) = attr_of v"
  by (simp_all add: put_buf_def attr_of_def split: attr_ref.split)

lemma put_buf_ok: "reg_ok v \<Longrightarrow> length bs \<le> MAX_REG_SIZE \<Longrightarrow> reg_ok (put_buf bs v)"
  by (simp add: put_buf_def reg_ok_def put_bytes_def)

lemma own_attr_fields [simp]:
  "r_buf (own_attr n v) = r_buf v" "r_data (own_attr n v) = r_data v" "rkind (own_attr n v) = rkind v" "reg_ok (own_attr n v) = reg_ok v"
  by (simp_all add: own_attr_def attr_of_def rkind_def akind_def reg_ok_def)

lemma put_at_ok: "put_at off bs v = Some w \<Longrightarrow> reg_ok v \<Longrightarrow> reg_ok w \<and> r_data w = r_data v \<and> attr_of w = attr_of v"
  by (auto simp: put_at_def reg_ok_def put_bytes_def attr_of_def split: if_splits attr_ref.splits)

definition bin_kind :: "binop \<Rightarrow> kind \<Rightarrow> kind \<Rightarrow> kind" where
  "bin_kind b k1 k2 =
     (if k1 = C then (if k2 = C \<and> b \<noteq> oADD then S else C)
      else if k1 = B then (if k2 = B \<and> (b = oEQ \<or> b = oNE) then U else B)
      else if is_compare b then U
      else if k1 = U \<and> (k2 = U \<or> b = oSHL \<or> b = oSHR) \<and> b \<noteq> oSUB then U
      else S)"

lemma kind_of_consts [simp]:
  "kind_of (MED_TYPE_UNSIGNED AND 0x0f) = Some U" "kind_of (MED_TYPE_SIGNED AND 0x0f) = Some S"
  "kind_of (MED_TYPE_BITMAP AND 0x0f) = Some B"
  by (simp_all add: kind_of_def med_consts)

lemma kind_of_result: "k1 \<in> {U, S} \<Longrightarrow> k2 \<in> {U, S} \<Longrightarrow> \<not> is_compare b \<Longrightarrow>
    kind_of (result_type b k1 k2 AND 0x0f) = Some (bin_kind b k1 k2)"
  by (auto simp: result_type_def bin_kind_def)

definition alu_ok :: "kind \<Rightarrow> alu_fn \<Rightarrow> bool" where
  "alu_ok k f \<longleftrightarrow> (\<forall>v d m v' d' e. f v d m = Some (v', d', e) \<longrightarrow> reg_ok v \<longrightarrow> reg_ok d \<longrightarrow> r_data v = None \<longrightarrow> r_data d = None
     \<longrightarrow> reg_ok v' \<and> reg_ok d' \<and> r_data v' = None \<and> r_data d' = None \<and> kind_of (rkind v') = Some k)"

definition alu_keeps :: "alu_fn \<Rightarrow> bool" where
  "alu_keeps f \<longleftrightarrow> (\<forall>v d m v' d' e. f v d m = Some (v', d', e) \<longrightarrow> reg_ok v \<longrightarrow> reg_ok d \<longrightarrow> r_data v = None \<longrightarrow> r_data d = None
     \<longrightarrow> reg_ok v' \<and> reg_ok d' \<and> r_data v' = None \<and> r_data d' = None \<and> rkind v' = rkind v)"

lemma max_reg: "4 \<le> MAX_REG_SIZE" "8 \<le> MAX_REG_SIZE" by (simp_all add: MAX_REG_SIZE_def)

lemma rkind_put_buf [simp]: "rkind (put_buf bs v) = rkind v" by (simp add: rkind_def)

lemma op_i_ok:
  assumes k: "kind_of (t AND 0x0f) = Some k"
  shows "alu_ok k (op_i b s1 s2 t)"
proof -
  have "reg_ok v' \<and> reg_ok d' \<and> r_data v' = None \<and> r_data d' = None \<and> kind_of (rkind v') = Some k"
    if f: "op_i b s1 s2 t v d m = Some (v', d', e)" and ok: "reg_ok v" "reg_ok d" for v d m v' d' e
  proof -
    obtain n w e' where w: "both_resized v d m = Some (n, w, d', e')"
      using f by (auto simp: op_i_def bind_eq_Some_conv Let_def split: if_splits)
    obtain bs where "v' = put_buf bs (set_tmp (4 * n) t w)" "length bs \<le> MAX_REG_SIZE"
      using f w max_reg by (auto simp: op_i_def bind_eq_Some_conv Let_def split: if_splits)
    then show ?thesis using both_resized_ok [OF w ok] k put_buf_ok by simp
  qed
  then show ?thesis by (simp add: alu_ok_def)
qed

lemma rop_i_ok: "alu_ok U (rop_i b s1 s2)"
proof -
  have "reg_ok v' \<and> reg_ok d' \<and> r_data v' = None \<and> r_data d' = None \<and> kind_of (rkind v') = Some U"
    if f: "rop_i b s1 s2 v d m = Some (v', d', e)" and ok: "reg_ok v" "reg_ok d" for v d m v' d' e
  proof -
    obtain n w e' where w: "both_resized v d m = Some (n, w, d', e')"
      using f by (auto simp: rop_i_def bind_eq_Some_conv Let_def)
    obtain r where "v' = put_buf (word_bytes 4 (bool_word r)) (set_tmp 4 MED_TYPE_UNSIGNED w)"
      using f w by (auto simp: rop_i_def bind_eq_Some_conv Let_def)
    then show ?thesis using both_resized_ok [OF w ok] put_buf_ok max_reg by simp
  qed
  then show ?thesis by (simp add: alu_ok_def)
qed

lemma op_bb_ok: "alu_ok B (op_bb b)"
proof -
  have "reg_ok v' \<and> reg_ok d' \<and> r_data v' = None \<and> r_data d' = None \<and> kind_of (rkind v') = Some B"
    if f: "op_bb b v d m = Some (v', d', e)" and ok: "reg_ok v" "reg_ok d" for v d m v' d' e
  proof -
    obtain n w e' where w: "both_resized v d m = Some (n, w, d', e')"
      using f by (auto simp: op_bb_def bind_eq_Some_conv Let_def split: if_splits)
    obtain bs where "v' = put_buf bs (set_tmp (4 * n) MED_TYPE_BITMAP w)" "length bs \<le> length (r_buf w)"
      using f w by (auto simp: op_bb_def Let_def split: if_splits)
    then show ?thesis using both_resized_ok [OF w ok] put_buf_ok by (simp add: reg_ok_def)
  qed
  then show ?thesis by (simp add: alu_ok_def)
qed

lemma rop_bb_ok: "alu_ok U (rop_bb g)"
proof -
  have "reg_ok v' \<and> reg_ok d' \<and> r_data v' = None \<and> r_data d' = None \<and> kind_of (rkind v') = Some U"
    if f: "rop_bb g v d m = Some (v', d', e)" and ok: "reg_ok v" "reg_ok d" for v d m v' d' e
  proof -
    obtain n w e' where w: "both_resized v d m = Some (n, w, d', e')"
      using f by (auto simp: rop_bb_def bind_eq_Some_conv Let_def split: if_splits)
    obtain r where "v' = put_buf (word_bytes 4 (bool_word r)) (set_tmp 4 MED_TYPE_UNSIGNED w)"
      using f w by (auto simp: rop_bb_def Let_def split: if_splits)
    then show ?thesis using both_resized_ok [OF w ok] put_buf_ok max_reg by simp
  qed
  then show ?thesis by (simp add: alu_ok_def)
qed

lemma rop_cc_ok: "alu_ok S (rop_cc b)"
  unfolding alu_ok_def rop_cc_def Let_def
  by (auto split: if_splits prod.splits simp: put_buf_ok max_reg)

lemma attr_of_buf [simp]: "attr_of (v\<lparr>r_buf := b\<rparr>) = attr_of v"
  by (simp add: attr_of_def split: attr_ref.split)

lemma op_bx_shape:
  assumes "op_bx add s2 v d m = Some (v', d', e)"
  shows "d' = d \<and> (v' = v \<or> (\<exists>k x. v' = v\<lparr>r_buf := (r_buf v)[k := x]\<rparr>))"
proof (cases "get_field 0 4 (r_buf d) :: 32 word option")
  case None
  then show ?thesis using assms by (simp add: op_bx_def)
next
  case (Some y)
  define i where "i = (if s2 then sint y else int (unat y))"
  have f: "op_bx add s2 v d m =
     (if int (8 * rlen v) < i then Some (v, d, [''Cannot set bit of bitfield''])
     else if i < 0 \<or> length (r_buf v) \<le> nat i div 8 then None
     else
       (let k = nat i div 8; x = r_buf v ! k; bit = push_bit (nat i mod 8) 1 in
        Some (v\<lparr>r_buf := (r_buf v)[k := (if add then x OR bit else x AND NOT bit)]\<rparr>, d, [])))"
    by (simp only: op_bx_def Some Option.bind.bind_lunit i_def Let_def)
  consider "int (8 * rlen v) < i" | "\<not> int (8 * rlen v) < i" "i < 0 \<or> length (r_buf v) \<le> nat i div 8"
    | "\<not> int (8 * rlen v) < i" "\<not> (i < 0 \<or> length (r_buf v) \<le> nat i div 8)" by blast
  then show ?thesis
  proof cases
    case 1
    show ?thesis using assms unfolding f if_P [OF 1] by simp
  next
    case 2
    show ?thesis using assms unfolding f if_not_P [OF 2(1)] if_P [OF 2(2)] by simp
  next
    case 3
    show ?thesis using assms unfolding f if_not_P [OF 3(1)] if_not_P [OF 3(2)] Let_def by (simp only: option.inject prod.inject) blast
  qed
qed

lemma op_bx_keeps: "alu_keeps (op_bx add s2)"
proof -
  have "reg_ok v' \<and> reg_ok d' \<and> r_data v' = None \<and> r_data d' = None \<and> rkind v' = rkind v"
    if f: "op_bx add s2 v d m = Some (v', d', e)" and ok: "reg_ok v" "reg_ok d" "r_data v = None" "r_data d = None" for v d m v' d' e
    using op_bx_shape [OF f] ok by (auto simp: reg_ok_def rkind_def)
  then show ?thesis by (simp add: alu_keeps_def)
qed

lemma own_put_keeps:
  assumes "map_option (\<lambda>v. (own_attr n v, d, [])) (put_at l bs v) = Some (v', d', e)" "reg_ok v" "reg_ok d" "r_data v = None" "r_data d = None"
  shows "reg_ok v' \<and> reg_ok d' \<and> r_data v' = None \<and> r_data d' = None \<and> rkind v' = rkind v"
proof -
  obtain w where "put_at l bs v = Some w" "v' = own_attr n w" "d' = d" using assms(1) by auto
  moreover have "rkind w = rkind v \<and> reg_ok w \<and> r_data w = r_data v"
    using put_at_ok [OF calculation(1) assms(2)] by (simp add: rkind_def)
  ultimately show ?thesis using assms(2-5) by simp
qed

lemma r_add_cc_keeps: "alu_keeps r_add_cc"
proof -
  have "reg_ok v' \<and> reg_ok d' \<and> r_data v' = None \<and> r_data d' = None \<and> rkind v' = rkind v"
    if f: "r_add_cc v d m = Some (v', d', e)" and ok: "reg_ok v" "reg_ok d" "r_data v = None" "r_data d = None" for v d m v' d' e
  proof -
    obtain n l bs where "map_option (\<lambda>v. (own_attr n v, d, [])) (put_at l bs v) = Some (v', d', e)"
    proof (cases "strnlen (rlen v) (r_buf v) + strnlen (rlen d) (r_buf d) + 1 < MAX_REG_SIZE")
      case True
      then show ?thesis using f that unfolding r_add_cc_def Let_def if_P [OF True] by blast
    next
      case False
      have short: "\<not> MAX_REG_SIZE < strnlen (rlen v) (r_buf v)"
      proof
        assume "MAX_REG_SIZE < strnlen (rlen v) (r_buf v)"
        from f [unfolded r_add_cc_def Let_def if_not_P [OF False] if_P [OF this]] show False by simp
      qed
      note f1 = f [unfolded r_add_cc_def Let_def, unfolded if_not_P [OF False], unfolded if_not_P [OF short]]
      show ?thesis by (rule that) (rule f1)
    qed
    then show ?thesis by (rule own_put_keeps [OF _ ok])
  qed
  then show ?thesis by (simp add: alu_keeps_def)
qed

lemma r_add_ci_keeps: "alu_keeps (r_add_ci s2)"
proof -
  have "reg_ok v' \<and> reg_ok d' \<and> r_data v' = None \<and> r_data d' = None \<and> rkind v' = rkind v"
    if f: "r_add_ci s2 v d m = Some (v', d', e)" and ok: "reg_ok v" "reg_ok d" "r_data v = None" "r_data d = None" for v d m v' d' e
  proof -
    obtain y where "number_of s2 d = Some y" using f by (cases "number_of s2 d") (simp_all add: r_add_ci_def)
    then have "(\<exists>n l bs. map_option (\<lambda>v. (own_attr n v, d, [])) (put_at l bs v) = Some (v', d', e))
        \<or> v' = own_attr MAX_REG_SIZE v \<and> d' = d"
      using f by (auto simp: r_add_ci_def Let_def split: if_splits simp del: map_option_eq_Some)
    then show ?thesis
    proof (elim disjE exE)
      fix n l bs assume "map_option (\<lambda>v. (own_attr n v, d, [])) (put_at l bs v) = Some (v', d', e)"
      then show ?thesis by (rule own_put_keeps [OF _ ok])
    next
      assume "v' = own_attr MAX_REG_SIZE v \<and> d' = d"
      then show ?thesis using ok by simp
    qed
  qed
  then show ?thesis by (simp add: alu_keeps_def)
qed

lemma bitmap_text_ok:
  "bitmap_text bs j l v = Some (l', w) \<Longrightarrow> reg_ok v \<Longrightarrow> reg_ok w \<and> r_data w = r_data v \<and> attr_of w = attr_of v"
proof (induction j arbitrary: l v)
  case (Suc j)
  obtain w1 where w1: "put_at l (hex_char (bs ! j) @ [0]) v = Some w1"
    using Suc.prems(1) by (auto simp: bind_eq_Some_conv)
  note ok1 = put_at_ok [OF w1 Suc.prems(2)]
  show ?case
  proof (cases "0 < j \<and> j mod 4 = 0")
    case True
    then obtain w2 where w2: "put_at (l + 2) [58] w1 = Some w2" "bitmap_text bs j (l + 2 + 1) w2 = Some (l', w)"
      using Suc.prems(1) w1 by (auto simp: bind_eq_Some_conv)
    then show ?thesis using Suc.IH [OF w2(2)] put_at_ok [OF w2(1)] ok1 by simp
  next
    case False
    then have "bitmap_text bs j (l + 2) w1 = Some (l', w)" using Suc.prems(1) w1 by (auto simp: Let_def)
    then show ?thesis using Suc.IH ok1 by simp
  qed
qed simp

lemma r_add_cb_keeps: "alu_keeps r_add_cb"
proof -
  have "reg_ok v' \<and> reg_ok d' \<and> r_data v' = None \<and> r_data d' = None \<and> rkind v' = rkind v"
    if f: "r_add_cb v d m = Some (v', d', e)" and ok: "reg_ok v" "reg_ok d" "r_data v = None" "r_data d = None" for v d m v' d' e
  proof (cases "MAX_REG_SIZE \<le> strnlen (rlen v) (r_buf v) + rlen d + rlen d + rlen d div 4 + 1")
    case True
    then show ?thesis using f ok by (auto simp: r_add_cb_def Let_def)
  next
    case False
    then obtain l w w' where w: "bitmap_text (r_buf d) (rlen d) (strnlen (rlen v) (r_buf v)) v = Some (l, w)"
        "put_at l [0] w = Some w'" "v' = own_attr (l + 1) w'" "d' = d"
      using f by (auto simp: r_add_cb_def Let_def bind_eq_Some_conv)
    moreover have "rkind w' = rkind v \<and> reg_ok w' \<and> r_data w' = r_data v"
      using bitmap_text_ok [OF w(1) ok(1)] put_at_ok [OF w(2)] by (simp add: rkind_def)
    ultimately show ?thesis using ok by simp
  qed
  then show ?thesis by (simp add: alu_keeps_def)
qed

lemma alu_keeps_ok: "alu_keeps f \<Longrightarrow> f v d m = Some (v', d', e) \<Longrightarrow> reg_ok v \<Longrightarrow> reg_ok d \<Longrightarrow> r_data v = None \<Longrightarrow> r_data d = None
    \<Longrightarrow> reg_ok v' \<and> reg_ok d' \<and> r_data v' = None \<and> r_data d' = None \<and> rkind v' = rkind v"
  unfolding alu_keeps_def by blast

lemma alu_okD: "alu_ok k f \<Longrightarrow> f v d m = Some (v', d', e) \<Longrightarrow> reg_ok v \<Longrightarrow> reg_ok d \<Longrightarrow> r_data v = None \<Longrightarrow> r_data d = None
    \<Longrightarrow> reg_ok v' \<and> reg_ok d' \<and> r_data v' = None \<and> r_data d' = None \<and> kind_of (rkind v') = Some k"
  unfolding alu_ok_def by blast

lemma op_func_ok:
  assumes "op_func b k1 k2 = Some f"
  shows "alu_ok (bin_kind b k1 k2) f \<or> alu_keeps f \<and> bin_kind b k1 k2 = k1"
proof (cases "k1 \<in> {U, S} \<and> k2 \<in> {U, S}")
  case True
  then show ?thesis
  proof (cases "is_compare b")
    case True
    then have "f = rop_i b (is_signed k1) (is_signed k2)" "bin_kind b k1 k2 = U"
      using assms \<open>k1 \<in> {U, S} \<and> k2 \<in> {U, S}\<close> by (auto simp: op_func_def bin_kind_def)
    then show ?thesis using rop_i_ok by simp
  next
    case False
    then have f: "f = op_i b (is_signed k1) (is_signed k2) (result_type b k1 k2)"
      using assms \<open>k1 \<in> {U, S} \<and> k2 \<in> {U, S}\<close> by (auto simp: op_func_def)
    show ?thesis
      unfolding f using op_i_ok [OF kind_of_result [of k1 k2 b]] \<open>k1 \<in> {U, S} \<and> k2 \<in> {U, S}\<close> False by blast
  qed
next
  case False
  then show ?thesis
    using assms op_bb_ok rop_bb_ok rop_cc_ok op_bx_keeps r_add_cc_keeps r_add_ci_keeps r_add_cb_keeps
    by (cases k1; cases k2) (auto simp: op_func_def bin_kind_def is_compare_def split: if_splits)
qed


subsection \<open>Arithmetic of 32-bit integers\<close>

definition wvalue :: "bool \<Rightarrow> 32 word \<Rightarrow> int" where "wvalue s w = (if s then sint w else uint w)"

definition rvalue :: "register_s \<Rightarrow> int" where
  "rvalue r = wvalue (rkind r = MED_TYPE_SIGNED) (bytes_word (take 4 (r_buf r)))"

text \<open>The operations on integers, and the value that fits a type.\<close>

definition int_arith :: "binop \<Rightarrow> int \<Rightarrow> int \<Rightarrow> int" where
  "int_arith b x y =
     (case b of oADD \<Rightarrow> x + y | oSUB \<Rightarrow> x - y | oMUL \<Rightarrow> x * y | oDIV \<Rightarrow> x sdiv y | oMOD \<Rightarrow> x smod y
      | oAND \<Rightarrow> x AND y | oOR \<Rightarrow> x OR y | _ \<Rightarrow> x XOR y)"

definition int_compare :: "binop \<Rightarrow> int \<Rightarrow> int \<Rightarrow> bool" where
  "int_compare b x y =
     (case b of oLT \<Rightarrow> x < y | oGT \<Rightarrow> x > y | oLE \<Rightarrow> x \<le> y | oGE \<Rightarrow> x \<ge> y | oEQ \<Rightarrow> x = y | _ \<Rightarrow> x \<noteq> y)"

definition fit :: "kind \<Rightarrow> int \<Rightarrow> int" where
  "fit k x = (if k = S then signed_take_bit 31 x else take_bit 32 x)"

definition divides :: "binop \<Rightarrow> bool" where "divides b \<longleftrightarrow> b = oDIV \<or> b = oMOD"

definition traps :: "binop \<Rightarrow> bool \<Rightarrow> int \<Rightarrow> int \<Rightarrow> bool" where
  "traps b s x y \<longleftrightarrow> divides b \<and> (y = 0 \<or> s \<and> x = - (2 ^ 31) \<and> y = -1)"

lemma word_of_wvalue [simp]: "word_of_int (wvalue s w) = w" by (simp add: wvalue_def)

lemma sint_inj: "sint (x :: 32 word) = sint y \<longleftrightarrow> x = y"
  by (metis (full_types) wvalue_def word_of_wvalue)

lemma wvalue_0 [simp]: "wvalue s w = 0 \<longleftrightarrow> w = 0"
  using sint_inj [of w 0] by (auto simp: wvalue_def uint_0_iff)

lemma signed_min: "(sint (x :: 32 word) = - (2 ^ 31)) = (x = push_bit 31 1)"
proof -
  have "sint (push_bit 31 1 :: 32 word) = - (2 ^ 31)" by simp
  then show ?thesis by (metis sint_inj)
qed

lemma signed_minus_1: "(sint (y :: 32 word) = -1) = (y = -1)"
  by (metis sint_n1 sint_inj)

lemma traps_iff: "traps b s (wvalue s x) (wvalue s y) = (divides b \<and> (y = 0 \<or> s \<and> x = push_bit 31 1 \<and> y = -1))"
proof -
  have "s \<Longrightarrow> wvalue s x = sint x \<and> wvalue s y = sint y" by (simp add: wvalue_def)
  then show ?thesis unfolding traps_def wvalue_0 using signed_min [of x] signed_minus_1 [of y] by metis
qed

lemma sdiv_nonneg: "0 \<le> (a :: int) \<Longrightarrow> 0 \<le> b \<Longrightarrow> a sdiv b = a div b"
  by (cases "a = 0"; cases "b = 0") (auto simp: signed_divide_int_def)

lemma smod_nonneg: "0 \<le> (a :: int) \<Longrightarrow> 0 \<le> b \<Longrightarrow> a smod b = a mod b"
  by (cases "a = 0") (auto simp: signed_modulo_int_def)

lemma uint_sdiv: "uint (x :: 32 word) sdiv uint y = uint x div uint y" "uint (x :: 32 word) smod uint y = uint x mod uint y"
  by (simp_all only: sdiv_nonneg smod_nonneg uint_ge_0)

lemma c_arith_int:
  assumes "b \<in> {oADD, oSUB, oMUL, oDIV, oMOD, oAND, oOR, oXOR}"
  shows "c_arith b s s x y = (if traps b s (wvalue s x) (wvalue s y) then None
      else Some (word_of_int (int_arith b (wvalue s x) (wvalue s y)) :: 32 word))"
proof -
  have w: "word_of_int (wvalue s x) = x" "word_of_int (wvalue s y) = y" by simp_all
  have "x div y = word_of_int (uint x div uint y)" "x mod y = word_of_int (uint x mod uint y)"
    by (simp_all flip: uint_div_distrib uint_mod_distrib)
  note d = this [unfolded uint_sdiv [symmetric]]
  consider "b = oDIV" | "b = oMOD" | "\<not> divides b" by (auto simp: divides_def)
  then show ?thesis
  proof cases
    case 1
    then show ?thesis using d traps_iff [of b s x y]
      by (cases s) (simp_all add: divides_def c_arith_def c_div_def int_arith_def wvalue_def)
  next
    case 2
    then show ?thesis using d traps_iff [of b s x y]
      by (cases s) (simp_all add: divides_def c_arith_def c_mod_def int_arith_def wvalue_def)
  next
    case 3
    then have "c_arith b s s x y = Some (word_of_int (int_arith b (wvalue s x) (wvalue s y)))"
      using assms w by (auto simp: c_arith_def int_arith_def divides_def of_int_and_eq of_int_or_eq of_int_xor_eq)
    then show ?thesis using 3 by (simp add: traps_iff)
  qed
qed

lemma c_compare_int: "c_compare b s s x y = int_compare b (wvalue s x) (wvalue s (y :: 32 word))"
proof -
  have "(unat x < unat y) = (uint x < uint y)" "(unat y < unat x) = (uint y < uint x)" by (simp_all add: word_less_nat_alt [symmetric] word_less_def)
  moreover have "(x = y) = (wvalue s x = wvalue s y)" by (metis word_of_wvalue)
  ultimately show ?thesis
    by (cases b) (auto simp: c_compare_def c_less_def int_compare_def wvalue_def not_less)
qed

text \<open>Two integers of 4 bytes in the buffers.\<close>

definition int32 :: "kind \<Rightarrow> register_s \<Rightarrow> bool" where
  "int32 k r \<longleftrightarrow> reg_ok r \<and> r_data r = None \<and> rlen r = 4 \<and> kind_of (rkind r) = Some k \<and> k \<in> {U, S}"

lemma int32_signed: "int32 k r \<Longrightarrow> (rkind r = MED_TYPE_SIGNED) = is_signed k"
  by (auto simp: int32_def kind_of_def is_signed_def med_consts split: if_splits)

lemma int32_resize: "int32 k r \<Longrightarrow> n \<le> 8 \<Longrightarrow> r_resize r n m = Some (r, [])"
  by (auto simp: int32_def r_resize_def Let_def kind_of_def len_align_def med_consts split: if_splits)

lemma int32_both: "int32 k v \<Longrightarrow> int32 k d \<Longrightarrow> both_resized v d m = Some (1, v, d, [])"
  using int32_resize [of k v 4 m] int32_resize [of k d 4 m]
  by (simp add: both_resized_def units_def) (simp add: int32_def)

lemma reg_field: "reg_ok r \<Longrightarrow> get_field 0 4 (r_buf r) = Some (bytes_word (take 4 (r_buf r)))"
  by (simp add: get_field_def reg_ok_def MAX_REG_SIZE_def)

lemma put_word:
  "reg_ok v \<Longrightarrow> bytes_word (take 4 (r_buf (put_buf (word_bytes 4 z) v))) = (z :: 32 word)"
  by (simp add: put_buf_def put_bytes_def bytes_word_bytes)

lemma rlen_tmp [simp]: "rlen (put_buf bs (set_tmp 4 t v)) = 4"
  by (simp add: rlen_def alen_def)

lemma int32_op:
  assumes "int32 k v" "int32 k d"
  shows "do_bin_op b v d m = (case op_func b k k of None \<Rightarrow> Some (v, d, [''Illegal operation'']) | Some f \<Rightarrow> f v d m)"
  using assms by (auto simp: do_bin_op_def int32_def option.map_id split: option.split)

text \<open>C11. Arithmetic of 4-byte integers of one signedness in the registers: the result is the value of the operation on
  the integers, wrapped to the type of the result, with division and remainder truncated towards zero;
  comparisons give 1 or 0; a division by zero and the overflow of a signed division are the only operations that trap.\<close>

theorem do_bin_op_computes:
  assumes v: "int32 k v" and d: "int32 k d"
    and b: "b \<in> {oADD, oSUB, oMUL, oDIV, oMOD, oAND, oOR, oXOR, oLT, oGT, oLE, oGE, oEQ, oNE}"
  shows "if traps b (k = S) (rvalue v) (rvalue d) then do_bin_op b v d m = None
    else \<exists>v'. do_bin_op b v d m = Some (v', d, []) \<and> int32 (bin_kind b k k) v'
      \<and> rvalue v' = (if is_compare b then of_bool (int_compare b (rvalue v) (rvalue d))
                     else fit (bin_kind b k k) (int_arith b (rvalue v) (rvalue d)))"
proof -
  let ?x = "bytes_word (take 4 (r_buf v)) :: 32 word" and ?y = "bytes_word (take 4 (r_buf d)) :: 32 word"
  have k: "k \<in> {U, S}" "reg_ok v" "reg_ok d" "r_data v = None" using v d by (simp_all add: int32_def)
  have s: "is_signed k = (k = S)" by (simp add: is_signed_def)
  have val: "rvalue v = wvalue (k = S) ?x" "rvalue d = wvalue (k = S) ?y"
    using int32_signed [OF v] int32_signed [OF d] s by (simp_all add: rvalue_def)
  note both = int32_both [OF v d] and fx = reg_field [OF k(2)] and fy = reg_field [OF k(3)]
  show ?thesis
  proof (cases "is_compare b")
    case True
    let ?r = "int_compare b (rvalue v) (rvalue d)"
    let ?v = "put_buf (word_bytes 4 (bool_word ?r)) (set_tmp 4 MED_TYPE_UNSIGNED v)"
    have "do_bin_op b v d m = rop_i b (k = S) (k = S) v d m"
      using int32_op [OF v d] k(1) True s by (auto simp: op_func_def)
    also have "\<dots> = Some (?v, d, [])"
      by (simp add: both fx fy rop_i_def c_compare_int val)
    finally have op: "do_bin_op b v d m = Some (?v, d, [])" .
    have "\<not> traps b (k = S) (rvalue v) (rvalue d)" using True by (auto simp: traps_def divides_def is_compare_def)
    moreover have kind: "rkind ?v = MED_TYPE_UNSIGNED" by (simp add: med_consts)
    moreover have "bytes_word (take 4 (r_buf ?v)) = bool_word ?r"
      by (rule put_word) (simp add: k(2))
    then have "rvalue ?v = of_bool ?r" using kind by (simp add: rvalue_def wvalue_def bool_word_def med_consts)
    moreover have "int32 (bin_kind b k k) ?v"
      using True k kind put_buf_ok max_reg by (auto simp: int32_def bin_kind_def kind_of_def)
    ultimately show ?thesis using op True by auto
  next
    case False
    then have b': "b \<in> {oADD, oSUB, oMUL, oDIV, oMOD, oAND, oOR, oXOR}" using b by (auto simp: is_compare_def)
    let ?t = "result_type b k k"
    have op: "do_bin_op b v d m = op_i b (k = S) (k = S) ?t v d m"
      using int32_op [OF v d] k(1) False s by (auto simp: op_func_def)
    have fn: "op_i b (k = S) (k = S) ?t v d m = map_option (\<lambda>z. (put_buf (word_bytes 4 z) (set_tmp 4 ?t v), d, []))
        (c_arith b (k = S) (k = S) ?x ?y)"
      by (cases "c_arith b (k = S) (k = S) ?x ?y") (simp_all add: both fx fy op_i_def)
    show ?thesis
    proof (cases "traps b (k = S) (rvalue v) (rvalue d)")
      case True
      then show ?thesis using op fn c_arith_int [OF b'] val by simp
    next
      case nt: False
      let ?n = "int_arith b (rvalue v) (rvalue d)"
      let ?v = "put_buf (word_bytes 4 (word_of_int ?n :: 32 word)) (set_tmp 4 ?t v)"
      have "do_bin_op b v d m = Some (?v, d, [])" using op fn c_arith_int [OF b'] val nt by simp
      moreover have kind: "kind_of (rkind ?v) = Some (bin_kind b k k)" "bin_kind b k k \<in> {U, S}"
        using kind_of_result [OF k(1) k(1) False] k(1) by (auto simp: bin_kind_def)
      then have int: "int32 (bin_kind b k k) ?v" using k put_buf_ok max_reg by (simp add: int32_def)
      moreover have "bytes_word (take 4 (r_buf ?v)) = (word_of_int ?n :: 32 word)"
        by (rule put_word) (simp add: k(2))
      then have "rvalue ?v = fit (bin_kind b k k) ?n"
        using int32_signed [OF int] by (simp add: rvalue_def wvalue_def fit_def is_signed_def signed_of_int unsigned_of_int)
      ultimately show ?thesis using nt False by auto
    qed
  qed
qed

text \<open>Instances.\<close>

definition int_reg :: "nat \<Rightarrow> 64 word \<Rightarrow> byte \<Rightarrow> register_s" where
  "int_reg n w t = \<lparr>r_attr = Attr_tmp, r_tmp = \<lparr>a_offset = 0, a_length = of_nat n, a_type = t, a_name = []\<rparr>, r_object = None,
     r_class = None, r_flags = 0, r_data = None, r_buf = word_bytes 8 w @ replicate (MAX_REG_SIZE - 8) 0\<rparr>"

definition no_mem :: vmem where
  "no_mem = \<lparr>vm_var = (\<lambda>_. None), vm_block = (\<lambda>_. None), vm_brk = 1, vm_room = 0\<rparr>"

lemma take_word_bytes [simp]: "k \<le> n \<Longrightarrow> take k (word_bytes n w) = word_bytes k w"
  by (simp add: word_bytes_def take_map)

lemma int_reg_simps [simp]:
  "reg_ok (int_reg n w t)" "r_data (int_reg n w t) = None" "rkind (int_reg n w t) = t AND 0x0f"
  "n < 65536 \<Longrightarrow> rlen (int_reg n w t) = n" "take 4 (r_buf (int_reg n w t)) = word_bytes 4 w"
  "get_field 0 8 (r_buf (int_reg n w t)) = Some w"
  by (simp_all add: int_reg_def reg_ok_def MAX_REG_SIZE_def rkind_def akind_def attr_of_def rlen_def alen_def unat_of_nat
      get_field_def bytes_word_bytes take_bit_eq_mod)

lemma int_reg_32: "int32 S (int_reg 4 w MED_TYPE_SIGNED)" "int32 U (int_reg 4 w MED_TYPE_UNSIGNED)"
  by (simp_all add: int32_def)

lemma int_reg_value: "rvalue (int_reg 4 w MED_TYPE_SIGNED) = sint (ucast w :: 32 word)"
proof -
  have "word_bytes 4 w = word_bytes 4 (ucast w :: 32 word)"
    by (rule nth_equalityI) (auto simp: word_bytes_def bit_eq_iff bit_simps)
  then show ?thesis by (simp add: rvalue_def wvalue_def bytes_word_bytes med_consts)
qed


theorem do_bin_op_computes_witness:
  "\<exists>v'. do_bin_op oDIV (int_reg 4 (-7) MED_TYPE_SIGNED) (int_reg 4 2 MED_TYPE_SIGNED) no_mem
      = Some (v', int_reg 4 2 MED_TYPE_SIGNED, []) \<and> rvalue v' = -3"
proof -
  have "rvalue (int_reg 4 (-7) MED_TYPE_SIGNED) = -7" "rvalue (int_reg 4 2 MED_TYPE_SIGNED) = 2"
    by (simp_all add: int_reg_value) (code_simp)?
  moreover have "fit S (int_arith oDIV (-7) 2) = -3" "\<not> traps oDIV True (-7) 2" by code_simp+
  moreover have "bin_kind oDIV S S = S" by code_simp
  ultimately show ?thesis
    using do_bin_op_computes [OF int_reg_32(1) int_reg_32(1), of oDIV "-7" 2 no_mem] by (auto simp: is_compare_def)
qed

subsection \<open>Bits of bitmaps\<close>

definition bit_at :: "register_s \<Rightarrow> nat \<Rightarrow> bool" where
  "bit_at r j = bit (r_buf r ! (j div 8)) (j mod 8)"

definition change_bit :: "bool \<Rightarrow> nat \<Rightarrow> bytes \<Rightarrow> bytes" where
  "change_bit add i bs =
     bs[i div 8 := (if add then bs ! (i div 8) OR push_bit (i mod 8) 1 else bs ! (i div 8) AND NOT (push_bit (i mod 8) 1))]"

lemma bit_change:
  assumes "j < 8 * length bs" "i < 8 * length bs"
  shows "bit (change_bit add i bs ! (j div 8)) (j mod 8) = (if j = i then add else bit (bs ! (j div 8)) (j mod 8))"
proof -
  have l: "i div 8 < length bs" "j mod 8 < 8" "i mod 8 < 8" using assms by auto
  show ?thesis
  proof (cases "j div 8 = i div 8")
    case True
    have eq: "j = i \<longleftrightarrow> j mod 8 = i mod 8" using True by (metis div_mult_mod_eq)
    show ?thesis
      using l True eq by (auto simp: change_bit_def bit_or_iff bit_and_iff bit_not_iff bit_push_bit_iff bit_1_iff simp del: push_bit_of_1)
  next
    case False
    then show ?thesis using l by (auto simp: change_bit_def)
  qed
qed

lemma op_bx_int:
  assumes "reg_ok v" "int32 k d"
  shows "op_bx add (is_signed k) v d m =
     (if int (8 * rlen v) < rvalue d then Some (v, d, [''Cannot set bit of bitfield''])
      else if rvalue d < 0 \<or> MAX_REG_SIZE \<le> nat (rvalue d) div 8 then None
      else Some (v\<lparr>r_buf := change_bit add (nat (rvalue d)) (r_buf v)\<rparr>, d, []))"
proof -
  let ?y = "bytes_word (take 4 (r_buf d)) :: 32 word"
  have "rvalue d = (if is_signed k then sint ?y else int (unat ?y))"
    using int32_signed [OF assms(2)] by (simp add: rvalue_def wvalue_def)
  moreover have "get_field 0 4 (r_buf d) = Some ?y" by (rule reg_field) (use assms(2) in \<open>simp add: int32_def\<close>)
  ultimately show ?thesis
    using assms(1) by (simp only: op_bx_def Option.bind.bind_lunit Let_def change_bit_def reg_ok_def)
qed

text \<open>C36. A number added to a bitmap sets, and one subtracted clears, the bit of this number and no other bit of the register;
  numbers above the number of bits are refused. The bit just behind the bitmap is not refused: it is
  changed, too; and a negative number reaches in front of the register.\<close>

theorem bitmap_bit_bounds:
  assumes v: "reg_ok v" "r_data v = None" "kind_of (rkind v) = Some B" "rlen v < MAX_REG_SIZE" and d: "int32 k d"
    and b: "b = oADD \<or> b = oSUB"
  shows "if rvalue d < 0 then do_bin_op b v d m = None
    else if 8 * int (rlen v) < rvalue d then do_bin_op b v d m = Some (v, d, [''Cannot set bit of bitfield''])
    else \<exists>v'. do_bin_op b v d m = Some (v', d, []) \<and> attr_of v' = attr_of v
      \<and> (\<forall>j < 8 * MAX_REG_SIZE. bit_at v' j = (if int j = rvalue d then b = oADD else bit_at v j))"
proof -
  have k: "k \<in> {U, S}" "r_data d = None" "kind_of (rkind d) = Some k" using d by (simp_all add: int32_def)
  have "op_func b B k = Some (op_bx (b = oADD) (is_signed k))" using k(1) b by (auto simp: op_func_def)
  then have op: "do_bin_op b v d m = op_bx (b = oADD) (is_signed k) v d m"
    using v k by (simp add: do_bin_op_def option.map_id)
  note bx = op_bx_int [OF v(1) d, of "b = oADD" m]
  consider "rvalue d < 0" | "8 * int (rlen v) < rvalue d" "0 \<le> rvalue d" | "0 \<le> rvalue d" "rvalue d \<le> 8 * int (rlen v)" by linarith
  then show ?thesis
  proof cases
    case 1
    then show ?thesis using op bx by simp
  next
    case 2
    then show ?thesis using op bx by simp
  next
    case 3
    let ?i = "nat (rvalue d)"
    have i: "?i div 8 < MAX_REG_SIZE" "?i < 8 * length (r_buf v)" using 3 v(1,4) by (auto simp: reg_ok_def)
    let ?v = "v\<lparr>r_buf := change_bit (b = oADD) ?i (r_buf v)\<rparr>"
    have "do_bin_op b v d m = Some (?v, d, [])" using op bx 3 i(1) by simp
    moreover have "bit_at ?v j = (if int j = rvalue d then b = oADD else bit_at v j)" if "j < 8 * MAX_REG_SIZE" for j
    proof -
      have "j < 8 * length (r_buf v)" using that v(1) by (simp add: reg_ok_def)
      note bit_change [OF this i(2), of "b = oADD"]
      moreover have "(j = ?i) = (int j = rvalue d)" using 3(1) by auto
      ultimately show ?thesis by (simp add: bit_at_def)
    qed
    ultimately show ?thesis using 3 by auto
  qed
qed

theorem bitmap_bit_bounds_witness:
  "\<exists>v'. do_bin_op oADD (int_reg 1 0 MED_TYPE_BITMAP) (int_reg 4 8 MED_TYPE_UNSIGNED) no_mem
      = Some (v', int_reg 4 8 MED_TYPE_UNSIGNED, []) \<and> rlen v' = 1 \<and> bit_at v' 8"
proof -
  have v: "rlen (int_reg 1 0 MED_TYPE_BITMAP) = 1" "kind_of (rkind (int_reg 1 0 MED_TYPE_BITMAP)) = Some B"
    "rlen (int_reg 1 0 MED_TYPE_BITMAP) < MAX_REG_SIZE" by (simp_all add: MAX_REG_SIZE_def)
  have "bytes_word (word_bytes 4 (8 :: 64 word)) = (8 :: 32 word)" by code_simp
  then have d: "rvalue (int_reg 4 8 MED_TYPE_UNSIGNED) = 8" by (simp add: rvalue_def wvalue_def med_consts)
  have c: "\<not> (8 :: int) < 0" "\<not> 8 * int 1 < 8" "(8 :: nat) < 8 * MAX_REG_SIZE" by (simp_all add: MAX_REG_SIZE_def)
  show ?thesis
  proof -
    obtain v' where v': "do_bin_op oADD (int_reg 1 0 MED_TYPE_BITMAP) (int_reg 4 8 MED_TYPE_UNSIGNED) no_mem
        = Some (v', int_reg 4 8 MED_TYPE_UNSIGNED, [])" "attr_of v' = attr_of (int_reg 1 0 MED_TYPE_BITMAP)"
        "\<forall>j < 8 * MAX_REG_SIZE. bit_at v' j = (if int j = 8 then True else bit_at (int_reg 1 0 MED_TYPE_BITMAP) j)"
      using bitmap_bit_bounds [OF int_reg_simps(1,2) v(2,3) int_reg_32(2), of oADD 8 no_mem] c
      unfolding d v(1) by auto
    have "rlen v' = 1" using v'(2) v(1) by (simp only: rlen_def)
    then show ?thesis using v'(1,3) c(3) by auto
  qed
qed

subsection \<open>Integers of different size\<close>

text \<open>C37. An integer of 4 bytes compared with one of 8: nothing fills the upper half of the first register, as
  \<open>r_resize\<close> takes a 4-byte integer in a buffer for one of 8 bytes, so the comparison is that of the 8 bytes that happen
  to be in the buffers. Equal numbers compare as different when older bytes are left there.\<close>

theorem wide_comparison_reads_stale_bytes:
  assumes v: "int32 k v" and d: "reg_ok d" "r_data d = None" "rlen d = 8" "kind_of (rkind d) = Some k'" "k' \<in> {U, S}"
    and x: "get_field 0 8 (r_buf v) = Some x" and y: "get_field 0 8 (r_buf d) = Some (y :: 64 word)"
    and b: "b = oEQ \<or> b = oNE"
  shows "\<exists>v'. do_bin_op b v d m = Some (v', d, []) \<and> rvalue v' = of_bool ((x = y) = (b = oEQ))"
proof -
  have k: "k \<in> {U, S}" "reg_ok v" "r_data v = None" "kind_of (rkind v) = Some k" "rlen v = 4" using v by (simp_all add: int32_def)
  have "r_resize d 8 m = Some (d, [])"
    using d by (auto simp: r_resize_def Let_def kind_of_def len_align_def med_consts split: if_splits)
  then have both: "both_resized v d m = Some (2, v, d, [])"
    using int32_resize [OF v, of 8 m] k(5) d(3) by (simp add: both_resized_def units_def)
  have "is_compare b" "op_func b k k' = Some (rop_i b (is_signed k) (is_signed k'))"
    using b k(1) d(5) by (auto simp: op_func_def is_compare_def)
  then have "do_bin_op b v d m = rop_i b (is_signed k) (is_signed k') v d m"
    using k d by (simp add: do_bin_op_def option.map_id)
  also have "\<dots> = Some (put_buf (word_bytes 4 (bool_word ((x = y) = (b = oEQ)))) (set_tmp 4 MED_TYPE_UNSIGNED v), d, [])"
    using b by (auto simp: rop_i_def both x y c_compare_def)
  finally have op: "do_bin_op b v d m = Some (put_buf (word_bytes 4 (bool_word ((x = y) = (b = oEQ)))) (set_tmp 4 MED_TYPE_UNSIGNED v), d, [])" .
  let ?v = "put_buf (word_bytes 4 (bool_word ((x = y) = (b = oEQ)))) (set_tmp 4 MED_TYPE_UNSIGNED v)"
  have "bytes_word (take 4 (r_buf ?v)) = bool_word ((x = y) = (b = oEQ))"
    by (rule put_word) (simp add: k(2))
  then have "rvalue ?v = of_bool ((x = y) = (b = oEQ))" by (simp add: rvalue_def wvalue_def bool_word_def med_consts)
  then show ?thesis using op by blast
qed

theorem wide_comparison_reads_stale_bytes_witness:
  "\<exists>v'. do_bin_op oEQ (int_reg 4 0x900000001 MED_TYPE_UNSIGNED) (int_reg 8 1 MED_TYPE_UNSIGNED) no_mem
      = Some (v', int_reg 8 1 MED_TYPE_UNSIGNED, []) \<and> rvalue v' = 0"
proof -
  have d: "rlen (int_reg 8 1 MED_TYPE_UNSIGNED) = 8" "kind_of (rkind (int_reg 8 1 MED_TYPE_UNSIGNED)) = Some U" by simp_all
  have "(0x900000001 = (1 :: 64 word)) = False" by simp
  then show ?thesis
    using wide_comparison_reads_stale_bytes [OF int_reg_32(2) int_reg_simps(1,2) d _
        int_reg_simps(6) [of 4 "0x900000001" MED_TYPE_UNSIGNED] int_reg_simps(6),
        where b = oEQ and m = no_mem] by auto
qed

end
