(* ===== verification/Rbac.thy ===== *)
theory Rbac
  imports Space_Inv "HOL-Library.Monad_Syntax"
begin

text \<open>
  Role based access control (\<open>rbac/rbac.h\<close>, \<open>rbac/users.c\<close>, \<open>rbac/roles.c\<close>). Users, roles and the cells that link them
  (an assignment of a user to a role, an edge of the hierarchy of roles) are cells of stores, found
  by their addresses; a list that is linked through such cells is the list of their addresses. A permission is
  the access type and the space of one entry of the blocks of eight. \<open>rb_room\<close> is the number of allocations
  that still succeed. \<open>rb_lock\<close> says that the write lock of the roles is held: who asks for the lock then never returns.

  \<open>None\<close> is a dangling or null pointer, a name read behind the end of its field, a lock that is never released or a
  recursion that does not end. \<open>space_get_vs\<close> may leave by \<open>fatal()\<close>.
\<close>

definition USER_MAX_ROLES :: nat where "USER_MAX_ROLES = 32"

record user_s =
  u_ua :: "nat list"
  u_roles :: "nat option list"
  u_nr :: nat
  u_uid :: "32 word"
  u_cinfo :: "nat option"
  u_name :: string

record role_s =
  r_flag :: bool
  r_ua :: "nat list"
  r_perm :: "(nat \<times> nat) list list"
  r_sup :: "nat list"
  r_sub :: "nat list"
  r_vs_sub :: vs
  r_vs :: "nat \<Rightarrow> vs"
  r_cinfo_sup :: "nat option"
  r_cinfo_sub :: "nat option"
  r_name :: string

record user_assignment_s =
  a_user :: nat
  a_role :: nat

record hierarchy_s =
  h_sup :: nat
  h_sub :: nat

record rbac =
  rb_users :: "nat list"
  rb_roles :: "nat list"
  rb_user :: "nat \<Rightarrow> user_s option"
  rb_role :: "nat \<Rightarrow> role_s option"
  rb_ua :: "nat \<Rightarrow> user_assignment_s option"
  rb_hier :: "nat \<Rightarrow> hierarchy_s option"
  rb_brk :: nat
  rb_room :: nat
  rb_lock :: bool
  rb_reinit :: bool
  rb_spaces :: space_state

definition upd_user :: "nat \<Rightarrow> (user_s \<Rightarrow> user_s) \<Rightarrow> rbac \<Rightarrow> rbac" where
  "upd_user p f s = s\<lparr>rb_user := (rb_user s)(p := map_option f (rb_user s p))\<rparr>"

definition upd_role :: "nat \<Rightarrow> (role_s \<Rightarrow> role_s) \<Rightarrow> rbac \<Rightarrow> rbac" where
  "upd_role p f s = s\<lparr>rb_role := (rb_role s)(p := map_option f (rb_role s p))\<rparr>"

text \<open>A successful \<open>malloc\<close> and a \<open>free\<close>.\<close>

definition take_room :: "rbac \<Rightarrow> rbac" where "take_room s = s\<lparr>rb_brk := rb_brk s + 1, rb_room := rb_room s - 1\<rparr>"
definition give_room :: "nat \<Rightarrow> rbac \<Rightarrow> rbac" where "give_room n s = s\<lparr>rb_room := rb_room s + n\<rparr>"

definition wrlock :: "rbac \<Rightarrow> rbac option" where "wrlock s = (if rb_lock s then None else Some (s\<lparr>rb_lock := True\<rparr>))"
definition unlock :: "rbac \<Rightarrow> rbac" where "unlock s = s\<lparr>rb_lock := False\<rparr>"

subsection \<open>Lists sorted by name\<close>

text \<open>\<open>strcmp\<close> with a name field of \<open>n\<close> characters that \<open>strncpy\<close> has filled: a field without NUL is read
  behind its end when all of its characters agree.\<close>

definition field_cmp :: "nat \<Rightarrow> string \<Rightarrow> string \<Rightarrow> int option" where
  "field_cmp n f s = (if length f = n \<and> take n s = f then None else Some (strcmp f s))"

text \<open>The loop that looks for the place of a name: the last comparison, and the list before and from the place on.\<close>

fun find_place :: "(nat \<Rightarrow> int option) \<Rightarrow> nat list \<Rightarrow> (int \<times> nat list \<times> nat list) option" where
  "find_place c [] = Some (1, [], [])"
| "find_place c (p # ps) = do {
     x \<leftarrow> c p;
     if 0 \<le> x then Some (x, [], p # ps)
     else map_option (\<lambda>(y, xs, ys). (y, p # xs, ys)) (find_place c ps) }"

fun find_cell :: "(nat \<Rightarrow> bool option) \<Rightarrow> nat list \<Rightarrow> nat option option" where
  "find_cell c [] = Some None"
| "find_cell c (p # ps) = do { x \<leftarrow> c p; if x then Some (Some p) else find_cell c ps }"

subsection \<open>Users\<close>

definition user_cmp :: "rbac \<Rightarrow> string \<Rightarrow> nat \<Rightarrow> int option" where
  "user_cmp s name p = Option.bind (rb_user s p) (\<lambda>u. field_cmp 32 (u_name u) name)"

definition new_user :: "string \<Rightarrow> 32 word \<Rightarrow> user_s" where
  "new_user name uid = \<lparr>u_ua = [], u_roles = replicate USER_MAX_ROLES None, u_nr = 0, u_uid = uid, u_cinfo = None,
     u_name = take 32 name\<rparr>"

definition rbac_user_add :: "string \<Rightarrow> 32 word \<Rightarrow> rbac \<Rightarrow> (nat option \<times> rbac) option" where
  "rbac_user_add name uid s = do {
     (x, xs, ys) \<leftarrow> find_place (user_cmp s name) (rb_users s);
     if x = 0 \<or> rb_room s = 0 then Some (None, s)
     else
       (let n = rb_brk s in
        Some (Some n, (take_room s)\<lparr>rb_user := (rb_user s)(n \<mapsto> new_user name uid), rb_users := xs @ n # ys\<rparr>)) }"

definition rbac_user_find :: "string \<Rightarrow> rbac \<Rightarrow> nat option option" where
  "rbac_user_find name s = find_cell (\<lambda>p. map_option (\<lambda>x. x = 0) (user_cmp s name p)) (rb_users s)"

definition rbac_user_find_by_uid :: "32 word \<Rightarrow> rbac \<Rightarrow> nat option option" where
  "rbac_user_find_by_uid uid s = find_cell (\<lambda>p. map_option (\<lambda>u. u_uid u = uid) (rb_user s p)) (rb_users s)"

subsection \<open>Roles\<close>

definition role_cmp :: "rbac \<Rightarrow> string \<Rightarrow> nat \<Rightarrow> int option" where
  "role_cmp s name p = Option.bind (rb_role s p) (\<lambda>r. field_cmp 64 (r_name r) name)"

definition new_role :: "string \<Rightarrow> role_s" where
  "new_role name = \<lparr>r_flag = False, r_ua = [], r_perm = [], r_sup = [], r_sub = [], r_vs_sub = vs_clear, r_vs = (\<lambda>_. vs_clear),
     r_cinfo_sup = None, r_cinfo_sub = None, r_name = take 64 name\<rparr>"

definition rbac_role_add :: "string \<Rightarrow> rbac \<Rightarrow> (nat option \<times> rbac) option" where
  "rbac_role_add name s = do {
     s \<leftarrow> wrlock s;
     (x, xs, ys) \<leftarrow> find_place (role_cmp s name) (rb_roles s);
     if x = 0 \<or> rb_room s = 0 then Some (None, unlock s)
     else
       (let n = rb_brk s in
        Some (Some n, unlock ((take_room s)\<lparr>rb_role := (rb_role s)(n \<mapsto> new_role name), rb_roles := xs @ n # ys\<rparr>))) }"

definition rbac_role_find :: "string \<Rightarrow> rbac \<Rightarrow> nat option option" where
  "rbac_role_find name s =
     (if rb_lock s then None
      else find_cell (\<lambda>p. map_option (\<lambda>x. x = 0) (role_cmp s name p)) (rb_roles s))"

subsection \<open>Users and roles\<close>

fun first_slot :: "'a \<Rightarrow> nat \<Rightarrow> 'a list \<Rightarrow> nat option" where
  "first_slot x 0 l = None"
| "first_slot x (Suc n) [] = None"
| "first_slot x (Suc n) (y # l) = (if y = x then Some 0 else map_option Suc (first_slot x n l))"

text \<open>When all slots are taken the cell is neither used nor freed.\<close>

definition rbac_add_ua :: "nat \<Rightarrow> nat \<Rightarrow> rbac \<Rightarrow> (int \<times> rbac) option" where
  "rbac_add_ua user role s =
     (if rb_room s = 0 then Some (-1, s)
      else do {
        u \<leftarrow> rb_user s user;
        let n = rb_brk s;
        let s = take_room s;
        if first_slot (Some role) (u_nr u) (u_roles u) \<noteq> None then Some (-1, give_room 1 s)
        else
          (case (if USER_MAX_ROLES \<le> u_nr u then map_option (\<lambda>i. (i, u_nr u)) (first_slot None USER_MAX_ROLES (u_roles u))
                 else Some (u_nr u, u_nr u + 1)) of
             None \<Rightarrow> Some (-1, s)
           | Some (i, nr) \<Rightarrow> do {
               _ \<leftarrow> rb_role s role;
               Some (0, upd_role role (\<lambda>r. r\<lparr>r_ua := n # r_ua r\<rparr>)
                 (upd_user user (\<lambda>u. u\<lparr>u_roles := (u_roles u)[i := Some role], u_nr := nr, u_ua := n # u_ua u\<rparr>)
                   (s\<lparr>rb_ua := (rb_ua s)(n \<mapsto> \<lparr>a_user = user, a_role = role\<rparr>)\<rparr>))) }) })"

text \<open>Unlinking runs to the cell without looking for the end of the list.\<close>

definition unlink :: "nat \<Rightarrow> nat list \<Rightarrow> nat list option" where
  "unlink a l = (if a \<in> set l then Some (remove1 a l) else None)"

definition rbac_del_ua :: "nat \<Rightarrow> nat \<Rightarrow> rbac \<Rightarrow> (int \<times> rbac) option" where
  "rbac_del_ua user role s = do {
     u \<leftarrow> rb_user s user;
     a \<leftarrow> find_cell (\<lambda>p. map_option (\<lambda>a. a_role a = role) (rb_ua s p)) (u_ua u);
     let s = (case first_slot (Some role) (u_nr u) (u_roles u) of
                None \<Rightarrow> s
              | Some i \<Rightarrow> upd_user user (\<lambda>u. u\<lparr>u_roles := (u_roles u)[i := None]\<rparr>) s);
     case a of
       None \<Rightarrow> Some (-1, s)
     | Some a \<Rightarrow> do {
         r \<leftarrow> rb_role s role;
         la \<leftarrow> unlink a (r_ua r);
         lr \<leftarrow> unlink a (u_ua u);
         Some (0, give_room 1 (upd_role role (\<lambda>r. r\<lparr>r_ua := la\<rparr>) (upd_user user (\<lambda>u. u\<lparr>u_ua := lr\<rparr>)
           (s\<lparr>rb_ua := (rb_ua s)(a := None)\<rparr>)))) } }"

subsection \<open>Rights along the hierarchy\<close>

definition push_vs_sub :: "nat \<Rightarrow> nat \<Rightarrow> rbac \<Rightarrow> rbac option" where
  "push_vs_sub r b s = do {
     x \<leftarrow> rb_role s r;
     _ \<leftarrow> rb_role s b;
     Some (upd_role b (\<lambda>y. y\<lparr>r_vs_sub := vs_add (r_vs_sub x) (r_vs_sub y)\<rparr>) s) }"

partial_function (option) inherit_sub_loop :: "nat \<Rightarrow> nat list \<Rightarrow> rbac \<Rightarrow> rbac option" where
  "inherit_sub_loop r ps s =
     (case ps of
        [] \<Rightarrow> Some s
      | p # ps \<Rightarrow>
          Option.bind (rb_hier s p) (\<lambda>h.
          Option.bind (push_vs_sub r (h_sub h) s) (\<lambda>s.
          Option.bind (rb_role s (h_sub h)) (\<lambda>x.
          Option.bind (inherit_sub_loop (h_sub h) (r_sub x) s) (\<lambda>s. inherit_sub_loop r ps s)))))"

definition rbac_inherit_sub :: "nat \<Rightarrow> rbac \<Rightarrow> rbac option" where
  "rbac_inherit_sub r s = Option.bind (rb_role s r) (\<lambda>x. inherit_sub_loop r (r_sub x) s)"

definition push_vs :: "nat \<Rightarrow> nat \<Rightarrow> rbac \<Rightarrow> rbac option" where
  "push_vs r p s = do {
     x \<leftarrow> rb_role s r;
     _ \<leftarrow> rb_role s p;
     Some (upd_role p (\<lambda>y. y\<lparr>r_vs := \<lambda>a. if a < NR_ACCESS_TYPES then vs_add (r_vs x a) (r_vs y a) else r_vs y a\<rparr>) s) }"

partial_function (option) inherit_sup_loop :: "nat \<Rightarrow> nat list \<Rightarrow> rbac \<Rightarrow> rbac option" where
  "inherit_sup_loop r ps s =
     (case ps of
        [] \<Rightarrow> Some s
      | p # ps \<Rightarrow>
          Option.bind (rb_hier s p) (\<lambda>h.
          Option.bind (push_vs r (h_sup h) s) (\<lambda>s.
          Option.bind (rb_role s (h_sup h)) (\<lambda>x.
          Option.bind (inherit_sup_loop (h_sup h) (r_sup x) s) (\<lambda>s. inherit_sup_loop r ps s)))))"

definition rbac_inherit_sup :: "nat \<Rightarrow> rbac \<Rightarrow> rbac option" where
  "rbac_inherit_sup r s = Option.bind (rb_role s r) (\<lambda>x. inherit_sup_loop r (r_sup x) s)"

text \<open>\<open>generic_set_handler\<close> on a role as an object of the classes \<open>rbac_ROLE\<close> and \<open>rbac_role\<close>, whose attributes are the sets of the role:
  the sets of the node that the role has in the tree are added. The set of \<open>AT_MEMBER\<close> is \<open>vs[AT_MEMBER]\<close> in the first class and \<open>vs_sub\<close> in the
  second. There is no attribute for event masks.\<close>

definition set_ROLE :: "rbac \<Rightarrow> role_s \<Rightarrow> role_s" where
  "set_ROLE s r =
     (case r_cinfo_sup r of
        None \<Rightarrow> r
      | Some t \<Rightarrow> r\<lparr>r_vs := \<lambda>a. if a < NR_ACCESS_TYPES then vs_add (t_vs (ts_node (ss_tree (rb_spaces s)) t) a) (r_vs r a) else r_vs r a\<rparr>)"

definition set_role :: "rbac \<Rightarrow> role_s \<Rightarrow> role_s" where
  "set_role s r =
     (case r_cinfo_sub r of
        None \<Rightarrow> r
      | Some t \<Rightarrow>
          (let v = t_vs (ts_node (ss_tree (rb_spaces s)) t) in
           r\<lparr>r_vs_sub := vs_add (v AT_MEMBER) (r_vs_sub r),
             r_vs := \<lambda>a. if a < NR_ACCESS_TYPES \<and> a \<noteq> AT_MEMBER then vs_add (v a) (r_vs r a) else r_vs r a\<rparr>))"

definition clear_role :: "rbac \<Rightarrow> role_s \<Rightarrow> role_s" where
  "clear_role s r = set_role s (set_ROLE s
     (r\<lparr>r_vs := \<lambda>a. if a < NR_ACCESS_TYPES then vs_clear else r_vs r a, r_vs_sub := vs_clear\<rparr>))"

text \<open>A space's identifiers are added to the right of a role. A null set is an error that is passed over; the pointer that stands for all objects
  is not one of a set.\<close>

definition add_right :: "nat \<Rightarrow> nat \<Rightarrow> nat \<Rightarrow> rbac \<Rightarrow> (int \<times> rbac) outcome option" where
  "add_right role which t s =
     (case space_get_vs (Sp t) (rb_spaces s) of
        Fatal m \<Rightarrow> Some (Fatal m)
      | Ret (sp, v) \<Rightarrow>
          (let s = s\<lparr>rb_spaces := sp\<rparr> in
           case v of
             NoVs \<Rightarrow> Some (Ret (-1, s))
           | AllObj \<Rightarrow> None
           | Vs v \<Rightarrow> do {
               _ \<leftarrow> rb_role s role;
               Some (Ret (0, upd_role role (\<lambda>r. r\<lparr>r_vs := (r_vs r)(which := vs_add v (r_vs r which))\<rparr>) s)) }))"

fun add_rights :: "nat \<Rightarrow> (nat \<times> nat) list \<Rightarrow> rbac \<Rightarrow> rbac outcome option" where
  "add_rights role [] s = Some (Ret s)"
| "add_rights role ((which, t) # es) s = bind_res (add_right role which t s) (\<lambda>(_, s). add_rights role es s)"

fun add_all_rights :: "nat list \<Rightarrow> rbac \<Rightarrow> rbac outcome option" where
  "add_all_rights [] s = Some (Ret s)"
| "add_all_rights (r # rs) s =
     (case rb_role s r of
        None \<Rightarrow> None
      | Some x \<Rightarrow> bind_res (add_rights r (concat (r_perm x)) s) (add_all_rights rs))"

fun each_role :: "(nat \<Rightarrow> rbac \<Rightarrow> rbac option) \<Rightarrow> nat list \<Rightarrow> rbac \<Rightarrow> rbac option" where
  "each_role f [] s = Some s"
| "each_role f (r # rs) s = Option.bind (f r s) (each_role f rs)"

definition rbac_roles_reinit :: "rbac \<Rightarrow> rbac outcome option" where
  "rbac_roles_reinit s = do {
     s \<leftarrow> wrlock s;
     s \<leftarrow> each_role (\<lambda>r s. map_option (\<lambda>_. upd_role r (clear_role s) s) (rb_role s r)) (rb_roles s) s;
     bind_res (add_all_rights (rb_roles s) s) (\<lambda>s. do {
       s \<leftarrow> each_role rbac_inherit_sup (rb_roles s) s;
       s \<leftarrow> each_role rbac_inherit_sub (rb_roles s) s;
       Some (Ret (unlock (s\<lparr>rb_reinit := False\<rparr>))) }) }"

text \<open>The macro \<open>VALIDATE_ROLES\<close>. It releases the lock again after \<open>rbac_roles_reinit\<close> has released it, which POSIX
  leaves undefined; here the second release does nothing.\<close>

definition validate_roles :: "rbac \<Rightarrow> rbac outcome option" where
  "validate_roles s = (if rb_lock s then None else if rb_reinit s then rbac_roles_reinit s else Some (Ret s))"

subsection \<open>The hierarchy\<close>

partial_function (option) subrole_loop :: "nat list \<Rightarrow> nat \<Rightarrow> rbac \<Rightarrow> bool option" where
  "subrole_loop hs test s =
     (case hs of
        [] \<Rightarrow> Some False
      | h # hs \<Rightarrow>
          Option.bind (rb_hier s h) (\<lambda>h.
          if h_sub h = test then Some True
          else
            Option.bind (rb_role s (h_sub h)) (\<lambda>x.
            Option.bind (subrole_loop (r_sub x) test s) (\<lambda>b. if b then Some True else subrole_loop hs test s))))"

definition is_subrole :: "nat \<Rightarrow> nat \<Rightarrow> rbac \<Rightarrow> bool option" where
  "is_subrole role test s = Option.bind (rb_role s role) (\<lambda>x. subrole_loop (r_sub x) test s)"

definition rbac_set_hierarchy :: "nat \<Rightarrow> nat \<Rightarrow> rbac \<Rightarrow> (int \<times> rbac) option" where
  "rbac_set_hierarchy sup_role sub_role s = do {
     b \<leftarrow> is_subrole sub_role sup_role s;
     if b \<or> rb_room s = 0 then Some (-1, s)
     else do {
       let n = rb_brk s;
       _ \<leftarrow> rb_role s sup_role;
       let s = (take_room s)\<lparr>rb_hier := (rb_hier s)(n \<mapsto> \<lparr>h_sup = sup_role, h_sub = sub_role\<rparr>)\<rparr>;
       let s = upd_role sub_role (\<lambda>r. r\<lparr>r_sup := n # r_sup r\<rparr>) s;
       let s = upd_role sup_role (\<lambda>r. r\<lparr>r_sub := n # r_sub r\<rparr>) s;
       s \<leftarrow> rbac_inherit_sup sub_role s;
       s \<leftarrow> rbac_inherit_sub sup_role s;
       Some (0, s) } }"

definition rbac_del_hierarchy :: "nat \<Rightarrow> nat \<Rightarrow> rbac \<Rightarrow> (int \<times> rbac) option" where
  "rbac_del_hierarchy sup_role sub_role s = do {
     x \<leftarrow> rb_role s sup_role;
     h \<leftarrow> find_cell (\<lambda>p. map_option (\<lambda>h. h_sub h = sub_role) (rb_hier s p)) (r_sub x);
     case h of
       None \<Rightarrow> Some (-1, s)
     | Some h \<Rightarrow> do {
         y \<leftarrow> rb_role s sub_role;
         lb \<leftarrow> unlink h (r_sub x);
         lp \<leftarrow> unlink h (r_sup y);
         Some (0, give_room 1 (upd_role sub_role (\<lambda>r. r\<lparr>r_sup := lp\<rparr>) (upd_role sup_role (\<lambda>r. r\<lparr>r_sub := lb\<rparr>)
           (s\<lparr>rb_hier := (rb_hier s)(h := None), rb_reinit := True\<rparr>)))) } }"

subsection \<open>Permissions\<close>

text \<open>The second result says that a block was allocated.\<close>

fun add_entry :: "bool \<Rightarrow> nat \<times> nat \<Rightarrow> (nat \<times> nat) list list \<Rightarrow> ((nat \<times> nat) list list \<times> bool) option" where
  "add_entry room e [] = (if room then Some ([[e]], True) else None)"
| "add_entry room e (b # bs) =
     (if length b < 8 then Some ((b @ [e]) # bs, False) else map_option (\<lambda>(bs, x). (b # bs, x)) (add_entry room e bs))"

fun del_entry :: "nat \<times> nat \<Rightarrow> (nat \<times> nat) list list \<Rightarrow> ((nat \<times> nat) list list \<times> nat) option" where
  "del_entry e [] = None"
| "del_entry e (b # bs) =
     (if e \<in> set b then
        (let b' = remove1 e b in Some (if b' = [] then (bs, 1) else (b' # bs, 0)))
      else map_option (\<lambda>(bs, x). (b # bs, x)) (del_entry e bs))"

definition rbac_role_add_perm :: "nat \<Rightarrow> int \<Rightarrow> nat \<Rightarrow> rbac \<Rightarrow> (int \<times> rbac) outcome option" where
  "rbac_role_add_perm role which t s =
     (if which < 0 \<or> int NR_ACCESS_TYPES \<le> which then Some (Ret (-1, s))
      else do {
        r \<leftarrow> rb_role s role;
        case add_entry (rb_room s \<noteq> 0) (nat which, t) (r_perm r) of
          None \<Rightarrow> Some (Ret (-1, s))
        | Some (bs, new) \<Rightarrow>
            bind_res (add_right role (nat which) t (upd_role role (\<lambda>r. r\<lparr>r_perm := bs\<rparr>) (if new then take_room s else s)))
              (\<lambda>(x, s). if x < 0 then Some (Ret (-1, s)) else map_option (\<lambda>s. Ret (0, s)) (rbac_inherit_sup role s)) })"

definition rbac_role_del_perm :: "nat \<Rightarrow> int \<Rightarrow> nat \<Rightarrow> rbac \<Rightarrow> (int \<times> rbac) option" where
  "rbac_role_del_perm role which t s =
     (if which < 0 \<or> int NR_ACCESS_TYPES \<le> which then Some (-1, s)
      else do {
        r \<leftarrow> rb_role s role;
        Some (case del_entry (nat which, t) (r_perm r) of
          None \<Rightarrow> (-1, s)
        | Some (bs, n) \<Rightarrow> (0, give_room n (upd_role role (\<lambda>r. r\<lparr>r_perm := bs\<rparr>) (s\<lparr>rb_reinit := True\<rparr>)))) })"

subsection \<open>Deletion of a role\<close>

partial_function (option) while_ua :: "nat \<Rightarrow> rbac \<Rightarrow> rbac option" where
  "while_ua o' s =
     Option.bind (rb_role s o') (\<lambda>r.
       case r_ua r of
         [] \<Rightarrow> Some s
       | a # _ \<Rightarrow> Option.bind (rb_ua s a) (\<lambda>a. Option.bind (rbac_del_ua (a_user a) o' s) (\<lambda>x. while_ua o' (snd x))))"

partial_function (option) while_sup :: "nat \<Rightarrow> rbac \<Rightarrow> rbac option" where
  "while_sup o' s =
     Option.bind (rb_role s o') (\<lambda>r.
       case r_sup r of
         [] \<Rightarrow> Some s
       | h # _ \<Rightarrow> Option.bind (rb_hier s h) (\<lambda>h. Option.bind (rbac_del_hierarchy (h_sup h) o' s) (\<lambda>x. while_sup o' (snd x))))"

partial_function (option) while_sub :: "nat \<Rightarrow> rbac \<Rightarrow> rbac option" where
  "while_sub o' s =
     Option.bind (rb_role s o') (\<lambda>r.
       case r_sub r of
         [] \<Rightarrow> Some s
       | h # _ \<Rightarrow> Option.bind (rb_hier s h) (\<lambda>h. Option.bind (rbac_del_hierarchy o' (h_sub h) s) (\<lambda>x. while_sub o' (snd x))))"

text \<open>The lock is not released when the role is not in the list.\<close>

definition rbac_role_del :: "nat \<Rightarrow> rbac \<Rightarrow> (int \<times> rbac) option" where
  "rbac_role_del role s = do {
     s \<leftarrow> wrlock s;
     if role \<notin> set (rb_roles s) then Some (-1, s)
     else do {
       s \<leftarrow> while_ua role s;
       r \<leftarrow> rb_role s role;
       let s = give_room (length (r_perm r)) (upd_role role (\<lambda>r. r\<lparr>r_perm := []\<rparr>) s);
       s \<leftarrow> while_sup role s;
       s \<leftarrow> while_sub role s;
       Some (0, give_room 1 (unlock (s\<lparr>rb_roles := remove1 role (rb_roles s), rb_role := (rb_role s)(role := None)\<rparr>))) } }"

end
