(* ===== verification/Rbac_Inv.thy ===== *)
theory Rbac_Inv
  imports Rbac
begin

text \<open>
  What the operations on users and roles keep: the lists and the cells agree, the hierarchy has no cycle, and the rights of a role are
  those given to it and to the roles below it. The two recursive walks along the hierarchy are one
  locale, \<open>inheritance\<close>, interpreted on \<open>rbac_inherit_sup\<close> and on \<open>rbac_inherit_sub\<close>.
\<close>

subsection \<open>Walks along the hierarchy\<close>

text \<open>\<open>kept rest s s'\<close>: the states differ only in what \<open>rest\<close> forgets of the roles.\<close>

definition kept :: "(role_s \<Rightarrow> role_s) \<Rightarrow> rbac \<Rightarrow> rbac \<Rightarrow> bool" where
  "kept rest s s' \<longleftrightarrow> s'\<lparr>rb_role := rb_role s\<rparr> = s
     \<and> (\<forall>p. map_option rest (rb_role s' p) = map_option rest (rb_role s p))"

definition role_val :: "(role_s \<Rightarrow> nat \<Rightarrow> nat set) \<Rightarrow> rbac \<Rightarrow> nat \<Rightarrow> nat \<Rightarrow> nat set" where
  "role_val val s r k = (case rb_role s r of None \<Rightarrow> {} | Some x \<Rightarrow> val x k)"

lemma kept_refl [simp]: "kept rest s s" by (simp add: kept_def)

lemma kept_trans:
  assumes "kept rest s s'" "kept rest s' s''"
  shows "kept rest s s''"
proof -
  have a: "s'\<lparr>rb_role := rb_role s\<rparr> = s" "s''\<lparr>rb_role := rb_role s'\<rparr> = s'"
    and b: "map_option rest (rb_role s' p) = map_option rest (rb_role s p)" "map_option rest (rb_role s'' p) = map_option rest (rb_role s' p)" for p
    using assms unfolding kept_def by blast+
  have "s''\<lparr>rb_role := rb_role s\<rparr> = (s''\<lparr>rb_role := rb_role s'\<rparr>)\<lparr>rb_role := rb_role s\<rparr>" by simp
  also have "\<dots> = s'\<lparr>rb_role := rb_role s\<rparr>" by (subst a(2)) (rule refl)
  finally have "s''\<lparr>rb_role := rb_role s\<rparr> = s" using a(1) by (rule trans)
  moreover have "map_option rest (rb_role s'' p) = map_option rest (rb_role s p)" for p using b(2,1) by (rule trans)
  ultimately show ?thesis unfolding kept_def by (intro conjI allI)
qed

lemma kept_fields:
  assumes "kept rest s s'"
  shows "rb_hier s' = rb_hier s"
    "rb_users s' = rb_users s"
    "rb_roles s' = rb_roles s"
    "rb_user s' = rb_user s"
    "rb_ua s' = rb_ua s"
    "rb_brk s' = rb_brk s"
    "rb_room s' = rb_room s"
    "rb_lock s' = rb_lock s"
    "rb_reinit s' = rb_reinit s"
    "rb_spaces s' = rb_spaces s"
proof -
  have e: "s'\<lparr>rb_role := rb_role s\<rparr> = s" using assms unfolding kept_def by blast
  show "rb_hier s' = rb_hier s" using arg_cong [OF e, of rb_hier] by simp
  show "rb_users s' = rb_users s" using arg_cong [OF e, of rb_users] by simp
  show "rb_roles s' = rb_roles s" using arg_cong [OF e, of rb_roles] by simp
  show "rb_user s' = rb_user s" using arg_cong [OF e, of rb_user] by simp
  show "rb_ua s' = rb_ua s" using arg_cong [OF e, of rb_ua] by simp
  show "rb_brk s' = rb_brk s" using arg_cong [OF e, of rb_brk] by simp
  show "rb_room s' = rb_room s" using arg_cong [OF e, of rb_room] by simp
  show "rb_lock s' = rb_lock s" using arg_cong [OF e, of rb_lock] by simp
  show "rb_reinit s' = rb_reinit s" using arg_cong [OF e, of rb_reinit] by simp
  show "rb_spaces s' = rb_spaces s" using arg_cong [OF e, of rb_spaces] by simp
qed

lemma kept_role:
  assumes "kept rest s s'" "rb_role s p = Some x"
  shows "\<exists>x'. rb_role s' p = Some x' \<and> rest x' = rest x"
proof -
  have "map_option rest (rb_role s' p) = Some (rest x)" using assms by (simp add: kept_def)
  then show ?thesis by auto
qed

lemma kept_None: "kept rest s s' \<Longrightarrow> rb_role s' p = None \<longleftrightarrow> rb_role s p = None"
  unfolding kept_def by (metis map_option_is_None)

lemma kept_upd: "rb_role s p = Some y \<Longrightarrow> rest y' = rest y \<Longrightarrow> kept rest s (s\<lparr>rb_role := (rb_role s)(p \<mapsto> y')\<rparr>)"
  by (simp add: kept_def)

lemma role_val_upd: "role_val val (s\<lparr>rb_role := (rb_role s)(p \<mapsto> y)\<rparr>) r k = (if r = p then val y k else role_val val s r k)"
  by (simp add: role_val_def)

text \<open>A walk goes from the role at the near end of a cell to the one at the far end, and adds the value of the first to that of the second.\<close>

definition hier_rel :: "(hierarchy_s \<Rightarrow> nat) \<Rightarrow> (hierarchy_s \<Rightarrow> nat) \<Rightarrow> rbac \<Rightarrow> (nat \<times> nat) set" where
  "hier_rel near far s = {(near e, far e) | e. e \<in> ran (rb_hier s)}"

definition walkable :: "(hierarchy_s \<Rightarrow> nat) \<Rightarrow> (hierarchy_s \<Rightarrow> nat) \<Rightarrow> (role_s \<Rightarrow> nat list) \<Rightarrow> rbac \<Rightarrow> bool" where
  "walkable near far links s \<longleftrightarrow> wf ((hier_rel near far s)\<inverse>)
     \<and> (\<forall>e \<in> ran (rb_hier s). rb_role s (near e) \<noteq> None \<and> rb_role s (far e) \<noteq> None)
     \<and> (\<forall>r x. rb_role s r = Some x \<longrightarrow> set (links x) = {h. \<exists>e. rb_hier s h = Some e \<and> near e = r})"

locale inheritance =
  fixes loop :: "nat \<Rightarrow> nat list \<Rightarrow> rbac \<Rightarrow> rbac option" and push :: "nat \<Rightarrow> nat \<Rightarrow> rbac \<Rightarrow> rbac option"
    and near :: "hierarchy_s \<Rightarrow> nat" and far :: "hierarchy_s \<Rightarrow> nat" and links :: "role_s \<Rightarrow> nat list"
    and val :: "role_s \<Rightarrow> nat \<Rightarrow> nat set" and rest :: "role_s \<Rightarrow> role_s"
  assumes loop_Nil: "loop r [] s = Some s"
    and loop_Cons: "loop r (p # ps) s =
      Option.bind (rb_hier s p) (\<lambda>h. Option.bind (push r (far h) s) (\<lambda>s. Option.bind (rb_role s (far h)) (\<lambda>x.
      Option.bind (loop (far h) (links x) s) (\<lambda>s. loop r ps s))))"
    and push_law: "rb_role s r = Some x \<Longrightarrow> rb_role s q = Some y \<Longrightarrow>
      \<exists>y'. push r q s = Some (s\<lparr>rb_role := (rb_role s)(q \<mapsto> y')\<rparr>) \<and> rest y' = rest y \<and> (\<forall>k. val y' k = val x k \<union> val y k)"
    and rest_links: "rest x = rest y \<Longrightarrow> links x = links y"
begin

definition bounded :: "(nat \<Rightarrow> nat \<Rightarrow> nat set) \<Rightarrow> rbac \<Rightarrow> bool" where
  "bounded b s \<longleftrightarrow> (\<forall>(y, x) \<in> hier_rel near far s. \<forall>k. b y k \<subseteq> b x k) \<and> (\<forall>r k. role_val val s r k \<subseteq> b r k)"

definition grown :: "rbac \<Rightarrow> rbac \<Rightarrow> bool" where
  "grown s s' \<longleftrightarrow> kept rest s s' \<and> (\<forall>r k. role_val val s r k \<subseteq> role_val val s' r k) \<and> (\<forall>b. bounded b s \<longrightarrow> bounded b s')"

lemma grown_kept: "grown s s' \<Longrightarrow> kept rest s s'" by (simp add: grown_def)
lemma grown_le: "grown s s' \<Longrightarrow> role_val val s r k \<subseteq> role_val val s' r k" by (simp add: grown_def)
lemma grown_bounded: "grown s s' \<Longrightarrow> bounded b s \<Longrightarrow> bounded b s'" by (simp add: grown_def)

lemma kept_links:
  assumes "kept rest s s'" "rb_role s' r = Some x'"
  obtains x where "rb_role s r = Some x" "links x = links x'"
proof -
  obtain x where x: "rb_role s r = Some x" using kept_None [OF assms(1), of r] assms(2) by (cases "rb_role s r") auto
  then have "rest x' = rest x" using kept_role [OF assms(1) x] assms(2) by auto
  then show ?thesis using that x rest_links by metis
qed

lemma kept_walkable:
  assumes "kept rest s s'" "walkable near far links s"
  shows "walkable near far links s'"
proof -
  have "set (links x') = {h. \<exists>e. rb_hier s' h = Some e \<and> near e = r}" if r: "rb_role s' r = Some x'" for r x'
  proof -
    obtain x where x: "rb_role s r = Some x" "links x = links x'" using kept_links [OF assms(1) r] by blast
    have "set (links x) = {h. \<exists>e. rb_hier s h = Some e \<and> near e = r}" using assms(2) x(1) unfolding walkable_def by blast
    then show ?thesis using x(2) kept_fields(1) [OF assms(1)] by simp
  qed
  then show ?thesis
    using assms(2) kept_fields(1) [OF assms(1)] kept_None [OF assms(1)] by (simp add: walkable_def hier_rel_def)
qed

lemma kept_rel: "kept rest s s' \<Longrightarrow> hier_rel near far s' = hier_rel near far s"
  by (simp add: hier_rel_def kept_fields(1))

lemma grown_refl [simp]: "grown s s" by (simp add: grown_def)

lemma grown_trans: "grown s s' \<Longrightarrow> grown s' s'' \<Longrightarrow> grown s s''"
  using kept_trans [of rest s s' s''] by (simp add: grown_def) blast

text \<open>The first step of a path along the hierarchy is a cell that the role links.\<close>

lemma path_cases:
  assumes "(r, z) \<in> (hier_rel near far s)\<^sup>*"
  obtains "z = r" | h e where "rb_hier s h = Some e" "near e = r" "(far e, z) \<in> (hier_rel near far s)\<^sup>*"
  using assms
proof (cases rule: converse_rtranclE)
  case base
  then show ?thesis using that(1) by simp
next
  case (step w)
  then show ?thesis using that(2) by (auto simp: hier_rel_def ran_def)
qed

lemma push_grown:
  assumes "(r, q) \<in> hier_rel near far s" "rb_role s r \<noteq> None" "rb_role s q \<noteq> None"
  shows "\<exists>s'. push r q s = Some s' \<and> grown s s' \<and> (\<forall>k. role_val val s r k \<subseteq> role_val val s' q k)"
proof -
  obtain x y where xy: "rb_role s r = Some x" "rb_role s q = Some y" using assms by auto
  obtain y' where y': "push r q s = Some (s\<lparr>rb_role := (rb_role s)(q \<mapsto> y')\<rparr>)" "rest y' = rest y" "\<forall>k. val y' k = val x k \<union> val y k"
    using push_law [OF xy] by auto
  let ?s = "s\<lparr>rb_role := (rb_role s)(q \<mapsto> y')\<rparr>"
  have v: "role_val val ?s z k = role_val val s z k \<union> (if z = q then role_val val s r k else {})" for z k
    using y'(3) xy by (auto simp: role_val_upd role_val_def)
  have "grown s ?s"
    unfolding grown_def
  proof (intro conjI allI impI)
    show k: "kept rest s ?s" by (rule kept_upd) (use xy(2) y'(2) in simp_all)
    show "role_val val s z k \<subseteq> role_val val ?s z k" for z k using v by auto
    fix b
    assume b: "bounded b s"
    then have "b r k \<subseteq> b q k" for k using assms(1) unfolding bounded_def by (metis (no_types, lifting) case_prodD)
    moreover have w: "role_val val s z k \<subseteq> b z k" for z k using b by (simp add: bounded_def)
    ultimately have "role_val val ?s z k \<subseteq> b z k" for z k
      using w [of r k] w [of z k] unfolding v by (cases "z = q") (simp, blast, simp)
    then show "bounded b ?s" using b kept_rel [OF k] by (simp add: bounded_def)
  qed
  then show ?thesis using y'(1) v by auto
qed

lemma loop_law:
  assumes "walkable near far links s0" "wf ((hier_rel near far s0)\<inverse>)"
  shows "kept rest s0 s \<Longrightarrow> \<forall>p \<in> set ps. \<exists>e. rb_hier s0 p = Some e \<and> near e = r \<Longrightarrow>
    \<exists>s'. loop r ps s = Some s' \<and> grown s s'
      \<and> (\<forall>p e x k. p \<in> set ps \<longrightarrow> rb_hier s0 p = Some e \<longrightarrow> (far e, x) \<in> (hier_rel near far s0)\<^sup>* \<longrightarrow>
           role_val val s r k \<subseteq> role_val val s' x k)"
  using assms(2)
proof (induction r arbitrary: s ps rule: wf_induct_rule)
  case (less r)
  show ?case
    using less.prems
  proof (induction ps arbitrary: s)
    case Nil
    then show ?case by (simp add: loop_Nil)
  next
    case (Cons p ps)
    let ?R = "hier_rel near far s0"
    obtain e where e: "rb_hier s0 p = Some e" "near e = r" using Cons.prems(2) by auto
    have edge: "(r, far e) \<in> ?R" using e by (auto simp: hier_rel_def ran_def)
    have ends: "rb_role s r \<noteq> None" "rb_role s (far e) \<noteq> None"
      using assms(1) e kept_None [OF Cons.prems(1)] unfolding walkable_def by (auto simp: ran_def)
    have "(r, far e) \<in> hier_rel near far s" using edge kept_rel [OF Cons.prems(1)] by simp
    from push_grown [OF this ends] obtain s1 where s1: "push r (far e) s = Some s1" "grown s s1"
        "\<forall>k. role_val val s r k \<subseteq> role_val val s1 (far e) k" by auto
    have k1: "kept rest s0 s1" using kept_trans [OF Cons.prems(1)] s1(2) by (simp add: grown_def)
    obtain x where x: "rb_role s1 (far e) = Some x" using kept_None [OF k1, of "far e"] kept_None [OF Cons.prems(1), of "far e"] ends by auto
    have "walkable near far links s1" using kept_walkable [OF k1 assms(1)] .
    then have lx: "set (links x) = {h. \<exists>e'. rb_hier s0 h = Some e' \<and> near e' = far e}"
      using x kept_fields(1) [OF k1] unfolding walkable_def by auto
    then have l: "\<forall>p \<in> set (links x). \<exists>e'. rb_hier s0 p = Some e' \<and> near e' = far e" by auto
    have "(far e, r) \<in> ?R\<inverse>" using edge by simp
    from less.IH [OF this k1 l] obtain s2 where s2: "loop (far e) (links x) s1 = Some s2" "grown s1 s2"
        "\<forall>p e' z k. p \<in> set (links x) \<longrightarrow> rb_hier s0 p = Some e' \<longrightarrow> (far e', z) \<in> ?R\<^sup>* \<longrightarrow> role_val val s1 (far e) k \<subseteq> role_val val s2 z k"
      by auto
    have k2: "kept rest s0 s2" using kept_trans [OF k1] s2(2) by (simp add: grown_def)
    have g2: "grown s s2" using grown_trans s1(2) s2(2) .
    from Cons.IH [OF k2] Cons.prems(2) obtain s3 where s3: "loop r ps s2 = Some s3" "grown s2 s3"
        "\<forall>p e z k. p \<in> set ps \<longrightarrow> rb_hier s0 p = Some e \<longrightarrow> (far e, z) \<in> ?R\<^sup>* \<longrightarrow> role_val val s2 r k \<subseteq> role_val val s3 z k"
      by auto
    have "loop r (p # ps) s = Some s3"
      using e(1) kept_fields(1) [OF Cons.prems(1)] s1(1) x s2(1) s3(1) by (simp add: loop_Cons)
    moreover have "role_val val s r k \<subseteq> role_val val s3 z k" if q: "q \<in> set (p # ps)" "rb_hier s0 q = Some f" "(far f, z) \<in> ?R\<^sup>*" for q f z k
    proof (cases "q = p")
      case True
      then have f: "f = e" using q(2) e(1) by simp
      have "role_val val s1 (far e) k \<subseteq> role_val val s2 z k"
        using q(3) unfolding f
      proof (cases rule: path_cases)
        case 1
        then show ?thesis using grown_le [OF s2(2)] by simp
      next
        case (2 h e')
        then have "h \<in> set (links x)" using lx by auto
        then show ?thesis using s2(3) 2 by blast
      qed
      then show ?thesis using s1(3) grown_le [OF s3(2)] by blast
    next
      case False
      then have "role_val val s2 r k \<subseteq> role_val val s3 z k" using s3(3) q by auto
      then show ?thesis using grown_le [OF g2] by blast
    qed
    ultimately show ?case using grown_trans [OF g2 s3(2)] by blast
  qed
qed

text \<open>The walk from a role returns; what the role has reaches every role on the way, and nothing else is added.\<close>

lemma inherit_law:
  assumes "walkable near far links s" "rb_role s r = Some x"
  shows "\<exists>s'. loop r (links x) s = Some s' \<and> grown s s'
    \<and> (\<forall>z k. (r, z) \<in> (hier_rel near far s)\<^sup>* \<longrightarrow> role_val val s r k \<subseteq> role_val val s' z k)"
proof -
  have wf: "wf ((hier_rel near far s)\<inverse>)" using assms(1) by (simp add: walkable_def)
  have l: "set (links x) = {h. \<exists>e. rb_hier s h = Some e \<and> near e = r}" using assms by (simp add: walkable_def)
  obtain s' where s': "loop r (links x) s = Some s'" "grown s s'"
      "\<forall>p e z k. p \<in> set (links x) \<longrightarrow> rb_hier s p = Some e \<longrightarrow> (far e, z) \<in> (hier_rel near far s)\<^sup>* \<longrightarrow> role_val val s r k \<subseteq> role_val val s' z k"
    using loop_law [OF assms(1) wf, of s "links x" r] l by auto
  have "role_val val s r k \<subseteq> role_val val s' z k" if "(r, z) \<in> (hier_rel near far s)\<^sup>*" for z k
    using that
  proof (cases rule: path_cases)
    case 1
    then show ?thesis using grown_le [OF s'(2)] by simp
  next
    case (2 h e)
    then have "h \<in> set (links x)" using l by auto
    then show ?thesis using s'(3) 2 by blast
  qed
  then show ?thesis using s' by blast
qed

lemma inherit_all:
  assumes "walkable near far links s" "\<forall>r \<in> set rs. rb_role s r \<noteq> None"
  shows "\<exists>s'. each_role (\<lambda>r s. Option.bind (rb_role s r) (\<lambda>x. loop r (links x) s)) rs s = Some s' \<and> grown s s'
    \<and> (\<forall>r \<in> set rs. \<forall>z k. (r, z) \<in> (hier_rel near far s)\<^sup>* \<longrightarrow> role_val val s r k \<subseteq> role_val val s' z k)"
  using assms
proof (induction rs arbitrary: s)
  case Nil
  then show ?case by simp
next
  case (Cons r rs)
  then obtain x where x: "rb_role s r = Some x" by auto
  obtain s1 where s1: "loop r (links x) s = Some s1" "grown s s1"
      "\<forall>z k. (r, z) \<in> (hier_rel near far s)\<^sup>* \<longrightarrow> role_val val s r k \<subseteq> role_val val s1 z k"
    using inherit_law [OF Cons.prems(1) x] by auto
  have k1: "kept rest s s1" using s1(2) by (simp add: grown_def)
  have "walkable near far links s1" using kept_walkable [OF k1 Cons.prems(1)] .
  moreover have "\<forall>r \<in> set rs. rb_role s1 r \<noteq> None" using Cons.prems(2) kept_None [OF k1] by auto
  ultimately obtain s2 where s2: "each_role (\<lambda>r s. Option.bind (rb_role s r) (\<lambda>x. loop r (links x) s)) rs s1 = Some s2" "grown s1 s2"
      "\<forall>r \<in> set rs. \<forall>z k. (r, z) \<in> (hier_rel near far s)\<^sup>* \<longrightarrow> role_val val s1 r k \<subseteq> role_val val s2 z k"
    using Cons.IH [of s1] kept_rel [OF k1] by auto
  have "role_val val s q k \<subseteq> role_val val s2 z k" if "q \<in> set (r # rs)" "(q, z) \<in> (hier_rel near far s)\<^sup>*" for q z k
  proof (cases "q = r")
    case True
    then show ?thesis using s1(3) that(2) grown_le [OF s2(2)] by blast
  next
    case False
    then have "role_val val s1 q k \<subseteq> role_val val s2 z k" using s2(3) that by auto
    then show ?thesis using grown_le [OF s1(2)] by blast
  qed
  moreover have "grown s s2" using grown_trans s1(2) s2(2) .
  ultimately show ?case using x s1(1) s2(1) by auto
qed

end

definition rights :: "role_s \<Rightarrow> nat \<Rightarrow> nat set" where "rights x a = (if a < NR_ACCESS_TYPES then vs_ids (r_vs x a) else {})"
definition no_rights :: "role_s \<Rightarrow> role_s" where "no_rights x = x\<lparr>r_vs := (\<lambda>_. [])\<rparr>"
definition below :: "role_s \<Rightarrow> nat \<Rightarrow> nat set" where "below x a = vs_ids (r_vs_sub x)"
definition no_below :: "role_s \<Rightarrow> role_s" where "no_below x = x\<lparr>r_vs_sub := []\<rparr>"

interpretation up: inheritance inherit_sup_loop push_vs h_sub h_sup r_sup rights no_rights
proof unfold_locales
  show "inherit_sup_loop r [] s = Some s" for r s by (simp add: inherit_sup_loop.simps)
  show "inherit_sup_loop r (p # ps) s = Option.bind (rb_hier s p) (\<lambda>h. Option.bind (push_vs r (h_sup h) s) (\<lambda>s.
      Option.bind (rb_role s (h_sup h)) (\<lambda>x. Option.bind (inherit_sup_loop (h_sup h) (r_sup x) s) (\<lambda>s. inherit_sup_loop r ps s))))" for r p ps s
    by (subst inherit_sup_loop.simps) simp
  show "\<exists>y'. push_vs r q s = Some (s\<lparr>rb_role := (rb_role s)(q \<mapsto> y')\<rparr>) \<and> no_rights y' = no_rights y \<and> (\<forall>k. rights y' k = rights x k \<union> rights y k)"
    if "rb_role s r = Some x" "rb_role s q = Some y" for s r x q y
    using that by (auto simp: push_vs_def upd_role_def rights_def no_rights_def)
  show "no_rights x = no_rights y \<Longrightarrow> r_sup x = r_sup y" for x y unfolding no_rights_def by (metis role_s.select_convs role_s.update_convs(7) role_s.surjective)
qed

interpretation down: inheritance inherit_sub_loop push_vs_sub h_sup h_sub r_sub below no_below
proof unfold_locales
  show "inherit_sub_loop r [] s = Some s" for r s by (simp add: inherit_sub_loop.simps)
  show "inherit_sub_loop r (p # ps) s = Option.bind (rb_hier s p) (\<lambda>h. Option.bind (push_vs_sub r (h_sub h) s) (\<lambda>s.
      Option.bind (rb_role s (h_sub h)) (\<lambda>x. Option.bind (inherit_sub_loop (h_sub h) (r_sub x) s) (\<lambda>s. inherit_sub_loop r ps s))))" for r p ps s
    by (subst inherit_sub_loop.simps) simp
  show "\<exists>y'. push_vs_sub r q s = Some (s\<lparr>rb_role := (rb_role s)(q \<mapsto> y')\<rparr>) \<and> no_below y' = no_below y \<and> (\<forall>k. below y' k = below x k \<union> below y k)"
    if "rb_role s r = Some x" "rb_role s q = Some y" for s r x q y
    using that by (auto simp: push_vs_sub_def upd_role_def below_def no_below_def)
  show "no_below x = no_below y \<Longrightarrow> r_sub x = r_sub y" for x y unfolding no_below_def by (metis role_s.select_convs role_s.update_convs(6) role_s.surjective)
qed

end
