(* ===== verification/Rbac_Ok.thy ===== *)
theory Rbac_Ok
  imports Rbac_Inv
begin

text \<open>
  The invariant of users and roles, \<open>rbac_ok\<close>, and that every operation of \<open>users.c\<close> and \<open>roles.c\<close> returns and keeps it, when it is given
  users and roles that exist, names that fit into their fields, and no role to be put below itself.
\<close>

subsection \<open>Lists sorted by name\<close>

definition named_ok :: "nat \<Rightarrow> ('a \<Rightarrow> string) \<Rightarrow> (nat \<Rightarrow> 'a option) \<Rightarrow> nat list \<Rightarrow> bool" where
  "named_ok n name cell l \<longleftrightarrow> distinct l \<and> dom cell = set l
     \<and> sorted_wrt (\<lambda>p q. strcmp (name (the (cell p))) (name (the (cell q))) < 0) l \<and> (\<forall>x \<in> ran cell. length (name x) < n)"

lemma field_cmp_short: "length f < n \<Longrightarrow> field_cmp n f s = Some (strcmp f s)"
  by (simp add: field_cmp_def)

lemma find_place_law:
  assumes "\<forall>p \<in> set l. c p = Some (k p)"
  shows "\<exists>x xs ys. find_place c l = Some (x, xs, ys) \<and> l = xs @ ys \<and> (\<forall>p \<in> set xs. k p < 0)
    \<and> (case ys of [] \<Rightarrow> x \<noteq> 0 | q # _ \<Rightarrow> x = k q \<and> 0 \<le> x)"
  using assms
proof (induction l)
  case Nil
  then show ?case by simp
next
  case (Cons p l)
  show ?case
  proof (cases "0 \<le> k p")
    case True
    then show ?thesis using Cons.prems by simp
  next
    case False
    obtain x xs ys where "find_place c l = Some (x, xs, ys)" "l = xs @ ys" "\<forall>p \<in> set xs. k p < 0"
        "case ys of [] \<Rightarrow> x \<noteq> 0 | q # _ \<Rightarrow> x = k q \<and> 0 \<le> x" using Cons by auto
    then show ?thesis using False Cons.prems by (intro exI [where x = x] exI [where x = "p # xs"] exI [where x = ys]) auto
  qed
qed

lemma find_cell_law:
  assumes "\<forall>p \<in> set l. c p = Some (k p)"
  shows "find_cell c l = Some (List.find k l)"
  using assms by (induction l) auto

lemma named_insert:
  assumes ok: "named_ok n name cell (xs @ ys)" and p: "cell p = None" and x: "name x = s" "length s < n"
    and xs: "\<forall>q \<in> set xs. strcmp (name (the (cell q))) s < 0"
    and ys: "ys = [] \<or> 0 < strcmp (name (the (cell (hd ys)))) s"
  shows "named_ok n name (cell(p \<mapsto> x)) (xs @ p # ys)"
proof -
  have np: "p \<notin> set (xs @ ys)" using ok p by (auto simp: named_ok_def)
  have low: "strcmp s (name (the (cell q))) < 0" if q: "q \<in> set ys" for q
  proof -
    obtain z zs where z: "ys = z # zs" using q by (cases ys) auto
    have "strcmp s (name (the (cell z))) < 0" using ys z strcmp_antisym [of s] by simp
    moreover have "q = z \<or> strcmp (name (the (cell z))) (name (the (cell q))) < 0"
      using ok q z by (auto simp: named_ok_def sorted_wrt_append)
    ultimately show ?thesis using strcmp_less_trans by blast
  qed
  have s: "sorted_wrt (\<lambda>q r. strcmp (name (the ((cell(p \<mapsto> x)) q))) (name (the ((cell(p \<mapsto> x)) r))) < 0) zs"
    if "set zs \<subseteq> set (xs @ ys)" "sorted_wrt (\<lambda>q r. strcmp (name (the (cell q))) (name (the (cell r))) < 0) zs" for zs
    by (rule sorted_wrt_mono_rel [OF _ that(2)]) (use that(1) np in auto)
  have "sorted_wrt (\<lambda>q r. strcmp (name (the ((cell(p \<mapsto> x)) q))) (name (the ((cell(p \<mapsto> x)) r))) < 0) (xs @ p # ys)"
    using ok xs low np x(1) s [of xs] s [of ys] by (auto simp: named_ok_def sorted_wrt_append)
  then show ?thesis using ok np x by (auto simp: named_ok_def ran_def)
qed

lemma named_upd:
  assumes "named_ok n name cell l" "cell p = Some y" "name x = name y"
  shows "named_ok n name (cell(p \<mapsto> x)) l"
proof -
  have "name (the ((cell(p \<mapsto> x)) q)) = name (the (cell q))" for q using assms by simp
  then show ?thesis using assms by (auto simp: named_ok_def ran_def)
qed

lemma named_cong:
  assumes "named_ok n name cell l" "\<And>p. map_option name (cell' p) = map_option name (cell p)"
  shows "named_ok n name cell' l"
proof -
  have d: "cell' p = None \<longleftrightarrow> cell p = None" for p using assms(2) [of p] by (metis map_option_is_None)
  have "name (the (cell' p)) = name (the (cell p))" if "p \<in> set l" for p
    using assms(2) [of p] assms(1) that d [of p] by (cases "cell p"; cases "cell' p") (auto simp: named_ok_def)
  then have s: "sorted_wrt (\<lambda>q r. strcmp (name (the (cell' q))) (name (the (cell' r))) < 0) l"
    using assms(1) sorted_wrt_mono_rel [of l "\<lambda>q r. strcmp (name (the (cell q))) (name (the (cell r))) < 0"
      "\<lambda>q r. strcmp (name (the (cell' q))) (name (the (cell' r))) < 0"] by (auto simp: named_ok_def)
  have "length (name x) < n" if c: "cell' p = Some x" for p x
  proof -
    obtain y where "cell p = Some y" "name y = name x" using assms(2) [of p] c by (cases "cell p") auto
    then show ?thesis using assms(1) by (auto simp: named_ok_def ran_def)
  qed
  then show ?thesis using assms(1) s d by (auto simp: named_ok_def ran_def dom_def)
qed

lemma named_remove:
  assumes "named_ok n name cell l"
  shows "named_ok n name (cell(p := None)) (remove1 p l)"
proof -
  have r: "distinct l" "remove1 p l = filter (\<lambda>q. q \<noteq> p) l" using assms distinct_remove1_removeAll [of l p]
    by (auto simp: named_ok_def removeAll_filter_not_eq intro: filter_cong)
  have "sorted_wrt (\<lambda>q r. strcmp (name (the (cell q))) (name (the (cell r))) < 0) (remove1 p l)"
    using assms sorted_wrt_filter by (auto simp: named_ok_def r(2))
  then have "sorted_wrt (\<lambda>q r. strcmp (name (the ((cell(p := None)) q))) (name (the ((cell(p := None)) r))) < 0) (remove1 p l)"
    using sorted_wrt_mono_rel [of "remove1 p l" "\<lambda>q r. strcmp (name (the (cell q))) (name (the (cell r))) < 0"
       "\<lambda>q r. strcmp (name (the ((cell(p := None)) q))) (name (the ((cell(p := None)) r))) < 0"] by (auto simp: r(2))
  then show ?thesis using assms r(1) by (auto simp: named_ok_def ran_def)
qed

subsection \<open>Cells linked into the lists of both of their ends\<close>

definition linked :: "('e \<Rightarrow> nat) \<Rightarrow> ('a \<Rightarrow> nat list) \<Rightarrow> (nat \<Rightarrow> 'a option) \<Rightarrow> (nat \<Rightarrow> 'e option) \<Rightarrow> bool" where
  "linked at l cell edge \<longleftrightarrow>
     (\<forall>p x. cell p = Some x \<longrightarrow> distinct (l x) \<and> set (l x) = {h. \<exists>e. edge h = Some e \<and> at e = p})
     \<and> (\<forall>h e. edge h = Some e \<longrightarrow> cell (at e) \<noteq> None)"

lemma linkedD:
  assumes "linked at l cell edge"
  shows "cell p = Some x \<Longrightarrow> distinct (l x)" "cell p = Some x \<Longrightarrow> h \<in> set (l x) \<longleftrightarrow> (\<exists>e. edge h = Some e \<and> at e = p)"
    "edge h = Some e \<Longrightarrow> \<exists>x. cell (at e) = Some x"
  using assms by (auto simp: linked_def)

lemma linked_add:
  assumes "linked at l cell edge" "edge n = None" "cell (at e) = Some x" "l x' = n # l x"
  shows "linked at l (cell(at e \<mapsto> x')) (edge(n \<mapsto> e))"
  using assms by (fastforce simp: linked_def)

lemma linked_del:
  assumes "linked at l cell edge" "edge h = Some e" "cell (at e) = Some x" "l x' = remove1 h (l x)"
  shows "linked at l (cell(at e \<mapsto> x')) (edge(h := None))"
  using assms by (fastforce simp: linked_def)

lemma linked_cong:
  assumes "linked at l cell edge" "\<And>p. map_option l (cell' p) = map_option l (cell p)"
  shows "linked at l cell' edge"
proof -
  have d: "cell' p = None \<longleftrightarrow> cell p = None" for p using assms(2) [of p] by (metis map_option_is_None)
  have e: "\<exists>y. cell p = Some y \<and> l x = l y" if "cell' p = Some x" for p x using assms(2) [of p] that by (cases "cell p") auto
  show ?thesis
    unfolding linked_def
  proof (intro conjI allI impI)
    fix p x assume "cell' p = Some x"
    then obtain y where y: "cell p = Some y" "l x = l y" using e by blast
    show "distinct (l x)" "set (l x) = {h. \<exists>e. edge h = Some e \<and> at e = p}"
      unfolding y(2) using assms(1) y(1) by (auto simp: linked_def)
  next
    fix h e assume "edge h = Some e"
    then show "cell' (at e) \<noteq> None" using assms(1) d by (auto simp: linked_def)
  qed
qed

lemma linked_upd: "linked at l cell edge \<Longrightarrow> cell p = Some y \<Longrightarrow> l x = l y \<Longrightarrow> linked at l (cell(p \<mapsto> x)) edge"
  by (erule linked_cong) simp

lemma linked_new:
  assumes "linked at l cell edge" "cell p = None" "l x = []"
  shows "linked at l (cell(p \<mapsto> x)) edge"
  using assms by (fastforce simp: linked_def)

lemma linked_gone:
  assumes "linked at l cell edge" "cell p = Some x" "l x = []"
  shows "linked at l (cell(p := None)) edge"
  using assms by (fastforce simp: linked_def)

subsection \<open>The invariant\<close>

definition space_ids :: "rbac \<Rightarrow> nat \<Rightarrow> nat set" where
  "space_ids s t = vs_ids (sp_vs_id (ss_space (rb_spaces s) t))"

definition perms :: "role_s \<Rightarrow> (nat \<times> nat) set" where "perms x = set (concat (r_perm x))"

text \<open>\<open>superior s\<close> relates a role to the roles right above it; \<open>own s y a\<close> are the rights given to the role \<open>y\<close> itself, and
  \<open>role_rights s x a\<close> those that the code has computed for \<open>x\<close>.\<close>

definition superior :: "rbac \<Rightarrow> (nat \<times> nat) set" where "superior s = hier_rel h_sub h_sup s"

definition own :: "rbac \<Rightarrow> nat \<Rightarrow> nat \<Rightarrow> nat set" where
  "own s y a = \<Union> {space_ids s t | t x. rb_role s y = Some x \<and> (a, t) \<in> perms x}"

definition role_rights :: "rbac \<Rightarrow> nat \<Rightarrow> nat \<Rightarrow> nat set" where "role_rights s = role_val rights s"

definition inherited :: "rbac \<Rightarrow> nat \<Rightarrow> nat \<Rightarrow> nat set" where
  "inherited s x a = \<Union> {own s y a | y. (y, x) \<in> (superior s)\<^sup>*}"

text \<open>\<open>slots x rs\<close>: the slots of the user \<open>x\<close> hold the roles \<open>rs\<close>, each once, below \<open>u_nr x\<close>.\<close>

definition assigned :: "rbac \<Rightarrow> (nat \<times> nat) set" where "assigned s = {(a_user e, a_role e) | e. e \<in> ran (rb_ua s)}"

definition slots :: "user_s \<Rightarrow> nat set \<Rightarrow> bool" where
  "slots x rs \<longleftrightarrow> length (u_roles x) = USER_MAX_ROLES \<and> u_nr x \<le> USER_MAX_ROLES
     \<and> (\<forall>i < USER_MAX_ROLES. u_nr x \<le> i \<longrightarrow> u_roles x ! i = None)
     \<and> (\<forall>r i j. i < USER_MAX_ROLES \<longrightarrow> j < USER_MAX_ROLES \<longrightarrow> u_roles x ! i = Some r \<longrightarrow> u_roles x ! j = Some r \<longrightarrow> i = j)
     \<and> (\<forall>r. Some r \<in> set (u_roles x) \<longleftrightarrow> r \<in> rs)"

definition slots_ok :: "rbac \<Rightarrow> bool" where
  "slots_ok s \<longleftrightarrow> (\<forall>u x. rb_user s u = Some x \<longrightarrow> slots x (assigned s `` {u})) \<and> inj_on (rb_ua s) (dom (rb_ua s))"

definition links_ok :: "rbac \<Rightarrow> bool" where
  "links_ok s \<longleftrightarrow> linked h_sup r_sub (rb_role s) (rb_hier s) \<and> linked h_sub r_sup (rb_role s) (rb_hier s)
     \<and> linked a_user u_ua (rb_user s) (rb_ua s) \<and> linked a_role r_ua (rb_role s) (rb_ua s)"

definition role_ok :: "rbac \<Rightarrow> role_s \<Rightarrow> bool" where
  "role_ok s x \<longleftrightarrow> (\<forall>b \<in> set (r_perm x). b \<noteq> [] \<and> length b \<le> 8)
     \<and> (\<forall>(a, t) \<in> perms x. a < NR_ACCESS_TYPES \<and> space_ids s t \<noteq> {})
     \<and> r_cinfo_sup x = None \<and> r_cinfo_sub x = None \<and> vs_ids (r_vs_sub x) = {}"

definition fresh_ok :: "rbac \<Rightarrow> bool" where
  "fresh_ok s \<longleftrightarrow> (\<forall>p \<ge> rb_brk s. rb_user s p = None \<and> rb_role s p = None \<and> rb_ua s p = None \<and> rb_hier s p = None)"

definition lists_ok :: "rbac \<Rightarrow> bool" where
  "lists_ok s \<longleftrightarrow> named_ok 32 u_name (rb_user s) (rb_users s) \<and> named_ok 64 r_name (rb_role s) (rb_roles s)"

definition shape_ok :: "rbac \<Rightarrow> bool" where
  "shape_ok s \<longleftrightarrow> lists_ok s \<and> links_ok s \<and> slots_ok s \<and> fresh_ok s \<and> (\<forall>x \<in> ran (rb_role s). role_ok s x) \<and> acyclic (superior s)"

definition rights_ok :: "rbac \<Rightarrow> bool" where
  "rights_ok s \<longleftrightarrow> (\<forall>r a. rb_role s r \<noteq> None \<longrightarrow> a < NR_ACCESS_TYPES \<longrightarrow> role_rights s r a = inherited s r a)"

definition rbac_ok :: "rbac \<Rightarrow> bool" where
  "rbac_ok s \<longleftrightarrow> shape_ok s \<and> \<not> rb_lock s \<and> (rb_reinit s \<or> rights_ok s)"

lemma finite_superior: "fresh_ok s \<Longrightarrow> finite (superior s)"
proof -
  assume "fresh_ok s"
  then have "dom (rb_hier s) \<subseteq> {..<rb_brk s}" by (auto simp: fresh_ok_def) (metis not_less option.distinct(1))
  then have "finite (ran (rb_hier s))" by (meson finite_lessThan finite_ran finite_subset)
  then have "finite ((\<lambda>e. (h_sub e, h_sup e)) ` ran (rb_hier s))" by simp
  moreover have "superior s = (\<lambda>e. (h_sub e, h_sup e)) ` ran (rb_hier s)" by (auto simp: superior_def hier_rel_def)
  ultimately show ?thesis by simp
qed

lemma superior_inferior: "hier_rel h_sup h_sub s = (superior s)\<inverse>"
  by (auto simp: superior_def hier_rel_def)

lemma shape_walkable:
  assumes "shape_ok s"
  shows "walkable h_sub h_sup r_sup s" "walkable h_sup h_sub r_sub s"
proof -
  have l: "linked h_sup r_sub (rb_role s) (rb_hier s)" "linked h_sub r_sup (rb_role s) (rb_hier s)" "fresh_ok s" "acyclic (superior s)"
    using assms by (simp_all add: shape_ok_def links_ok_def)
  have wf: "wf ((superior s)\<inverse>)" "wf (superior s)"
    using finite_acyclic_wf_converse finite_acyclic_wf finite_superior l(3,4) by blast+
  have ends: "\<forall>e \<in> ran (rb_hier s). rb_role s (h_sub e) \<noteq> None \<and> rb_role s (h_sup e) \<noteq> None"
    using linkedD(3) [OF l(1)] linkedD(3) [OF l(2)] by (auto simp: ran_def)
  show "walkable h_sub h_sup r_sup s"
    unfolding walkable_def using wf(1) ends linkedD(2) [OF l(2)] by (auto simp: superior_def)
  show "walkable h_sup h_sub r_sub s"
    unfolding walkable_def using wf(2) ends linkedD(2) [OF l(1)] by (auto simp: superior_inferior)
qed

text \<open>\<open>same_shape s s'\<close>: the states differ in the computed rights only.\<close>

definition plain :: "role_s \<Rightarrow> role_s" where "plain x = x\<lparr>r_vs := (\<lambda>_. []), r_vs_sub := []\<rparr>"

lemma kept_cases:
  assumes "kept f s s'"
  obtains "rb_role s p = None" "rb_role s' p = None" | x x' where "rb_role s p = Some x" "rb_role s' p = Some x'" "f x' = f x"
proof (cases "rb_role s p")
  case None
  then show ?thesis using that(1) kept_None [OF assms, of p] by simp
next
  case (Some x)
  then show ?thesis using that(2) kept_role [OF assms Some] by blast
qed

lemma kept_plain:
  assumes "\<And>x y. f x = f y \<Longrightarrow> plain x = plain y" "kept f s s'"
  shows "kept plain s s'"
proof -
  have "map_option plain (rb_role s' p) = map_option plain (rb_role s p)" for p
  proof (rule kept_cases [OF assms(2), of p])
    fix x x' assume "rb_role s p = Some x" "rb_role s' p = Some x'" "f x' = f x"
    then show ?thesis using assms(1) [of x' x] by simp
  qed simp
  then show ?thesis using assms(2) unfolding kept_def by blast
qed

lemma no_rights_plain: "no_rights x = no_rights y \<Longrightarrow> plain x = plain y"
  unfolding no_rights_def plain_def by (cases x; cases y) simp

lemma no_below_plain: "no_below x = no_below y \<Longrightarrow> plain x = plain y"
  unfolding no_below_def plain_def by (cases x; cases y) simp

lemma plain_fields:
  assumes "plain x = plain y"
  shows "r_ua x = r_ua y" "r_perm x = r_perm y" "r_sup x = r_sup y" "r_sub x = r_sub y" "r_cinfo_sup x = r_cinfo_sup y"
    "r_cinfo_sub x = r_cinfo_sub y" "r_name x = r_name y" "r_flag x = r_flag y" "perms x = perms y"
  using assms unfolding plain_def perms_def by (cases x; cases y; simp)+

lemma kept_map:
  assumes "kept plain s s'" "\<And>x y. plain x = plain y \<Longrightarrow> f x = f y"
  shows "map_option f (rb_role s' p) = map_option f (rb_role s p)"
proof (rule kept_cases [OF assms(1), of p])
  fix x x' assume "rb_role s p = Some x" "rb_role s' p = Some x'" "plain x' = plain x"
  then show ?thesis using assms(2) [of x' x] by simp
qed simp

lemma kept_shape:
  assumes "kept plain s s'" "shape_ok s" "\<And>p x. rb_role s' p = Some x \<Longrightarrow> vs_ids (r_vs_sub x) = {}"
  shows "shape_ok s'"
proof -
  note k = kept_fields [OF assms(1)] and m = kept_map [OF assms(1)]
  have "named_ok 64 r_name (rb_role s') (rb_roles s)"
  proof (rule named_cong [of _ _ "rb_role s"])
    show "named_ok 64 r_name (rb_role s) (rb_roles s)" using assms(2) by (simp add: shape_ok_def lists_ok_def)
  qed (rule m [of r_name, OF plain_fields(7)])
  then have l: "lists_ok s'" using assms(2) by (simp add: shape_ok_def lists_ok_def k)
  have s: "linked h_sup r_sub (rb_role s) (rb_hier s)" "linked h_sub r_sup (rb_role s) (rb_hier s)" "linked a_role r_ua (rb_role s) (rb_ua s)"
    using assms(2) by (simp_all add: shape_ok_def links_ok_def)
  have "linked h_sup r_sub (rb_role s') (rb_hier s)" by (rule linked_cong [OF s(1)]) (rule m [of r_sub, OF plain_fields(4)])
  moreover have "linked h_sub r_sup (rb_role s') (rb_hier s)" by (rule linked_cong [OF s(2)]) (rule m [of r_sup, OF plain_fields(3)])
  moreover have "linked a_role r_ua (rb_role s') (rb_ua s)" by (rule linked_cong [OF s(3)]) (rule m [of r_ua, OF plain_fields(1)])
  ultimately have "links_ok s'" using assms(2) by (simp add: shape_ok_def links_ok_def k)
  moreover have "role_ok s' x'" if x': "rb_role s' p = Some x'" for p x'
  proof -
    obtain x where x: "rb_role s p = Some x" "plain x' = plain x"
    proof (rule kept_cases [OF assms(1), of p])
      fix y y' assume "rb_role s p = Some y" "rb_role s' p = Some y'" "plain y' = plain y"
      then show thesis using x' that by simp
    qed (use x' in simp)
    have "role_ok s x" using assms(2) x(1) by (auto simp: shape_ok_def ran_def)
    then show ?thesis using plain_fields [OF x(2)] assms(3) [OF x'] by (simp add: role_ok_def space_ids_def k)
  qed
  moreover have "slots_ok s'" "fresh_ok s'" "acyclic (superior s')"
    using assms(2) kept_None [OF assms(1)] by (auto simp: shape_ok_def slots_ok_def assigned_def fresh_ok_def superior_def hier_rel_def k)
  ultimately show ?thesis using l by (auto simp: shape_ok_def ran_def)
qed

lemma kept_superior: "kept plain s s' \<Longrightarrow> superior s' = superior s"
  by (simp add: superior_def hier_rel_def kept_fields)

lemma kept_own: "kept plain s s' \<Longrightarrow> own s' y a = own s y a"
  by (rule kept_cases [of plain s s' y]) (auto simp: own_def space_ids_def kept_fields dest: plain_fields(9))

lemma kept_inherited: "kept plain s s' \<Longrightarrow> inherited s' y a = inherited s y a"
  by (simp add: inherited_def kept_superior kept_own)

lemma shape_roleD: "shape_ok s \<Longrightarrow> rb_role s p = Some x \<Longrightarrow> role_ok s x"
  by (auto simp: shape_ok_def ran_def)

lemma own_access: "shape_ok s \<Longrightarrow> NR_ACCESS_TYPES \<le> a \<Longrightarrow> own s y a = {}"
  by (force simp: own_def role_ok_def dest: shape_roleD)

definition reaches :: "rbac \<Rightarrow> rbac \<Rightarrow> nat \<Rightarrow> bool" where
  "reaches s s' r \<longleftrightarrow> (\<forall>z a. (r, z) \<in> (superior s)\<^sup>* \<longrightarrow> role_rights s r a \<subseteq> role_rights s' z a)"

lemma up_grown_shape:
  assumes "shape_ok s" "up.grown s s'"
  shows "shape_ok s'" "kept plain s s'"
proof -
  have k: "kept no_rights s s'" using up.grown_kept assms(2) .
  show kp: "kept plain s s'" using kept_plain [OF no_rights_plain k] .
  have "vs_ids (r_vs_sub x) = {}" if x: "rb_role s' p = Some x" for p x
  proof (rule kept_cases [OF k, of p])
    fix y y' assume y: "rb_role s p = Some y" "rb_role s' p = Some y'" "no_rights y' = no_rights y"
    then have "r_vs_sub y' = r_vs_sub y" unfolding no_rights_def by (cases y; cases y') simp
    then show ?thesis using shape_roleD [OF assms(1) y(1)] y(2) x by (simp add: role_ok_def)
  qed (use x in simp)
  then show "shape_ok s'" by (rule kept_shape [OF kp assms(1)])
qed

lemma inherit_sup_ok:
  assumes "shape_ok s" "rb_role s r \<noteq> None"
  shows "\<exists>s'. rbac_inherit_sup r s = Some s' \<and> up.grown s s' \<and> reaches s s' r"
proof -
  obtain x where x: "rb_role s r = Some x" using assms(2) by auto
  show ?thesis
    using up.inherit_law [OF shape_walkable(1) [OF assms(1)] x] x
    by (auto simp: rbac_inherit_sup_def reaches_def role_rights_def superior_def)
qed

lemma inherit_sup_all:
  assumes "shape_ok s" "\<forall>r \<in> set rs. rb_role s r \<noteq> None"
  shows "\<exists>s'. each_role rbac_inherit_sup rs s = Some s' \<and> up.grown s s' \<and> (\<forall>r \<in> set rs. reaches s s' r)"
proof -
  have "rbac_inherit_sup = (\<lambda>r s. Option.bind (rb_role s r) (\<lambda>x. inherit_sup_loop r (r_sup x) s))"
    by (intro ext) (simp add: rbac_inherit_sup_def)
  then show ?thesis
    using up.inherit_all [OF shape_walkable(1) [OF assms(1)] assms(2)] by (simp add: reaches_def role_rights_def superior_def)
qed

lemma down_grown_shape:
  assumes "shape_ok s" "down.grown s s'"
  shows "shape_ok s'" "kept plain s s'" "role_rights s' = role_rights s"
proof -
  have k: "kept no_below s s'" using down.grown_kept assms(2) .
  show kp: "kept plain s s'" using kept_plain [OF no_below_plain k] .
  have "role_val below s p a \<subseteq> {}" for p a
    using shape_roleD [OF assms(1), of p] by (auto simp: role_val_def below_def role_ok_def split: option.split)
  then have "down.bounded (\<lambda>_ _. {}) s" by (simp add: down.bounded_def)
  then have "down.bounded (\<lambda>_ _. {}) s'" using down.grown_bounded assms(2) by blast
  then have "role_val below s' p a = {}" for p a by (simp add: down.bounded_def)
  then have "vs_ids (r_vs_sub x) = {}" if "rb_role s' p = Some x" for p x
  proof -
    have "role_val below s' p 0 = {}" by fact
    then show ?thesis using that by (simp add: role_val_def below_def)
  qed
  then show "shape_ok s'" by (rule kept_shape [OF kp assms(1)])
  show "role_rights s' = role_rights s"
  proof (intro ext)
    fix p a
    show "role_rights s' p a = role_rights s p a"
    proof (rule kept_cases [OF k, of p])
      fix y y' assume y: "rb_role s p = Some y" "rb_role s' p = Some y'" "no_below y' = no_below y"
      then have "r_vs y' = r_vs y" unfolding no_below_def by (cases y; cases y') simp
      then show ?thesis using y by (simp add: role_rights_def role_val_def rights_def)
    qed (simp add: role_rights_def role_val_def)
  qed
qed

lemma inherit_sub_ok:
  assumes "shape_ok s" "rb_role s r \<noteq> None"
  shows "\<exists>s'. rbac_inherit_sub r s = Some s' \<and> down.grown s s'"
proof -
  obtain x where x: "rb_role s r = Some x" using assms(2) by auto
  show ?thesis using down.inherit_law [OF shape_walkable(2) [OF assms(1)] x] x by (auto simp: rbac_inherit_sub_def)
qed

lemma inherit_sub_all:
  assumes "shape_ok s" "\<forall>r \<in> set rs. rb_role s r \<noteq> None"
  shows "\<exists>s'. each_role rbac_inherit_sub rs s = Some s' \<and> down.grown s s'"
proof -
  have "rbac_inherit_sub = (\<lambda>r s. Option.bind (rb_role s r) (\<lambda>x. inherit_sub_loop r (r_sub x) s))"
    by (intro ext) (simp add: rbac_inherit_sub_def)
  then show ?thesis
    using down.inherit_all [OF shape_walkable(2) [OF assms(1)] assms(2)] by auto
qed

text \<open>What is inherited is a bound of what a walk computes, and is reached when the walk has carried every given right upwards.\<close>

lemma inherited_bound:
  assumes "\<And>r a. role_rights s r a \<subseteq> inherited s r a"
  shows "up.bounded (inherited s) s"
proof -
  have "inherited s y a \<subseteq> inherited s x a" if "(y, x) \<in> hier_rel h_sub h_sup s" for x y a
  proof -
    have "(z, x) \<in> (superior s)\<^sup>*" if "(z, y) \<in> (superior s)\<^sup>*" for z
      using that \<open>(y, x) \<in> hier_rel h_sub h_sup s\<close> unfolding superior_def by (rule rtrancl_into_rtrancl)
    then show ?thesis by (auto simp: inherited_def)
  qed
  then show ?thesis using assms unfolding up.bounded_def role_rights_def by blast
qed

lemma rights_okI:
  assumes "shape_ok s" "up.grown s s'" "\<And>r a. role_rights s r a \<subseteq> inherited s r a"
    and "\<And>y z a. (y, z) \<in> (superior s)\<^sup>* \<Longrightarrow> rb_role s y \<noteq> None \<Longrightarrow> a < NR_ACCESS_TYPES \<Longrightarrow> own s y a \<subseteq> role_rights s' z a"
  shows "rights_ok s'"
proof -
  have k: "kept plain s s'" using up_grown_shape(2) [OF assms(1,2)] .
  have b: "role_rights s' r a \<subseteq> inherited s r a" for r a
    using up.grown_bounded [OF assms(2) inherited_bound [OF assms(3)]] by (simp add: up.bounded_def role_rights_def)
  have o: "own s y a \<subseteq> role_rights s' z a" if "(y, z) \<in> (superior s)\<^sup>*" "a < NR_ACCESS_TYPES" for y z a
  proof (cases "rb_role s y = None")
    case True
    then show ?thesis by (simp add: own_def)
  next
    case False
    then show ?thesis using assms(4) [OF that(1) _ that(2)] by simp
  qed
  have "inherited s z a \<subseteq> role_rights s' z a" if a: "a < NR_ACCESS_TYPES" for z a
    unfolding inherited_def
  proof (rule Union_least, elim CollectE exE conjE)
    fix X y assume "X = own s y a" "(y, z) \<in> (superior s)\<^sup>*"
    then show "X \<subseteq> role_rights s' z a" using o a by simp
  qed
  then show ?thesis using b unfolding rights_ok_def kept_inherited [OF k] by blast
qed

end
