(* ===== verification/Rbac_Ops.thy ===== *)
theory Rbac_Ops
  imports Rbac_Ok
begin

text \<open>
  The operations of \<open>users.c\<close> and \<open>roles.c\<close> on states that are \<open>rbac_ok\<close>: each returns, keeps the invariant, and what it does
  to the rights of the roles.
\<close>

subsection \<open>Fields that the invariant does not read\<close>

lemma frame_shape [simp]:
  "shape_ok (s\<lparr>rb_lock := b\<rparr>) = shape_ok s" "shape_ok (s\<lparr>rb_reinit := b\<rparr>) = shape_ok s" "shape_ok (s\<lparr>rb_room := n\<rparr>) = shape_ok s"
  by (simp_all add: shape_ok_def lists_ok_def links_ok_def slots_ok_def assigned_def fresh_ok_def role_ok_def space_ids_def superior_def hier_rel_def cong: conj_cong)

lemma frame_rights [simp]:
  "role_rights (s\<lparr>rb_lock := b\<rparr>) = role_rights s" "role_rights (s\<lparr>rb_reinit := b\<rparr>) = role_rights s" "role_rights (s\<lparr>rb_room := n\<rparr>) = role_rights s"
  "own (s\<lparr>rb_lock := b\<rparr>) = own s" "own (s\<lparr>rb_reinit := b\<rparr>) = own s" "own (s\<lparr>rb_room := n\<rparr>) = own s"
  "superior (s\<lparr>rb_lock := b\<rparr>) = superior s" "superior (s\<lparr>rb_reinit := b\<rparr>) = superior s" "superior (s\<lparr>rb_room := n\<rparr>) = superior s"
  by (simp_all add: fun_eq_iff role_rights_def role_val_def own_def space_ids_def superior_def hier_rel_def)

lemma frame_inherited [simp]:
  "inherited (s\<lparr>rb_lock := b\<rparr>) = inherited s" "inherited (s\<lparr>rb_reinit := b\<rparr>) = inherited s" "inherited (s\<lparr>rb_room := n\<rparr>) = inherited s"
  by (simp_all add: fun_eq_iff inherited_def)

lemma frame_rights_ok [simp]:
  "rights_ok (s\<lparr>rb_lock := b\<rparr>) = rights_ok s" "rights_ok (s\<lparr>rb_reinit := b\<rparr>) = rights_ok s" "rights_ok (s\<lparr>rb_room := n\<rparr>) = rights_ok s"
  by (simp_all add: rights_ok_def)

lemma shape_roles:
  assumes "shape_ok s"
  shows "r \<in> set (rb_roles s) \<longleftrightarrow> rb_role s r \<noteq> None" "distinct (rb_roles s)" "u \<in> set (rb_users s) \<longleftrightarrow> rb_user s u \<noteq> None"
  using assms by (auto simp: shape_ok_def lists_ok_def named_ok_def)

subsection \<open>Computing all rights\<close>

lemma clear_role_law:
  "role_ok s x \<Longrightarrow> plain (clear_role s x) = plain x \<and> rights (clear_role s x) a = {} \<and> vs_ids (r_vs_sub (clear_role s x)) = {}"
  by (simp add: role_ok_def clear_role_def set_role_def set_ROLE_def plain_def rights_def)

lemma role_ok_kept: "kept plain s s' \<Longrightarrow> role_ok s' x = role_ok s x"
  by (simp add: role_ok_def space_ids_def kept_fields)

lemma role_ok_plain: "plain y = plain x \<Longrightarrow> vs_ids (r_vs_sub y) = vs_ids (r_vs_sub x) \<Longrightarrow> role_ok s y = role_ok s x"
  using plain_fields [of y x] by (simp add: role_ok_def)

lemma clear_all_law:
  assumes "\<forall>r \<in> set rs. rb_role s r \<noteq> None" "\<forall>x \<in> ran (rb_role s). role_ok s x"
  shows "\<exists>s'. each_role (\<lambda>r s. map_option (\<lambda>_. upd_role r (clear_role s) s) (rb_role s r)) rs s = Some s' \<and> kept plain s s'
    \<and> (\<forall>x \<in> ran (rb_role s'). role_ok s' x)
    \<and> (\<forall>r a. role_rights s' r a = (if r \<in> set rs then {} else role_rights s r a))"
  using assms
proof (induction rs arbitrary: s)
  case Nil
  then show ?case by simp
next
  case (Cons r rs)
  then obtain x where x: "rb_role s r = Some x" "role_ok s x" by (auto simp: ran_def)
  let ?x = "clear_role s x"
  let ?s = "s\<lparr>rb_role := (rb_role s)(r \<mapsto> ?x)\<rparr>"
  have u: "upd_role r (clear_role s) s = ?s" using x(1) by (simp add: upd_role_def)
  have k: "kept plain s ?s" by (rule kept_upd [where y = x]) (use x clear_role_law in auto)
  have "role_ok s ?x" using clear_role_law [OF x(2), of 0] x(2) role_ok_plain [of ?x x] by (simp add: role_ok_def)
  then have "\<forall>x \<in> ran (rb_role ?s). role_ok ?s x" using Cons.prems(2) role_ok_kept [OF k] by (auto simp: ran_def split: if_splits)
  note ok = this
  have "\<forall>r \<in> set rs. rb_role ?s r \<noteq> None" using Cons.prems(1) by simp
  from Cons.IH [OF this ok] obtain s' where s': "each_role (\<lambda>r s. map_option (\<lambda>_. upd_role r (clear_role s) s) (rb_role s r)) rs ?s = Some s'" "kept plain ?s s'"
      "\<forall>x \<in> ran (rb_role s'). role_ok s' x" "\<forall>q a. role_rights s' q a = (if q \<in> set rs then {} else role_rights ?s q a)"
    by blast
  have "role_rights ?s q a = (if q = r then {} else role_rights s q a)" for q a
    using clear_role_law [OF x(2), of a] by (simp add: role_rights_def role_val_upd)
  then have "\<forall>q a. role_rights s' q a = (if q \<in> set (r # rs) then {} else role_rights s q a)" using s'(4) by simp
  then show ?case using s'(1,3) kept_trans [OF k s'(2)] x(1) u by auto
qed

text \<open>Where the space has its identifier nothing is allocated.\<close>

definition add_ids :: "nat \<Rightarrow> vs \<Rightarrow> role_s \<Rightarrow> role_s" where "add_ids a v x = x\<lparr>r_vs := (r_vs x)(a := vs_add v (r_vs x a))\<rparr>"

lemma add_ids_rights: "a < NR_ACCESS_TYPES \<Longrightarrow> rights (add_ids a v x) b = rights x b \<union> (if b = a then vs_ids v else {})"
  by (auto simp: rights_def add_ids_def)

lemma add_ids_plain [simp]: "plain (add_ids a v x) = plain x" by (simp add: plain_def add_ids_def)

lemma add_right_known:
  assumes "space_ids s t \<noteq> {}" "rb_role s r = Some x"
  shows "add_right r a t s = Some (Ret (0, s\<lparr>rb_role := (rb_role s)(r \<mapsto> add_ids a (sp_vs_id (ss_space (rb_spaces s) t)) x)\<rparr>))"
  using assms by (simp add: add_right_def space_get_vs_def space_ids_def vs_isclear_iff upd_role_def add_ids_def)

definition ids_of :: "rbac \<Rightarrow> (nat \<times> nat) set \<Rightarrow> nat \<Rightarrow> nat set" where "ids_of s es a = \<Union> {space_ids s t | t. (a, t) \<in> es}"

lemma ids_of_insert: "ids_of s (insert (b, t) es) a = ids_of s es a \<union> (if a = b then space_ids s t else {})"
  by (auto simp: ids_of_def)

lemma own_ids: "rb_role s r = Some x \<Longrightarrow> own s r a = ids_of s (perms x) a"
  by (simp add: own_def ids_of_def)

lemma kept_space_ids: "kept f s s' \<Longrightarrow> space_ids s' t = space_ids s t" by (simp add: space_ids_def kept_fields)

lemma kept_ids_of: "kept f s s' \<Longrightarrow> ids_of s' es a = ids_of s es a" by (simp add: ids_of_def kept_space_ids)

lemma add_rights_law:
  assumes "\<forall>(a, t) \<in> set es. a < NR_ACCESS_TYPES \<and> space_ids s t \<noteq> {}" "rb_role s r \<noteq> None" "\<forall>x \<in> ran (rb_role s). role_ok s x"
  shows "\<exists>s'. add_rights r es s = Some (Ret s') \<and> kept plain s s' \<and> (\<forall>x \<in> ran (rb_role s'). role_ok s' x)
    \<and> (\<forall>p a. role_rights s' p a = role_rights s p a \<union> (if p = r then ids_of s (set es) a else {}))"
  using assms
proof (induction es arbitrary: s)
  case Nil
  then show ?case by (simp add: ids_of_def)
next
  case (Cons e es)
  obtain b t where e: "e = (b, t)" by (cases e)
  obtain x where x: "rb_role s r = Some x" using Cons.prems(2) by auto
  let ?v = "sp_vs_id (ss_space (rb_spaces s) t)"
  let ?x = "add_ids b ?v x"
  let ?s = "s\<lparr>rb_role := (rb_role s)(r \<mapsto> ?x)\<rparr>"
  have b: "b < NR_ACCESS_TYPES" "space_ids s t \<noteq> {}" using Cons.prems(1) e by auto
  have k: "kept plain s ?s" by (rule kept_upd [where y = x]) (simp_all add: x)
  have "role_ok s x" using Cons.prems(3) x by (auto simp: ran_def)
  then have "role_ok s ?x" using role_ok_plain [OF add_ids_plain] by (simp add: add_ids_def)
  then have "\<forall>x \<in> ran (rb_role ?s). role_ok ?s x" using Cons.prems(3) role_ok_kept [OF k] by (auto simp: ran_def split: if_splits)
  note ok = this
  have "\<forall>(a, t) \<in> set es. a < NR_ACCESS_TYPES \<and> space_ids ?s t \<noteq> {}" "rb_role ?s r \<noteq> None"
    using Cons.prems(1) kept_space_ids [OF k] by auto
  from Cons.IH [OF this ok] obtain s' where s': "add_rights r es ?s = Some (Ret s')" "kept plain ?s s'" "\<forall>x \<in> ran (rb_role s'). role_ok s' x"
      "\<forall>p a. role_rights s' p a = role_rights ?s p a \<union> (if p = r then ids_of ?s (set es) a else {})"
    by blast
  have "role_rights ?s p a = role_rights s p a \<union> (if p = r \<and> a = b then space_ids s t else {})" for p a
    using x add_ids_rights [OF b(1), of ?v x a] by (auto simp: role_rights_def role_val_upd space_ids_def) (auto simp: role_val_def)
  then have "role_rights s' p a = role_rights s p a \<union> (if p = r then ids_of s (set (e # es)) a else {})" for p a
    using s'(4) kept_ids_of [OF k] by (auto simp: e ids_of_insert)
  moreover have "add_rights r (e # es) s = Some (Ret s')"
    using add_right_known [OF b(2) x] s'(1) by (simp add: e)
  ultimately show ?case using s'(3) kept_trans [OF k s'(2)] by blast
qed

lemma add_all_rights_law:
  assumes "distinct rs" "\<forall>r \<in> set rs. rb_role s r \<noteq> None" "\<forall>x \<in> ran (rb_role s). role_ok s x"
  shows "\<exists>s'. add_all_rights rs s = Some (Ret s') \<and> kept plain s s' \<and> (\<forall>x \<in> ran (rb_role s'). role_ok s' x)
    \<and> (\<forall>p a. role_rights s' p a = role_rights s p a \<union> (if p \<in> set rs then own s p a else {}))"
  using assms
proof (induction rs arbitrary: s)
  case Nil
  then show ?case by simp
next
  case (Cons r rs)
  obtain x where x: "rb_role s r = Some x" using Cons.prems(2) by auto
  then have "role_ok s x" using Cons.prems(3) by (auto simp: ran_def)
  then have es: "\<forall>(a, t) \<in> set (concat (r_perm x)). a < NR_ACCESS_TYPES \<and> space_ids s t \<noteq> {}" by (auto simp only: role_ok_def perms_def)
  obtain s1 where s1: "add_rights r (concat (r_perm x)) s = Some (Ret s1)" "kept plain s s1" "\<forall>x \<in> ran (rb_role s1). role_ok s1 x"
      "\<forall>p a. role_rights s1 p a = role_rights s p a \<union> (if p = r then ids_of s (set (concat (r_perm x))) a else {})"
    using add_rights_law [OF es _ Cons.prems(3)] x by blast
  have "\<forall>r \<in> set rs. rb_role s1 r \<noteq> None" using Cons.prems(2) kept_None [OF s1(2)] by auto
  then obtain s2 where s2: "add_all_rights rs s1 = Some (Ret s2)" "kept plain s1 s2" "\<forall>x \<in> ran (rb_role s2). role_ok s2 x"
      "\<forall>p a. role_rights s2 p a = role_rights s1 p a \<union> (if p \<in> set rs then own s1 p a else {})"
    using Cons.IH [of s1] Cons.prems(1) s1(3) by auto
  have "role_rights s2 p a = role_rights s p a \<union> (if p \<in> set (r # rs) then own s p a else {})" for p a
    using s2(4) s1(4) kept_own [OF s1(2)] own_ids [OF x] Cons.prems(1) by (auto simp: perms_def)
  then show ?case using s1(1) s2(1,3) x kept_trans [OF s1(2) s2(2)] by auto
qed

lemma kept_ok_shape:
  assumes "kept plain s s'" "shape_ok s" "\<forall>x \<in> ran (rb_role s'). role_ok s' x"
  shows "shape_ok s'"
  by (rule kept_shape [OF assms(1,2)]) (use assms(3) in \<open>auto simp: ran_def role_ok_def\<close>)

lemma reinit_law:
  assumes "rbac_ok s"
  shows "\<exists>s'. rbac_roles_reinit s = Some (Ret s') \<and> rbac_ok s' \<and> \<not> rb_reinit s' \<and> kept plain s (s'\<lparr>rb_reinit := rb_reinit s\<rparr>)"
proof -
  let ?s = "s\<lparr>rb_lock := True\<rparr>" and ?rs = "rb_roles s"
  have sh: "shape_ok s" "\<not> rb_lock s" using assms by (simp_all add: rbac_ok_def)
  have rs: "\<forall>r \<in> set ?rs. rb_role ?s r \<noteq> None" "distinct ?rs" using shape_roles [OF sh(1)] by simp_all
  have r: "\<forall>x \<in> ran (rb_role ?s). role_ok ?s x" using sh(1) by (simp add: shape_ok_def role_ok_def space_ids_def)
  obtain s1 where s1: "each_role (\<lambda>r s. map_option (\<lambda>_. upd_role r (clear_role s) s) (rb_role s r)) ?rs ?s = Some s1" "kept plain ?s s1"
      "\<forall>x \<in> ran (rb_role s1). role_ok s1 x" "\<forall>r a. role_rights s1 r a = (if r \<in> set ?rs then {} else role_rights ?s r a)"
    using clear_all_law [OF rs(1) r] by blast
  have z: "role_rights s1 r a = {}" for r a
    using s1(4) shape_roles(1) [OF sh(1), of r] by (cases "rb_role s r") (auto simp: role_rights_def role_val_def)
  have rs1: "\<forall>r \<in> set ?rs. rb_role s1 r \<noteq> None" using rs(1) kept_None [OF s1(2)] by auto
  obtain s2 where s2: "add_all_rights ?rs s1 = Some (Ret s2)" "kept plain s1 s2" "\<forall>x \<in> ran (rb_role s2). role_ok s2 x"
      "\<forall>p a. role_rights s2 p a = role_rights s1 p a \<union> (if p \<in> set ?rs then own s1 p a else {})"
    using add_all_rights_law [OF rs(2) rs1 s1(3)] by blast
  have k2: "kept plain ?s s2" using kept_trans [OF s1(2) s2(2)] .
  have sh2: "shape_ok s2" by (rule kept_ok_shape [OF k2]) (use sh(1) s2(3) in simp_all)
  have rs2: "\<forall>r \<in> set ?rs. rb_role s2 r \<noteq> None" using rs(1) kept_None [OF k2] by auto
  obtain s3 where s3: "each_role rbac_inherit_sup ?rs s2 = Some s3" "up.grown s2 s3" "\<forall>r \<in> set ?rs. reaches s2 s3 r"
    using inherit_sup_all [OF sh2 rs2] by blast
  have sh3: "shape_ok s3" "kept plain s2 s3" using up_grown_shape [OF sh2 s3(2)] by simp_all
  have "\<forall>r \<in> set ?rs. rb_role s3 r \<noteq> None" using rs2 kept_None [OF sh3(2)] by auto
  then obtain s4 where s4: "each_role rbac_inherit_sub ?rs s3 = Some s4" "down.grown s3 s4" using inherit_sub_all [OF sh3(1)] by blast
  have sh4: "shape_ok s4" "kept plain s3 s4" "role_rights s4 = role_rights s3" using down_grown_shape [OF sh3(1) s4(2)] by simp_all
  have own2: "role_rights s2 p a = own s2 p a" for p a
  proof (cases "rb_role s p = None")
    case True
    then show ?thesis using s2(4) z shape_roles(1) [OF sh(1), of p] kept_None [OF k2, of p] by (simp add: own_def)
  next
    case False
    then show ?thesis using s2(4) z shape_roles(1) [OF sh(1), of p] kept_own [OF s2(2)] by simp
  qed
  have "rights_ok s3"
  proof (rule rights_okI [OF sh2 s3(2)])
    show "role_rights s2 r a \<subseteq> inherited s2 r a" for r a unfolding own2 inherited_def by blast
    fix y z a
    assume yz: "(y, z) \<in> (superior s2)\<^sup>*" "rb_role s2 y \<noteq> None"
    then have "y \<in> set ?rs" using shape_roles(1) [OF sh2, of y] kept_fields [OF k2] by simp
    then show "own s2 y a \<subseteq> role_rights s3 z a" using s3(3) yz(1) own2 unfolding reaches_def by metis
  qed
  then have "rights_ok s4" using kept_inherited [OF sh4(2)] kept_None [OF sh4(2)] by (simp add: rights_ok_def sh4(3))
  moreover have "kept plain ?s s4" using kept_trans [OF kept_trans [OF k2 sh3(2)] sh4(2)] .
  then have "kept plain s ((unlock (s4\<lparr>rb_reinit := False\<rparr>))\<lparr>rb_reinit := rb_reinit s\<rparr>)"
    using sh(2) kept_fields(9) [of plain ?s s4] unfolding kept_def unlock_def by (cases s; cases s4) simp
  moreover have "rbac_roles_reinit s = Some (Ret (unlock (s4\<lparr>rb_reinit := False\<rparr>)))"
    using s1(1) s2(1) s3(1) s4(1) sh(2) kept_fields(3) [OF s1(2)] kept_fields(3) [OF k2] kept_fields(3) [OF sh3(2)]
    by (simp add: rbac_roles_reinit_def wrlock_def)
  ultimately show ?thesis using sh4(1) by (simp add: rbac_ok_def unlock_def)
qed

subsection \<open>New users and roles\<close>

lemma names_find_place:
  assumes "named_ok n name cell l" "length f < n"
  shows "\<exists>x xs ys. find_place (\<lambda>p. Option.bind (cell p) (\<lambda>u. field_cmp n (name u) f)) l = Some (x, xs, ys) \<and> l = xs @ ys
    \<and> (x \<noteq> 0 \<longrightarrow> (\<forall>p y. cell p = None \<longrightarrow> name y = f \<longrightarrow> named_ok n name (cell(p \<mapsto> y)) (xs @ p # ys)))
    \<and> (x = 0 \<longleftrightarrow> (\<exists>y \<in> ran cell. name y = f))"
proof -
  let ?k = "\<lambda>p. strcmp (name (the (cell p))) f"
  have c: "\<forall>p \<in> set l. Option.bind (cell p) (\<lambda>u. field_cmp n (name u) f) = Some (?k p)"
  proof
    fix p assume "p \<in> set l"
    then obtain u where "cell p = Some u" using assms(1) by (auto simp: named_ok_def)
    then show "Option.bind (cell p) (\<lambda>u. field_cmp n (name u) f) = Some (?k p)"
      using assms(1) field_cmp_short [of "name u" n f] by (auto simp: named_ok_def ran_def)
  qed
  obtain x xs ys where r: "find_place (\<lambda>p. Option.bind (cell p) (\<lambda>u. field_cmp n (name u) f)) l = Some (x, xs, ys)" "l = xs @ ys"
      "\<forall>p \<in> set xs. ?k p < 0" "case ys of [] \<Rightarrow> x \<noteq> 0 | q # _ \<Rightarrow> x = ?k q \<and> 0 \<le> x"
    using find_place_law [OF c] by blast
  have "named_ok n name (cell(p \<mapsto> y)) (xs @ p # ys)" if p: "x \<noteq> 0" "cell p = None" "name y = f" for p y
  proof (rule named_insert [OF assms(1) [unfolded r(2)] p(2,3) assms(2) r(3)])
    show "ys = [] \<or> 0 < ?k (hd ys)" using r(4) p(1) by (cases ys) (simp_all del: strcmp_0_iff)
  qed
  moreover have "x = 0 \<longleftrightarrow> (\<exists>y \<in> ran cell. name y = f)"
  proof
    assume "x = 0"
    then obtain q zs where q: "ys = q # zs" "?k q = 0" using r(4) by (cases ys) auto
    then have "q \<in> set l" using r(2) by simp
    then obtain u where "cell q = Some u" using assms(1) by (auto simp: named_ok_def)
    then show "\<exists>y \<in> ran cell. name y = f" using q(2) by (auto simp: ran_def)
  next
    assume "\<exists>y \<in> ran cell. name y = f"
    then obtain q u where q: "cell q = Some u" "name u = f" by (auto simp: ran_def)
    then have k: "?k q = 0" "q \<in> set l" using assms(1) by (auto simp: named_ok_def)
    then have "q \<in> set ys" using r(2,3) by fastforce
    then obtain z zs where z: "ys = z # zs" by (cases ys) auto
    show "x = 0"
    proof (cases "q = z")
      case True
      then show ?thesis using r(4) z k by simp
    next
      case False
      then have "strcmp (name (the (cell z))) (name (the (cell q))) < 0"
        using \<open>q \<in> set ys\<close> z assms(1) r(2) by (auto simp: named_ok_def sorted_wrt_append)
      then show ?thesis using r(4) z q by simp
    qed
  qed
  ultimately show ?thesis using r(1,2) by blast
qed

lemma fresh_take: "fresh_ok s \<Longrightarrow> fresh_ok (take_room s)" by (simp add: fresh_ok_def take_room_def)

lemma superior_ends: "shape_ok s \<Longrightarrow> (y, x) \<in> superior s \<Longrightarrow> rb_role s y \<noteq> None \<and> rb_role s x \<noteq> None"
  using shape_walkable(1) unfolding walkable_def superior_def hier_rel_def by auto

lemma superior_path_end: "shape_ok s \<Longrightarrow> (y, x) \<in> (superior s)\<^sup>* \<Longrightarrow> y \<noteq> x \<Longrightarrow> rb_role s y \<noteq> None \<and> rb_role s x \<noteq> None"
  using superior_ends by (metis converse_rtranclE rtranclE)

lemma rights_ok_eq:
  assumes "rights_ok s" "shape_ok s" "rb_role s r \<noteq> None"
  shows "role_rights s r a = inherited s r a"
proof (cases "a < NR_ACCESS_TYPES")
  case True
  then show ?thesis using assms by (simp add: rights_ok_def)
next
  case False
  then have "own s y a = {}" for y using own_access [OF assms(2)] by simp
  then show ?thesis using False by (auto simp: role_rights_def role_val_def rights_def inherited_def split: option.split)
qed

lemma new_role_ok: "role_ok s (new_role name)" by (simp add: role_ok_def new_role_def perms_def)

lemma new_role_shape:
  assumes sh: "shape_ok s" and n: "named_ok 64 r_name ((rb_role s)(rb_brk s \<mapsto> new_role name)) l"
  shows "shape_ok ((take_room s)\<lparr>rb_role := (rb_role s)(rb_brk s \<mapsto> new_role name), rb_roles := l\<rparr>)" (is "shape_ok ?s")
proof -
  have nw: "rb_role s (rb_brk s) = None" using sh by (simp add: shape_ok_def fresh_ok_def)
  have "lists_ok ?s" using sh n by (simp add: shape_ok_def lists_ok_def take_room_def)
  moreover have "links_ok ?s" using sh nw
    by (auto simp: shape_ok_def links_ok_def take_room_def new_role_def intro!: linked_new)
  moreover have "slots_ok ?s" "fresh_ok ?s" "acyclic (superior ?s)" using sh
    by (simp_all add: shape_ok_def slots_ok_def assigned_def fresh_ok_def take_room_def superior_def hier_rel_def)
  moreover have "role_ok ?s x = role_ok s x" for x by (simp add: role_ok_def space_ids_def take_room_def)
  then have "\<forall>x \<in> ran (rb_role ?s). role_ok ?s x" using sh new_role_ok [of s name] by (auto simp: shape_ok_def take_room_def ran_def split: if_splits)
  ultimately show ?thesis by (simp add: shape_ok_def)
qed

lemma new_role_rights:
  assumes sh: "shape_ok s" and r: "rights_ok s"
  shows "rights_ok ((take_room s)\<lparr>rb_role := (rb_role s)(rb_brk s \<mapsto> new_role name), rb_roles := l\<rparr>)" (is "rights_ok ?s")
  unfolding rights_ok_def
proof (intro allI impI)
  fix p a
  assume p: "rb_role ?s p \<noteq> None"
  let ?n = "rb_brk s"
  have nw: "rb_role s ?n = None" using sh by (simp add: shape_ok_def fresh_ok_def)
  have sup: "superior ?s = superior s" by (simp add: superior_def hier_rel_def take_room_def)
  have own: "own ?s y a = own s y a" for y
    using nw by (auto simp: own_def space_ids_def take_room_def new_role_def perms_def)
  have inh: "inherited ?s p a = inherited s p a" by (simp add: inherited_def sup own)
  show "role_rights ?s p a = inherited ?s p a"
  proof (cases "p = ?n")
    case True
    have "y = ?n" if "(y, ?n) \<in> (superior s)\<^sup>*" for y using superior_path_end [OF sh that] nw by blast
    moreover have "own s ?n a = {}" using nw by (simp add: own_def)
    ultimately have "inherited s ?n a = {}" unfolding inherited_def by blast
    moreover have "role_rights ?s ?n a = {}" by (simp add: role_rights_def role_val_def rights_def new_role_def)
    ultimately show ?thesis unfolding inh using True by simp
  next
    case False
    then have "role_rights ?s p a = role_rights s p a" by (simp add: role_rights_def role_val_def)
    moreover have "rb_role s p \<noteq> None" using p False by simp
    ultimately show ?thesis unfolding inh using rights_ok_eq [OF r sh] by simp
  qed
qed

lemma role_cmp_lock [simp]: "role_cmp (s\<lparr>rb_lock := b\<rparr>) = role_cmp s" by (simp add: fun_eq_iff role_cmp_def)

lemma role_add_law:
  assumes ok: "rbac_ok s" and name: "length name < 64"
  shows "\<exists>r s'. rbac_role_add name s = Some (r, s') \<and> rbac_ok s' \<and> rb_reinit s' = rb_reinit s
    \<and> (case r of None \<Rightarrow> s' = s \<and> (rb_room s = 0 \<or> (\<exists>y \<in> ran (rb_role s). r_name y = name))
       | Some p \<Rightarrow> (\<forall>y \<in> ran (rb_role s). r_name y \<noteq> name) \<and> rb_role s p = None \<and> rb_role s' = (rb_role s)(p \<mapsto> new_role name))"
proof -
  let ?s = "s\<lparr>rb_lock := True\<rparr>"
  have sh: "shape_ok s" "\<not> rb_lock s" using ok by (simp_all add: rbac_ok_def)
  have names: "named_ok 64 r_name (rb_role s) (rb_roles s)" using sh(1) by (simp add: shape_ok_def lists_ok_def)
  obtain x xs ys where r: "find_place (role_cmp s name) (rb_roles s) = Some (x, xs, ys)" "rb_roles s = xs @ ys"
      "x \<noteq> 0 \<longrightarrow> (\<forall>p y. rb_role s p = None \<longrightarrow> r_name y = name \<longrightarrow> named_ok 64 r_name ((rb_role s)(p \<mapsto> y)) (xs @ p # ys))"
      "x = 0 \<longleftrightarrow> (\<exists>y \<in> ran (rb_role s). r_name y = name)"
    using names_find_place [OF names name] unfolding role_cmp_def by blast
  show ?thesis
  proof (cases "x = 0 \<or> rb_room s = 0")
    case True
    then have "rbac_role_add name s = Some (None, unlock ?s)" using r(1) sh(2) by (auto simp: rbac_role_add_def wrlock_def)
    moreover have "unlock ?s = s" using sh(2) by (cases s) (simp add: unlock_def)
    ultimately show ?thesis using ok True r(4) by auto
  next
    case False
    let ?n = "rb_brk s"
    let ?t = "(take_room s)\<lparr>rb_role := (rb_role s)(?n \<mapsto> new_role name), rb_roles := xs @ ?n # ys\<rparr>"
    have nw: "rb_role s ?n = None" using sh(1) by (simp add: shape_ok_def fresh_ok_def)
    have "named_ok 64 r_name ((rb_role s)(?n \<mapsto> new_role name)) (xs @ ?n # ys)"
      using r(3) False nw name by (simp add: new_role_def)
    then have t: "shape_ok ?t" using new_role_shape [OF sh(1)] by blast
    have "rbac_role_add name s = Some (Some ?n, unlock ((take_room ?s)\<lparr>rb_role := (rb_role s)(?n \<mapsto> new_role name), rb_roles := xs @ ?n # ys\<rparr>))"
      using r(1) sh(2) False by (simp add: rbac_role_add_def wrlock_def Let_def)
    also have "unlock ((take_room ?s)\<lparr>rb_role := (rb_role s)(?n \<mapsto> new_role name), rb_roles := xs @ ?n # ys\<rparr>) = ?t"
      using sh(2) by (cases s) (simp add: unlock_def take_room_def)
    finally have "rbac_role_add name s = Some (Some ?n, ?t)" .
    moreover have "rbac_ok ?t" using t ok new_role_rights [OF sh(1)] by (auto simp: rbac_ok_def take_room_def)
    moreover have "rb_reinit ?t = rb_reinit s" by (simp add: take_room_def)
    ultimately show ?thesis using nw r(4) False by auto
  qed
qed

lemma user_add_law:
  assumes ok: "rbac_ok s" and name: "length name < 32"
  shows "\<exists>r s'. rbac_user_add name uid s = Some (r, s') \<and> rbac_ok s' \<and> rb_reinit s' = rb_reinit s
    \<and> (case r of None \<Rightarrow> s' = s \<and> (rb_room s = 0 \<or> (\<exists>y \<in> ran (rb_user s). u_name y = name))
       | Some p \<Rightarrow> (\<forall>y \<in> ran (rb_user s). u_name y \<noteq> name) \<and> rb_user s p = None \<and> rb_user s' = (rb_user s)(p \<mapsto> new_user name uid))"
proof -
  have sh: "shape_ok s" using ok by (simp add: rbac_ok_def)
  have names: "named_ok 32 u_name (rb_user s) (rb_users s)" using sh(1) by (simp add: shape_ok_def lists_ok_def)
  obtain x xs ys where r: "find_place (user_cmp s name) (rb_users s) = Some (x, xs, ys)" "rb_users s = xs @ ys"
      "x \<noteq> 0 \<longrightarrow> (\<forall>p y. rb_user s p = None \<longrightarrow> u_name y = name \<longrightarrow> named_ok 32 u_name ((rb_user s)(p \<mapsto> y)) (xs @ p # ys))"
      "x = 0 \<longleftrightarrow> (\<exists>y \<in> ran (rb_user s). u_name y = name)"
    using names_find_place [OF names name] unfolding user_cmp_def by blast
  show ?thesis
  proof (cases "x = 0 \<or> rb_room s = 0")
    case True
    then have "rbac_user_add name uid s = Some (None, s)" using r(1) by (auto simp: rbac_user_add_def)
    then show ?thesis using ok True r(4) by auto
  next
    case False
    let ?n = "rb_brk s"
    let ?t = "(take_room s)\<lparr>rb_user := (rb_user s)(?n \<mapsto> new_user name uid), rb_users := xs @ ?n # ys\<rparr>"
    have nw: "rb_user s ?n = None" using sh(1) by (simp add: shape_ok_def fresh_ok_def)
    have "named_ok 32 u_name ((rb_user s)(?n \<mapsto> new_user name uid)) (xs @ ?n # ys)"
      using r(3) False nw name by (simp add: new_user_def)
    then have "lists_ok ?t" using sh by (simp add: shape_ok_def lists_ok_def take_room_def)
    moreover have "linked a_user u_ua (rb_user ?t) (rb_ua s)"
      using sh nw by (auto simp: shape_ok_def links_ok_def new_user_def intro!: linked_new)
    then have "links_ok ?t" using sh by (simp add: shape_ok_def links_ok_def take_room_def)
    moreover have as: "assigned s `` {?n} = {}"
      using sh nw linkedD(3) [of a_user u_ua "rb_user s" "rb_ua s"] by (fastforce simp: shape_ok_def links_ok_def ran_def assigned_def)
    have "assigned ?t = assigned s" by (simp add: assigned_def take_room_def)
    then have "slots_ok ?t" using sh as by (simp add: shape_ok_def slots_ok_def take_room_def) (simp add: slots_def new_user_def)
    moreover have "fresh_ok ?t" "acyclic (superior ?t)" "\<forall>x \<in> ran (rb_role ?t). role_ok ?t x"
      using sh by (simp_all add: shape_ok_def fresh_ok_def take_room_def superior_def hier_rel_def role_ok_def space_ids_def)
    ultimately have "shape_ok ?t" by (simp add: shape_ok_def)
    moreover have "kept plain (take_room s) (take_room s)" by simp
    moreover have "rights_ok ?t = rights_ok s"
      by (simp add: rights_ok_def role_rights_def role_val_def inherited_def own_def superior_def hier_rel_def space_ids_def take_room_def)
    ultimately have "rbac_ok ?t" using ok by (simp add: rbac_ok_def take_room_def)
    moreover have "rbac_user_add name uid s = Some (Some ?n, ?t)" using r(1) False by (simp add: rbac_user_add_def Let_def)
    moreover have "rb_reinit ?t = rb_reinit s" by (simp add: take_room_def)
    ultimately show ?thesis using nw r(4) False by auto
  qed
qed

subsection \<open>Assignments of users\<close>

lemma first_slot_Some: "first_slot x n l = Some i \<Longrightarrow> i < n \<and> i < length l \<and> l ! i = x"
  by (induction x n l arbitrary: i rule: first_slot.induct) (auto split: if_splits)

lemma first_slot_None: "first_slot x n l = None \<Longrightarrow> i < n \<Longrightarrow> i < length l \<Longrightarrow> l ! i \<noteq> x"
proof (induction x n l arbitrary: i rule: first_slot.induct)
  case (3 x n y l)
  then show ?case by (cases i) (auto split: if_splits)
qed simp_all

lemma rights_frame:
  assumes "rb_hier s' = rb_hier s" "rb_spaces s' = rb_spaces s" "\<And>p. map_option r_vs (rb_role s' p) = map_option r_vs (rb_role s p)"
    "\<And>p. map_option r_perm (rb_role s' p) = map_option r_perm (rb_role s p)"
  shows "role_rights s' = role_rights s" "inherited s' = inherited s" "rights_ok s' = rights_ok s"
proof -
  have n: "rb_role s' p = None \<longleftrightarrow> rb_role s p = None" for p using assms(3) [of p] by (metis map_option_is_None)
  show r: "role_rights s' = role_rights s"
  proof (intro ext)
    fix p a
    show "role_rights s' p a = role_rights s p a"
      using n [of p] assms(3) [of p] by (cases "rb_role s p"; cases "rb_role s' p") (simp_all add: role_rights_def role_val_def rights_def)
  qed
  have "own s' p a = own s p a" for p a
    using n [of p] assms(2) assms(4) [of p] by (cases "rb_role s p"; cases "rb_role s' p") (simp_all add: own_def space_ids_def perms_def)
  moreover have "superior s' = superior s" using assms(1) by (simp add: superior_def hier_rel_def)
  ultimately show i: "inherited s' = inherited s" by (simp add: inherited_def fun_eq_iff)
  show "rights_ok s' = rights_ok s" using n r i by (simp add: rights_ok_def)
qed

lemma role_ok_cong:
  "r_perm y = r_perm x \<Longrightarrow> r_cinfo_sup y = r_cinfo_sup x \<Longrightarrow> r_cinfo_sub y = r_cinfo_sub x \<Longrightarrow> r_vs_sub y = r_vs_sub x
     \<Longrightarrow> rb_spaces s' = rb_spaces s \<Longrightarrow> role_ok s' y = role_ok s x"
  by (simp add: role_ok_def perms_def space_ids_def)

lemma fresh_bounds:
  assumes "shape_ok s"
  shows "rb_user s p = Some x \<Longrightarrow> p < rb_brk s" "rb_role s p = Some y \<Longrightarrow> p < rb_brk s" "rb_ua s p = Some a \<Longrightarrow> p < rb_brk s"
    "rb_hier s p = Some h \<Longrightarrow> p < rb_brk s"
  using assms by (metis fresh_ok_def not_less option.distinct(1) shape_ok_def)+

lemma shape_slots: "shape_ok s \<Longrightarrow> rb_user s u = Some x \<Longrightarrow> slots x (assigned s `` {u})"
  by (simp add: shape_ok_def slots_ok_def)

lemma slot_free:
  assumes "slots x rs" "first_slot (Some r) (u_nr x) (u_roles x) = None"
  shows "r \<notin> rs"
proof
  assume "r \<in> rs"
  then have "Some r \<in> set (u_roles x)" using assms(1) by (simp add: slots_def)
  then obtain i where i: "i < USER_MAX_ROLES" "u_roles x ! i = Some r" using assms(1) by (auto simp: slots_def in_set_conv_nth)
  moreover have "i < u_nr x" using i assms(1) by (cases "i < u_nr x") (auto simp: slots_def)
  ultimately show False using first_slot_None [OF assms(2)] assms(1) by (simp add: slots_def)
qed

lemma slot_found: "slots x rs \<Longrightarrow> first_slot (Some r) (u_nr x) (u_roles x) = Some i \<Longrightarrow> r \<in> rs \<and> i < USER_MAX_ROLES \<and> u_roles x ! i = Some r"
proof -
  assume a: "slots x rs" "first_slot (Some r) (u_nr x) (u_roles x) = Some i"
  have i: "i < length (u_roles x)" "u_roles x ! i = Some r" using first_slot_Some [OF a(2)] by simp_all
  then have "Some r \<in> set (u_roles x)" by (metis nth_mem)
  then show ?thesis using a(1) i by (simp add: slots_def)
qed

lemma set_update_None: "i < length l \<Longrightarrow> l ! i = None \<Longrightarrow> Some q \<in> set (l[i := Some r]) \<longleftrightarrow> q = r \<or> Some q \<in> set l"
  by (auto simp: set_conv_nth nth_list_update) (metis option.distinct(1))

lemma slots_add:
  assumes "slots x rs" "r \<notin> rs" and i: "i < USER_MAX_ROLES" "u_roles x ! i = None" "i < nr" "u_nr x \<le> nr" "nr \<le> USER_MAX_ROLES"
  shows "slots (x\<lparr>u_roles := (u_roles x)[i := Some r], u_nr := nr, u_ua := l\<rparr>) (insert r rs)"
proof -
  have l: "length (u_roles x) = USER_MAX_ROLES" using assms(1) by (simp add: slots_def)
  have old: "u_roles x ! j \<noteq> Some r" if "j < USER_MAX_ROLES" for j
    using assms(1,2) that l nth_mem [of j "u_roles x"] by (metis slots_def)
  have "j = k" if "j < USER_MAX_ROLES" "k < USER_MAX_ROLES" "(u_roles x)[i := Some r] ! j = Some q" "(u_roles x)[i := Some r] ! k = Some q" for j k q
    using that l i(1) old assms(1) unfolding slots_def nth_list_update [OF i(1) [folded l]] by (metis option.inject)
  moreover have "(u_roles x)[i := Some r] ! j = None" if "nr \<le> j" "j < USER_MAX_ROLES" for j
    using that i assms(1) by (simp add: slots_def)
  moreover have "Some q \<in> set ((u_roles x)[i := Some r]) \<longleftrightarrow> q \<in> insert r rs" for q
    using set_update_None [of i "u_roles x" q r] i(1,2) l assms(1) by (simp add: slots_def)
  ultimately show ?thesis using l i(5) unfolding slots_def by simp
qed

lemma slots_del:
  assumes "slots x rs" "i < USER_MAX_ROLES" "u_roles x ! i = Some r"
  shows "slots (x\<lparr>u_roles := (u_roles x)[i := None], u_ua := l\<rparr>) (rs - {r})"
proof -
  have l: "length (u_roles x) = USER_MAX_ROLES" using assms(1) by (simp add: slots_def)
  note upd = nth_list_update [OF assms(2) [folded l]]
  have one: "j = i" if "j < USER_MAX_ROLES" "u_roles x ! j = Some r" for j using assms that unfolding slots_def by blast
  have "j = k" if "j < USER_MAX_ROLES" "k < USER_MAX_ROLES" "(u_roles x)[i := None] ! j = Some q" "(u_roles x)[i := None] ! k = Some q" for j k q
    using that assms(1) unfolding slots_def upd by (metis option.distinct(1))
  moreover have "(u_roles x)[i := None] ! j = None" if "u_nr x \<le> j" "j < USER_MAX_ROLES" for j
    using that assms(1) unfolding slots_def upd by auto
  moreover have "Some q \<in> set ((u_roles x)[i := None]) \<longleftrightarrow> q \<in> rs - {r}" for q
  proof -
    have "Some q \<in> set ((u_roles x)[i := None]) \<longleftrightarrow> (\<exists>j < USER_MAX_ROLES. j \<noteq> i \<and> u_roles x ! j = Some q)"
      unfolding in_set_conv_nth length_list_update l upd by auto
    also have "\<dots> \<longleftrightarrow> q \<noteq> r \<and> Some q \<in> set (u_roles x)" using one assms(3) by (auto simp: in_set_conv_nth l)
    finally show ?thesis using assms(1) by (auto simp: slots_def)
  qed
  ultimately show ?thesis using assms(1) l unfolding slots_def by simp
qed

text \<open>The state after a cell has been linked, and that it has the right shape.\<close>

definition link_ua :: "nat \<Rightarrow> nat \<Rightarrow> nat \<Rightarrow> nat \<Rightarrow> rbac \<Rightarrow> rbac" where
  "link_ua user role i nr s =
     (let n = rb_brk s; s = take_room s in
      upd_role role (\<lambda>r. r\<lparr>r_ua := n # r_ua r\<rparr>)
        (upd_user user (\<lambda>u. u\<lparr>u_roles := (u_roles u)[i := Some role], u_nr := nr, u_ua := n # u_ua u\<rparr>)
          (s\<lparr>rb_ua := (rb_ua s)(n \<mapsto> \<lparr>a_user = user, a_role = role\<rparr>)\<rparr>)))"

lemma inj_add: "inj_on f (dom f) \<Longrightarrow> f n = None \<Longrightarrow> e \<notin> ran f \<Longrightarrow> inj_on (f(n \<mapsto> e)) (dom (f(n \<mapsto> e)))"
  by (auto simp: inj_on_def ran_def dom_def)

lemma assigned_cell: "(u, r) \<in> assigned s \<longleftrightarrow> \<lparr>a_user = u, a_role = r\<rparr> \<in> ran (rb_ua s)"
proof
  assume "(u, r) \<in> assigned s"
  then obtain e where "e \<in> ran (rb_ua s)" "a_user e = u" "a_role e = r" by (auto simp: assigned_def)
  then show "\<lparr>a_user = u, a_role = r\<rparr> \<in> ran (rb_ua s)" by (cases e) simp
qed (force simp: assigned_def)

lemma link_ua_ok:
  assumes ok: "rbac_ok s" and u: "rb_user s u = Some x" and r: "rb_role s r = Some y"
    and i: "i < USER_MAX_ROLES" "u_roles x ! i = None" "i < nr" "u_nr x \<le> nr" "nr \<le> USER_MAX_ROLES" and new: "r \<notin> assigned s `` {u}"
  shows "rbac_ok (link_ua u r i nr s)" "assigned (link_ua u r i nr s) = insert (u, r) (assigned s)" "rb_reinit (link_ua u r i nr s) = rb_reinit s"
proof -
  let ?n = "rb_brk s" and ?e = "\<lparr>a_user = u, a_role = r\<rparr>" and ?s = "link_ua u r i nr s"
  let ?x = "x\<lparr>u_roles := (u_roles x)[i := Some r], u_nr := nr, u_ua := ?n # u_ua x\<rparr>" and ?y = "y\<lparr>r_ua := ?n # r_ua y\<rparr>"
  have sh: "shape_ok s" using ok by (simp add: rbac_ok_def)
  have f: "rb_ua ?s = (rb_ua s)(?n \<mapsto> ?e)" "rb_user ?s = (rb_user s)(u \<mapsto> ?x)" "rb_role ?s = (rb_role s)(r \<mapsto> ?y)"
    "rb_users ?s = rb_users s" "rb_roles ?s = rb_roles s" "rb_hier ?s = rb_hier s" "rb_brk ?s = rb_brk s + 1" "rb_lock ?s = rb_lock s"
    "rb_reinit ?s = rb_reinit s" "rb_spaces ?s = rb_spaces s"
    using u r by (simp_all add: link_ua_def Let_def upd_role_def upd_user_def take_room_def)
  have fr: "rb_ua s ?n = None" using sh by (simp add: shape_ok_def fresh_ok_def)
  have "lists_ok ?s"
    using sh u r named_upd [of 32 u_name "rb_user s" _ u x ?x] named_upd [of 64 r_name "rb_role s" _ r y ?y]
    by (simp add: shape_ok_def lists_ok_def f)
  moreover have "links_ok ?s"
    using sh u r fr linked_add [of a_user u_ua "rb_user s" "rb_ua s" ?n ?e x ?x] linked_add [of a_role r_ua "rb_role s" "rb_ua s" ?n ?e y ?y]
      linked_upd [of h_sup r_sub "rb_role s" "rb_hier s" r y ?y] linked_upd [of h_sub r_sup "rb_role s" "rb_hier s" r y ?y]
    by (simp add: shape_ok_def links_ok_def f)
  moreover have as: "assigned ?s = insert (u, r) (assigned s)" unfolding assigned_def f ran_map_upd [of "rb_ua s" ?n ?e, OF fr]
    by (auto intro: exI [where x = ?e])
  have "slots_ok ?s"
    unfolding slots_ok_def
  proof (intro conjI allI impI)
    fix v z assume v: "rb_user ?s v = Some z"
    show "slots z (assigned ?s `` {v})"
    proof (cases "v = u")
      case True
      have "assigned ?s `` {u} = insert r (assigned s `` {u})" by (auto simp: as)
      moreover have "z = ?x" using v True by (simp add: f)
      ultimately show ?thesis using slots_add [OF shape_slots [OF sh u] new i, of "?n # u_ua x"] True by simp
    next
      case False
      have "assigned ?s `` {v} = assigned s `` {v}" using False by (auto simp: as)
      then show ?thesis using shape_slots [OF sh] v False by (simp add: f)
    qed
  next
    have "?e \<notin> ran (rb_ua s)" using new assigned_cell by auto
    then show "inj_on (rb_ua ?s) (dom (rb_ua ?s))" unfolding f(1) by (intro inj_add) (use sh fr in \<open>simp_all add: shape_ok_def slots_ok_def\<close>)
  qed
  moreover have "fresh_ok ?s"
    unfolding fresh_ok_def f
  proof (intro allI impI)
    fix p assume p: "rb_brk s + 1 \<le> p"
    then have "p \<noteq> u" "p \<noteq> r" "p \<noteq> ?n" using fresh_bounds(1) [OF sh u] fresh_bounds(2) [OF sh r] by auto
    then show "((rb_user s)(u \<mapsto> ?x)) p = None \<and> ((rb_role s)(r \<mapsto> ?y)) p = None \<and> ((rb_ua s)(?n \<mapsto> ?e)) p = None \<and> rb_hier s p = None"
      using sh p by (simp add: shape_ok_def fresh_ok_def)
  qed
  moreover have "acyclic (superior ?s)" using sh by (simp add: shape_ok_def superior_def hier_rel_def f)
  moreover have "role_ok ?s ?y = role_ok s y" "role_ok ?s z = role_ok s z" for z by (rule role_ok_cong; simp add: f(10))+
  then have "\<forall>z \<in> ran (rb_role ?s). role_ok ?s z" using sh shape_roleD [OF sh r] by (auto simp: shape_ok_def f(3) ran_def split: if_splits)
  ultimately have "shape_ok ?s" by (simp add: shape_ok_def)
  moreover have "rights_ok ?s = rights_ok s" by (rule rights_frame) (simp_all add: f r)
  ultimately show "rbac_ok ?s" using ok by (simp add: rbac_ok_def f)
  show "assigned ?s = insert (u, r) (assigned s)" by (fact as)
  show "rb_reinit ?s = rb_reinit s" by (fact f(9))
qed

lemma take_room_ok: "rbac_ok s \<Longrightarrow> rbac_ok (take_room s)"
  by (simp add: rbac_ok_def shape_ok_def lists_ok_def links_ok_def slots_ok_def assigned_def fresh_ok_def role_ok_def space_ids_def take_room_def
      superior_def hier_rel_def rights_ok_def role_rights_def role_val_def inherited_def own_def)

lemma frame_ok [simp]: "rbac_ok (s\<lparr>rb_room := n\<rparr>) = rbac_ok s" by (simp add: rbac_ok_def)

lemma give_room_ok [simp]: "rbac_ok (give_room n s) = rbac_ok s" "rb_reinit (give_room n s) = rb_reinit s" "assigned (give_room n s) = assigned s"
  by (simp_all add: give_room_def assigned_def)

lemma add_ua_law:
  assumes ok: "rbac_ok s" and u: "rb_user s u \<noteq> None" and r: "rb_role s r \<noteq> None"
  shows "\<exists>c s'. rbac_add_ua u r s = Some (c, s') \<and> rbac_ok s' \<and> rb_reinit s' = rb_reinit s
    \<and> (if c = 0 then (u, r) \<notin> assigned s \<and> assigned s' = insert (u, r) (assigned s) else c = -1 \<and> assigned s' = assigned s)"
proof -
  obtain x y where x: "rb_user s u = Some x" and y: "rb_role s r = Some y" using u r by auto
  have sh: "shape_ok s" using ok by (simp add: rbac_ok_def)
  have t: "rbac_ok (take_room s)" "rb_reinit (take_room s) = rb_reinit s" "assigned (take_room s) = assigned s"
    using take_room_ok [OF ok] by (simp_all add: take_room_def assigned_def)
  show ?thesis
  proof (cases "rb_room s = 0 \<or> first_slot (Some r) (u_nr x) (u_roles x) \<noteq> None")
    case True
    then show ?thesis using x ok t by (auto simp: rbac_add_ua_def Let_def)
  next
    case False
    then have new: "r \<notin> assigned s `` {u}" using slot_free [OF shape_slots [OF sh x]] by simp
    have l: "u_nr x \<le> USER_MAX_ROLES" "j < USER_MAX_ROLES \<Longrightarrow> u_nr x \<le> j \<Longrightarrow> u_roles x ! j = None" for j
      using shape_slots [OF sh x] by (simp_all add: slots_def)
    let ?c = "if USER_MAX_ROLES \<le> u_nr x then map_option (\<lambda>i. (i, u_nr x)) (first_slot None USER_MAX_ROLES (u_roles x)) else Some (u_nr x, u_nr x + 1)"
    show ?thesis
    proof (cases ?c)
      case None
      then have "rbac_add_ua u r s = Some (-1, take_room s)" using x False by (simp add: rbac_add_ua_def Let_def)
      then show ?thesis using t by simp
    next
      case (Some inr)
      obtain i nr where inr: "inr = (i, nr)" by (cases inr)
      have i: "i < USER_MAX_ROLES" "u_roles x ! i = None" "i < nr" "u_nr x \<le> nr" "nr \<le> USER_MAX_ROLES"
        using Some l(1) l(2) [of "u_nr x"] first_slot_Some [of None USER_MAX_ROLES "u_roles x" i] by (auto simp: inr split: if_splits)
      have "rbac_add_ua u r s = Some (0, link_ua u r i nr s)"
        using x y False Some by (simp add: rbac_add_ua_def Let_def inr link_ua_def take_room_def)
      then show ?thesis using link_ua_ok [OF ok x y i new] new by simp
    qed
  qed
qed

text \<open>Searching the list of one end for the other end.\<close>

lemma find_linked:
  assumes "linked at l cell edge" "cell p = Some x"
  shows "\<exists>r. find_cell (\<lambda>h. map_option P (edge h)) (l x) = Some r
    \<and> (case r of None \<Rightarrow> \<forall>e \<in> ran edge. at e = p \<longrightarrow> \<not> P e | Some h \<Rightarrow> h \<in> set (l x) \<and> (\<exists>e. edge h = Some e \<and> at e = p \<and> P e))"
proof -
  note l = linkedD [OF assms(1)]
  let ?k = "\<lambda>h. P (the (edge h))"
  have "\<forall>h \<in> set (l x). map_option P (edge h) = Some (?k h)" using l(2) [OF assms(2)] by auto
  then have f: "find_cell (\<lambda>h. map_option P (edge h)) (l x) = Some (List.find ?k (l x))" by (rule find_cell_law)
  show ?thesis
  proof (cases "List.find ?k (l x)")
    case None
    then have "\<forall>h \<in> set (l x). \<not> ?k h" by (simp add: find_None_iff)
    then have "\<not> P e" if e: "e \<in> ran edge" "at e = p" for e
    proof -
      obtain h where "edge h = Some e" using e(1) by (auto simp: ran_def)
      then show ?thesis using \<open>\<forall>h \<in> set (l x). \<not> ?k h\<close> l(2) [OF assms(2), of h] e(2) by auto
    qed
    then show ?thesis using f None by auto
  next
    case (Some h)
    then have "h \<in> set (l x)" "?k h" using find_Some_conv by fastforce+
    moreover obtain e where "edge h = Some e" "at e = p" using l(2) [OF assms(2), of h] \<open>h \<in> set (l x)\<close> by auto
    ultimately show ?thesis using f Some by auto
  qed
qed

definition unlink_ua :: "nat \<Rightarrow> nat \<Rightarrow> nat \<Rightarrow> nat \<Rightarrow> rbac \<Rightarrow> rbac" where
  "unlink_ua u r a i s = upd_role r (\<lambda>y. y\<lparr>r_ua := remove1 a (r_ua y)\<rparr>)
     (upd_user u (\<lambda>x. x\<lparr>u_roles := (u_roles x)[i := None], u_ua := remove1 a (u_ua x)\<rparr>) (s\<lparr>rb_ua := (rb_ua s)(a := None)\<rparr>))"

lemma unlink_ua_ok:
  assumes sh: "shape_ok s" and u: "rb_user s u = Some x" and r: "rb_role s r = Some y"
    and a: "rb_ua s a = Some \<lparr>a_user = u, a_role = r\<rparr>" and i: "i < USER_MAX_ROLES" "u_roles x ! i = Some r"
  shows "shape_ok (unlink_ua u r a i s)" "assigned (unlink_ua u r a i s) = assigned s - {(u, r)}"
    "rb_role (unlink_ua u r a i s) = (rb_role s)(r \<mapsto> y\<lparr>r_ua := remove1 a (r_ua y)\<rparr>)" "rb_hier (unlink_ua u r a i s) = rb_hier s"
    "rb_spaces (unlink_ua u r a i s) = rb_spaces s" "rb_lock (unlink_ua u r a i s) = rb_lock s" "rb_reinit (unlink_ua u r a i s) = rb_reinit s"
    "rb_roles (unlink_ua u r a i s) = rb_roles s"
proof -
  let ?e = "\<lparr>a_user = u, a_role = r\<rparr>" and ?s = "unlink_ua u r a i s"
  let ?x = "x\<lparr>u_roles := (u_roles x)[i := None], u_ua := remove1 a (u_ua x)\<rparr>" and ?y = "y\<lparr>r_ua := remove1 a (r_ua y)\<rparr>"
  have f: "rb_ua ?s = (rb_ua s)(a := None)" "rb_user ?s = (rb_user s)(u \<mapsto> ?x)" "rb_role ?s = (rb_role s)(r \<mapsto> ?y)"
    "rb_users ?s = rb_users s" "rb_roles ?s = rb_roles s" "rb_hier ?s = rb_hier s" "rb_brk ?s = rb_brk s" "rb_lock ?s = rb_lock s"
    "rb_reinit ?s = rb_reinit s" "rb_spaces ?s = rb_spaces s"
    using u r by (simp_all add: unlink_ua_def upd_role_def upd_user_def)
  show "rb_role ?s = (rb_role s)(r \<mapsto> ?y)" "rb_hier ?s = rb_hier s" "rb_spaces ?s = rb_spaces s" "rb_lock ?s = rb_lock s" "rb_reinit ?s = rb_reinit s"
    "rb_roles ?s = rb_roles s" by (fact f)+
  have inj: "inj_on (rb_ua s) (dom (rb_ua s))" using sh by (simp add: shape_ok_def slots_ok_def)
  have ran: "ran ((rb_ua s)(a := None)) = ran (rb_ua s) - {?e}"
  proof -
    have "rb_ua s h \<noteq> Some ?e" if "h \<noteq> a" for h using inj a that by (metis domI inj_onD)
    then have "e \<in> ran ((rb_ua s)(a := None)) \<longleftrightarrow> e \<in> ran (rb_ua s) - {?e}" for e
      using a unfolding ran_def by (simp add: fun_upd_def) (metis option.inject)
    then show ?thesis by blast
  qed
  show as: "assigned ?s = assigned s - {(u, r)}" unfolding assigned_def f ran by auto
  have "lists_ok ?s"
    using sh u r named_upd [of 32 u_name "rb_user s" _ u x ?x] named_upd [of 64 r_name "rb_role s" _ r y ?y]
    by (simp add: shape_ok_def lists_ok_def f)
  moreover have "links_ok ?s"
    using sh u r a linked_del [of a_user u_ua "rb_user s" "rb_ua s" a ?e x ?x] linked_del [of a_role r_ua "rb_role s" "rb_ua s" a ?e y ?y]
      linked_upd [of h_sup r_sub "rb_role s" "rb_hier s" r y ?y] linked_upd [of h_sub r_sup "rb_role s" "rb_hier s" r y ?y]
    by (simp add: shape_ok_def links_ok_def f)
  moreover have "slots_ok ?s"
    unfolding slots_ok_def
  proof (intro conjI allI impI)
    fix v z assume v: "rb_user ?s v = Some z"
    show "slots z (assigned ?s `` {v})"
    proof (cases "v = u")
      case True
      have "assigned ?s `` {u} = assigned s `` {u} - {r}" by (auto simp: as)
      moreover have "z = ?x" using v True by (simp add: f)
      ultimately show ?thesis using slots_del [OF shape_slots [OF sh u] i, of "remove1 a (u_ua x)"] True by simp
    next
      case False
      have "assigned ?s `` {v} = assigned s `` {v}" using False by (auto simp: as)
      then show ?thesis using shape_slots [OF sh] v False by (simp add: f)
    qed
  next
    show "inj_on (rb_ua ?s) (dom (rb_ua ?s))" unfolding f(1) using inj by (auto simp: inj_on_def dom_def)
  qed
  moreover have "fresh_ok ?s"
    unfolding fresh_ok_def f
  proof (intro allI impI)
    fix p assume p: "rb_brk s \<le> p"
    then have "p \<noteq> u" "p \<noteq> r" using fresh_bounds(1) [OF sh u] fresh_bounds(2) [OF sh r] by auto
    then show "((rb_user s)(u \<mapsto> ?x)) p = None \<and> ((rb_role s)(r \<mapsto> ?y)) p = None \<and> ((rb_ua s)(a := None)) p = None \<and> rb_hier s p = None"
      using sh p by (simp add: shape_ok_def fresh_ok_def)
  qed
  moreover have "acyclic (superior ?s)" using sh by (simp add: shape_ok_def superior_def hier_rel_def f)
  moreover have "role_ok ?s ?y = role_ok s y" "role_ok ?s z = role_ok s z" for z by (rule role_ok_cong; simp add: f(10))+
  then have "\<forall>z \<in> ran (rb_role ?s). role_ok ?s z" using sh shape_roleD [OF sh r] by (auto simp: shape_ok_def f(3) ran_def split: if_splits)
  ultimately show "shape_ok ?s" by (simp add: shape_ok_def)
qed

lemma del_ua_law:
  assumes sh: "shape_ok s" and u: "rb_user s u = Some x" and r: "rb_role s r = Some y"
  shows "if (u, r) \<in> assigned s
    then \<exists>a i. rbac_del_ua u r s = Some (0, give_room 1 (unlink_ua u r a i s)) \<and> a \<in> set (r_ua y)
      \<and> rb_ua s a = Some \<lparr>a_user = u, a_role = r\<rparr> \<and> i < USER_MAX_ROLES \<and> u_roles x ! i = Some r
    else rbac_del_ua u r s = Some (-1, s)"
proof -
  have l: "linked a_user u_ua (rb_user s) (rb_ua s)" "linked a_role r_ua (rb_role s) (rb_ua s)"
    using sh by (simp_all add: shape_ok_def links_ok_def)
  obtain c where c: "find_cell (\<lambda>p. map_option (\<lambda>a. a_role a = r) (rb_ua s p)) (u_ua x) = Some c"
      "case c of None \<Rightarrow> \<forall>e \<in> ran (rb_ua s). a_user e = u \<longrightarrow> a_role e \<noteq> r
       | Some h \<Rightarrow> h \<in> set (u_ua x) \<and> (\<exists>e. rb_ua s h = Some e \<and> a_user e = u \<and> a_role e = r)"
    using find_linked [OF l(1) u, of "\<lambda>a. a_role a = r"] by blast
  note sl = shape_slots [OF sh u]
  show ?thesis
  proof (cases c)
    case None
    then have n: "(u, r) \<notin> assigned s" using c(2) by (auto simp: assigned_def)
    then have "first_slot (Some r) (u_nr x) (u_roles x) = None"
      using slot_found [OF sl, of r] by (cases "first_slot (Some r) (u_nr x) (u_roles x)") auto
    then show ?thesis using n c(1) None u by (simp add: rbac_del_ua_def)
  next
    case (Some a)
    then obtain e where e: "a \<in> set (u_ua x)" "rb_ua s a = Some e" "a_user e = u" "a_role e = r" using c(2) by auto
    then have a: "rb_ua s a = Some \<lparr>a_user = u, a_role = r\<rparr>" by (cases e) simp
    then have m: "(u, r) \<in> assigned s" using assigned_cell by (auto simp: ran_def)
    then obtain i where i: "first_slot (Some r) (u_nr x) (u_roles x) = Some i"
      using slot_free [OF sl, of r] by (cases "first_slot (Some r) (u_nr x) (u_roles x)") auto
    have ry: "a \<in> set (r_ua y)" using linkedD(2) [OF l(2) r] a by auto
    have "rbac_del_ua u r s = Some (0, give_room 1 (unlink_ua u r a i s))"
      using c(1) Some u r i e(1) ry by (simp add: rbac_del_ua_def unlink_def unlink_ua_def upd_user_def upd_role_def)
    then show ?thesis using m ry a slot_found [OF sl i] by auto
  qed
qed

end
