(* ===== verification/Rbac_Hier.thy ===== *)
theory Rbac_Hier
  imports Rbac_Ops
begin

text \<open>
  The hierarchy of roles and the permissions: the operations that change what a role inherits, and the deletion of a role.
\<close>

subsection \<open>The search for a role below another one\<close>

lemma shape_links:
  assumes "shape_ok s"
  shows "linked h_sup r_sub (rb_role s) (rb_hier s)" "linked h_sub r_sup (rb_role s) (rb_hier s)"
    "linked a_user u_ua (rb_user s) (rb_ua s)" "linked a_role r_ua (rb_role s) (rb_ua s)"
  using assms by (simp_all add: shape_ok_def links_ok_def)

lemma superior_iff: "(y, x) \<in> superior s \<longleftrightarrow> (\<exists>h e. rb_hier s h = Some e \<and> h_sub e = y \<and> h_sup e = x)"
  by (auto simp: superior_def hier_rel_def ran_def)

lemma superior_cell: "(y, x) \<in> superior s \<longleftrightarrow> \<lparr>h_sup = x, h_sub = y\<rparr> \<in> ran (rb_hier s)"
proof
  assume "(y, x) \<in> superior s"
  then obtain h e where "rb_hier s h = Some e" "h_sub e = y" "h_sup e = x" by (auto simp: superior_iff)
  then show "\<lparr>h_sup = x, h_sub = y\<rparr> \<in> ran (rb_hier s)" by (cases e) (auto simp: ran_def)
qed (force simp: superior_def hier_rel_def)

lemma wf_superior: "shape_ok s \<Longrightarrow> wf (superior s)"
  using finite_acyclic_wf finite_superior by (auto simp: shape_ok_def)

lemma sub_paths:
  assumes "shape_ok s" "rb_role s r = Some x"
  shows "(\<exists>h \<in> set (r_sub x). \<exists>e. rb_hier s h = Some e \<and> (t, h_sub e) \<in> (superior s)\<^sup>*) \<longleftrightarrow> (t, r) \<in> (superior s)\<^sup>+"
proof
  note l = linkedD(2) [OF shape_links(1) [OF assms(1)] assms(2)]
  {
    assume "\<exists>h \<in> set (r_sub x). \<exists>e. rb_hier s h = Some e \<and> (t, h_sub e) \<in> (superior s)\<^sup>*"
    then obtain h e where h: "h \<in> set (r_sub x)" "rb_hier s h = Some e" "(t, h_sub e) \<in> (superior s)\<^sup>*" by blast
    then have "(h_sub e, r) \<in> superior s" using l [of h] by (auto simp: superior_iff)
    with h(3) show "(t, r) \<in> (superior s)\<^sup>+" by (rule rtrancl_into_trancl1)
  next
    assume "(t, r) \<in> (superior s)\<^sup>+"
    then obtain w where w: "(t, w) \<in> (superior s)\<^sup>*" "(w, r) \<in> superior s" by (meson tranclD2)
    then obtain h e where h: "rb_hier s h = Some e" "h_sub e = w" "h_sup e = r" by (auto simp: superior_iff)
    then have "h \<in> set (r_sub x)" using l by blast
    then show "\<exists>h \<in> set (r_sub x). \<exists>e. rb_hier s h = Some e \<and> (t, h_sub e) \<in> (superior s)\<^sup>*" using h w(1) by blast
  }
qed

lemma subrole_loop_law:
  assumes sh: "shape_ok s" and wf: "wf (superior s)"
  shows "\<forall>h \<in> set hs. \<exists>e. rb_hier s h = Some e \<and> h_sup e = r \<Longrightarrow>
    subrole_loop hs t s = Some (\<exists>h \<in> set hs. \<exists>e. rb_hier s h = Some e \<and> (t, h_sub e) \<in> (superior s)\<^sup>*)"
  using wf
proof (induction r arbitrary: hs rule: wf_induct_rule)
  case (less r)
  show ?case
    using less.prems
  proof (induction hs)
    case Nil
    then show ?case by (simp add: subrole_loop.simps)
  next
    case (Cons h hs)
    obtain e where e: "rb_hier s h = Some e" "h_sup e = r" using Cons.prems by auto
    have edge: "(h_sub e, r) \<in> superior s" using e by (auto simp: superior_iff)
    obtain x where x: "rb_role s (h_sub e) = Some x" using superior_ends [OF sh edge] by auto
    have l: "h' \<in> set (r_sub x) \<longleftrightarrow> (\<exists>e'. rb_hier s h' = Some e' \<and> h_sup e' = h_sub e)" for h'
      using linkedD(2) [OF shape_links(1) [OF sh] x] .
    have rec: "subrole_loop (r_sub x) t s = Some (\<exists>h \<in> set (r_sub x). \<exists>e. rb_hier s h = Some e \<and> (t, h_sub e) \<in> (superior s)\<^sup>*)"
      using less.IH [OF edge] l by auto
    then have rec: "subrole_loop (r_sub x) t s = Some ((t, h_sub e) \<in> (superior s)\<^sup>+)" unfolding sub_paths [OF sh x] .
    have "subrole_loop (h # hs) t s = (if h_sub e = t \<or> (t, h_sub e) \<in> (superior s)\<^sup>+ then Some True else subrole_loop hs t s)"
      by (subst subrole_loop.simps) (simp add: e x rec)
    also have "\<dots> = Some (\<exists>h \<in> set (h # hs). \<exists>e. rb_hier s h = Some e \<and> (t, h_sub e) \<in> (superior s)\<^sup>*)"
      using Cons.IH Cons.prems e(1) by (auto simp: rtrancl_eq_or_trancl)
    finally show ?case .
  qed
qed

lemma is_subrole_law:
  assumes sh: "shape_ok s" and r: "rb_role s r \<noteq> None"
  shows "is_subrole r t s = Some ((t, r) \<in> (superior s)\<^sup>+)"
proof -
  obtain x where x: "rb_role s r = Some x" using r by auto
  have l: "h \<in> set (r_sub x) \<longleftrightarrow> (\<exists>e. rb_hier s h = Some e \<and> h_sup e = r)" for h
    using linkedD(2) [OF shape_links(1) [OF sh] x] .
  have "subrole_loop (r_sub x) t s = Some (\<exists>h \<in> set (r_sub x). \<exists>e. rb_hier s h = Some e \<and> (t, h_sub e) \<in> (superior s)\<^sup>*)"
    by (rule subrole_loop_law [OF sh wf_superior [OF sh], of _ r]) (use l in auto)
  then show ?thesis unfolding sub_paths [OF sh x] using x by (simp add: is_subrole_def)
qed

subsection \<open>Linking and unlinking of an edge\<close>

definition link_hier :: "nat \<Rightarrow> nat \<Rightarrow> rbac \<Rightarrow> rbac" where
  "link_hier p b s =
     (let n = rb_brk s; s = (take_room s)\<lparr>rb_hier := (rb_hier s)(n \<mapsto> \<lparr>h_sup = p, h_sub = b\<rparr>)\<rparr>;
          s = upd_role b (\<lambda>r. r\<lparr>r_sup := n # r_sup r\<rparr>) s in
      upd_role p (\<lambda>r. r\<lparr>r_sub := n # r_sub r\<rparr>) s)"

text \<open>A change of the links of two roles that are not the same.\<close>

lemma shape_relink:
  assumes sh: "shape_ok s" and x: "rb_role s p = Some x" and y: "rb_role s b = Some y" and pb: "p \<noteq> b"
    and f: "rb_role s' = (rb_role s)(b \<mapsto> y\<lparr>r_sup := lp\<rparr>, p \<mapsto> x\<lparr>r_sub := lb\<rparr>)"
      "rb_users s' = rb_users s" "rb_roles s' = rb_roles s" "rb_user s' = rb_user s" "rb_ua s' = rb_ua s" "rb_brk s \<le> rb_brk s'"
      "rb_spaces s' = rb_spaces s"
    and h: "\<forall>q \<ge> rb_brk s'. rb_hier s' q = None" "acyclic (superior s')"
      "linked h_sup r_sub (rb_role s') (rb_hier s')" "linked h_sub r_sup (rb_role s') (rb_hier s')"
  shows "shape_ok s'" "role_rights s' = role_rights s" "own s' = own s"
proof -
  let ?y = "y\<lparr>r_sup := lp\<rparr>" and ?x = "x\<lparr>r_sub := lb\<rparr>"
  have m: "map_option g (rb_role s' q) = map_option g (rb_role s q)" if "g ?y = g y" "g ?x = g x" for g q
    using that x y by (simp add: f(1))
  have "lists_ok s'"
    using sh named_cong [of 64 r_name "rb_role s" "rb_roles s" "rb_role s'"] m [of r_name] by (simp add: shape_ok_def lists_ok_def f(2,3,4))
  moreover have "linked a_role r_ua (rb_role s') (rb_ua s)"
    by (rule linked_cong [OF shape_links(4) [OF sh]]) (rule m, simp_all)
  then have "links_ok s'" using sh h by (simp add: shape_ok_def links_ok_def f(4,5))
  moreover have "slots_ok s'" using sh by (simp add: shape_ok_def slots_ok_def assigned_def f(4,5))
  moreover have "fresh_ok s'"
    unfolding fresh_ok_def
  proof (intro allI impI)
    fix q assume q: "rb_brk s' \<le> q"
    then have "q \<noteq> p" "q \<noteq> b" "rb_brk s \<le> q" using fresh_bounds(2) [OF sh x] fresh_bounds(2) [OF sh y] f(6) by auto
    then show "rb_user s' q = None \<and> rb_role s' q = None \<and> rb_ua s' q = None \<and> rb_hier s' q = None"
      using sh h(1) q by (simp add: shape_ok_def fresh_ok_def f(1,4,5))
  qed
  moreover have r: "role_ok s' ?x = role_ok s x" "role_ok s' ?y = role_ok s y" "role_ok s' z = role_ok s z" for z
    by (rule role_ok_cong; simp add: f(7))+
  have "\<forall>z \<in> ran (rb_role s'). role_ok s' z"
    using sh shape_roleD [OF sh x] shape_roleD [OF sh y] r by (auto simp: shape_ok_def f(1) ran_def split: if_splits)
  ultimately show "shape_ok s'" using h(2) by (simp add: shape_ok_def)
  show "role_rights s' = role_rights s" using x y by (auto simp: fun_eq_iff role_rights_def role_val_def rights_def f(1))
  show "own s' = own s" using x y by (auto simp: fun_eq_iff own_def space_ids_def perms_def f(1,7))
qed

lemma link_hier_ok:
  assumes sh: "shape_ok s" and x: "rb_role s p = Some x" and y: "rb_role s b = Some y" and pb: "p \<noteq> b" and n: "(p, b) \<notin> (superior s)\<^sup>+"
  shows "shape_ok (link_hier p b s)" "role_rights (link_hier p b s) = role_rights s" "own (link_hier p b s) = own s"
    "superior (link_hier p b s) = insert (b, p) (superior s)" "rb_role (link_hier p b s) q = None \<longleftrightarrow> rb_role s q = None"
    "rb_lock (link_hier p b s) = rb_lock s" "rb_reinit (link_hier p b s) = rb_reinit s"
proof -
  let ?n = "rb_brk s" and ?e = "\<lparr>h_sup = p, h_sub = b\<rparr>" and ?s = "link_hier p b s"
  have f: "rb_role ?s = (rb_role s)(b \<mapsto> y\<lparr>r_sup := ?n # r_sup y\<rparr>, p \<mapsto> x\<lparr>r_sub := ?n # r_sub x\<rparr>)" "rb_hier ?s = (rb_hier s)(?n \<mapsto> ?e)"
    "rb_users ?s = rb_users s" "rb_roles ?s = rb_roles s" "rb_user ?s = rb_user s" "rb_ua ?s = rb_ua s" "rb_brk ?s = rb_brk s + 1"
    "rb_spaces ?s = rb_spaces s" "rb_lock ?s = rb_lock s" "rb_reinit ?s = rb_reinit s"
    using x y pb by (simp_all add: link_hier_def Let_def upd_role_def take_room_def)
  have fr: "rb_hier s ?n = None" using sh by (simp add: shape_ok_def fresh_ok_def)
  show su: "superior ?s = insert (b, p) (superior s)"
    unfolding superior_def hier_rel_def f(2) ran_map_upd [of "rb_hier s" ?n ?e, OF fr] by (auto intro: exI [where x = ?e])
  show "rb_role ?s q = None \<longleftrightarrow> rb_role s q = None" using x y by (auto simp: f(1))
  show "rb_lock ?s = rb_lock s" "rb_reinit ?s = rb_reinit s" by (fact f)+
  have "(p, b) \<notin> (superior s)\<^sup>*" using n pb by (simp add: rtrancl_eq_or_trancl)
  then have ac: "acyclic (superior ?s)" using sh by (simp add: su acyclic_insert shape_ok_def)
  have "linked h_sup r_sub ((rb_role s)(p \<mapsto> x\<lparr>r_sub := ?n # r_sub x\<rparr>)) (rb_hier ?s)"
    unfolding f using linked_add [OF shape_links(1) [OF sh] fr, of ?e x] x by simp
  then have "linked h_sup r_sub ((rb_role s)(p \<mapsto> x\<lparr>r_sub := ?n # r_sub x\<rparr>, b \<mapsto> y\<lparr>r_sup := ?n # r_sup y\<rparr>)) (rb_hier ?s)"
    by (rule linked_upd [where y = y]) (use pb y in simp_all)
  then have l1: "linked h_sup r_sub (rb_role ?s) (rb_hier ?s)" unfolding f(1) using pb by (simp add: fun_upd_twist)
  have "linked h_sub r_sup ((rb_role s)(b \<mapsto> y\<lparr>r_sup := ?n # r_sup y\<rparr>)) (rb_hier ?s)"
    unfolding f using linked_add [OF shape_links(2) [OF sh] fr, of ?e y] y by simp
  then have l2: "linked h_sub r_sup (rb_role ?s) (rb_hier ?s)"
    unfolding f(1) by (rule linked_upd [where y = x]) (use pb x in simp_all)
  have hn: "\<forall>q \<ge> rb_brk ?s. rb_hier ?s q = None" using sh by (simp add: shape_ok_def fresh_ok_def f)
  have le: "rb_brk s \<le> rb_brk ?s" by (simp add: f)
  show "shape_ok ?s" "role_rights ?s = role_rights s" "own ?s = own s"
    using shape_relink [OF sh x y pb f(1,3-6) le f(8) hn ac l1 l2] by simp_all
qed

lemma roles_rights_None: "rb_role s r = None \<Longrightarrow> role_rights s r a = {}"
  by (simp add: role_rights_def role_val_def)

lemma set_hierarchy_law:
  assumes ok: "rbac_ok s" and p: "rb_role s p \<noteq> None" and b: "rb_role s b \<noteq> None" and pb: "p \<noteq> b"
  shows "\<exists>c s'. rbac_set_hierarchy p b s = Some (c, s') \<and> rbac_ok s' \<and> rb_reinit s' = rb_reinit s
    \<and> (if c = 0 then superior s' = insert (b, p) (superior s) \<and> own s' = own s
       else c = -1 \<and> s' = s \<and> (rb_room s = 0 \<or> (p, b) \<in> (superior s)\<^sup>+))"
proof -
  obtain x y where x: "rb_role s p = Some x" and y: "rb_role s b = Some y" using p b by auto
  have sh: "shape_ok s" "\<not> rb_lock s" "rb_reinit s \<or> rights_ok s" using ok by (simp_all add: rbac_ok_def)
  note sub = is_subrole_law [OF sh(1) b, of p]
  show ?thesis
  proof (cases "(p, b) \<in> (superior s)\<^sup>+ \<or> rb_room s = 0")
    case True
    then show ?thesis using ok sub by (auto simp: rbac_set_hierarchy_def)
  next
    case False
    let ?s = "link_hier p b s"
    note l = link_hier_ok [OF sh(1) x y pb]
    have n: "(p, b) \<notin> (superior s)\<^sup>+" using False by simp
    have ex: "rb_role ?s b \<noteq> None" "rb_role ?s p \<noteq> None" using l(5) [OF n] p b by simp_all
    obtain s2 where s2: "rbac_inherit_sup b ?s = Some s2" "up.grown ?s s2" "reaches ?s s2 b"
      using inherit_sup_ok [OF l(1) [OF n] ex(1)] by blast
    have sh2: "shape_ok s2" "kept plain ?s s2" using up_grown_shape [OF l(1) [OF n] s2(2)] by simp_all
    have "rb_role s2 p \<noteq> None" using kept_None [OF sh2(2)] ex(2) by simp
    then obtain s3 where s3: "rbac_inherit_sub p s2 = Some s3" "down.grown s2 s3" using inherit_sub_ok [OF sh2(1)] by blast
    have sh3: "shape_ok s3" "kept plain s2 s3" "role_rights s3 = role_rights s2" using down_grown_shape [OF sh2(1) s3(2)] by simp_all
    have run: "rbac_set_hierarchy p b s = Some (0, s3)"
      using sub False x s2(1) s3(1) by (simp add: rbac_set_hierarchy_def link_hier_def Let_def)
    have k: "kept plain ?s s3" using kept_trans [OF sh2(2) sh3(2)] .
    have "rights_ok s2" if r: "rights_ok s"
    proof (rule rights_okI [OF l(1) [OF n] s2(2)])
      have up: "inherited s z a \<subseteq> inherited ?s z a" for z a
        unfolding inherited_def l(3,4) [OF n] using rtrancl_mono [of "superior s" "insert (b, p) (superior s)"] by blast
      show "role_rights ?s z a \<subseteq> inherited ?s z a" for z a
        using rights_ok_eq [OF r sh(1), of z a] roles_rights_None [of s z a] up [of z a]
        by (cases "rb_role s z") (simp_all add: l(2) [OF n])
      fix z w a
      assume zw: "(z, w) \<in> (superior ?s)\<^sup>*" and z: "rb_role ?s z \<noteq> None"
      then have z': "rb_role s z \<noteq> None" using l(5) [OF n] by simp
      have own_in: "own s z a \<subseteq> inherited s v a" if "(z, v) \<in> (superior s)\<^sup>*" for v using that by (auto simp: inherited_def)
      consider "(z, w) \<in> (superior s)\<^sup>*" | "(z, b) \<in> (superior s)\<^sup>*" "(p, w) \<in> (superior ?s)\<^sup>*"
        using zw unfolding l(4) [OF n] rtrancl_insert using rtrancl_mono [of "superior s" "insert (b, p) (superior s)"] by blast
      then show "own ?s z a \<subseteq> role_rights s2 w a"
      proof cases
        case 1
        then have "rb_role s w \<noteq> None" using superior_path_end [OF sh(1) 1] z' by (cases "z = w") auto
        then have "own s z a \<subseteq> role_rights ?s w a" using own_in [OF 1] rights_ok_eq [OF r sh(1)] l(2) [OF n] by simp
        then show ?thesis using up.grown_le [OF s2(2)] unfolding role_rights_def l(3) [OF n] by blast
      next
        case 2
        have "(b, w) \<in> (superior ?s)\<^sup>*" using 2(2) l(4) [OF n] by (auto intro: converse_rtrancl_into_rtrancl)
        then have "role_rights ?s b a \<subseteq> role_rights s2 w a" using s2(3) by (simp add: reaches_def)
        then show ?thesis using own_in [OF 2(1)] rights_ok_eq [OF r sh(1) b] l(2,3) [OF n] by auto
      qed
    qed
    then have "rights_ok s3" if "rights_ok s"
      using that kept_inherited [OF sh3(2)] kept_None [OF sh3(2)] by (simp add: rights_ok_def sh3(3))
    then have "rbac_ok s3" using sh sh3(1) kept_fields [OF k] l(6,7) [OF n] by (auto simp: rbac_ok_def)
    moreover have "own s3 = own s" using kept_own [OF k] l(3) [OF n] by (simp add: fun_eq_iff)
    ultimately show ?thesis using run kept_superior [OF k] kept_fields [OF k] l(4,7) [OF n] by auto
  qed
qed

definition unlink_hier :: "nat \<Rightarrow> nat \<Rightarrow> nat \<Rightarrow> rbac \<Rightarrow> rbac" where
  "unlink_hier p b h s = upd_role b (\<lambda>r. r\<lparr>r_sup := remove1 h (r_sup r)\<rparr>) (upd_role p (\<lambda>r. r\<lparr>r_sub := remove1 h (r_sub r)\<rparr>)
     (s\<lparr>rb_hier := (rb_hier s)(h := None), rb_reinit := True\<rparr>))"

lemma edge_ends: "shape_ok s \<Longrightarrow> rb_hier s h = Some e \<Longrightarrow> h_sup e \<noteq> h_sub e"
  by (metis acyclic_def r_into_trancl' shape_ok_def superior_iff)

lemma unlink_hier_ok:
  assumes sh: "shape_ok s" and x: "rb_role s p = Some x" and y: "rb_role s b = Some y" and h: "rb_hier s h = Some \<lparr>h_sup = p, h_sub = b\<rparr>"
  shows "shape_ok (unlink_hier p b h s)" "role_rights (unlink_hier p b h s) = role_rights s" "own (unlink_hier p b h s) = own s"
    "superior (unlink_hier p b h s) \<subseteq> superior s" "superior s \<subseteq> insert (b, p) (superior (unlink_hier p b h s))"
    "rb_role (unlink_hier p b h s) = (rb_role s)(b \<mapsto> y\<lparr>r_sup := remove1 h (r_sup y)\<rparr>, p \<mapsto> x\<lparr>r_sub := remove1 h (r_sub x)\<rparr>)"
    "rb_lock (unlink_hier p b h s) = rb_lock s" "rb_reinit (unlink_hier p b h s)" "rb_roles (unlink_hier p b h s) = rb_roles s"
    "rb_ua (unlink_hier p b h s) = rb_ua s"
proof -
  let ?e = "\<lparr>h_sup = p, h_sub = b\<rparr>" and ?s = "unlink_hier p b h s"
  have pb: "p \<noteq> b" using edge_ends [OF sh h] by simp
  have f: "rb_role ?s = (rb_role s)(b \<mapsto> y\<lparr>r_sup := remove1 h (r_sup y)\<rparr>, p \<mapsto> x\<lparr>r_sub := remove1 h (r_sub x)\<rparr>)"
    "rb_hier ?s = (rb_hier s)(h := None)" "rb_users ?s = rb_users s" "rb_roles ?s = rb_roles s" "rb_user ?s = rb_user s" "rb_ua ?s = rb_ua s"
    "rb_brk ?s = rb_brk s" "rb_spaces ?s = rb_spaces s" "rb_lock ?s = rb_lock s" "rb_reinit ?s"
    using x y pb by (simp_all add: unlink_hier_def upd_role_def fun_upd_twist)
  show "rb_role ?s = (rb_role s)(b \<mapsto> y\<lparr>r_sup := remove1 h (r_sup y)\<rparr>, p \<mapsto> x\<lparr>r_sub := remove1 h (r_sub x)\<rparr>)"
    "rb_lock ?s = rb_lock s" "rb_reinit ?s" "rb_roles ?s = rb_roles s" "rb_ua ?s = rb_ua s" by (fact f)+
  show su: "superior ?s \<subseteq> superior s" by (auto simp: superior_iff f(2) split: if_splits) blast
  show "superior s \<subseteq> insert (b, p) (superior ?s)"
  proof
    fix q assume "q \<in> superior s"
    then obtain g e where g: "rb_hier s g = Some e" "q = (h_sub e, h_sup e)" by (cases q) (auto simp: superior_iff)
    then show "q \<in> insert (b, p) (superior ?s)" using h by (cases "g = h") (auto simp: superior_iff f(2))
  qed
  have ac: "acyclic (superior ?s)" using sh acyclic_subset [OF _ su] by (simp add: shape_ok_def)
  have "linked h_sup r_sub ((rb_role s)(p \<mapsto> x\<lparr>r_sub := remove1 h (r_sub x)\<rparr>)) (rb_hier ?s)"
    unfolding f using linked_del [OF shape_links(1) [OF sh] h] x by simp
  then have "linked h_sup r_sub ((rb_role s)(p \<mapsto> x\<lparr>r_sub := remove1 h (r_sub x)\<rparr>, b \<mapsto> y\<lparr>r_sup := remove1 h (r_sup y)\<rparr>)) (rb_hier ?s)"
    by (rule linked_upd [where y = y]) (use pb y in simp_all)
  then have l1: "linked h_sup r_sub (rb_role ?s) (rb_hier ?s)" unfolding f(1) using pb by (simp add: fun_upd_twist)
  have "linked h_sub r_sup ((rb_role s)(b \<mapsto> y\<lparr>r_sup := remove1 h (r_sup y)\<rparr>)) (rb_hier ?s)"
    unfolding f using linked_del [OF shape_links(2) [OF sh] h] y by simp
  then have l2: "linked h_sub r_sup (rb_role ?s) (rb_hier ?s)"
    unfolding f(1) by (rule linked_upd [where y = x]) (use pb x in simp_all)
  have hn: "\<forall>q \<ge> rb_brk ?s. rb_hier ?s q = None" using sh by (simp add: shape_ok_def fresh_ok_def f)
  have le: "rb_brk s \<le> rb_brk ?s" by (simp add: f)
  show "shape_ok ?s" "role_rights ?s = role_rights s" "own ?s = own s"
    using shape_relink [OF sh x y pb f(1,3-6) le f(8) hn ac l1 l2] by simp_all
qed

lemma del_hierarchy_law:
  assumes sh: "shape_ok s" and x: "rb_role s p = Some x" and y: "rb_role s b = Some y"
  shows "if (b, p) \<in> superior s
    then \<exists>h. rbac_del_hierarchy p b s = Some (0, give_room 1 (unlink_hier p b h s)) \<and> rb_hier s h = Some \<lparr>h_sup = p, h_sub = b\<rparr>
      \<and> h \<in> set (r_sub x) \<and> h \<in> set (r_sup y)
    else rbac_del_hierarchy p b s = Some (-1, s)"
proof -
  note l = shape_links [OF sh]
  obtain c where c: "find_cell (\<lambda>q. map_option (\<lambda>h. h_sub h = b) (rb_hier s q)) (r_sub x) = Some c"
      "case c of None \<Rightarrow> \<forall>e \<in> ran (rb_hier s). h_sup e = p \<longrightarrow> h_sub e \<noteq> b
       | Some h \<Rightarrow> h \<in> set (r_sub x) \<and> (\<exists>e. rb_hier s h = Some e \<and> h_sup e = p \<and> h_sub e = b)"
    using find_linked [OF l(1) x, of "\<lambda>h. h_sub h = b"] by blast
  show ?thesis
  proof (cases c)
    case None
    then have "(b, p) \<notin> superior s" using c(2) by (auto simp: superior_iff ran_def)
    then show ?thesis using c(1) None x by (simp add: rbac_del_hierarchy_def)
  next
    case (Some h)
    then obtain e where e: "h \<in> set (r_sub x)" "rb_hier s h = Some e" "h_sup e = p" "h_sub e = b" using c(2) by auto
    then have h: "rb_hier s h = Some \<lparr>h_sup = p, h_sub = b\<rparr>" by (cases e) simp
    then have m: "(b, p) \<in> superior s" using superior_cell by (auto simp: ran_def)
    have pb: "p \<noteq> b" using edge_ends [OF sh h] by simp
    have hy: "h \<in> set (r_sup y)" using linkedD(2) [OF l(2) y] h by auto
    have "rbac_del_hierarchy p b s = Some (0, give_room 1 (unlink_hier p b h s))"
      using c(1) Some x y e(1) hy pb by (simp add: rbac_del_hierarchy_def unlink_def unlink_hier_def upd_role_def)
    then show ?thesis using m h e(1) hy by auto
  qed
qed

subsection \<open>Permissions\<close>

definition blocks_ok :: "'a list list \<Rightarrow> bool" where "blocks_ok bs \<longleftrightarrow> (\<forall>b \<in> set bs. b \<noteq> [] \<and> length b \<le> 8)"

lemma blocks_ok_simps [simp]: "blocks_ok []" "blocks_ok (b # bs) \<longleftrightarrow> b \<noteq> [] \<and> length b \<le> 8 \<and> blocks_ok bs"
  by (simp_all add: blocks_ok_def)

lemma add_entry_law:
  "add_entry room e bs = Some (bs', n) \<Longrightarrow> set (concat bs') = insert e (set (concat bs)) \<and> (blocks_ok bs \<longrightarrow> blocks_ok bs')"
proof (induction room e bs arbitrary: bs' n rule: add_entry.induct)
  case (2 room e b bs)
  show ?case
  proof (cases "length b < 8")
    case True
    then have "bs' = (b @ [e]) # bs" using "2.prems" by simp
    then show ?thesis using True by auto
  next
    case False
    then obtain cs where "add_entry room e bs = Some (cs, n)" "bs' = b # cs" using "2.prems" by auto
    then show ?thesis using "2.IH" [OF False] by auto
  qed
qed (auto split: if_splits)

lemma set_remove1_insert: "set b \<subseteq> insert e (set (remove1 e b))"
  by (induction b) auto

lemma del_entry_law:
  "del_entry e bs = Some (bs', n) \<Longrightarrow> e \<in> set (concat bs) \<and> set (concat bs') \<subseteq> set (concat bs)
     \<and> set (concat bs) \<subseteq> insert e (set (concat bs')) \<and> (blocks_ok bs \<longrightarrow> blocks_ok bs')"
proof (induction e bs arbitrary: bs' n rule: del_entry.induct)
  case (2 e b bs)
  show ?case
  proof (cases "e \<in> set b")
    case True
    note r = set_remove1_subset [of e b] set_remove1_insert [of b e] length_remove1 [of e b]
    have "bs' = (if remove1 e b = [] then bs else remove1 e b # bs)" using "2.prems" True by (auto simp: Let_def split: if_splits)
    then show ?thesis using True r by (cases "remove1 e b = []") auto
  next
    case False
    then obtain cs where "del_entry e bs = Some (cs, n)" "bs' = b # cs" using "2.prems" by auto
    then show ?thesis using "2.IH" [OF False] by auto
  qed
qed simp

lemma role_ok_blocks: "role_ok s x \<longleftrightarrow> blocks_ok (r_perm x) \<and> (\<forall>(a, t) \<in> perms x. a < NR_ACCESS_TYPES \<and> space_ids s t \<noteq> {})
    \<and> r_cinfo_sup x = None \<and> r_cinfo_sub x = None \<and> vs_ids (r_vs_sub x) = {}"
  by (simp add: role_ok_def blocks_ok_def)

text \<open>A change of the permissions of one role.\<close>

lemma perm_shape:
  assumes sh: "shape_ok s" and x: "rb_role s r = Some x" and bs: "blocks_ok bs"
    and es: "\<forall>(a, t) \<in> set (concat bs). a < NR_ACCESS_TYPES \<and> space_ids s t \<noteq> {}"
  shows "shape_ok (upd_role r (\<lambda>r. r\<lparr>r_perm := bs\<rparr>) s)" "role_rights (upd_role r (\<lambda>r. r\<lparr>r_perm := bs\<rparr>) s) = role_rights s"
    "superior (upd_role r (\<lambda>r. r\<lparr>r_perm := bs\<rparr>) s) = superior s"
    "own (upd_role r (\<lambda>r. r\<lparr>r_perm := bs\<rparr>) s) y a = (if y = r then ids_of s (set (concat bs)) a else own s y a)"
proof -
  let ?s = "upd_role r (\<lambda>r. r\<lparr>r_perm := bs\<rparr>) s" and ?x = "x\<lparr>r_perm := bs\<rparr>"
  have f: "?s = s\<lparr>rb_role := (rb_role s)(r \<mapsto> ?x)\<rparr>" using x by (simp add: upd_role_def)
  have l: "lists_ok ?s" using sh x named_upd [of 64 r_name "rb_role s" _ r x ?x] by (simp add: f shape_ok_def lists_ok_def)
  have "links_ok ?s"
    using shape_links [OF sh] x linked_upd [of h_sup r_sub "rb_role s" "rb_hier s" r x ?x] linked_upd [of h_sub r_sup "rb_role s" "rb_hier s" r x ?x]
      linked_upd [of a_role r_ua "rb_role s" "rb_ua s" r x ?x] by (simp add: f links_ok_def)
  moreover have "slots_ok ?s" using sh by (simp add: f shape_ok_def slots_ok_def assigned_def)
  moreover have "fresh_ok ?s" using sh fresh_bounds(2) [OF sh x] by (auto simp: f shape_ok_def fresh_ok_def)
  moreover show su: "superior ?s = superior s" by (simp add: f superior_def hier_rel_def)
  moreover have r: "role_ok ?s z = role_ok s z" for z by (rule role_ok_cong) (simp_all add: f)
  have "role_ok s ?x" using shape_roleD [OF sh x] bs es by (simp add: role_ok_blocks perms_def)
  then have "\<forall>z \<in> ran (rb_role ?s). role_ok ?s z" using sh r by (auto simp: f shape_ok_def ran_def split: if_splits)
  moreover have "acyclic (superior ?s)" using sh by (simp add: su shape_ok_def)
  ultimately show "shape_ok ?s" using l by (simp add: shape_ok_def)
  show "role_rights ?s = role_rights s" using x by (auto simp: f fun_eq_iff role_rights_def role_val_def rights_def)
  show "own ?s y a = (if y = r then ids_of s (set (concat bs)) a else own s y a)"
    by (simp add: f own_def ids_of_def space_ids_def perms_def)
qed

lemma del_perm_law:
  assumes ok: "rbac_ok s" and r: "rb_role s r \<noteq> None"
  shows "\<exists>c s'. rbac_role_del_perm r which t s = Some (c, s') \<and> rbac_ok s'
    \<and> (if c = 0 then rb_reinit s' \<and> 0 \<le> which \<and> (\<exists>x bs n. rb_role s r = Some x \<and> (nat which, t) \<in> perms x
          \<and> del_entry (nat which, t) (r_perm x) = Some (bs, n) \<and> rb_role s' = (rb_role s)(r \<mapsto> x\<lparr>r_perm := bs\<rparr>))
       else c = -1 \<and> s' = s)"
proof -
  obtain x where x: "rb_role s r = Some x" using r by auto
  have sh: "shape_ok s" "\<not> rb_lock s" using ok by (simp_all add: rbac_ok_def)
  have rx: "role_ok s x" by (rule shape_roleD [OF sh(1) x])
  show ?thesis
  proof (cases "which < 0 \<or> int NR_ACCESS_TYPES \<le> which \<or> del_entry (nat which, t) (r_perm x) = None")
    case True
    then have "rbac_role_del_perm r which t s = Some (-1, s)" using x by (auto simp: rbac_role_del_perm_def)
    then show ?thesis using ok by auto
  next
    case False
    then obtain bs n where d: "del_entry (nat which, t) (r_perm x) = Some (bs, n)" by auto
    let ?s = "upd_role r (\<lambda>r. r\<lparr>r_perm := bs\<rparr>) s"
    have "shape_ok ?s"
    proof (rule perm_shape [OF sh(1) x])
      show "blocks_ok bs" using rx del_entry_law [OF d] by (simp add: role_ok_blocks)
      show "\<forall>(a, t) \<in> set (concat bs). a < NR_ACCESS_TYPES \<and> space_ids s t \<noteq> {}"
        using rx del_entry_law [OF d] unfolding role_ok_blocks perms_def by blast
    qed
    then have "rbac_ok (give_room n (?s\<lparr>rb_reinit := True\<rparr>))" using sh(2) by (simp add: rbac_ok_def give_room_def upd_role_def)
    moreover have "rbac_role_del_perm r which t s = Some (0, give_room n (?s\<lparr>rb_reinit := True\<rparr>))"
      using False x d by (auto simp: rbac_role_del_perm_def upd_role_def give_room_def)
    moreover have "(nat which, t) \<in> perms x" using del_entry_law [OF d] unfolding perms_def by blast
    ultimately show ?thesis using False x d by (auto simp: give_room_def upd_role_def)
  qed
qed

lemma get_vs_law:
  assumes "space_get_vs (Sp t) st = Ret (st', v)"
  shows "v = Vs (sp_vs_id (ss_space st' t))" "vs_ids (sp_vs_id (ss_space st' t)) \<noteq> {}"
    "vs_ids (sp_vs_id (ss_space st q)) \<noteq> {} \<Longrightarrow> sp_vs_id (ss_space st' q) = sp_vs_id (ss_space st q)"
  using assms vs_alloc_Some by (auto simp: space_get_vs_def vs_isclear_iff upd_space_def split: if_splits option.splits)

lemma spaces_shape:
  assumes sh: "shape_ok s" and sp: "\<And>q. space_ids s q \<noteq> {} \<Longrightarrow> sp_vs_id (ss_space st q) = sp_vs_id (ss_space (rb_spaces s) q)"
  shows "shape_ok (s\<lparr>rb_spaces := st\<rparr>)" "own (s\<lparr>rb_spaces := st\<rparr>) = own s" "role_rights (s\<lparr>rb_spaces := st\<rparr>) = role_rights s"
    "superior (s\<lparr>rb_spaces := st\<rparr>) = superior s"
proof -
  let ?s = "s\<lparr>rb_spaces := st\<rparr>"
  have ids: "space_ids ?s q = space_ids s q" if "space_ids s q \<noteq> {}" for q using sp [OF that] by (simp add: space_ids_def)
  have "role_ok ?s x" if "rb_role s p = Some x" for p x
    using shape_roleD [OF sh that] ids unfolding role_ok_blocks by fastforce
  then have "\<forall>x \<in> ran (rb_role ?s). role_ok ?s x" by (auto simp: ran_def)
  then show "shape_ok ?s" using sh
    by (simp add: shape_ok_def lists_ok_def links_ok_def slots_ok_def assigned_def fresh_ok_def superior_def hier_rel_def)
  show "own ?s = own s"
  proof (intro ext)
    fix y a
    show "own ?s y a = own s y a"
    proof (cases "rb_role s y")
      case None
      then show ?thesis by (simp add: own_def)
    next
      case (Some x)
      have "space_ids ?s t = space_ids s t" if "(a, t) \<in> perms x" for t
      proof -
        have "space_ids s t \<noteq> {}" using shape_roleD [OF sh Some] that by (auto simp: role_ok_blocks)
        then show ?thesis by (rule ids)
      qed
      then show ?thesis using Some by (auto simp: own_def)
    qed
  qed
  show "role_rights ?s = role_rights s" by (simp add: fun_eq_iff role_rights_def role_val_def)
  show "superior ?s = superior s" by (simp add: superior_def hier_rel_def)
qed

lemma take_room_shape: "shape_ok s \<Longrightarrow> shape_ok (take_room s)"
  by (simp add: shape_ok_def lists_ok_def links_ok_def slots_ok_def assigned_def fresh_ok_def role_ok_def space_ids_def take_room_def
      superior_def hier_rel_def)

lemma room_own: "own (if new then take_room s else s) = own s" "role_rights (if new then take_room s else s) = role_rights s"
    "superior (if new then take_room s else s) = superior s"
  by (simp_all add: take_room_def own_def role_rights_def role_val_def superior_def hier_rel_def space_ids_def fun_eq_iff)

lemma add_perm_law:
  assumes ok: "rbac_ok s" and r: "rb_role s r \<noteq> None"
  shows "(\<exists>m. rbac_role_add_perm r which t s = Some (Fatal m))
    \<or> (\<exists>c s'. rbac_role_add_perm r which t s = Some (Ret (c, s')) \<and> rbac_ok s' \<and> rb_reinit s' = rb_reinit s
        \<and> (if c = 0 then 0 \<le> which \<and> which < int NR_ACCESS_TYPES \<and> superior s' = superior s \<and> space_ids s' t \<noteq> {}
             \<and> (\<forall>y a. own s' y a = own s y a \<union> (if y = r \<and> a = nat which then space_ids s' t else {}))
             \<and> (\<forall>y. rb_role s' y = None \<longleftrightarrow> rb_role s y = None)
           else c = -1 \<and> s' = s))"
proof -
  obtain x where x: "rb_role s r = Some x" using r by auto
  have sh: "shape_ok s" "\<not> rb_lock s" "rb_reinit s \<or> rights_ok s" using ok by (simp_all add: rbac_ok_def)
  let ?a = "nat which"
  show ?thesis
  proof (cases "which < 0 \<or> int NR_ACCESS_TYPES \<le> which \<or> add_entry (rb_room s \<noteq> 0) (?a, t) (r_perm x) = None")
    case True
    then have "rbac_role_add_perm r which t s = Some (Ret (-1, s))" using x by (auto simp: rbac_role_add_perm_def)
    then show ?thesis using ok by auto
  next
    case False
    then obtain bs new where e: "add_entry (rb_room s \<noteq> 0) (?a, t) (r_perm x) = Some (bs, new)" by auto
    have a: "?a < NR_ACCESS_TYPES" "0 \<le> which" "which < int NR_ACCESS_TYPES" using False by auto
    let ?s0 = "if new then take_room s else s"
    have s0: "rb_role ?s0 = rb_role s" "rb_spaces ?s0 = rb_spaces s" "rb_lock ?s0 = rb_lock s" "rb_reinit ?s0 = rb_reinit s"
      by (simp_all add: take_room_def)
    show ?thesis
    proof (cases "space_get_vs (Sp t) (rb_spaces s)")
      case (Fatal m)
      then have "rbac_role_add_perm r which t s = Some (Fatal m)"
        using x False e by (simp add: rbac_role_add_perm_def add_right_def upd_role_def take_room_def)
      then show ?thesis by blast
    next
      case (Ret p)
      obtain st v where p: "p = (st, v)" by (cases p)
      note g = get_vs_law [OF Ret [unfolded p]]
      let ?w = "sp_vs_id (ss_space st t)"
      let ?s1 = "?s0\<lparr>rb_spaces := st\<rparr>"
      have sh0: "shape_ok ?s0" using sh(1) take_room_shape by simp
      note s1 = spaces_shape [OF sh0, of st, unfolded s0 space_ids_def, OF g(3), folded space_ids_def, unfolded room_own]
      have ids: "space_ids ?s1 t = vs_ids ?w" "vs_ids ?w \<noteq> {}" using g(2) by (simp_all add: space_ids_def)
      have x1: "rb_role ?s1 r = Some x" using x s0(1) by simp
      have b: "set (concat bs) = insert (?a, t) (perms x)" "blocks_ok bs"
        using add_entry_law [OF e] shape_roleD [OF sh(1) x] by (simp_all add: perms_def role_ok_blocks)
      have es: "\<forall>(a, t) \<in> set (concat bs). a < NR_ACCESS_TYPES \<and> space_ids ?s1 t \<noteq> {}"
        using b(1) a ids shape_roleD [OF s1(1) x1] by (auto simp: role_ok_blocks)
      let ?s2 = "upd_role r (\<lambda>r. r\<lparr>r_perm := bs\<rparr>) ?s1"
      note s2 = perm_shape [OF s1(1) x1 b(2) es]
      let ?x = "x\<lparr>r_perm := bs\<rparr>"
      have x2: "rb_role ?s2 r = Some ?x" using x1 by (simp add: upd_role_def)
      let ?s3 = "?s2\<lparr>rb_role := (rb_role ?s2)(r \<mapsto> add_ids ?a ?w ?x)\<rparr>"
      have k3: "kept plain ?s2 ?s3" by (rule kept_upd [OF x2]) simp
      have sh3: "shape_ok ?s3"
      proof (rule kept_shape [OF k3 s2(1)])
        fix q z assume "rb_role ?s3 q = Some z"
        then show "vs_ids (r_vs_sub z) = {}"
          using shape_roleD [OF s2(1) x2] shape_roleD [OF s2(1), of q z] by (cases "q = r") (auto simp: add_ids_def role_ok_def)
      qed
      have rr: "role_rights ?s3 q b = role_rights s q b \<union> (if q = r \<and> b = ?a then vs_ids ?w else {})" for q b
      proof (cases "q = r")
        case True
        have "role_rights ?s3 r b = rights (add_ids ?a ?w ?x) b" by (simp add: role_rights_def role_val_def)
        also have "\<dots> = rights x b \<union> (if b = ?a then vs_ids ?w else {})" using add_ids_rights [OF a(1)] by (simp add: rights_def)
        finally show ?thesis using True x by (simp add: role_rights_def role_val_def)
      next
        case False
        then have "role_rights ?s3 q b = role_rights ?s2 q b" by (simp add: role_rights_def role_val_def)
        then show ?thesis using False s2(2) s1(3) by simp
      qed
      have own3: "own ?s3 y b = own s y b \<union> (if y = r \<and> b = ?a then vs_ids ?w else {})" for y b
      proof -
        have "own ?s3 y b = own ?s2 y b" by (rule kept_own [OF k3])
        also have "\<dots> = (if y = r then ids_of ?s1 (insert (?a, t) (perms x)) b else own s y b)" using s2(4) b(1) s1(2) by simp
        also have "\<dots> = own s y b \<union> (if y = r \<and> b = ?a then vs_ids ?w else {})"
          using own_ids [OF x1] s1(2) ids(1) by (auto simp: ids_of_insert)
        finally show ?thesis .
      qed
      have su3: "superior ?s3 = superior s" using kept_superior [OF k3] s2(3) s1(4) by simp
      have "rb_role ?s3 r \<noteq> None" by simp
      from inherit_sup_ok [OF sh3 this] obtain s4 where s4: "rbac_inherit_sup r ?s3 = Some s4" "up.grown ?s3 s4" "reaches ?s3 s4 r" by blast
      note sh4 = up_grown_shape [OF sh3 s4(2)]
      have run: "rbac_role_add_perm r which t s = Some (Ret (0, s4))"
      proof -
        have "upd_role r (\<lambda>r. r\<lparr>r_vs := (r_vs r)(?a := vs_add ?w (r_vs r ?a))\<rparr>) ((upd_role r (\<lambda>r. r\<lparr>r_perm := bs\<rparr>) ?s0)\<lparr>rb_spaces := st\<rparr>) = ?s3"
          using x by (simp add: upd_role_def add_ids_def take_room_def)
        moreover have "rb_role ((upd_role r (\<lambda>r. r\<lparr>r_perm := bs\<rparr>) ?s0)\<lparr>rb_spaces := st\<rparr>) r \<noteq> None" using x s0(1) by (simp add: upd_role_def)
        moreover have "rb_spaces (upd_role r (\<lambda>r. r\<lparr>r_perm := bs\<rparr>) ?s0) = rb_spaces s" using s0(2) by (simp add: upd_role_def)
        ultimately have "add_right r ?a t (upd_role r (\<lambda>r. r\<lparr>r_perm := bs\<rparr>) ?s0) = Some (Ret (0, ?s3))"
          using Ret p g(1) unfolding add_right_def by (auto simp: Let_def)
        then show ?thesis using x False e s4(1) by (simp add: rbac_role_add_perm_def)
      qed
      have "rights_ok s4" if rt: "rights_ok s"
      proof (rule rights_okI [OF sh3 s4(2)])
        have up: "inherited s z b \<subseteq> inherited ?s3 z b" for z b unfolding inherited_def su3 own3 by blast
        show "role_rights ?s3 z b \<subseteq> inherited ?s3 z b" for z b
        proof -
          have "role_rights s z b \<subseteq> inherited s z b"
            using rights_ok_eq [OF rt sh(1), of z b] roles_rights_None [of s z b] by (cases "rb_role s z") simp_all
          moreover have "own ?s3 z b \<subseteq> inherited ?s3 z b" by (auto simp: inherited_def)
          ultimately show ?thesis using up [of z b] own3 [of z b] unfolding rr by auto
        qed
        fix z w b
        assume zw: "(z, w) \<in> (superior ?s3)\<^sup>*" and z: "rb_role ?s3 z \<noteq> None"
        then have z': "rb_role s z \<noteq> None" using x s0(1) by (auto simp: upd_role_def split: if_splits)
        have w': "rb_role s w \<noteq> None" using superior_path_end [OF sh(1), of z w] zw z' unfolding su3 by (cases "z = w") auto
        have "own s z b \<subseteq> role_rights s w b"
          using rights_ok_eq [OF rt sh(1) w'] zw unfolding su3 by (auto simp: inherited_def)
        then have "own s z b \<subseteq> role_rights s4 w b" using up.grown_le [OF s4(2), of w b] rr [of w b] unfolding role_rights_def by blast
        moreover have "vs_ids ?w \<subseteq> role_rights s4 w ?a" if "z = r"
          using s4(3) zw that rr [of r ?a] unfolding reaches_def by auto
        ultimately show "own ?s3 z b \<subseteq> role_rights s4 w b" unfolding own3 by auto
      qed
      then have "rbac_ok s4" using sh sh4 kept_fields [OF sh4(2)] s0 by (auto simp: rbac_ok_def upd_role_def)
      moreover have "rb_reinit s4 = rb_reinit s" using kept_fields [OF sh4(2)] s0 by (simp add: upd_role_def)
      moreover have "superior s4 = superior s" using kept_superior [OF sh4(2)] su3 by simp
      moreover have i4: "space_ids s4 t = vs_ids ?w" using kept_space_ids [OF sh4(2)] ids(1) by (simp add: space_ids_def upd_role_def)
      moreover have "own s4 y b = own s y b \<union> (if y = r \<and> b = ?a then space_ids s4 t else {})" for y b
        using kept_own [OF sh4(2)] own3 i4 by simp
      moreover have "rb_role s4 y = None \<longleftrightarrow> rb_role s y = None" for y
        using kept_None [OF sh4(2), of y] x s0(1) by (simp add: upd_role_def)
      ultimately show ?thesis using run a ids(2) by (intro disjI2 exI [where x = 0] exI [where x = s4]) simp
    qed
  qed
qed

end
