(* ===== verification/Rbac_Del.thy ===== *)
theory Rbac_Del
  imports Rbac_Hier
begin

text \<open>
  The deletion of a role: its loops end, every user and role that was linked to it is unlinked, and the invariant is kept.
\<close>

lemma give_room_simps [simp]:
  "rb_user (give_room n s) = rb_user s" "rb_role (give_room n s) = rb_role s" "rb_ua (give_room n s) = rb_ua s" "rb_hier (give_room n s) = rb_hier s"
  "rb_users (give_room n s) = rb_users s" "rb_roles (give_room n s) = rb_roles s" "rb_spaces (give_room n s) = rb_spaces s"
  "rb_lock (give_room n s) = rb_lock s" "shape_ok (give_room n s) = shape_ok s" "superior (give_room n s) = superior s"
  "own (give_room n s) = own s" "role_rights (give_room n s) = role_rights s"
  by (simp_all add: give_room_def)

definition same_rest :: "rbac \<Rightarrow> rbac \<Rightarrow> bool" where
  "same_rest s s' \<longleftrightarrow> rb_spaces s' = rb_spaces s \<and> rb_lock s' = rb_lock s \<and> rb_roles s' = rb_roles s
     \<and> role_rights s' = role_rights s \<and> own s' = own s"

lemma same_rest_trans: "same_rest s s' \<Longrightarrow> same_rest s' s'' \<Longrightarrow> same_rest s s''" by (simp add: same_rest_def)

lemma while_ua_law:
  "shape_ok s \<Longrightarrow> rb_role s r = Some y \<Longrightarrow>
    \<exists>s'. while_ua r s = Some s' \<and> shape_ok s' \<and> same_rest s s' \<and> rb_role s' = (rb_role s)(r \<mapsto> y\<lparr>r_ua := []\<rparr>) \<and> rb_hier s' = rb_hier s
      \<and> rb_reinit s' = rb_reinit s \<and> assigned s' = assigned s - UNIV \<times> {r}"
proof (induction "length (r_ua y)" arbitrary: s y)
  case 0
  then have e: "r_ua y = []" by simp
  have "while_ua r s = Some s" by (subst while_ua.simps) (simp add: 0 e)
  moreover have "(rb_role s)(r \<mapsto> y\<lparr>r_ua := []\<rparr>) = rb_role s" using 0(3) e by (cases y) auto
  moreover have "(u, r) \<notin> assigned s" for u
    using linkedD(2) [OF shape_links(4) [OF 0(2)] 0(3)] e by (auto simp: assigned_def ran_def)
  ultimately show ?case using 0 by (auto simp: same_rest_def)
next
  case (Suc n)
  obtain a l where a: "r_ua y = a # l" using Suc(2) by (cases "r_ua y") auto
  note ln = shape_links [OF Suc(3)]
  obtain e where e: "rb_ua s a = Some e" "a_role e = r" using linkedD(2) [OF ln(4) Suc(4), of a] a by auto
  obtain x where x: "rb_user s (a_user e) = Some x" using linkedD(3) [OF ln(3) e(1)] by auto
  have m: "(a_user e, r) \<in> assigned s" using e by (auto simp: assigned_def ran_def)
  obtain b i where b: "rbac_del_ua (a_user e) r s = Some (0, give_room 1 (unlink_ua (a_user e) r b i s))" "b \<in> set (r_ua y)"
      "rb_ua s b = Some \<lparr>a_user = a_user e, a_role = r\<rparr>" "i < USER_MAX_ROLES" "u_roles x ! i = Some r"
    using del_ua_law [OF Suc(3) x Suc(4)] m by auto
  note u = unlink_ua_ok [OF Suc(3) x Suc(4) b(3-5)]
  let ?s = "give_room 1 (unlink_ua (a_user e) r b i s)" and ?y = "y\<lparr>r_ua := remove1 b (r_ua y)\<rparr>"
  have len: "n = length (r_ua ?y)" using Suc(2) b(2) by (simp add: length_remove1)
  have sh: "shape_ok ?s" "rb_role ?s r = Some ?y" using u(1,3) by simp_all
  obtain s' where s': "while_ua r ?s = Some s'" "shape_ok s'" "same_rest ?s s'" "rb_role s' = (rb_role ?s)(r \<mapsto> ?y\<lparr>r_ua := []\<rparr>)"
      "rb_hier s' = rb_hier ?s" "rb_reinit s' = rb_reinit ?s" "assigned s' = assigned ?s - UNIV \<times> {r}"
    using Suc(1) [OF len sh] by blast
  have "same_rest s ?s"
  proof -
    have "role_rights (unlink_ua (a_user e) r b i s) = role_rights s" "own (unlink_ua (a_user e) r b i s) = own s"
      using Suc(4) by (auto simp: fun_eq_iff role_rights_def role_val_def rights_def own_def perms_def space_ids_def u(3,5))
    then show ?thesis using u by (simp add: same_rest_def)
  qed
  moreover have "while_ua r s = Some s'"
    by (subst while_ua.simps) (simp add: Suc(4) a e(1) b(1) s'(1) del: One_nat_def)
  ultimately show ?case using s' u same_rest_trans by auto
qed

text \<open>What the loops over the hierarchy keep of the role itself; \<open>reinit\<close> is set when an edge was deleted.\<close>

lemma while_sup_law:
  "shape_ok s \<Longrightarrow> rb_role s r = Some y \<Longrightarrow>
    \<exists>s'. while_sup r s = Some s' \<and> shape_ok s' \<and> same_rest s s' \<and> rb_role s' r = Some (y\<lparr>r_sup := []\<rparr>)
      \<and> (\<forall>q. rb_role s' q = None \<longleftrightarrow> rb_role s q = None) \<and> rb_ua s' = rb_ua s \<and> (rb_reinit s' \<or> s' = s) \<and> superior s' \<subseteq> superior s"
proof (induction "length (r_sup y)" arbitrary: s y)
  case 0
  then have e: "r_sup y = []" by simp
  have "while_sup r s = Some s" by (subst while_sup.simps) (simp add: 0 e)
  moreover have "y\<lparr>r_sup := []\<rparr> = y" using e by (cases y) auto
  ultimately show ?case using 0 by (auto simp: same_rest_def)
next
  case (Suc n)
  obtain h l where h: "r_sup y = h # l" using Suc(2) by (cases "r_sup y") auto
  note ln = shape_links [OF Suc(3)]
  obtain e where e: "rb_hier s h = Some e" "h_sub e = r" using linkedD(2) [OF ln(2) Suc(4), of h] h by auto
  obtain x where x: "rb_role s (h_sup e) = Some x" using linkedD(3) [OF ln(1) e(1)] by auto
  have "(r, h_sup e) \<in> superior s" using e by (auto simp: superior_iff)
  then obtain g where g: "rbac_del_hierarchy (h_sup e) r s = Some (0, give_room 1 (unlink_hier (h_sup e) r g s))"
      "rb_hier s g = Some \<lparr>h_sup = h_sup e, h_sub = r\<rparr>" "g \<in> set (r_sup y)"
    using del_hierarchy_law [OF Suc(3) x Suc(4)] by auto
  note u = unlink_hier_ok [OF Suc(3) x Suc(4) g(2)]
  let ?s = "give_room 1 (unlink_hier (h_sup e) r g s)" and ?y = "y\<lparr>r_sup := remove1 g (r_sup y)\<rparr>"
  have pr: "h_sup e \<noteq> r" using edge_ends [OF Suc(3) e(1)] e(2) by simp
  have len: "n = length (r_sup ?y)" using Suc(2) g(3) by (simp add: length_remove1)
  have sh: "shape_ok ?s" "rb_role ?s r = Some ?y" using u(1,6) pr by simp_all
  obtain s' where s': "while_sup r ?s = Some s'" "shape_ok s'" "same_rest ?s s'" "rb_role s' r = Some (?y\<lparr>r_sup := []\<rparr>)"
      "\<forall>q. rb_role s' q = None \<longleftrightarrow> rb_role ?s q = None" "rb_ua s' = rb_ua ?s" "rb_reinit s' \<or> s' = ?s" "superior s' \<subseteq> superior ?s"
    using Suc(1) [OF len sh] by blast
  have "same_rest s ?s" using u unfolding same_rest_def by (simp add: unlink_hier_def upd_role_def)
  moreover have "while_sup r s = Some s'"
    by (subst while_sup.simps) (simp add: Suc(4) h e(1) g(1) s'(1) del: One_nat_def)
  moreover have "rb_role ?s q = None \<longleftrightarrow> rb_role s q = None" for q using x Suc(4) by (auto simp: u(6))
  moreover have "rb_reinit ?s" using u(8) by simp
  ultimately show ?case using s' u(4,10) same_rest_trans by auto
qed

lemma while_sub_law:
  "shape_ok s \<Longrightarrow> rb_role s r = Some y \<Longrightarrow>
    \<exists>s'. while_sub r s = Some s' \<and> shape_ok s' \<and> same_rest s s' \<and> rb_role s' r = Some (y\<lparr>r_sub := []\<rparr>)
      \<and> (\<forall>q. rb_role s' q = None \<longleftrightarrow> rb_role s q = None) \<and> rb_ua s' = rb_ua s \<and> (rb_reinit s' \<or> s' = s) \<and> superior s' \<subseteq> superior s"
proof (induction "length (r_sub y)" arbitrary: s y)
  case 0
  then have e: "r_sub y = []" by simp
  have "while_sub r s = Some s" by (subst while_sub.simps) (simp add: 0 e)
  moreover have "y\<lparr>r_sub := []\<rparr> = y" using e by (cases y) auto
  ultimately show ?case using 0 by (auto simp: same_rest_def)
next
  case (Suc n)
  obtain h l where h: "r_sub y = h # l" using Suc(2) by (cases "r_sub y") auto
  note ln = shape_links [OF Suc(3)]
  obtain e where e: "rb_hier s h = Some e" "h_sup e = r" using linkedD(2) [OF ln(1) Suc(4), of h] h by auto
  obtain x where x: "rb_role s (h_sub e) = Some x" using linkedD(3) [OF ln(2) e(1)] by auto
  have "(h_sub e, r) \<in> superior s" using e by (auto simp: superior_iff)
  then obtain g where g: "rbac_del_hierarchy r (h_sub e) s = Some (0, give_room 1 (unlink_hier r (h_sub e) g s))"
      "rb_hier s g = Some \<lparr>h_sup = r, h_sub = h_sub e\<rparr>" "g \<in> set (r_sub y)"
    using del_hierarchy_law [OF Suc(3) Suc(4) x] by auto
  note u = unlink_hier_ok [OF Suc(3) Suc(4) x g(2)]
  let ?s = "give_room 1 (unlink_hier r (h_sub e) g s)" and ?y = "y\<lparr>r_sub := remove1 g (r_sub y)\<rparr>"
  have len: "n = length (r_sub ?y)" using Suc(2) g(3) by (simp add: length_remove1)
  have sh: "shape_ok ?s" "rb_role ?s r = Some ?y" using u(1,6) by simp_all
  obtain s' where s': "while_sub r ?s = Some s'" "shape_ok s'" "same_rest ?s s'" "rb_role s' r = Some (?y\<lparr>r_sub := []\<rparr>)"
      "\<forall>q. rb_role s' q = None \<longleftrightarrow> rb_role ?s q = None" "rb_ua s' = rb_ua ?s" "rb_reinit s' \<or> s' = ?s" "superior s' \<subseteq> superior ?s"
    using Suc(1) [OF len sh] by blast
  have "same_rest s ?s" using u unfolding same_rest_def by (simp add: unlink_hier_def upd_role_def)
  moreover have "while_sub r s = Some s'"
    by (subst while_sub.simps) (simp add: Suc(4) h e(1) g(1) s'(1) del: One_nat_def)
  moreover have "rb_role ?s q = None \<longleftrightarrow> rb_role s q = None" for q using x Suc(4) by (auto simp: u(6))
  moreover have "rb_reinit ?s" using u(8) by simp
  ultimately show ?case using s' u(4,10) same_rest_trans by auto
qed

subsection \<open>A role without links is taken out of the list\<close>

definition drop_role :: "nat \<Rightarrow> rbac \<Rightarrow> rbac" where
  "drop_role r s = s\<lparr>rb_roles := remove1 r (rb_roles s), rb_role := (rb_role s)(r := None)\<rparr>"

lemma drop_role_ok:
  assumes sh: "shape_ok s" and y: "rb_role s r = Some y" "r_ua y = []" "r_sup y = []" "r_sub y = []"
  shows "shape_ok (drop_role r s)" "rights_ok s \<Longrightarrow> rights_ok (drop_role r s)"
proof -
  let ?s = "drop_role r s"
  have f: "rb_role ?s = (rb_role s)(r := None)" "rb_roles ?s = remove1 r (rb_roles s)" "rb_users ?s = rb_users s" "rb_user ?s = rb_user s"
    "rb_ua ?s = rb_ua s" "rb_hier ?s = rb_hier s" "rb_brk ?s = rb_brk s" "rb_spaces ?s = rb_spaces s" by (simp_all add: drop_role_def)
  have su: "superior ?s = superior s" by (simp add: superior_def hier_rel_def f)
  have "lists_ok ?s" using sh named_remove [of 64 r_name "rb_role s" "rb_roles s" r] by (simp add: shape_ok_def lists_ok_def f)
  moreover have "links_ok ?s" using shape_links [OF sh] y by (auto simp: links_ok_def f intro: linked_gone)
  moreover have "slots_ok ?s" "fresh_ok ?s" using sh by (simp_all add: shape_ok_def slots_ok_def assigned_def fresh_ok_def f)
  moreover have "role_ok ?s z = role_ok s z" for z by (rule role_ok_cong) (simp_all add: f)
  then have "\<forall>z \<in> ran (rb_role ?s). role_ok ?s z" using sh by (auto simp: shape_ok_def f ran_def split: if_splits)
  ultimately show "shape_ok ?s" using sh by (simp add: shape_ok_def su)
  have lone: "(r, x) \<notin> superior s" for x using linkedD(2) [OF shape_links(2) [OF sh] y(1)] y(3) by (auto simp: superior_iff)
  show "rights_ok ?s" if rt: "rights_ok s"
    unfolding rights_ok_def
  proof (intro allI impI)
    fix x a assume x: "rb_role ?s x \<noteq> None"
    then have xr: "x \<noteq> r" "rb_role s x \<noteq> None" by (auto simp: f(1) split: if_splits)
    have "own ?s z a = own s z a" if "(z, x) \<in> (superior s)\<^sup>*" for z
    proof -
      have "z \<noteq> r" using that xr(1) lone by (auto elim: converse_rtranclE)
      then show ?thesis by (simp add: own_def f space_ids_def)
    qed
    then have "inherited ?s x a = inherited s x a" by (auto simp: inherited_def su)
    moreover have "role_rights ?s x a = role_rights s x a" using xr by (simp add: role_rights_def role_val_def f)
    ultimately show "role_rights ?s x a = inherited ?s x a" using rights_ok_eq [OF rt sh xr(2)] by simp
  qed
qed

lemma role_del_law:
  assumes ok: "rbac_ok s" and r: "rb_role s r \<noteq> None"
  shows "\<exists>s'. rbac_role_del r s = Some (0, s') \<and> rbac_ok s' \<and> rb_role s' r = None \<and> (\<forall>q. q \<noteq> r \<longrightarrow> (rb_role s' q = None \<longleftrightarrow> rb_role s q = None))
    \<and> assigned s' = assigned s - UNIV \<times> {r} \<and> superior s' \<subseteq> superior s"
proof -
  obtain y where y: "rb_role s r = Some y" using r by auto
  have sh: "shape_ok s" "\<not> rb_lock s" "rb_reinit s \<or> rights_ok s" using ok by (simp_all add: rbac_ok_def)
  let ?s = "s\<lparr>rb_lock := True\<rparr>"
  have y0: "rb_role ?s r = Some y" "shape_ok ?s" using y sh(1) by simp_all
  obtain s1 where s1: "while_ua r ?s = Some s1" "shape_ok s1" "same_rest ?s s1" "rb_role s1 = (rb_role ?s)(r \<mapsto> y\<lparr>r_ua := []\<rparr>)"
      "rb_hier s1 = rb_hier ?s" "rb_reinit s1 = rb_reinit ?s" "assigned s1 = assigned ?s - UNIV \<times> {r}"
    using while_ua_law [OF y0(2,1)] by blast
  have y1: "rb_role s1 r = Some (y\<lparr>r_ua := []\<rparr>)" using s1(4) by simp
  let ?s2 = "give_room (length (r_perm y)) (upd_role r (\<lambda>r. r\<lparr>r_perm := []\<rparr>) s1)"
  have s2: "shape_ok ?s2" "role_rights ?s2 = role_rights s1" "superior ?s2 = superior s1"
    using perm_shape [OF s1(2) y1, of "[]"] by simp_all
  have own2: "own ?s2 z a = own s1 z a" if "z \<noteq> r" for z a
    using perm_shape(4) [OF s1(2) y1, of "[]" z a] that by simp
  let ?y2 = "y\<lparr>r_ua := [], r_perm := []\<rparr>"
  have y2: "rb_role ?s2 r = Some ?y2" using y1 by (simp add: upd_role_def)
  obtain s3 where s3: "while_sup r ?s2 = Some s3" "shape_ok s3" "same_rest ?s2 s3" "rb_role s3 r = Some (?y2\<lparr>r_sup := []\<rparr>)"
      "\<forall>q. rb_role s3 q = None \<longleftrightarrow> rb_role ?s2 q = None" "rb_ua s3 = rb_ua ?s2" "rb_reinit s3 \<or> s3 = ?s2" "superior s3 \<subseteq> superior ?s2"
    using while_sup_law [OF s2(1) y2] by blast
  obtain s4 where s4: "while_sub r s3 = Some s4" "shape_ok s4" "same_rest s3 s4" "rb_role s4 r = Some (?y2\<lparr>r_sup := []\<rparr>\<lparr>r_sub := []\<rparr>)"
      "\<forall>q. rb_role s4 q = None \<longleftrightarrow> rb_role s3 q = None" "rb_ua s4 = rb_ua s3" "rb_reinit s4 \<or> s4 = s3" "superior s4 \<subseteq> superior s3"
    using while_sub_law [OF s3(2,4)] by blast
  let ?s5 = "give_room 1 (unlock (drop_role r s4))"
  have mem: "r \<in> set (rb_roles s)" using shape_roles(1) [OF sh(1)] r by simp
  have run: "rbac_role_del r s = Some (0, ?s5)"
    using sh(2) mem s1(1) y1 s3(1) s4(1) by (simp add: rbac_role_del_def wrlock_def drop_role_def unlock_def)
  note d = drop_role_ok [OF s4(2,4)]
  have "rights_ok (drop_role r s4)" if nr: "\<not> rb_reinit s4"
  proof -
    have e: "s4 = s3" "s3 = ?s2" using s4(7) s3(7) nr by auto
    have nr0: "\<not> rb_reinit s" using nr s1(6) unfolding e by (simp add: give_room_def upd_role_def)
    then have rt: "rights_ok s" using sh(3) by simp
    let ?d = "drop_role r ?s2"
    have lone: "(r, x) \<notin> superior s" for x
    proof -
      have "r_sup ?y2 = []" using s3(4) y2 unfolding e by (auto dest!: arg_cong [of _ _ r_sup])
      then show ?thesis using linkedD(2) [OF shape_links(2) [OF sh(1)] y] by (auto simp: superior_iff)
    qed
    have su: "superior ?d = superior s" using s2(3) s1(5) by (simp add: drop_role_def superior_def hier_rel_def upd_role_def give_room_def)
    show ?thesis
      unfolding e rights_ok_def
    proof (intro allI impI)
      fix x a assume x: "rb_role ?d x \<noteq> None"
      then have xr: "x \<noteq> r" "rb_role s x \<noteq> None" using s1(4) by (auto simp: drop_role_def upd_role_def split: if_splits)
      have "own ?d z a = own s z a" if "(z, x) \<in> (superior s)\<^sup>*" for z
      proof -
        have z: "z \<noteq> r" using that xr(1) lone by (auto elim: converse_rtranclE)
        then have "own ?d z a = own ?s2 z a" by (simp add: drop_role_def own_def space_ids_def)
        then show ?thesis using own2 [OF z] s1(3) by (simp add: same_rest_def)
      qed
      then have "inherited ?d x a = inherited s x a" by (auto simp: inherited_def su)
      moreover have "role_rights ?d x a = role_rights s x a"
        using xr s2(2) s1(3) by (simp add: drop_role_def role_rights_def role_val_def same_rest_def fun_eq_iff)
      ultimately show "role_rights ?d x a = inherited ?d x a" using rights_ok_eq [OF rt sh(1) xr(2)] by simp
    qed
  qed
  then have "rbac_ok ?s5" using d(1) by (auto simp: rbac_ok_def unlock_def give_room_def drop_role_def)
  moreover have "rb_role ?s5 q = None \<longleftrightarrow> rb_role s q = None" if "q \<noteq> r" for q
    using that s4(5) s3(5) s1(4) by (simp add: unlock_def drop_role_def upd_role_def)
  moreover have "rb_role ?s5 r = None" by (simp add: unlock_def drop_role_def)
  moreover have "assigned ?s5 = assigned s - UNIV \<times> {r}"
    using s4(6) s3(6) s1(7) by (simp add: assigned_def unlock_def drop_role_def upd_role_def)
  moreover have "superior ?s5 \<subseteq> superior s"
  proof -
    have "superior ?s5 = superior s4" by (simp add: unlock_def drop_role_def superior_def hier_rel_def)
    moreover have "superior s1 = superior s" using s1(5) by (simp add: superior_def hier_rel_def)
    ultimately show ?thesis using s4(8) s3(8) s2(3) by simp
  qed
  ultimately show ?thesis using run by blast
qed

end
