(* ===== verification/Rbac_Proc.thy ===== *)
theory Rbac_Proc
  imports Rbac_Del Generic Byte_Words
begin

text \<open>
  Processes under role based access control (\<open>rbac/proc.c\<close>): the class handler that gives a process the rights of the roles
  of its user that are active in its session, the bits of its \<open>cinfo\<close>; and the event handlers of
  \<open>rbac/adm_perm.c\<close> that decide on the administration. The properties of the whole administration are here, too.
\<close>

subsection \<open>Rights of a process\<close>

text \<open>The loop over the slots of a user stops when no bit of the session is left.\<close>

fun active :: "64 word \<Rightarrow> nat option list \<Rightarrow> nat list" where
  "active w [] = []"
| "active w (x # xs) =
     (if w = 0 then []
      else (if bit w 0 then (case x of None \<Rightarrow> [] | Some r \<Rightarrow> [r]) else []) @ active (drop_bit 1 w) xs)"

fun add_active :: "nat \<Rightarrow> nat list \<Rightarrow> vs \<Rightarrow> rbac \<Rightarrow> vs option" where
  "add_active n [] v s = Some v"
| "add_active n (r # rs) v s = do {
     x \<leftarrow> rb_role s r;
     if n < NR_ACCESS_TYPES then add_active n rs (vs_add (r_vs x n) v) s else None }"

text \<open>\<open>buf\<close> is what the local variable \<open>uid\<close> holds before.\<close>

definition proc_user :: "attr \<Rightarrow> bytes \<Rightarrow> object_s \<Rightarrow> rbac \<Rightarrow> nat option option" where
  "proc_user a buf ob s = do {
     (_, bs) \<leftarrow> object_get_val (o_flags ob) (o_data ob) a buf;
     rbac_user_find_by_uid (bytes_word bs) s }"

definition rbac_proc_get_vs ::
  "gen_handler \<Rightarrow> (nat \<Rightarrow> attr option) \<Rightarrow> nat \<Rightarrow> bytes \<Rightarrow> object_s \<Rightarrow> vs \<Rightarrow> nat \<Rightarrow> rbac \<Rightarrow> (int \<times> vs \<times> rbac) outcome option" where
  "rbac_proc_get_vs h attr_uid conn buf ob v n s =
     bind_res (validate_roles s) (\<lambda>s.
       case attr_uid conn of
         None \<Rightarrow> Some (Ret (0, v, s))
       | Some a \<Rightarrow> do {
           u \<leftarrow> proc_user a buf ob s;
           case u of
             None \<Rightarrow> Some (Ret (-1, v, s))
           | Some u \<Rightarrow> do {
               x \<leftarrow> rb_user s u;
               w \<leftarrow> cinfo h conn ob;
               v \<leftarrow> add_active n (active w (u_roles x)) v s;
               Some (Ret (0, v, s)) } })"

definition node_events :: "nat option \<Rightarrow> nat \<Rightarrow> rbac \<Rightarrow> event_mask2 option" where
  "node_events t conn s = map_option (\<lambda>t. t_events (ts_node (ss_tree (rb_spaces s)) t) conn) t"

fun set_active :: "class_s \<Rightarrow> nat \<Rightarrow> nat list \<Rightarrow> object_s \<Rightarrow> rbac \<Rightarrow> object_s option" where
  "set_active c conn [] ob s = Some ob"
| "set_active c conn (r # rs) ob s = do {
     x \<leftarrow> rb_role s r;
     ob \<leftarrow> fold (\<lambda>a m. Option.bind m (\<lambda>ob. map_option snd (object_add_vs c ob (int a) (r_vs x a)))) [0..<NR_ACCESS_TYPES] (Some ob);
     (_, ob) \<leftarrow> object_add_vs c ob (int AT_MEMBER) (r_vs_sub x);
     e \<leftarrow> node_events (r_cinfo_sub x) conn s;
     (_, ob) \<leftarrow> object_add_event c ob e;
     e \<leftarrow> node_events (r_cinfo_sup x) conn s;
     (_, ob) \<leftarrow> object_add_event c ob e;
     set_active c conn rs ob s }"

definition rbac_proc_set_handler ::
  "event_state \<Rightarrow> gen_handler \<Rightarrow> (nat \<Rightarrow> attr option) \<Rightarrow> nat \<Rightarrow> bytes \<Rightarrow> class_s \<Rightarrow> object_s \<Rightarrow> rbac \<Rightarrow> (int \<times> object_s \<times> rbac) outcome option" where
  "rbac_proc_set_handler es h attr_uid conn buf c ob s =
     bind_res (validate_roles s) (\<lambda>s.
       case attr_uid conn of
         None \<Rightarrow> Some (Ret (0, ob, s))
       | Some a \<Rightarrow> do {
           u \<leftarrow> proc_user a buf ob s;
           case u of
             None \<Rightarrow> Some (Ret (-1, ob, s))
           | Some u \<Rightarrow> do {
               x \<leftarrow> rb_user s u;
               e \<leftarrow> node_events (u_cinfo x) conn s;
               (_, ob) \<leftarrow> object_add_event c ob e;
               w \<leftarrow> cinfo h conn ob;
               ob \<leftarrow> set_active c conn (active w (u_roles x)) ob s;
               n \<leftarrow> gh_user h;
               ty \<leftarrow> user_event es conn n;
               (_, ob) \<leftarrow> object_add_event c ob (et_mask ty);
               Some (Ret (0, ob, s)) } })"

text \<open>A process that changes its user gets all roles of the user.\<close>

definition rbac_proc_setuid_handler_notify ::
  "'st class_handler list \<Rightarrow> gen_handler \<Rightarrow> nat \<Rightarrow> class_s \<Rightarrow> 'st \<Rightarrow> event_context_s \<Rightarrow> ('st \<times> event_context_s) option" where
  "rbac_proc_setuid_handler_notify hs h conn c st ctx = do {
     ob \<leftarrow> set_cinfo h conn (NOT 0) (ec_subject ctx);
     (st, ob) \<leftarrow> object_do_sethandler hs c st ob;
     Some (st, ctx\<lparr>ec_subject := ob, ec_result := RESULT_ALLOW\<rparr>) }"

subsection \<open>Decisions on the administration\<close>

definition h_right :: "gen_world ev_env \<Rightarrow> bytes \<Rightarrow> nat \<Rightarrow> gen_world \<Rightarrow> event_context_s \<Rightarrow> (gen_world \<times> event_context_s) option" where
  "h_right env buf at st c = do {
     (b, st, c) \<leftarrow> generic_test_vs env buf at st c;
     Some (st, c\<lparr>ec_result := (if b then RESULT_ALLOW else RESULT_DENY)\<rparr>) }"

definition AT_CREATE :: nat where "AT_CREATE = 4"
definition AT_ERASE :: nat where "AT_ERASE = 5"
definition AT_CONTROL :: nat where "AT_CONTROL = 7"

definition rbac_h_delete_role where "rbac_h_delete_role env buf = h_right env buf AT_ERASE"
definition rbac_h_role_hierarchy where "rbac_h_role_hierarchy env buf = h_right env buf AT_CREATE"
definition rbac_h_user_assign where "rbac_h_user_assign env buf = h_right env buf AT_CONTROL"
definition rbac_h_role_assign where "rbac_h_role_assign env buf = h_right env buf AT_CONTROL"
definition rbac_h_perm_assign where "rbac_h_perm_assign env buf = h_right env buf AT_CONTROL"

text \<open>The roots of the trees \<open>role\<close> and \<open>ROLE\<close>.\<close>

definition rbac_h_create_role ::
  "nat \<Rightarrow> nat \<Rightarrow> gen_world ev_env \<Rightarrow> bytes \<Rightarrow> gen_world \<Rightarrow> event_context_s \<Rightarrow> (gen_world \<times> event_context_s) option" where
  "rbac_h_create_role root ROOT env buf st c = do {
     a \<leftarrow> generic_test_vs_tree env buf AT_CREATE st c root;
     b \<leftarrow> (if a then Some True else generic_test_vs_tree env buf AT_CREATE st c ROOT);
     Some (st, c\<lparr>ec_result := (if b then RESULT_ALLOW else RESULT_DENY)\<rparr>) }"

end
