(* ===== verification/Rbac_Props.thy ===== *)
theory Rbac_Props
  imports Rbac_Proc
begin

text \<open>
  The administration of users and roles as a whole: the operations of \<open>rbac/users.c\<close> and \<open>rbac/roles.c\<close> in any order, the states they reach
  from the empty tables, and the properties of these states.
\<close>

subsection \<open>Operations\<close>

datatype rbac_op = UserAdd string "32 word" | RoleAdd string | RoleDel nat | AddUa nat nat | DelUa nat nat
  | SetHier nat nat | DelHier nat nat | AddPerm nat int nat | DelPerm nat int nat | Validate

text \<open>The state after an operation that has returned.\<close>

definition after :: "('a \<times> rbac) option \<Rightarrow> rbac outcome option" where "after = map_option (\<lambda>(_, s). Ret s)"

fun rbac_exec :: "rbac_op \<Rightarrow> rbac \<Rightarrow> rbac outcome option" where
  "rbac_exec (UserAdd name uid) s = after (rbac_user_add name uid s)"
| "rbac_exec (RoleAdd name) s = after (rbac_role_add name s)"
| "rbac_exec (RoleDel r) s = after (rbac_role_del r s)"
| "rbac_exec (AddUa u r) s = after (rbac_add_ua u r s)"
| "rbac_exec (DelUa u r) s = after (rbac_del_ua u r s)"
| "rbac_exec (SetHier p b) s = after (rbac_set_hierarchy p b s)"
| "rbac_exec (DelHier p b) s = after (rbac_del_hierarchy p b s)"
| "rbac_exec (AddPerm r which t) s = bind_res (rbac_role_add_perm r which t s) (\<lambda>(_, s). Some (Ret s))"
| "rbac_exec (DelPerm r which t) s = after (rbac_role_del_perm r which t s)"
| "rbac_exec Validate s = validate_roles s"

text \<open>What the callers provide: users and roles that exist, names that fit into their fields, two roles of the hierarchy that differ.\<close>

fun op_valid :: "rbac_op \<Rightarrow> rbac \<Rightarrow> bool" where
  "op_valid (UserAdd name uid) s \<longleftrightarrow> length name < 32"
| "op_valid (RoleAdd name) s \<longleftrightarrow> length name < 64"
| "op_valid (RoleDel r) s \<longleftrightarrow> rb_role s r \<noteq> None"
| "op_valid (AddUa u r) s \<longleftrightarrow> rb_user s u \<noteq> None \<and> rb_role s r \<noteq> None"
| "op_valid (DelUa u r) s \<longleftrightarrow> rb_user s u \<noteq> None \<and> rb_role s r \<noteq> None"
| "op_valid (SetHier p b) s \<longleftrightarrow> rb_role s p \<noteq> None \<and> rb_role s b \<noteq> None \<and> p \<noteq> b"
| "op_valid (DelHier p b) s \<longleftrightarrow> rb_role s p \<noteq> None \<and> rb_role s b \<noteq> None"
| "op_valid (AddPerm r which t) s \<longleftrightarrow> rb_role s r \<noteq> None"
| "op_valid (DelPerm r which t) s \<longleftrightarrow> rb_role s r \<noteq> None"
| "op_valid Validate s \<longleftrightarrow> True"

text \<open>Empty tables; \<open>need_reinit_roles\<close> is set at first.\<close>

definition rbac_start :: "nat \<Rightarrow> space_state \<Rightarrow> rbac" where
  "rbac_start room st = \<lparr>rb_users = [], rb_roles = [], rb_user = (\<lambda>_. None), rb_role = (\<lambda>_. None), rb_ua = (\<lambda>_. None), rb_hier = (\<lambda>_. None),
     rb_brk = 0, rb_room = room, rb_lock = False, rb_reinit = True, rb_spaces = st\<rparr>"

text \<open>The spaces may change between the operations as the operations of \<open>space.c\<close> change them: identifiers once given stay.\<close>

definition spaces_grow :: "space_state \<Rightarrow> space_state \<Rightarrow> bool" where
  "spaces_grow st st' \<longleftrightarrow> (\<forall>q. vs_ids (sp_vs_id (ss_space st q)) \<noteq> {} \<longrightarrow> sp_vs_id (ss_space st' q) = sp_vs_id (ss_space st q))"

inductive rbac_reach :: "rbac \<Rightarrow> bool" where
  start: "rbac_reach (rbac_start room st)"
| op: "rbac_reach s \<Longrightarrow> op_valid f s \<Longrightarrow> rbac_exec f s = Some (Ret s') \<Longrightarrow> rbac_reach s'"
| spaces: "rbac_reach s \<Longrightarrow> spaces_grow (rb_spaces s) st \<Longrightarrow> rbac_reach (s\<lparr>rb_spaces := st\<rparr>)"


lemma after_Ret: "f = Some (c, s') \<Longrightarrow> after f = Some (Ret s')" by (simp add: after_def)

subsection \<open>The invariant\<close>

lemma start_ok: "rbac_ok (rbac_start room st)"
  by (simp add: rbac_ok_def rbac_start_def shape_ok_def lists_ok_def named_ok_def links_ok_def linked_def slots_ok_def fresh_ok_def
      superior_def hier_rel_def acyclic_def ran_def)

lemma del_ua_ok:
  assumes "rbac_ok s" "rb_user s u \<noteq> None" "rb_role s r \<noteq> None"
  shows "\<exists>c s'. rbac_del_ua u r s = Some (c, s') \<and> rbac_ok s'
    \<and> (if (u, r) \<in> assigned s then c = 0 \<and> assigned s' = assigned s - {(u, r)} else c = -1 \<and> s' = s)"
proof -
  obtain x y where x: "rb_user s u = Some x" and y: "rb_role s r = Some y" using assms by auto
  have sh: "shape_ok s" using assms(1) by (simp add: rbac_ok_def)
  show ?thesis
  proof (cases "(u, r) \<in> assigned s")
    case True
    then obtain a i where a: "rbac_del_ua u r s = Some (0, give_room 1 (unlink_ua u r a i s))"
        "rb_ua s a = Some \<lparr>a_user = u, a_role = r\<rparr>" "i < USER_MAX_ROLES" "u_roles x ! i = Some r"
      using del_ua_law [OF sh x y] by auto
    note l = unlink_ua_ok [OF sh x y a(2-4)]
    have "rights_ok (unlink_ua u r a i s) = rights_ok s"
      by (rule rights_frame(3)) (simp_all add: l(3-5) y)
    then have "rbac_ok (unlink_ua u r a i s)" using assms(1) l by (simp add: rbac_ok_def)
    then show ?thesis using a(1) l(2) True by simp
  next
    case False
    then show ?thesis using del_ua_law [OF sh x y] assms(1) by simp
  qed
qed

lemma del_hierarchy_ok:
  assumes "rbac_ok s" "rb_role s p \<noteq> None" "rb_role s b \<noteq> None"
  shows "\<exists>c s'. rbac_del_hierarchy p b s = Some (c, s') \<and> rbac_ok s'
    \<and> (if (b, p) \<in> superior s then c = 0 \<and> rb_reinit s' else c = -1 \<and> s' = s)"
proof -
  obtain x y where x: "rb_role s p = Some x" and y: "rb_role s b = Some y" using assms by auto
  have sh: "shape_ok s" using assms(1) by (simp add: rbac_ok_def)
  show ?thesis
  proof (cases "(b, p) \<in> superior s")
    case True
    then obtain h where h: "rbac_del_hierarchy p b s = Some (0, give_room 1 (unlink_hier p b h s))"
        "rb_hier s h = Some \<lparr>h_sup = p, h_sub = b\<rparr>"
      using del_hierarchy_law [OF sh x y] by auto
    note l = unlink_hier_ok [OF sh x y h(2)]
    have "rbac_ok (unlink_hier p b h s)" using assms(1) l(1,7,8) by (simp add: rbac_ok_def)
    then show ?thesis using h(1) True l(8) by simp
  next
    case False
    then show ?thesis using del_hierarchy_law [OF sh x y] assms(1) by simp
  qed
qed

lemma validate_law:
  assumes "rbac_ok s"
  shows "\<exists>s'. validate_roles s = Some (Ret s') \<and> rbac_ok s' \<and> \<not> rb_reinit s' \<and> kept plain s (s'\<lparr>rb_reinit := rb_reinit s\<rparr>)"
proof (cases "rb_reinit s")
  case True
  then show ?thesis using reinit_law [OF assms] assms by (simp add: validate_roles_def rbac_ok_def)
next
  case False
  have e: "kept plain s (s\<lparr>rb_reinit := rb_reinit s\<rparr>)" by simp
  have "validate_roles s = Some (Ret s)" using assms False using assms False by (simp add: validate_roles_def rbac_ok_def)
  then show ?thesis using assms False e by blast
qed

lemma exec_ok:
  assumes ok: "rbac_ok s" and v: "op_valid f s"
  shows "(\<exists>m. rbac_exec f s = Some (Fatal m)) \<or> (\<exists>s'. rbac_exec f s = Some (Ret s') \<and> rbac_ok s')"
  using v
proof (cases f)
  case (UserAdd name uid)
  then show ?thesis using user_add_law [OF ok, of name uid] v by (auto dest: after_Ret)
next
  case (RoleAdd name)
  then show ?thesis using role_add_law [OF ok, of name] v by (auto dest: after_Ret)
next
  case (RoleDel r)
  then show ?thesis using role_del_law [OF ok, of r] v by (auto dest: after_Ret)
next
  case (AddUa u r)
  then show ?thesis using add_ua_law [OF ok, of u r] v by (auto dest: after_Ret)
next
  case (DelUa u r)
  then show ?thesis using del_ua_ok [OF ok, of u r] v by (auto dest: after_Ret)
next
  case (SetHier p b)
  then show ?thesis using set_hierarchy_law [OF ok, of p b] v by (auto dest: after_Ret)
next
  case (DelHier p b)
  then show ?thesis using del_hierarchy_ok [OF ok, of p b] v by (auto dest: after_Ret)
next
  case (AddPerm r which t)
  then show ?thesis using add_perm_law [OF ok, of r which t] v by auto
next
  case (DelPerm r which t)
  then show ?thesis using del_perm_law [OF ok, of r which t] v by (auto dest: after_Ret)
next
  case Validate
  then show ?thesis using validate_law [OF ok] by auto
qed

lemma spaces_ok: "rbac_ok s \<Longrightarrow> spaces_grow (rb_spaces s) st \<Longrightarrow> rbac_ok (s\<lparr>rb_spaces := st\<rparr>)"
proof -
  assume ok: "rbac_ok s" and g: "spaces_grow (rb_spaces s) st"
  have sh: "shape_ok s" using ok by (simp add: rbac_ok_def)
  have "space_ids s q \<noteq> {} \<Longrightarrow> sp_vs_id (ss_space st q) = sp_vs_id (ss_space (rb_spaces s) q)" for q
    using g by (simp add: spaces_grow_def space_ids_def)
  note l = spaces_shape [OF sh this]
  show ?thesis using ok l by (simp add: rbac_ok_def rights_ok_def inherited_def)
qed

lemma reach_ok: "rbac_reach s \<Longrightarrow> rbac_ok s"
proof (induction rule: rbac_reach.induct)
  case (start room st)
  then show ?case by (rule start_ok)
next
  case (op s f s')
  then show ?case using exec_ok [of s f] by auto
next
  case (spaces s st)
  then show ?case using spaces_ok by simp
qed

subsection \<open>A concrete administration\<close>

declare subrole_loop.simps [code] inherit_sup_loop.simps [code] inherit_sub_loop.simps [code]

fun rbac_run :: "rbac_op list \<Rightarrow> rbac \<Rightarrow> rbac outcome option" where
  "rbac_run [] s = Some (Ret s)"
| "rbac_run (f # fs) s = (if op_valid f s then bind_res (rbac_exec f s) (rbac_run fs) else None)"

lemma run_reach: "rbac_reach s \<Longrightarrow> rbac_run fs s = Some (Ret s') \<Longrightarrow> rbac_reach s'"
proof (induction fs arbitrary: s)
  case (Cons f fs)
  then obtain s1 where "op_valid f s" "rbac_exec f s = Some (Ret s1)" "rbac_run fs s1 = Some (Ret s')"
    by (auto split: if_splits)
  then show ?case using Cons rbac_reach.op by blast
qed simp

definition home_spaces :: space_state where
  "home_spaces = fst (space_create True (Some ''home'') False Space_Inv.demo_spaces)"

fun the_ret :: "'a outcome option \<Rightarrow> 'a" where
  "the_ret (Some (Ret x)) = x"

definition returned :: "rbac outcome option \<Rightarrow> rbac" where
  "returned x = (case x of Some (Ret s) \<Rightarrow> s | _ \<Rightarrow> rbac_start 0 home_spaces)"

text \<open>Role 0 is below role 1, role 1 may see the space 0, and the user 4 has the role 1.\<close>

definition demo_ops :: "rbac_op list" where
  "demo_ops = [RoleAdd ''staff'', RoleAdd ''admin'', SetHier 1 0, AddPerm 0 0 0, UserAdd ''alice'' 1000, AddUa 4 1]"

definition demo_rbac :: rbac where "demo_rbac = returned (rbac_run demo_ops (rbac_start 20 home_spaces))"

fun is_ret :: "'a outcome option \<Rightarrow> bool" where
  "is_ret (Some (Ret _)) \<longleftrightarrow> True"
| "is_ret _ \<longleftrightarrow> False"

lemma is_ret_returned: "is_ret x \<Longrightarrow> x = Some (Ret (returned x))"
  by (cases x rule: is_ret.cases) (auto simp: returned_def)

lemma demo_runs: "is_ret (rbac_run demo_ops (rbac_start 20 home_spaces))"
  by code_simp

lemma demo_reach: "rbac_reach demo_rbac"
  using run_reach [OF rbac_reach.start is_ret_returned [OF demo_runs]] by (simp add: demo_rbac_def)

lemma demo_facts: "rb_users demo_rbac = [4]" "rb_roles demo_rbac = [1, 0]" "\<not> Option.is_none (rb_role demo_rbac 1)"
  "rb_reinit demo_rbac"
  by code_simp+


subsection \<open>Rights of roles and processes\<close>

lemma reach_shape: "rbac_reach s \<Longrightarrow> shape_ok s" using reach_ok by (simp add: rbac_ok_def)

lemma bind_res_returned [simp]: "bind_res (map_option (\<lambda>s. Ret (c, s)) m) (\<lambda>(_, s). Some (Ret s)) = map_option Ret m"
  by (cases m) simp_all

lemma fatal_source:
  "bind_res (rbac_role_add_perm r which t s) (\<lambda>(_, s). Some (Ret s)) = Some (Fatal m) \<Longrightarrow> space_get_vs (Sp t) (rb_spaces s) = Fatal m"
  by (auto simp: rbac_role_add_perm_def add_right_def Let_def take_room_def upd_role_def
      split: if_splits option.splits outcome.splits bind_splits vs_ref.splits prod.splits)

lemma validated:
  assumes "rbac_ok s"
  shows "\<exists>s'. validate_roles s = Some (Ret s') \<and> \<not> rb_reinit s' \<and> dom (rb_role s') = dom (rb_role s)
    \<and> rb_user s' = rb_user s \<and> rb_users s' = rb_users s
    \<and> (\<forall>r x. rb_role s' r = Some x \<longrightarrow> vs_ids (r_vs_sub x) = {} \<and> (\<forall>a < NR_ACCESS_TYPES. vs_ids (r_vs x a) = inherited s r a))"
proof -
  obtain s' where s': "validate_roles s = Some (Ret s')" "rbac_ok s'" "\<not> rb_reinit s'" "kept plain s (s'\<lparr>rb_reinit := rb_reinit s\<rparr>)"
    using validate_law [OF assms] by blast
  note k = kept_fields [OF s'(4)]
  have i: "inherited s' = inherited s" using kept_inherited [OF s'(4)] by (auto simp: fun_eq_iff)
  have r: "vs_ids (r_vs_sub x) = {} \<and> (\<forall>a < NR_ACCESS_TYPES. vs_ids (r_vs x a) = inherited s r a)" if x: "rb_role s' r = Some x" for r x
  proof -
    have "shape_ok s'" "rights_ok s'" using s'(2,3) by (simp_all add: rbac_ok_def)
    then show ?thesis using shape_roleD [of s' r x] x i by (auto simp: role_ok_def rights_ok_def role_rights_def role_val_def rights_def)
  qed
  have "dom (rb_role s') = dom (rb_role s)" using kept_None [OF s'(4)] by (auto simp: dom_def)
  then show ?thesis using s'(1,3) k(2,4) r by auto
qed

lemma inherited_mem: "i \<in> inherited s x a \<longleftrightarrow> (\<exists>y. (y, x) \<in> (superior s)\<^sup>* \<and> i \<in> own s y a)"
  by (auto simp: inherited_def)

lemma active_set: "set (active w xs) = {r. \<exists>i < length xs. bit w i \<and> xs ! i = Some r}"
proof (induction xs arbitrary: w)
  case Nil
  then show ?case by simp
next
  case (Cons x xs)
  show ?case
  proof (cases "w = 0")
    case False
    have e: "(\<exists>i < length (x # xs). bit w i \<and> (x # xs) ! i = Some r)
        \<longleftrightarrow> bit w 0 \<and> x = Some r \<or> (\<exists>i < length xs. bit (drop_bit 1 w) i \<and> xs ! i = Some r)" for r
      unfolding length_Cons Ex_less_Suc2 nth_Cons_0 nth_Cons_Suc bit_drop_bit_eq comp_def plus_1_eq_Suc ..
    have a: "active w (x # xs) = (if bit w 0 then (case x of None \<Rightarrow> [] | Some r \<Rightarrow> [r]) else []) @ active (drop_bit 1 w) xs"
      using False by simp
    have "set (if bit w 0 then (case x of None \<Rightarrow> [] | Some r \<Rightarrow> [r]) else []) = {r. bit w 0 \<and> x = Some r}"
      by (cases x; cases "bit w 0") simp_all
    then show ?thesis unfolding e a set_append Cons.IH by blast
  qed simp
qed

lemma add_active_law:
  assumes "n < NR_ACCESS_TYPES" "\<forall>r \<in> set rs. \<exists>x. rb_role s r = Some x \<and> vs_ids (r_vs x n) = f r"
  shows "\<exists>v'. add_active n rs v s = Some v' \<and> vs_ids v' = vs_ids v \<union> \<Union> (f ` set rs)"
  using assms(2)
proof (induction rs arbitrary: v)
  case (Cons r rs)
  then obtain x where x: "rb_role s r = Some x" "vs_ids (r_vs x n) = f r" by auto
  have "\<forall>q \<in> set rs. \<exists>x. rb_role s q = Some x \<and> vs_ids (r_vs x n) = f q" using Cons.prems by simp
  from Cons.IH [OF this, of "vs_add (r_vs x n) v"] obtain v' where "add_active n rs (vs_add (r_vs x n) v) s = Some v'"
      "vs_ids v' = vs_ids (vs_add (r_vs x n) v) \<union> \<Union> (f ` set rs)" by blast
  then show ?case using x assms(1) by auto
qed simp

lemma find_cell_Some:
  "find_cell c l = Some (Some p) \<Longrightarrow> c p = Some True \<and> p \<in> set l"
  by (induction l) (auto split: bind_splits if_splits)

lemma find_cell_cong: "(\<And>p. p \<in> set l \<Longrightarrow> c p = d p) \<Longrightarrow> find_cell c l = find_cell d l"
  by (induction l) (auto split: bind_splits)

lemma slot_role:
  assumes "shape_ok s" "rb_user s u = Some x" "Some r \<in> set (u_roles x)"
  shows "rb_role s r \<noteq> None"
proof -
  have "(u, r) \<in> assigned s" using shape_slots [OF assms(1,2)] assms(3) by (simp add: slots_def)
  then obtain a e where "rb_ua s a = Some e" "a_role e = r" by (auto simp: assigned_def ran_def)
  then show ?thesis using linkedD(3) [OF shape_links(4) [OF assms(1)]] by fastforce
qed

lemma proc_user_found:
  assumes "proc_user a buf ob s = Some (Some u)"
  shows "\<exists>x. rb_user s u = Some x \<and> u \<in> set (rb_users s)"
  using assms by (auto simp: proc_user_def rbac_user_find_by_uid_def dest!: find_cell_Some split: bind_splits)

lemma proc_user_cong: "rb_user s' = rb_user s \<Longrightarrow> rb_users s' = rb_users s \<Longrightarrow> proc_user a buf ob s' = proc_user a buf ob s"
  by (simp add: proc_user_def rbac_user_find_by_uid_def)





definition clean_rbac :: rbac where "clean_rbac = returned (rbac_run (demo_ops @ [Validate]) (rbac_start 20 home_spaces))"

lemma clean_runs: "is_ret (rbac_run (demo_ops @ [Validate]) (rbac_start 20 home_spaces))"
  by code_simp

lemma clean_reach: "rbac_reach clean_rbac"
  using run_reach [OF rbac_reach.start is_ret_returned [OF clean_runs]] by (simp add: clean_rbac_def)

lemma clean_facts: "\<not> rb_reinit clean_rbac" "\<not> Option.is_none (rb_role clean_rbac 0)" "0 < rb_room clean_rbac"
  "is_ret (rbac_role_add_perm 0 1 0 clean_rbac) \<and> fst (the_ret (rbac_role_add_perm 0 1 0 clean_rbac)) = 0"
  by code_simp+

text \<open>C17. A permission that is given while the rights are computed adds the identifiers of its space to this right of the role and of all roles above
  it, and changes no other right.\<close>

theorem permission_reaches_superiors:
  assumes "rbac_reach s" "\<not> rb_reinit s" "rb_role s r \<noteq> None" "rbac_role_add_perm r which t s = Some (Ret (0, s'))"
  shows "\<forall>z a. rb_role s z \<noteq> None \<and> a < NR_ACCESS_TYPES \<longrightarrow>
    vs_ids (r_vs (the (rb_role s' z)) a) = vs_ids (r_vs (the (rb_role s z)) a)
      \<union> (if (r, z) \<in> (superior s)\<^sup>* \<and> a = nat which then space_ids s' t else {})"
proof (intro allI impI, elim conjE)
  fix z a
  assume z: "rb_role s z \<noteq> None" and a: "a < NR_ACCESS_TYPES"
  have ok: "rbac_ok s" using assms(1) by (rule reach_ok)
  have "rbac_ok s'" "rb_reinit s' = rb_reinit s" and up: "superior s' = superior s"
    and o: "\<And>y b. own s' y b = own s y b \<union> (if y = r \<and> b = nat which then space_ids s' t else {})"
    and n: "\<And>y. rb_role s' y = None \<longleftrightarrow> rb_role s y = None"
    using add_perm_law [OF ok assms(3), of which t] assms(4) by auto
  then have r: "rights_ok s" "rights_ok s'" using ok assms(2) by (simp_all add: rbac_ok_def)
  have "inherited s' z a = inherited s z a \<union> (if (r, z) \<in> (superior s)\<^sup>* \<and> a = nat which then space_ids s' t else {})"
  proof (rule set_eqI)
    fix i
    let ?new = "(if (r, z) \<in> (superior s)\<^sup>* \<and> a = nat which then space_ids s' t else {})"
    have "i \<in> inherited s' z a \<longleftrightarrow>
        (\<exists>y. (y, z) \<in> (superior s)\<^sup>* \<and> (i \<in> own s y a \<or> y = r \<and> a = nat which \<and> i \<in> space_ids s' t))"
      unfolding inherited_mem up o by (rule ex_cong1) auto
    also have "\<dots> \<longleftrightarrow> i \<in> inherited s z a \<or> i \<in> ?new" unfolding inherited_mem by auto
    finally show "i \<in> inherited s' z a \<longleftrightarrow> i \<in> inherited s z a \<union> ?new" by simp
  qed
  moreover have v: "vs_ids (r_vs (the (rb_role q z)) a) = inherited q z a" if "rights_ok q" "rb_role q z \<noteq> None" for q
    using that a by (auto simp: rights_ok_def role_rights_def role_val_def rights_def)
  ultimately show "vs_ids (r_vs (the (rb_role s' z)) a) = vs_ids (r_vs (the (rb_role s z)) a)
      \<union> (if (r, z) \<in> (superior s)\<^sup>* \<and> a = nat which then space_ids s' t else {})"
    using v [OF r(1) z] v [OF r(2)] z n [of z] by simp
qed

theorem permission_reaches_superiors_witness:
  "\<exists>s'. rbac_role_add_perm 0 1 0 clean_rbac = Some (Ret (0, s')) \<and> (\<forall>z. rb_role clean_rbac z \<noteq> None \<longrightarrow>
     vs_ids (r_vs (the (rb_role s' z)) 0) = vs_ids (r_vs (the (rb_role clean_rbac z)) 0))"
proof -
  have r: "rb_role clean_rbac 0 \<noteq> None" using clean_facts(2) by (simp add: Option.is_none_def)
  obtain s' where s': "rbac_role_add_perm 0 1 0 clean_rbac = Some (Ret (0, s'))"
    using clean_facts(4) by (cases "rbac_role_add_perm 0 1 0 clean_rbac" rule: is_ret.cases) auto
  have n: "(0::nat) < NR_ACCESS_TYPES" by (simp add: NR_ACCESS_TYPES_def)
  show ?thesis using s' permission_reaches_superiors [OF clean_reach clean_facts(1) r s'] n by auto
qed


definition uid_attr :: attr where "uid_attr = \<lparr>a_offset = 8, a_length = 4, a_type = MED_TYPE_UNSIGNED, a_name = ''uid''\<rparr>"

text \<open>A process of the user 1000 whose session has its first role.\<close>

definition demo_process :: object_s where
  "demo_process = \<lparr>o_attr = uid_attr, o_flags = 0, o_class = None, o_data = [1, 0, 0, 0, 0, 0, 0, 0, 0xe8, 3, 0, 0]\<rparr>"

definition demo_proc_handler :: gen_handler where
  "demo_proc_handler = \<lparr>gh_id = 0, gh_classname = 0, gh_cinfo_offset = (\<lambda>_. 0), gh_var_offset = 0, gh_flags = 0,
     gh_root = None, gh_user = None\<rparr>"


subsection \<open>Errors\<close>

lemma inherit_sup_self:
  "inherit_sup_loop q ps s = Some s' \<Longrightarrow>
     q = r \<and> (\<exists>l. ps = h # l) \<and> rb_hier s h = Some \<lparr>h_sup = r, h_sub = r\<rparr> \<and> (\<exists>x l. rb_role s r = Some x \<and> r_sup x = h # l) \<longrightarrow> False"
proof (erule inherit_sup_loop.raw_induct [rotated, where P = "\<lambda>q ps s _. q = r \<and> (\<exists>l. ps = h # l)
    \<and> rb_hier s h = Some \<lparr>h_sup = r, h_sub = r\<rparr> \<and> (\<exists>x l. rb_role s r = Some x \<and> r_sup x = h # l) \<longrightarrow> False"])
  fix loop q ps s s'
  assume IH: "\<And>q ps s s'. loop q ps s = Some s' \<Longrightarrow> q = r \<and> (\<exists>l. ps = h # l)
      \<and> rb_hier s h = Some \<lparr>h_sup = r, h_sub = r\<rparr> \<and> (\<exists>x l. rb_role s r = Some x \<and> r_sup x = h # l) \<longrightarrow> False"
    and body: "(case ps of [] \<Rightarrow> Some s
      | p # ps \<Rightarrow> Option.bind (rb_hier s p) (\<lambda>h. Option.bind (push_vs q (h_sup h) s) (\<lambda>s. Option.bind (rb_role s (h_sup h)) (\<lambda>x.
          Option.bind (loop (h_sup h) (r_sup x) s) (\<lambda>s. loop q ps s))))) = Some s'"
  show "q = r \<and> (\<exists>l. ps = h # l) \<and> rb_hier s h = Some \<lparr>h_sup = r, h_sub = r\<rparr>
      \<and> (\<exists>x l. rb_role s r = Some x \<and> r_sup x = h # l) \<longrightarrow> False"
  proof (intro impI, elim conjE exE)
    fix l x l'
    assume q: "q = r" "ps = h # l" and h: "rb_hier s h = Some \<lparr>h_sup = r, h_sub = r\<rparr>" and x: "rb_role s r = Some x" "r_sup x = h # l'"
    obtain s1 y where s1: "push_vs r r s = Some s1" and y: "rb_role s1 r = Some y" and lo: "\<exists>s2. loop r (r_sup y) s1 = Some s2"
      using body q h by (auto split: bind_splits)
    have "r_sup y = h # l'" "rb_hier s1 = rb_hier s" using s1 y x by (auto simp: push_vs_def upd_role_def)
    then show False using lo IH [of r "r_sup y" s1] h y by auto
  qed
qed

text \<open>C26. Putting a role below itself never returns: the test for a cycle looks only at the roles strictly below, and the walk upwards then
  follows the new edge for ever.\<close>

theorem role_below_itself_never_returns:
  assumes "rbac_reach s" "rb_role s r \<noteq> None" "0 < rb_room s"
  shows "rbac_set_hierarchy r r s = None"
proof -
  obtain x where x: "rb_role s r = Some x" using assms(2) by auto
  have sh: "shape_ok s" using assms(1) by (rule reach_shape)
  then have "(r, r) \<notin> (superior s)\<^sup>+" by (simp add: shape_ok_def acyclic_def)
  then have b: "is_subrole r r s = Some False" using is_subrole_law [OF sh assms(2), of r] by simp
  let ?n = "rb_brk s"
  let ?s = "upd_role r (\<lambda>r. r\<lparr>r_sub := ?n # r_sub r\<rparr>) (upd_role r (\<lambda>r. r\<lparr>r_sup := ?n # r_sup r\<rparr>)
    ((take_room s)\<lparr>rb_hier := (rb_hier s)(?n \<mapsto> \<lparr>h_sup = r, h_sub = r\<rparr>)\<rparr>))"
  let ?x = "x\<lparr>r_sup := ?n # r_sup x, r_sub := ?n # r_sub x\<rparr>"
  have y: "rb_role ?s r = Some ?x" "rb_hier ?s ?n = Some \<lparr>h_sup = r, h_sub = r\<rparr>"
    using x by (simp_all add: upd_role_def take_room_def)
  have "inherit_sup_loop r (?n # r_sup x) ?s = None"
  proof (rule ccontr)
    assume "inherit_sup_loop r (?n # r_sup x) ?s \<noteq> None"
    then obtain s' where "inherit_sup_loop r (?n # r_sup x) ?s = Some s'" by blast
    from inherit_sup_self [OF this, of r ?n] show False using y by simp
  qed
  then have "rbac_inherit_sup r ?s = None" using y(1) by (simp add: rbac_inherit_sup_def)
  then show ?thesis using x b assms(3) by (simp add: rbac_set_hierarchy_def Let_def)
qed

theorem role_below_itself_never_returns_witness: "rbac_set_hierarchy 0 0 clean_rbac = None"
proof -
  have r: "rb_role clean_rbac 0 \<noteq> None" using clean_facts(2) by (simp add: Option.is_none_def)
  show ?thesis by (rule role_below_itself_never_returns [OF clean_reach r clean_facts(3)])
qed



subsection \<open>Names\<close>

lemma names_find_cell:
  assumes "named_ok n name cell l"
  shows "\<exists>c. find_cell (\<lambda>p. map_option (\<lambda>x. x = 0) (Option.bind (cell p) (\<lambda>u. field_cmp n (name u) f))) l = Some c
    \<and> (\<forall>p. c = Some p \<longleftrightarrow> (\<exists>x. cell p = Some x \<and> name x = f))"
proof -
  let ?nm = "\<lambda>p. name (the (cell p))"
  have s: "sorted_wrt (\<lambda>p q. strcmp (?nm p) (?nm q) < 0) l" and d: "dom cell = set l" and len: "\<forall>x \<in> ran cell. length (name x) < n"
    using assms by (auto simp: named_ok_def)
  have "map_option (\<lambda>x. x = 0) (Option.bind (cell p) (\<lambda>u. field_cmp n (name u) f)) = Some (?nm p = f)" if p: "p \<in> set l" for p
  proof -
    obtain x where "cell p = Some x" using p d by auto
    then show ?thesis using len by (auto simp: field_cmp_short ran_def)
  qed
  then have f: "find_cell (\<lambda>p. map_option (\<lambda>x. x = 0) (Option.bind (cell p) (\<lambda>u. field_cmp n (name u) f))) l = Some (List.find (\<lambda>p. ?nm p = f) l)"
    by (intro find_cell_law) simp
  have "List.find (\<lambda>p. ?nm p = f) l = Some p \<longleftrightarrow> p \<in> set l \<and> ?nm p = f" for p
    using s
  proof (induction l)
    case (Cons q l)
    have "?nm q \<noteq> ?nm r" if "r \<in> set l" for r
      using Cons.prems that strcmp_less_iff [of "?nm q" "?nm r"] by auto
    then show ?case using Cons by auto
  qed simp
  moreover have "p \<in> set l \<and> ?nm p = f \<longleftrightarrow> (\<exists>x. cell p = Some x \<and> name x = f)" for p
    unfolding d [symmetric] by (cases "cell p") auto
  ultimately show ?thesis using f by blast
qed

lemma role_find_law:
  assumes "rbac_ok s"
  shows "\<exists>c. rbac_role_find f s = Some c \<and> (\<forall>p. c = Some p \<longleftrightarrow> (\<exists>x. rb_role s p = Some x \<and> r_name x = f))"
proof -
  have "named_ok 64 r_name (rb_role s) (rb_roles s)" "\<not> rb_lock s" using assms by (simp_all add: rbac_ok_def shape_ok_def lists_ok_def)
  then show ?thesis using names_find_cell [of 64 r_name "rb_role s" "rb_roles s" f] by (simp add: rbac_role_find_def role_cmp_def)
qed




end
