(* ===== verification/Execute.thy ===== *)
theory Execute
  imports Exec_Stack Alu Classes Events
begin

text \<open>
  The interpreter of handlers (\<open>language/execute.c\<close>, \<open>language/constant.c\<close>). Its state \<open>vm\<close> has the execution and the chunks of its stack
  (\<open>Exec_Stack\<close>), the variables (\<open>Variables\<close>), the two registers of the thread, the context of the event (the addresses of its three objects, which
  are cells of the store of variables, its own variables and its result), and the messages of \<open>runtime\<close>. Words have 64 bits, and a
  pointer is the word of the address. What does not change while a handler runs is in \<open>env\<close>: the compiled code by the
  number of its word, the classes and attributes by their addresses, and where names lie.

  The program is compiled with \<open>DEBUG_TRACE\<close>: every instruction is followed by a word that holds its place in the configuration.
  \<open>None\<close> is an access through a null or dangling pointer or outside of a block, buffer or program.
\<close>

unbundle bit_operations_syntax

definition LTI :: "64 word" where "LTI = 0"
definition LTS :: "64 word" where "LTS = 1"
definition LTP :: "64 word" where "LTP = 2"
definition LTO :: "64 word" where "LTO = 3"
definition LTa :: "64 word" where "LTa = 4"

datatype instr = oNOP | oLD0 | oLD1 | oLDI | oLTI | oLTS | oLTP | oSTO | oSWP | oDEL | oDEn | oIMM | oLDC | oLDV | oLDS | oATR
  | oNEW | oALI | oVRL | oVRT | oTOF | oCOF | oS2C | oSCS | oSCD | oARG | oDUP | Bin binop | oNOT | oNEG
  | oJR | oJIZ | oJNZ | oJSR | oRET | oBIN | oFET | oUPD

text \<open>The instructions in the order of their numbers.\<close>

definition instrs :: "instr list" where
  "instrs = [oNOP, oLD0, oLD1, oLDI, oLTI, oLTS, oLTP, oSTO, oSWP, oDEL, oDEn, oIMM, oLDC, oLDV, oLDS, oATR, oNEW, oALI, oVRL, oVRT,
     oTOF, oCOF, oS2C, oSCS, oSCD, oARG, oDUP, Bin oADD, Bin oSUB, Bin oMUL, Bin oDIV, Bin oMOD, Bin oSHL, Bin oSHR, Bin oLT, Bin oGT,
     Bin oLE, Bin oGE, Bin oEQ, Bin oNE, Bin oOR, Bin oAND, Bin oXOR, oNOT, oNEG, oJR, oJIZ, oJNZ, oJSR, oRET, oBIN, oFET, oUPD]"

definition opcode_base :: nat where "opcode_base = 0x8100"

definition decode :: "64 word \<Rightarrow> instr option" where
  "decode w = (let n = unat w in
     if opcode_base \<le> n \<and> n - opcode_base < length instrs then Some (instrs ! (n - opcode_base)) else None)"

record vm =
  x_e :: execute_s
  x_h :: "64 word stack_heap"
  x_m :: vmem
  x_r0 :: register_s
  x_r1 :: register_s
  x_operation :: nat
  x_subject :: nat
  x_object :: nat
  x_local_vars :: "nat option"
  x_result :: int
  x_cs :: "nat class_state"
  x_spaces :: space_state
  x_to_wake :: "nat list"
  x_log :: "string list"

type_synonym builtin = "register_s \<Rightarrow> vm \<Rightarrow> (int \<times> register_s \<times> vm) option"

record env =
  en_code :: "int \<Rightarrow> 64 word option"
  en_handler :: "nat \<Rightarrow> int"
  en_func :: "64 word \<Rightarrow> 64 word option"
  en_builtin :: "64 word \<Rightarrow> builtin option"
  en_class :: "nat \<Rightarrow> class_s option"
  en_attrs :: "nat \<Rightarrow> nat"
  en_attr :: "nat \<Rightarrow> attr option"
  en_int :: nat
  en_str :: nat
  en_ptr :: nat
  en_names :: "nat \<Rightarrow> nat"
  en_class_name :: "nat \<Rightarrow> nat"
  en_comm_name :: "nat \<Rightarrow> nat"
  en_comm_find :: "string \<Rightarrow> nat option"
  en_comm :: "nat \<Rightarrow> nat option"
  en_vs_id :: "nat \<Rightarrow> nat"
  en_fetch :: "nat \<Rightarrow> int \<Rightarrow> nat \<Rightarrow> vm \<Rightarrow> (int \<times> vm) option"
  en_update :: "nat \<Rightarrow> int \<Rightarrow> nat \<Rightarrow> vm \<Rightarrow> (int \<times> vm) option"

definition runtime :: "string \<Rightarrow> vm \<Rightarrow> vm" where "runtime msg s = s\<lparr>x_log := x_log s @ [msg]\<rparr>"

definition ptr :: "64 word \<Rightarrow> nat option" where "ptr w = (if w = 0 then None else Some (unat w))"
definition addr :: "nat option \<Rightarrow> 64 word" where "addr p = (case p of None \<Rightarrow> 0 | Some p \<Rightarrow> of_nat p)"

text \<open>The C string at an address: a block has to hold its NUL.\<close>

definition c_chars :: "64 word \<Rightarrow> vm \<Rightarrow> bytes option" where
  "c_chars w s = do {
     bs \<leftarrow> vm_block (x_m s) (unat w);
     if 0 \<in> set bs then Some (takeWhile (\<lambda>b. b \<noteq> 0) bs) else None }"

definition c_str :: "64 word \<Rightarrow> vm \<Rightarrow> string option" where
  "c_str w s = map_option (map (\<lambda>b. char_of (unat b))) (c_chars w s)"

subsection \<open>Pushing and popping\<close>

definition push :: "64 word \<Rightarrow> vm \<Rightarrow> vm option" where
  "push w s = map_option (\<lambda>(e, h). s\<lparr>x_e := e, x_h := h\<rparr>) (execute_push w (x_e s) (x_h s))"

definition pop :: "vm \<Rightarrow> (64 word \<times> vm) option" where
  "pop s = map_option (\<lambda>(w, e, h). (w, s\<lparr>x_e := e, x_h := h\<rparr>)) (execute_pop 0 (x_e s) (x_h s))"

definition upd_e :: "(execute_s \<Rightarrow> execute_s) \<Rightarrow> vm \<Rightarrow> vm" where "upd_e f s = s\<lparr>x_e := f (x_e s)\<rparr>"

definition load_word :: "attr_ref \<Rightarrow> 64 word \<Rightarrow> register_s \<Rightarrow> register_s" where
  "load_word a w r = r\<lparr>r_attr := a, r_data := None, r_buf := put_bytes 0 (word_bytes 8 w) (r_buf r)\<rparr>"

definition init_reg :: "32 word \<Rightarrow> register_s \<Rightarrow> register_s" where
  "init_reg fl r = r\<lparr>r_flags := fl, r_object := None, r_class := None\<rparr>"

text \<open>\<open>get_attribute\<close> with the address of the attribute found, and what is at the address of an attribute; the attribute
  of a variable lies behind its first pointer.\<close>

definition find_attr :: "env \<Rightarrow> nat \<Rightarrow> class_s \<Rightarrow> string \<Rightarrow> attr_ref option" where
  "find_attr env c k name =
     map_option (\<lambda>i. Attr_of (en_attrs env c + 32 * i) (c_attr k ! i))
       (List.find (\<lambda>i. strncmp (a_name (c_attr k ! i)) name MEDUSA_ATTRNAME_MAX = 0) [0..<length (c_attr k)])"

definition attr_at :: "env \<Rightarrow> vmem \<Rightarrow> nat \<Rightarrow> attr_ref option" where
  "attr_at env m p =
     (if p = en_int env then Some Attr_int
      else if p = en_str env then Some Attr_str
      else if p = en_ptr env then Some Attr_pointer
      else (case (if 8 \<le> p then vm_var m (p - 8) else None) of
              Some v \<Rightarrow> Some (Attr_of p (v_attr v))
            | None \<Rightarrow> map_option (Attr_of p) (en_attr env p)))"

definition attr_addr :: "env \<Rightarrow> attr_ref \<Rightarrow> nat" where
  "attr_addr env a =
     (case a of Attr_int \<Rightarrow> en_int env | Attr_str \<Rightarrow> en_str env | Attr_pointer \<Rightarrow> en_ptr env | Attr_tmp \<Rightarrow> 0 | Attr_of p _ \<Rightarrow> p)"

definition obj_to_reg :: "env \<Rightarrow> nat \<Rightarrow> string option \<Rightarrow> register_s \<Rightarrow> vm \<Rightarrow> (register_s \<times> vm) option" where
  "obj_to_reg env p attr r s = do {
     v \<leftarrow> vm_var (x_m s) p;
     let r = init_reg (v_flags v) r;
     case attr of
       None \<Rightarrow> Some (r\<lparr>r_attr := Attr_of (p + 8) (v_attr v), r_object := Some p, r_class := v_class v, r_data := Some (v_data v)\<rparr>, s)
     | Some name \<Rightarrow> do {
         c \<leftarrow> v_class v;
         k \<leftarrow> en_class env c;
         case find_attr env c k name of
           None \<Rightarrow> Some (load_word Attr_int 0 r, runtime ''Variable has no attribute'' s)
         | Some a \<Rightarrow> Some (r\<lparr>r_attr := a, r_data := Some (v_data v)\<rparr>, s) } }"

text \<open>An attribute as the eight words of 32 bits of \<open>tmp_attr\<close>.\<close>

definition attr_bytes :: "attr \<Rightarrow> bytes" where
  "attr_bytes a = word_bytes 2 (a_offset a) @ word_bytes 2 (a_length a) @ [a_type a]
     @ map (\<lambda>c. of_nat (of_char c)) (a_name a) @ replicate (MEDUSA_ATTRNAME_MAX - length (a_name a)) 0"

definition words_of :: "nat \<Rightarrow> bytes \<Rightarrow> 64 word list" where
  "words_of n bs = map (\<lambda>i. bytes_word (take 4 (drop (4 * i) bs))) [0..<n]"

definition bytes_of :: "64 word list \<Rightarrow> bytes" where
  "bytes_of ws = concat (map (word_bytes 4) ws)"

definition R_pop :: "env \<Rightarrow> register_s \<Rightarrow> vm \<Rightarrow> (register_s \<times> vm) option" where
  "R_pop env r s = do {
     let r = init_reg OBJECT_FLAG_LOCAL r;
     (x, s) \<leftarrow> pop s;
     if x = LTI then map_option (\<lambda>(w, s). (load_word Attr_int w r, s)) (pop s)
     else if x = LTS then do {
       (w, s) \<leftarrow> pop s;
       t \<leftarrow> c_chars w s;
       Some (r\<lparr>r_tmp := execute_attr_str\<lparr>a_length := of_nat (length t + 1)\<rparr>, r_attr := Attr_tmp, r_data := Some (unat w)\<rparr>, s) }
     else if x = LTP then map_option (\<lambda>(w, s). (load_word Attr_pointer w r, s)) (pop s)
     else if x = LTO then do {
       (w, s) \<leftarrow> pop s;
       obj_to_reg env (unat w) None r s }
     else do {
       (r, s) \<leftarrow> (if x = LTa then do {
            (ws, s) \<leftarrow> pop_words pop 8 s;
            a \<leftarrow> parse_attr 0 (bytes_of ws);
            Some (r\<lparr>r_attr := Attr_tmp, r_tmp := a\<rparr>, s) }
          else map_option (\<lambda>a. (r\<lparr>r_attr := a\<rparr>, s)) (attr_at env (x_m s) (unat x)));
       (r, s) \<leftarrow> (if a_type (attr_of r) = MED_TYPE_END then map_option (\<lambda>(w, s). (r\<lparr>r_class := ptr w\<rparr>, s)) (pop s) else Some (r, s));
       (x, s) \<leftarrow> pop s;
       if x \<noteq> 0 then Some (r\<lparr>r_data := Some (unat x)\<rparr>, s)
       else do {
         let n = (rlen r + 3) div 4;
         (ws, s) \<leftarrow> pop_words pop n s;
         if 4 * n \<le> length (r_buf r) then Some (r\<lparr>r_data := None, r_buf := put_bytes 0 (bytes_of ws) (r_buf r)\<rparr>, s) else None } } }"

text \<open>The words that \<open>R_push\<close> pushes. It reads the attribute, which may have gone with its variable.\<close>

definition live_attr :: "env \<Rightarrow> vmem \<Rightarrow> register_s \<Rightarrow> bool" where
  "live_attr env m r \<longleftrightarrow> (case r_attr r of Attr_of p _ \<Rightarrow> attr_at env m p \<noteq> None | _ \<Rightarrow> True)"

definition reg_words :: "env \<Rightarrow> register_s \<Rightarrow> vmem \<Rightarrow> 64 word list option" where
  "reg_words env r m =
     (let first = Option.bind (raw r m) (get_field 0 8) in
      if r_attr r = Attr_int then map_option (\<lambda>w. [w, LTI]) first
      else if r_attr r = Attr_pointer then map_option (\<lambda>w. [w, LTP]) first
      else if r_data r \<noteq> None \<and> r_object r \<noteq> None then Some [addr (r_object r), LTO]
      else if r_attr r = Attr_str \<and> r_data r \<noteq> None then Some [addr (r_data r), LTS]
      else if \<not> live_attr env m r then None
      else do {
        let n = (rlen r + 3) div 4;
        data \<leftarrow> (case r_data r of
            None \<Rightarrow> if 4 * n \<le> length (r_buf r) then Some (rev (words_of n (r_buf r)) @ [0]) else None
          | Some p \<Rightarrow> Some [of_nat p]);
        Some (data @ (if a_type (attr_of r) = MED_TYPE_END then [addr (r_class r)] else [])
          @ (if r_attr r = Attr_tmp then rev (words_of 8 (attr_bytes (r_tmp r))) @ [LTa] else [of_nat (attr_addr env (r_attr r))])) })"

definition R_push :: "env \<Rightarrow> register_s \<Rightarrow> vm \<Rightarrow> vm option" where
  "R_push env r s = do { ws \<leftarrow> reg_words env r (x_m s); push_words push ws s }"

subsection \<open>Arguments\<close>

definition set_pos :: "int \<Rightarrow> vm \<Rightarrow> vm" where "set_pos n = upd_e (\<lambda>e. e\<lparr>ex_pos := n\<rparr>)"
definition set_keep :: "bool \<Rightarrow> vm \<Rightarrow> vm" where "set_keep b = upd_e (\<lambda>e. e\<lparr>ex_keep_stack := b\<rparr>)"

definition to_int :: "64 word \<Rightarrow> int" where "to_int w = sint (ucast w :: 32 word)"

fun r_pops :: "env \<Rightarrow> nat \<Rightarrow> register_s \<Rightarrow> vm \<Rightarrow> (register_s \<times> vm) option" where
  "r_pops env 0 r s = Some (r, s)"
| "r_pops env (Suc n) r s = do { (r, s) \<leftarrow> R_pop env r s; r_pops env n r s }"

text \<open>\<open>fn_getsval\<close> without a register returns the number of arguments.\<close>

definition fn_getsval_n :: "vm \<Rightarrow> (int \<times> vm) option" where
  "fn_getsval_n s = do {
     let z = ex_pos (x_e s);
     (n, s) \<leftarrow> pop (set_keep True s);
     Some (to_int n, set_keep False (set_pos z s)) }"

definition fn_getsval :: "env \<Rightarrow> register_s \<Rightarrow> vm \<Rightarrow> (bool \<times> register_s \<times> vm) option" where
  "fn_getsval env r s = do {
     let z = ex_pos (x_e s);
     (n, s) \<leftarrow> pop (set_keep True s);
     let k = ex_fn_getsval_p (x_e s);
     if to_int n \<le> k then Some (False, r, set_keep False (set_pos z s))
     else do {
       (r, s) \<leftarrow> r_pops env (nat (to_int n - k)) r s;
       Some (True, r, set_keep False (upd_e (\<lambda>e. e\<lparr>ex_fn_getsval_p := k + 1\<rparr>) (set_pos z s))) } }"

definition logs :: "string list \<Rightarrow> vm \<Rightarrow> vm" where "logs ms s = s\<lparr>x_log := x_log s @ ms\<rparr>"

definition imm :: "register_s \<Rightarrow> vm \<Rightarrow> (register_s \<times> vm) option" where
  "imm r s = map_option (\<lambda>(r, ms). (r, logs ms s)) (r_imm r (x_m s))"

definition fn_getargsval :: "env \<Rightarrow> int \<Rightarrow> register_s \<Rightarrow> vm \<Rightarrow> (bool \<times> register_s \<times> vm) option" where
  "fn_getargsval env i r s =
     (if i \<le> 0 then Some (False, r, s)
      else do {
        let z = ex_pos (x_e s);
        (_, s) \<leftarrow> pop (set_pos (ex_base (x_e s)) (set_keep True s));
        (_, s) \<leftarrow> pop s;
        (n, s) \<leftarrow> pop s;
        let i = to_int n - i;
        if i < 0 then Some (False, r, set_keep False (set_pos z s))
        else do {
          (r, s) \<leftarrow> r_pops env (nat i + 1) r s;
          (r, s) \<leftarrow> imm r (set_pos z s);
          Some (True, r, set_keep False s) } })"

subsection \<open>Variables by name\<close>

definition named :: "nat \<Rightarrow> string \<Rightarrow> vm \<Rightarrow> bool option" where
  "named p name s = map_option (\<lambda>v. v_class v \<noteq> None \<and> strncmp (a_name (v_attr v)) name MEDUSA_ATTRNAME_MAX = 0) (vm_var (x_m s) p)"

text \<open>Only the variables of the running function are searched, not those of its callers: \<open>LOCAL_VARS_RECURSIVE_SEARCH\<close> is
  not defined.\<close>

definition data_find_var :: "env \<Rightarrow> string \<Rightarrow> vm \<Rightarrow> (nat option \<times> vm) option" where
  "data_find_var env name s = do {
     b1 \<leftarrow> named (x_operation s) name s;
     b2 \<leftarrow> named (x_subject s) name s;
     b3 \<leftarrow> named (x_object s) name s;
     if b1 then Some (Some (x_operation s), s)
     else if b2 then Some (Some (x_subject s), s)
     else if b3 then Some (Some (x_object s), s)
     else do {
       w \<leftarrow> execute_readstack 0 (x_e s) (ex_base (x_e s)) (x_h s);
       q \<leftarrow> get_var (ptr w) name (x_m s);
       case q of
         Some q \<Rightarrow> Some (Some q, s)
       | None \<Rightarrow> do {
           q \<leftarrow> get_var (x_local_vars s) name (x_m s);
           Some (q, if q = None then runtime ''Undefined variable'' s else s) } } }"

text \<open>The attribute of this name of one of the objects of the context.\<close>

definition context_attr :: "env \<Rightarrow> string \<Rightarrow> nat \<Rightarrow> register_s \<Rightarrow> vm \<Rightarrow> register_s option option" where
  "context_attr env name p r s = do {
     v \<leftarrow> vm_var (x_m s) p;
     case v_class v of
       None \<Rightarrow> Some None
     | Some c \<Rightarrow> do {
         k \<leftarrow> en_class env c;
         Some (map_option (\<lambda>a. (init_reg (v_flags v) r)\<lparr>r_attr := a, r_data := Some (v_data v)\<rparr>) (find_attr env c k name)) } }"

text \<open>The name as an attribute of the operation, the subject or the object.\<close>

definition context_reg :: "env \<Rightarrow> string \<Rightarrow> register_s \<Rightarrow> vm \<Rightarrow> register_s option option" where
  "context_reg env name r s = do {
     a \<leftarrow> context_attr env name (x_operation s) r s;
     if a \<noteq> None then Some a else do {
     a \<leftarrow> context_attr env name (x_subject s) r s;
     if a \<noteq> None then Some a else context_attr env name (x_object s) r s } }"

definition reg_load_var :: "env \<Rightarrow> string \<Rightarrow> string option \<Rightarrow> register_s \<Rightarrow> vm \<Rightarrow> (register_s \<times> vm) option" where
  "reg_load_var env name attr r s = do {
     let r = init_reg 0 r;
     c \<leftarrow> (if attr \<noteq> None then Some None else context_reg env name r s);
     case c of
       Some r \<Rightarrow> Some (r, s)
     | None \<Rightarrow> do {
         (q, s) \<leftarrow> data_find_var env name s;
         case q of
           None \<Rightarrow> Some (load_word Attr_int 0 r, s)
         | Some q \<Rightarrow> obj_to_reg env q attr r s } }"

text \<open>\<open>load_constant\<close>; \<open>Tspace\<close> is the only type of constants.\<close>

definition load_constant :: "env \<Rightarrow> bool \<Rightarrow> string \<Rightarrow> register_s \<Rightarrow> vm \<Rightarrow> register_s \<times> vm" where
  "load_constant env is_space name r s =
     (let a = \<lparr>a_offset = 0, a_length = 8, a_type = MED_TYPE_UNSIGNED, a_name = []\<rparr>;
          r = (load_word Attr_tmp 0 r)\<lparr>r_flags := 0, r_object := None, r_tmp := a\<rparr> in
      if is_space then
        (case space_find name (x_spaces s) of
           None \<Rightarrow> (r, runtime ''Undefined space'' s)
         | Some t \<Rightarrow> (r\<lparr>r_data := Some (en_vs_id env t),
             r_tmp := a\<lparr>a_length := of_nat (VS_WORDS * 4), a_type := MED_TYPE_BITMAP OR MED_TYPE_READ_ONLY\<rparr>\<rparr>, s))
      else (r, runtime ''Unknown type of constant!'' s))"


subsection \<open>Instructions\<close>

definition pop0 :: "env \<Rightarrow> vm \<Rightarrow> vm option" where
  "pop0 env s = map_option (\<lambda>(r, s). s\<lparr>x_r0 := r\<rparr>) (R_pop env (x_r0 s) s)"

definition pop1 :: "env \<Rightarrow> vm \<Rightarrow> vm option" where
  "pop1 env s = map_option (\<lambda>(r, s). s\<lparr>x_r1 := r\<rparr>) (R_pop env (x_r1 s) s)"

definition push0 :: "env \<Rightarrow> vm \<Rightarrow> vm option" where "push0 env s = R_push env (x_r0 s) s"
definition push1 :: "env \<Rightarrow> vm \<Rightarrow> vm option" where "push1 env s = R_push env (x_r1 s) s"

definition push2 :: "64 word \<Rightarrow> 64 word \<Rightarrow> vm \<Rightarrow> vm option" where
  "push2 w t s = Option.bind (push w s) (push t)"

definition operand :: "env \<Rightarrow> vm \<Rightarrow> (64 word \<times> vm) option" where
  "operand env s = map_option (\<lambda>w. (w, upd_e (\<lambda>e. e\<lparr>ex_p := ex_p e + 1\<rparr>) s)) (en_code env (ex_p (x_e s)))"

definition name_operand :: "env \<Rightarrow> vm \<Rightarrow> (string \<times> vm) option" where
  "name_operand env s = do { (w, s) \<leftarrow> operand env s; n \<leftarrow> c_str w s; Some (n, s) }"

text \<open>\<open>(e->p) += *(e->p) + 1\<close>\<close>

definition jump :: "env \<Rightarrow> vm \<Rightarrow> vm option" where
  "jump env s = map_option (\<lambda>w. upd_e (\<lambda>e. e\<lparr>ex_p := ex_p e + sint w + 1\<rparr>) s) (en_code env (ex_p (x_e s)))"

text \<open>The first word of the data of a register, and the C string in them.\<close>

definition first_word :: "register_s \<Rightarrow> vm \<Rightarrow> 64 word option" where
  "first_word r s = Option.bind (raw r (x_m s)) (get_field 0 8)"

definition reg_str :: "register_s \<Rightarrow> vm \<Rightarrow> string option" where
  "reg_str r s = do {
     bs \<leftarrow> raw r (x_m s);
     if 0 \<in> set bs then Some (map (\<lambda>b. char_of (unat b)) (takeWhile (\<lambda>b. b \<noteq> 0) bs)) else None }"

text \<open>The word below which the variables of the running function hang, in its chunk.\<close>

definition local_slot :: "vm \<Rightarrow> (nat \<times> int) option" where
  "local_slot s = Option.bind (execute_stack_pointer (x_e s) (ex_base (x_e s)) (x_h s)) id"

definition read_slot :: "nat \<times> int \<Rightarrow> vm \<Rightarrow> 64 word option" where
  "read_slot qi s = Option.bind (sh_cell (x_h s) (fst qi)) (chunk_read (snd qi))"

definition write_slot :: "nat \<times> int \<Rightarrow> 64 word \<Rightarrow> vm \<Rightarrow> vm option" where
  "write_slot qi w s = do {
     c \<leftarrow> sh_cell (x_h s) (fst qi);
     c \<leftarrow> chunk_write (snd qi) w c;
     Some (s\<lparr>x_h := (x_h s)\<lparr>sh_cell := (sh_cell (x_h s))(fst qi \<mapsto> c)\<rparr>\<rparr>) }"

text \<open>The result of an instruction: \<open>Some i\<close> when the interpreter returns \<open>i\<close>.\<close>

type_synonym result = "(int option \<times> vm) option"

definition next_instr :: "vm option \<Rightarrow> result" where "next_instr = map_option (Pair None)"

definition transfer :: "env \<Rightarrow> (nat \<Rightarrow> int \<Rightarrow> nat \<Rightarrow> vm \<Rightarrow> (int \<times> vm) option) \<Rightarrow> string \<Rightarrow> int \<Rightarrow> vm \<Rightarrow> result" where
  "transfer env f msg cmd_p s = do {
     (n, s) \<leftarrow> name_operand env s;
     (q, s) \<leftarrow> data_find_var env n s;
     case q of
       None \<Rightarrow> next_instr (push2 0 LTI s)
     | Some v \<Rightarrow> do {
         x \<leftarrow> vm_var (x_m s) v;
         c \<leftarrow> v_class x;
         k \<leftarrow> en_class env c;
         (i, s) \<leftarrow> f (c_comm k) (ex_cont (x_e s)) v s;
         if 0 < i then Some (Some i, upd_e (\<lambda>e. e\<lparr>ex_cont := i, ex_p := cmd_p\<rparr>) s)
         else next_instr (if i < 0 then push2 0 LTI (runtime msg s) else push2 1 LTI s) } }"

definition class_of_names :: "env \<Rightarrow> 64 word \<Rightarrow> vm \<Rightarrow> nat option option" where
  "class_of_names env w s = do {
     i \<leftarrow> List.find (\<lambda>i. en_names env i = unat w) [0..<length (cs_names (x_cs s))];
     conn \<leftarrow> ex_comm (x_e s);
     Some (cn_classes (cs_names (x_cs s) ! i) conn) }"

definition put_first :: "64 word \<Rightarrow> vm \<Rightarrow> vm option" where
  "put_first w s = map_option (\<lambda>(r, m). s\<lparr>x_r0 := r, x_m := m\<rparr>) (put_raw (word_bytes 8 w) (x_r0 s) (x_m s))"

definition new_variable :: "env \<Rightarrow> string \<Rightarrow> vm \<Rightarrow> vm option" where
  "new_variable env name s = do {
     s \<leftarrow> pop0 env s;
     w \<leftarrow> first_word (x_r0 s) s;
     c \<leftarrow> (if r_attr (x_r0 s) \<noteq> Attr_pointer \<or> w = 0 then Some None else class_of_names env w s);
     case c of
       None \<Rightarrow> do { s \<leftarrow> put_first 0 (runtime ''Invalid variable type'' s); push0 env s }
     | Some c \<Rightarrow> do {
         k \<leftarrow> en_class env c;
         let (v, m) = alloc_var name None (Some (c, k)) (x_m s);
         let s = s\<lparr>x_m := m\<rparr>;
         s \<leftarrow> put_first (addr v) (if v = None then runtime ''Can't allocate varible'' s else s);
         push0 env s } }"

definition alias_variable :: "env \<Rightarrow> string \<Rightarrow> vm \<Rightarrow> vm option" where
  "alias_variable env name s = do {
     s \<leftarrow> pop0 env s;
     if rkind (x_r0 s) \<noteq> MED_TYPE_STRING \<or> r_data (x_r0 s) = Some 0 then
       (let s = runtime ''Invalid name of aliased variable'' s in
        push0 env (s\<lparr>x_r0 := load_word Attr_pointer 0 (x_r0 s)\<rparr>))
     else do {
       n \<leftarrow> reg_str (x_r0 s) s;
       (q, s) \<leftarrow> data_find_var env n s;
       (v, m) \<leftarrow> data_alias_var name q (x_m s);
       let s = s\<lparr>x_m := m\<rparr>;
       let s = (if v = None then runtime ''Can't alias variable'' s else s);
       push0 env (s\<lparr>x_r0 := load_word Attr_pointer (addr v) (init_reg 0 (x_r0 s))\<rparr>) } }"

text \<open>\<open>oVRL\<close> and \<open>oVRT\<close>: the variable whose address was pushed is linked into the variables of the function or of the event.\<close>

definition link_variable :: "env \<Rightarrow> bool \<Rightarrow> vm \<Rightarrow> vm option" where
  "link_variable env is_local s = do {
     s \<leftarrow> pop0 env s;
     w \<leftarrow> first_word (x_r0 s) s;
     if r_attr (x_r0 s) \<noteq> Attr_pointer \<or> w = 0 then push0 env s
     else do {
       s \<leftarrow> (if is_local then do {
           qi \<leftarrow> local_slot s;
           p \<leftarrow> read_slot qi s;
           (p, _, m) \<leftarrow> var_link (ptr p) (unat w) (x_m s);
           write_slot qi (addr p) (s\<lparr>x_m := m\<rparr>) }
         else do {
           (p, _, m) \<leftarrow> var_link (x_local_vars s) (unat w) (x_m s);
           Some (s\<lparr>x_local_vars := p, x_m := m\<rparr>) });
       (r, s) \<leftarrow> obj_to_reg env (unat w) None (x_r0 s) s;
       push0 env (s\<lparr>x_r0 := r\<rparr>) } }"


definition push_name :: "env \<Rightarrow> (class_s \<Rightarrow> nat) \<Rightarrow> string \<Rightarrow> vm \<Rightarrow> vm option" where
  "push_name env f msg s =
     (case r_class (x_r0 s) of
        None \<Rightarrow> push2 0 LTS (runtime msg s)
      | Some c \<Rightarrow> do { k \<leftarrow> en_class env c; push2 (of_nat (f k)) LTS s })"

text \<open>\<open>oS2C\<close>. A class name that is not known is added, with two allocations.\<close>

definition string_to_class :: "env \<Rightarrow> vm \<Rightarrow> vm option" where
  "string_to_class env s = do {
     s \<leftarrow> pop0 env s;
     if rkind (x_r0 s) \<noteq> MED_TYPE_STRING then push2 0 LTP (runtime ''Name of class must be identifier or string'' s)
     else do {
       n \<leftarrow> reg_str (x_r0 s) s;
       let room = vm_room (x_m s);
       let (cs, i) = get_class_by_name n (2 \<le> room) (x_cs s);
       let used = (if length (cs_names cs) = length (cs_names (x_cs s)) then 0 else 2);
       let s = s\<lparr>x_cs := cs, x_m := (x_m s)\<lparr>vm_room := room - used\<rparr>\<rparr>;
       case i of
         None \<Rightarrow> push2 0 LTP (runtime ''Class does not exist'' s)
       | Some i \<Rightarrow> push2 (of_nat (en_names env i)) LTP s } }"

definition own_comm :: "env \<Rightarrow> vm \<Rightarrow> vm option" where
  "own_comm env s = map_option (\<lambda>b. upd_e (\<lambda>e. e\<lparr>ex_comm := en_comm env b\<rparr>) s) (ex_my_comm_buff (x_e s))"

text \<open>\<open>oSCS\<close>: a connection that is not found is replaced by the one of the event.\<close>

definition select_comm :: "env \<Rightarrow> vm \<Rightarrow> vm option" where
  "select_comm env s = do {
     s \<leftarrow> pop0 env s;
     if rkind (x_r0 s) \<noteq> MED_TYPE_STRING then Some (runtime ''Name of connection must be string'' s)
     else do {
       n \<leftarrow> reg_str (x_r0 s) s;
       case en_comm_find env n of
         Some c \<Rightarrow> Some (upd_e (\<lambda>e. e\<lparr>ex_comm := Some c\<rparr>) s)
       | None \<Rightarrow> own_comm env s } }"

definition call :: "env \<Rightarrow> vm \<Rightarrow> vm option" where
  "call env s = do {
     (x, s) \<leftarrow> operand env s;
     x \<leftarrow> en_func env x;
     if x = 0 then push2 0 LTI (runtime ''Call undefined function'' s)
     else do {
       s \<leftarrow> push2 (word_of_int (ex_p (x_e s))) (word_of_int (ex_base (x_e s))) s;
       s \<leftarrow> push 0 (upd_e (\<lambda>e. e\<lparr>ex_base := ex_pos e\<rparr>) s);
       Some (upd_e (\<lambda>e. e\<lparr>ex_p := uint x\<rparr>) s) } }"

definition return :: "env \<Rightarrow> vm \<Rightarrow> result" where
  "return env s = do {
     s \<leftarrow> pop0 env s;
     (r, s) \<leftarrow> imm (x_r0 s) s;
     qi \<leftarrow> local_slot s;
     p \<leftarrow> read_slot qi s;
     s \<leftarrow> write_slot qi 0 (s\<lparr>x_r0 := r\<rparr>);
     m \<leftarrow> free_vars (ptr p) (x_m s);
     (_, s) \<leftarrow> pop (s\<lparr>x_m := m\<rparr>);
     (b, s) \<leftarrow> pop s;
     let s = upd_e (\<lambda>e. e\<lparr>ex_base := to_int b\<rparr>) s;
     if ex_pos (x_e s) \<le> ex_start (x_e s) then do {
       i \<leftarrow> r_int (x_r0 s) (x_m s);
       m \<leftarrow> free_vars (x_local_vars s) (x_m s);
       Some (Some 0, set_pos (ex_start (x_e s)) (s\<lparr>x_result := i, x_m := m, x_local_vars := None\<rparr>)) }
     else do {
       (p, s) \<leftarrow> pop s;
       next_instr (push0 env (upd_e (\<lambda>e. e\<lparr>ex_p := uint p\<rparr>) s)) } }"

definition attribute :: "env \<Rightarrow> string \<Rightarrow> vm \<Rightarrow> vm option" where
  "attribute env name s = do {
     s \<leftarrow> pop0 env s;
     case r_object (x_r0 s) of
       None \<Rightarrow> push2 0 LTI (runtime ''Referencing attribute in non object'' s)
     | Some p \<Rightarrow> do {
         (r, s) \<leftarrow> obj_to_reg env p (Some name) (x_r0 s) s;
         push0 env (s\<lparr>x_r0 := r\<rparr>) } }"

definition builtin_call :: "env \<Rightarrow> int \<Rightarrow> vm \<Rightarrow> result" where
  "builtin_call env cmd_p s = do {
     (x, s) \<leftarrow> operand env s;
     f \<leftarrow> en_builtin env x;
     let s = upd_e (\<lambda>e. e\<lparr>ex_fn_getsval_p := 0\<rparr>) s;
     (i, r, s) \<leftarrow> f (load_word Attr_int (- 1) (init_reg 0 (x_r0 s))) s;
     let s = s\<lparr>x_r0 := r\<rparr>;
     if 0 < i then Some (Some i, upd_e (\<lambda>e. e\<lparr>ex_cont := i, ex_p := cmd_p\<rparr>) s)
     else next_instr (push0 env s) }"

definition Tspace :: "64 word" where "Tspace = 0x123"

definition branch :: "env \<Rightarrow> bool \<Rightarrow> vm \<Rightarrow> vm option" where
  "branch env when s = do {
     s \<leftarrow> pop0 env s;
     z \<leftarrow> r_nz (x_r0 s) (x_m s);
     if z = when then jump env s else map_option snd (operand env s) }"

definition exec_instr :: "env \<Rightarrow> int \<Rightarrow> instr \<Rightarrow> vm \<Rightarrow> result" where
  "exec_instr env cmd_p i s =
     (case i of
        oNOP \<Rightarrow> next_instr (Some s)
      | oLTI \<Rightarrow> next_instr (push LTI s)
      | oLTS \<Rightarrow> next_instr (push LTS s)
      | oLTP \<Rightarrow> next_instr (push LTP s)
      | oLDI \<Rightarrow> next_instr (do { (w, s) \<leftarrow> operand env s; push w s })
      | oLD0 \<Rightarrow> next_instr (push2 0 LTI s)
      | oLD1 \<Rightarrow> next_instr (push2 1 LTI s)
      | oDUP \<Rightarrow> next_instr (do { s \<leftarrow> pop0 env s; s \<leftarrow> push0 env s; push0 env s })
      | oSWP \<Rightarrow> next_instr (do { s \<leftarrow> pop0 env s; s \<leftarrow> pop1 env s; s \<leftarrow> push0 env s; push1 env s })
      | oDEL \<Rightarrow> next_instr (pop0 env s)
      | oDEn \<Rightarrow> next_instr (do {
          s \<leftarrow> pop1 env s;
          (x, s) \<leftarrow> pop s;
          (r, s) \<leftarrow> r_pops env (unat x) (x_r0 s) s;
          push1 env (s\<lparr>x_r0 := r\<rparr>) })
      | oIMM \<Rightarrow> next_instr (do { s \<leftarrow> pop0 env s; (r, s) \<leftarrow> imm (x_r0 s) s; push0 env (s\<lparr>x_r0 := r\<rparr>) })
      | oSTO \<Rightarrow> next_instr (do {
          s \<leftarrow> pop0 env s;
          s \<leftarrow> pop1 env s;
          (d, m, ms) \<leftarrow> r_sto (en_class env) (x_r1 s) (x_r0 s) (x_m s);
          push1 env (logs ms (s\<lparr>x_r0 := d, x_m := m\<rparr>)) })
      | oFET \<Rightarrow> transfer env (en_fetch env) ''Can't fetch object'' cmd_p s
      | oUPD \<Rightarrow> transfer env (en_update env) ''Can't update object'' cmd_p s
      | oLDC \<Rightarrow> next_instr (do {
          (t, s) \<leftarrow> operand env s;
          (n, s) \<leftarrow> name_operand env s;
          let (r, s) = load_constant env (t = Tspace) n (x_r0 s) s;
          push0 env (s\<lparr>x_r0 := r\<rparr>) })
      | oLDV \<Rightarrow> next_instr (do {
          (n, s) \<leftarrow> name_operand env s;
          (r, s) \<leftarrow> reg_load_var env n None (x_r0 s) s;
          push0 env (s\<lparr>x_r0 := r\<rparr>) })
      | oLDS \<Rightarrow> next_instr (do {
          (n, s) \<leftarrow> name_operand env s;
          (a, s) \<leftarrow> name_operand env s;
          (r, s) \<leftarrow> reg_load_var env n (Some a) (x_r0 s) s;
          push0 env (s\<lparr>x_r0 := r\<rparr>) })
      | oATR \<Rightarrow> next_instr (do { (n, s) \<leftarrow> name_operand env s; attribute env n s })
      | oNEW \<Rightarrow> next_instr (do { (n, s) \<leftarrow> name_operand env s; new_variable env n s })
      | oALI \<Rightarrow> next_instr (do { (n, s) \<leftarrow> name_operand env s; alias_variable env n s })
      | oVRL \<Rightarrow> next_instr (link_variable env True s)
      | oVRT \<Rightarrow> next_instr (link_variable env False s)
      | oTOF \<Rightarrow> next_instr (do { s \<leftarrow> pop0 env s; push_name env (\<lambda>k. en_class_name env (c_classname k)) ''Invalid typeof() argument'' s })
      | oCOF \<Rightarrow> next_instr (do { s \<leftarrow> pop0 env s; s \<leftarrow> push_name env (\<lambda>k. en_comm_name env (c_comm k)) ''Invalid commof() argument'' s;
          string_to_class env s })
      | oS2C \<Rightarrow> next_instr (string_to_class env s)
      | oSCS \<Rightarrow> next_instr (select_comm env s)
      | oSCD \<Rightarrow> next_instr (own_comm env s)
      | Bin b \<Rightarrow> next_instr (do {
          s \<leftarrow> pop0 env s;
          s \<leftarrow> pop1 env s;
          (v, d, ms) \<leftarrow> do_bin_op b (x_r1 s) (x_r0 s) (x_m s);
          push1 env (logs ms (s\<lparr>x_r1 := v, x_r0 := d\<rparr>)) })
      | oNOT \<Rightarrow> next_instr (do {
          s \<leftarrow> pop0 env s;
          (r, m) \<leftarrow> r_not (x_r0 s) (x_m s);
          push0 env (s\<lparr>x_r0 := r, x_m := m\<rparr>) })
      | oNEG \<Rightarrow> next_instr (do {
          s \<leftarrow> pop0 env s;
          (r, s) \<leftarrow> imm (x_r0 s) s;
          (r, m) \<leftarrow> r_neg r (x_m s);
          push0 env (s\<lparr>x_r0 := r, x_m := m\<rparr>) })
      | oJR \<Rightarrow> next_instr (jump env s)
      | oJIZ \<Rightarrow> next_instr (branch env False s)
      | oJNZ \<Rightarrow> next_instr (branch env True s)
      | oJSR \<Rightarrow> next_instr (call env s)
      | oRET \<Rightarrow> return env s
      | oARG \<Rightarrow> next_instr (do {
          (x, s) \<leftarrow> operand env s;
          (b, r, s) \<leftarrow> fn_getargsval env (to_int x) (x_r0 s) s;
          push0 env ((if b then s else runtime ''Invalid argument'' s)\<lparr>x_r0 := r\<rparr>) })
      | oBIN \<Rightarrow> builtin_call env cmd_p s)"

text \<open>One round of the loop: the opcode, the place of the instruction, and the instruction itself. After an instruction \<open>cont\<close> is reset.\<close>

definition step :: "env \<Rightarrow> vm \<Rightarrow> result" where
  "step env s = do {
     let cmd_p = ex_p (x_e s);
     (cmd, s) \<leftarrow> operand env s;
     (_, s) \<leftarrow> operand env s;
     (r, s) \<leftarrow> (case decode cmd of
         Some i \<Rightarrow> exec_instr env cmd_p i s
       | None \<Rightarrow> do {
           _ \<leftarrow> en_code env (ex_p (x_e s));
           _ \<leftarrow> en_code env (ex_p (x_e s) + 1);
           Some (None, runtime ''Illegal instruction'' s) });
     Some (r, if r = None then upd_e (\<lambda>e. e\<lparr>ex_cont := 0\<rparr>) s else s) }"

partial_function (option) execute_handler_do :: "env \<Rightarrow> vm \<Rightarrow> (int \<times> vm) option" where
  "execute_handler_do env s =
     Option.bind (step env s) (\<lambda>r. case fst r of Some i \<Rightarrow> Some (i, snd r) | None \<Rightarrow> execute_handler_do env (snd r))"

text \<open>A buffer that executes another handler is put into the queue of those that wait for it.\<close>

definition execute_handler :: "env \<Rightarrow> nat \<Rightarrow> nat \<Rightarrow> nat \<Rightarrow> vm \<Rightarrow> (int \<times> vm) option" where
  "execute_handler env b h c s =
     (if ex_h (x_e s) \<noteq> None \<and> (ex_h (x_e s) \<noteq> Some h \<or> ex_c (x_e s) \<noteq> Some c) then Some (2, s\<lparr>x_to_wake := x_to_wake s @ [b]\<rparr>)
      else do {
        s \<leftarrow> (if ex_h (x_e s) \<noteq> None then Some s
             else do {
               let s = upd_e (\<lambda>e. e\<lparr>ex_h := Some h, ex_c := Some c, ex_comm := en_comm env b, ex_my_comm_buff := Some b,
                   ex_p := en_handler env h, ex_cont := 0, ex_keep_stack := False, ex_start := ex_pos e\<rparr>) s;
               s \<leftarrow> push (word_of_int (ex_base (x_e s))) (s\<lparr>x_result := RESULT_ALLOW\<rparr>);
               push 0 (upd_e (\<lambda>e. e\<lparr>ex_base := ex_pos e\<rparr>) s) });
        (i, s) \<leftarrow> execute_handler_do env s;
        Some (i, if i \<le> 0 then upd_e (\<lambda>e. e\<lparr>ex_h := None\<rparr>) s else s) })"


end
