(* ===== verification/Exec_Law.thy ===== *)
theory Exec_Law
  imports Execute
begin

text \<open>
  The interpreter over the specification of its stack: \<open>vrel r s n xs\<close> says that the stack of \<open>s\<close> is the list of words \<open>xs\<close> with
  room for \<open>n\<close> further words, and that \<open>s\<close> agrees with \<open>r\<close> in all else. Pushing and popping are an instance of the locale \<open>lifo\<close> of
  \<open>Exec_Stack\<close> for every \<open>r\<close>. Here are what a pushed register is popped as, and the effect of instructions on words.
\<close>

unbundle bit_operations_syntax

subsection \<open>Frames\<close>

definition rest :: "vm \<Rightarrow> vm" where
  "rest s = s\<lparr>x_e := (x_e s)\<lparr>ex_stack := 0, ex_pos := 0\<rparr>, x_h := \<lparr>sh_cell = Map.empty, sh_brk = 0, sh_free = None, sh_mem = 0\<rparr>\<rparr>"

definition vrel :: "vm \<Rightarrow> vm \<Rightarrow> nat \<Rightarrow> 64 word list \<Rightarrow> bool" where
  "vrel r s n xs \<longleftrightarrow> rest s = rest r \<and> stack_rel (x_e s, x_h s) n xs"

lemma push_vrel:
  assumes "vrel r s (Suc n) xs"
  shows "\<exists>s'. push w s = Some s' \<and> vrel r s' n (xs @ [w])"
proof -
  obtain ids fl cur where "stack_repr (x_e s) (x_h s) (Suc n) xs ids fl cur" using assms by (auto simp: vrel_def stack_rel_repr)
  from execute_push_repr [OF this] obtain p h where
    "execute_push w (x_e s) (x_h s) = Some ((x_e s)\<lparr>ex_stack := p, ex_pos := ex_pos (x_e s) + 1\<rparr>, h)"
    "stack_rel ((x_e s)\<lparr>ex_stack := p, ex_pos := ex_pos (x_e s) + 1\<rparr>, h) n (xs @ [w])" by blast
  then show ?thesis using assms by (auto simp: push_def vrel_def rest_def)
qed

lemma pop_vrel:
  assumes "vrel r s n (xs @ [w])"
  shows "\<exists>s'. pop s = Some (w, s') \<and> vrel r s' (Suc n) xs"
proof -
  obtain ids fl cur where "stack_repr (x_e s) (x_h s) n (xs @ [w]) ids fl cur" using assms by (auto simp: vrel_def stack_rel_repr)
  from execute_pop_repr [OF this, of 0] obtain p h where
    "execute_pop 0 (x_e s) (x_h s) = Some (w, (x_e s)\<lparr>ex_stack := p, ex_pos := ex_pos (x_e s) - 1\<rparr>, h)"
    "stack_rel ((x_e s)\<lparr>ex_stack := p, ex_pos := ex_pos (x_e s) - 1\<rparr>, h) (Suc n) xs" by blast
  then show ?thesis using assms by (auto simp: pop_def vrel_def rest_def)
qed

interpretation vms: lifo push pop "vrel r" for r
  by unfold_locales (fact push_vrel, fact pop_vrel)

lemma vrel_fields:
  assumes "vrel r s n xs"
  shows "x_m s = x_m r" "x_r0 s = x_r0 r" "x_r1 s = x_r1 r" "x_operation s = x_operation r" "x_subject s = x_subject r"
    "x_object s = x_object r" "x_local_vars s = x_local_vars r" "x_result s = x_result r" "x_cs s = x_cs r" "x_spaces s = x_spaces r"
    "x_to_wake s = x_to_wake r" "x_log s = x_log r"
    "ex_base (x_e s) = ex_base (x_e r)" "ex_start (x_e s) = ex_start (x_e r)" "ex_p (x_e s) = ex_p (x_e r)" "ex_cont (x_e s) = ex_cont (x_e r)"
    "ex_h (x_e s) = ex_h (x_e r)" "ex_c (x_e s) = ex_c (x_e r)" "ex_comm (x_e s) = ex_comm (x_e r)"
    "ex_my_comm_buff (x_e s) = ex_my_comm_buff (x_e r)" "ex_keep_stack (x_e s) = ex_keep_stack (x_e r)"
    "ex_fn_getsval_p (x_e s) = ex_fn_getsval_p (x_e r)" "ex_pos (x_e s) = int (length xs)"
proof -
  have e: "rest s = rest r" and st: "stack_rel (x_e s, x_h s) n xs" using assms by (simp_all add: vrel_def)
  note q = e [unfolded rest_def]
  show "x_m s = x_m r" using arg_cong [OF q, of x_m] by simp
  show "x_r0 s = x_r0 r" using arg_cong [OF q, of x_r0] by simp
  show "x_r1 s = x_r1 r" using arg_cong [OF q, of x_r1] by simp
  show "x_operation s = x_operation r" using arg_cong [OF q, of x_operation] by simp
  show "x_subject s = x_subject r" using arg_cong [OF q, of x_subject] by simp
  show "x_object s = x_object r" using arg_cong [OF q, of x_object] by simp
  show "x_local_vars s = x_local_vars r" using arg_cong [OF q, of x_local_vars] by simp
  show "x_result s = x_result r" using arg_cong [OF q, of x_result] by simp
  show "x_cs s = x_cs r" using arg_cong [OF q, of x_cs] by simp
  show "x_spaces s = x_spaces r" using arg_cong [OF q, of x_spaces] by simp
  show "x_to_wake s = x_to_wake r" using arg_cong [OF q, of x_to_wake] by simp
  show "x_log s = x_log r" using arg_cong [OF q, of x_log] by simp
  have f: "(x_e s)\<lparr>ex_stack := 0, ex_pos := 0\<rparr> = (x_e r)\<lparr>ex_stack := 0, ex_pos := 0\<rparr>" using arg_cong [OF q, of x_e] by simp
  show "ex_base (x_e s) = ex_base (x_e r)" using arg_cong [OF f, of ex_base] by simp
  show "ex_start (x_e s) = ex_start (x_e r)" using arg_cong [OF f, of ex_start] by simp
  show "ex_p (x_e s) = ex_p (x_e r)" using arg_cong [OF f, of ex_p] by simp
  show "ex_cont (x_e s) = ex_cont (x_e r)" using arg_cong [OF f, of ex_cont] by simp
  show "ex_h (x_e s) = ex_h (x_e r)" using arg_cong [OF f, of ex_h] by simp
  show "ex_c (x_e s) = ex_c (x_e r)" using arg_cong [OF f, of ex_c] by simp
  show "ex_comm (x_e s) = ex_comm (x_e r)" using arg_cong [OF f, of ex_comm] by simp
  show "ex_my_comm_buff (x_e s) = ex_my_comm_buff (x_e r)" using arg_cong [OF f, of ex_my_comm_buff] by simp
  show "ex_keep_stack (x_e s) = ex_keep_stack (x_e r)" using arg_cong [OF f, of ex_keep_stack] by simp
  show "ex_fn_getsval_p (x_e s) = ex_fn_getsval_p (x_e r)" using arg_cong [OF f, of ex_fn_getsval_p] by simp
  show "ex_pos (x_e s) = int (length xs)" using st by (auto simp: stack_rel_def)
qed

lemma vrel_self: "vrel r s n xs \<Longrightarrow> vrel s s n xs" by (simp add: vrel_def)

lemma vrel_trans: "vrel r s n xs \<Longrightarrow> vrel q r m ys \<Longrightarrow> vrel q s n xs" by (simp add: vrel_def)

text \<open>What changes outside of the stack changes in the same way.\<close>

lemma vrel_r0: "vrel r s n xs \<Longrightarrow> vrel (r\<lparr>x_r0 := q\<rparr>) (s\<lparr>x_r0 := q\<rparr>) n xs"
  and vrel_r1: "vrel r s n xs \<Longrightarrow> vrel (r\<lparr>x_r1 := q\<rparr>) (s\<lparr>x_r1 := q\<rparr>) n xs"
proof -
  assume v: "vrel r s n xs"
  then have e: "rest s = rest r" by (simp add: vrel_def)
  have "rest (s\<lparr>x_r0 := q\<rparr>) = (rest s)\<lparr>x_r0 := q\<rparr>" "rest (r\<lparr>x_r0 := q\<rparr>) = (rest r)\<lparr>x_r0 := q\<rparr>"
    "rest (s\<lparr>x_r1 := q\<rparr>) = (rest s)\<lparr>x_r1 := q\<rparr>" "rest (r\<lparr>x_r1 := q\<rparr>) = (rest r)\<lparr>x_r1 := q\<rparr>" by (simp_all add: rest_def)
  then show "vrel (r\<lparr>x_r0 := q\<rparr>) (s\<lparr>x_r0 := q\<rparr>) n xs" "vrel (r\<lparr>x_r1 := q\<rparr>) (s\<lparr>x_r1 := q\<rparr>) n xs"
    using v e by (simp_all add: vrel_def)
qed

lemma vrel_p: "vrel r s n xs \<Longrightarrow> vrel (upd_e (\<lambda>e. e\<lparr>ex_p := f (ex_p e)\<rparr>) r) (upd_e (\<lambda>e. e\<lparr>ex_p := f (ex_p e)\<rparr>) s) n xs"
proof -
  assume v: "vrel r s n xs"
  have "rest (upd_e (\<lambda>e. e\<lparr>ex_p := f (ex_p e)\<rparr>) q) = upd_e (\<lambda>e. e\<lparr>ex_p := f (ex_p e)\<rparr>) (rest q)" for q by (simp add: rest_def upd_e_def)
  moreover have "stack_rel ((x_e s)\<lparr>ex_p := k\<rparr>, x_h s) n xs" for k
    using v unfolding vrel_def stack_rel_def stack_inv_def by simp
  ultimately show ?thesis using v by (simp add: vrel_def upd_e_def)
qed

subsection \<open>Registers on the stack\<close>

lemma length_bytes_of [simp]: "length (bytes_of ws) = 4 * length ws"
  by (induction ws) (simp_all add: bytes_of_def)

lemma length_words_of [simp]: "length (words_of n bs) = n" by (simp add: words_of_def)

lemma bytes_of_Cons: "bytes_of (w # ws) = word_bytes 4 w @ bytes_of ws" by (simp add: bytes_of_def)

lemma words_of_Suc: "words_of (Suc n) bs = bytes_word (take 4 bs) # words_of n (drop 4 bs)"
  by (simp add: words_of_def upt_conv_Cons map_Suc_upt [symmetric] del: upt_Suc) (simp add: comp_def algebra_simps)

lemma bytes_of_words: "4 * n \<le> length bs \<Longrightarrow> bytes_of (words_of n bs) = take (4 * n) bs"
proof (induction n arbitrary: bs)
  case 0
  then show ?case by (simp add: words_of_def bytes_of_def)
next
  case (Suc n)
  have "word_bytes 4 (bytes_word (take 4 bs) :: 64 word) = take 4 bs" by (rule word_bytes_word) (use Suc.prems in simp_all)
  moreover have "take (4 * Suc n) bs = take 4 bs @ take (4 * n) (drop 4 bs)" by (simp add: take_add [symmetric])
  ultimately show ?case using Suc by (simp add: words_of_Suc bytes_of_Cons)
qed

text \<open>Names that fit into the field of an attribute.\<close>

definition attr_ok :: "attr \<Rightarrow> bool" where
  "attr_ok a \<longleftrightarrow> length (a_name a) \<le> MEDUSA_ATTRNAME_MAX \<and> CHR 0x00 \<notin> set (a_name a)"

lemma length_attr_bytes [simp]: "attr_ok a \<Longrightarrow> length (attr_bytes a) = 32"
  by (simp add: attr_bytes_def attr_ok_def MEDUSA_ATTRNAME_MAX_def)

lemma char_byte: "char_of (unat (of_nat (of_char c) :: byte)) = c"
  using nat_of_char_less_256 [of c] by (simp add: unat_of_nat)

lemma char_byte_0: "(of_nat (of_char c) :: byte) = 0 \<longleftrightarrow> c = CHR 0x00"
proof
  assume "(of_nat (of_char c) :: byte) = 0"
  then have "char_of (unat (0 :: byte)) = c" using char_byte [of c] by simp
  then show "c = CHR 0x00" by (simp add: char_of_def)
qed simp

lemma get_name_bytes:
  assumes "attr_ok a"
  shows "get_name 5 MEDUSA_ATTRNAME_MAX (attr_bytes a) = a_name a"
proof -
  let ?bs = "map (\<lambda>c. of_nat (of_char c) :: byte) (a_name a)" and ?z = "replicate (MEDUSA_ATTRNAME_MAX - length (a_name a)) (0 :: byte)"
  have l: "length (a_name a) \<le> MEDUSA_ATTRNAME_MAX" "\<forall>c \<in> set (a_name a). c \<noteq> CHR 0x00"
    using assms by (auto simp: attr_ok_def)
  have "drop 5 (attr_bytes a) = ?bs @ ?z" by (simp add: attr_bytes_def)
  then have t: "take MEDUSA_ATTRNAME_MAX (drop 5 (attr_bytes a)) = ?bs @ ?z" using l(1) by simp
  have "b \<noteq> 0" if b: "b \<in> set ?bs" for b
  proof -
    obtain c where c: "c \<in> set (a_name a)" "b = of_nat (of_char c)" using b unfolding set_map by (rule imageE)
    show ?thesis
    proof
      assume "b = 0"
      then have "c = CHR 0x00" unfolding c(2) by (rule char_byte_0 [THEN iffD1])
      moreover have "c \<noteq> CHR 0x00" using l(2) c(1) by (rule bspec)
      ultimately show False by (rule notE [rotated])
    qed
  qed
  then have "takeWhile (\<lambda>b. b \<noteq> 0) (?bs @ ?z) = ?bs @ takeWhile (\<lambda>b. b \<noteq> 0) ?z" by (rule takeWhile_append2)
  also have "takeWhile (\<lambda>b. b \<noteq> 0) ?z = []" by simp
  finally have "takeWhile (\<lambda>b. b \<noteq> 0) (?bs @ ?z) = ?bs" by simp
  then show ?thesis unfolding get_name_def t by (simp add: comp_def char_byte)
qed

lemma parse_attr_bytes:
  assumes "attr_ok a"
  shows "parse_attr 0 (attr_bytes a) = Some a"
proof -
  note l = length_attr_bytes [OF assms]
  have "get_field 0 2 (attr_bytes a) = Some (a_offset a)" "get_field (Suc (Suc 0)) 2 (attr_bytes a) = Some (a_length a)"
    "get_field 4 (Suc 0) (attr_bytes a) = Some (a_type a)"
    unfolding get_field_def l by (simp_all add: attr_bytes_def bytes_word_bytes)
  then show ?thesis using get_name_bytes [OF assms] by (simp add: parse_attr_def)
qed


text \<open>Registers that can be pushed and popped: their addresses are words that are not confused with the marks of the stack, and
  the attributes are where the addresses lead. An object is pushed by its address.\<close>

definition address :: "nat \<Rightarrow> bool" where "address p \<longleftrightarrow> 4 < p \<and> p < 2 ^ 64"

definition is_object :: "vmem \<Rightarrow> register_s \<Rightarrow> bool" where
  "is_object m r \<longleftrightarrow> (\<exists>p v. r_object r = Some p \<and> vm_var m p = Some v \<and> address p \<and> r_attr r = Attr_of (p + 8) (v_attr v)
     \<and> r_class r = v_class v \<and> r_data r = Some (v_data v) \<and> r_flags r = v_flags v)"

definition storable :: "env \<Rightarrow> vmem \<Rightarrow> register_s \<Rightarrow> bool" where
  "storable env m r \<longleftrightarrow> is_object m r
     \<or> (r_object r = None \<and> reg_ok r
        \<and> (case r_attr r of
             Attr_int \<Rightarrow> r_data r = None
           | Attr_pointer \<Rightarrow> r_data r = None
           | Attr_tmp \<Rightarrow> attr_ok (r_tmp r)
           | a \<Rightarrow> (a = Attr_str \<longrightarrow> r_data r = None) \<and> address (attr_addr env a) \<and> attr_at env m (attr_addr env a) = Some a)
        \<and> (\<forall>p. r_data r = Some p \<longrightarrow> address p) \<and> (a_type (attr_of r) = MED_TYPE_END \<longrightarrow> (\<forall>c. r_class r = Some c \<longrightarrow> address c)))"

text \<open>The bytes of the buffer that are pushed, and what a register has in common with the one popped for it.\<close>

definition contents :: "register_s \<Rightarrow> bytes" where
  "contents r = take (if r_attr r = Attr_int \<or> r_attr r = Attr_pointer then 8 else 4 * ((rlen r + 3) div 4)) (r_buf r)"

definition same_value :: "register_s \<Rightarrow> register_s \<Rightarrow> bool" where
  "same_value q r \<longleftrightarrow> attr_of q = attr_of r \<and> (r_attr r \<noteq> Attr_tmp \<longrightarrow> r_attr q = r_attr r) \<and> (r_attr r = Attr_tmp \<longleftrightarrow> r_attr q = Attr_tmp)
     \<and> r_object q = r_object r \<and> r_data q = r_data r
     \<and> (a_type (attr_of r) = MED_TYPE_END \<longrightarrow> r_class q = r_class r) \<and> (r_data r = None \<longrightarrow> contents q = contents r)"

lemma addr_ptr [simp]: "address p \<Longrightarrow> ptr (of_nat p) = Some p" "address p \<Longrightarrow> unat (of_nat p :: 64 word) = p"
  by (auto simp: ptr_def address_def unat_of_nat word_of_nat_eq_0_iff dest: nat_dvd_not_less)

lemma addr_mark [simp]:
  "address p \<Longrightarrow> (of_nat p :: 64 word) \<noteq> LTI" "address p \<Longrightarrow> (of_nat p :: 64 word) \<noteq> LTS" "address p \<Longrightarrow> (of_nat p :: 64 word) \<noteq> LTP"
  "address p \<Longrightarrow> (of_nat p :: 64 word) \<noteq> LTO" "address p \<Longrightarrow> (of_nat p :: 64 word) \<noteq> LTa" "address p \<Longrightarrow> (of_nat p :: 64 word) \<noteq> 0"
proof -
  assume a: "address p"
  have u: "unat (of_nat p :: 64 word) = p" "4 < p" using a addr_ptr(2) by (auto simp: address_def)
  show "(of_nat p :: 64 word) \<noteq> LTI" "(of_nat p :: 64 word) \<noteq> LTS" "(of_nat p :: 64 word) \<noteq> LTP" "(of_nat p :: 64 word) \<noteq> LTO"
    "(of_nat p :: 64 word) \<noteq> LTa" "(of_nat p :: 64 word) \<noteq> 0"
    using u by (auto simp: LTI_def LTS_def LTP_def LTO_def LTa_def)
qed


lemma marks [simp]: "LTS \<noteq> LTI" "LTP \<noteq> LTI" "LTP \<noteq> LTS" "LTO \<noteq> LTI" "LTO \<noteq> LTS" "LTO \<noteq> LTP" "LTa \<noteq> LTI" "LTa \<noteq> LTS" "LTa \<noteq> LTP" "LTa \<noteq> LTO"
  by code_simp+

lemma pop_two: "vrel r s n (xs @ [a, b]) \<Longrightarrow> \<exists>s1 s2. pop s = Some (b, s1) \<and> pop s1 = Some (a, s2) \<and> vrel r s2 (n + 2) xs"
proof -
  assume "vrel r s n (xs @ [a, b])"
  then have "vrel r s n ((xs @ [a]) @ [b])" by simp
  then obtain s1 where s1: "pop s = Some (b, s1)" "vrel r s1 (Suc n) (xs @ [a])" using pop_vrel by blast
  then obtain s2 where "pop s1 = Some (a, s2)" "vrel r s2 (Suc (Suc n)) xs" using pop_vrel by blast
  then show ?thesis using s1(1) by auto
qed

lemma pop_list: "vrel r s n (xs @ rev ws) \<Longrightarrow> \<exists>s'. pop_words pop (length ws) s = Some (ws, s') \<and> vrel r s' (n + length ws) xs"
  using vms.pop_words_law [of r s n xs "rev ws"] by (simp add: add.commute)

definition attr_words :: "env \<Rightarrow> register_s \<Rightarrow> 64 word list" where
  "attr_words env r =
     (if r_attr r = Attr_tmp then rev (words_of 8 (attr_bytes (r_tmp r))) @ [LTa] else [of_nat (attr_addr env (r_attr r))])"

text \<open>The first part of the default branch of \<open>R_pop\<close>.\<close>

definition pop_attr :: "env \<Rightarrow> 64 word \<Rightarrow> register_s \<Rightarrow> vm \<Rightarrow> (register_s \<times> vm) option" where
  "pop_attr env x r s =
     (if x = LTa then do {
        (ws, s) \<leftarrow> pop_words pop 8 s;
        a \<leftarrow> parse_attr 0 (bytes_of ws);
        Some (r\<lparr>r_attr := Attr_tmp, r_tmp := a\<rparr>, s) }
      else map_option (\<lambda>a. (r\<lparr>r_attr := a\<rparr>, s)) (attr_at env (x_m s) (unat x)))"

lemma pop_attr_law:
  assumes st: "storable env (x_m s0) r" "\<not> is_object (x_m s0) r" "r_attr r \<noteq> Attr_int" "r_attr r \<noteq> Attr_pointer"
    and v: "vrel s0 s n (ys @ attr_words env r)"
  shows "\<exists>x s1 s2. pop s = Some (x, s1) \<and> x \<noteq> LTI \<and> x \<noteq> LTS \<and> x \<noteq> LTP \<and> x \<noteq> LTO
    \<and> pop_attr env x q s1 = Some (q\<lparr>r_attr := r_attr r, r_tmp := (if r_attr r = Attr_tmp then r_tmp r else r_tmp q)\<rparr>, s2)
    \<and> vrel s0 s2 (n + length (attr_words env r)) ys"
proof (cases "r_attr r = Attr_tmp")
  case True
  then have ok: "attr_ok (r_tmp r)" using st by (simp add: storable_def)
  let ?w = "words_of 8 (attr_bytes (r_tmp r))"
  have "vrel s0 s n ((ys @ rev ?w) @ [LTa])" using v True by (simp add: attr_words_def)
  then obtain s1 where s1: "pop s = Some (LTa, s1)" "vrel s0 s1 (Suc n) (ys @ rev ?w)" using pop_vrel by blast
  obtain s2 where s2: "pop_words pop 8 s1 = Some (?w, s2)" "vrel s0 s2 (Suc n + 8) ys" using pop_list [OF s1(2)] by auto
  have "bytes_of ?w = attr_bytes (r_tmp r)" using bytes_of_words [of 8 "attr_bytes (r_tmp r)"] ok by simp
  then have "pop_attr env LTa q s1 = Some (q\<lparr>r_attr := r_attr r, r_tmp := r_tmp r\<rparr>, s2)"
    using s2(1) parse_attr_bytes [OF ok] True by (simp add: pop_attr_def)
  then show ?thesis
    using s1(1) s2(2) True by (intro exI [of _ LTa]) (simp add: attr_words_def add.commute)
next
  case False
  let ?p = "attr_addr env (r_attr r)"
  have a: "address ?p" "attr_at env (x_m s0) ?p = Some (r_attr r)"
    using st False by (auto simp: storable_def split: attr_ref.splits)
  have "vrel s0 s n (ys @ [of_nat ?p])" using v False by (simp add: attr_words_def)
  then obtain s1 where s1: "pop s = Some (of_nat ?p, s1)" "vrel s0 s1 (Suc n) ys" using pop_vrel by blast
  have "pop_attr env (of_nat ?p) q s1 = Some (q\<lparr>r_attr := r_attr r, r_tmp := r_tmp q\<rparr>, s1)"
    using a vrel_fields(1) [OF s1(2)] by (simp add: pop_attr_def)
  then show ?thesis using s1 a(1) False by (intro exI [of _ "of_nat ?p"]) (simp add: attr_words_def)
qed


definition data_words :: "register_s \<Rightarrow> 64 word list" where
  "data_words r = (case r_data r of None \<Rightarrow> rev (words_of ((rlen r + 3) div 4) (r_buf r)) @ [0] | Some p \<Rightarrow> [of_nat p])"

definition class_words :: "register_s \<Rightarrow> 64 word list" where
  "class_words r = (if a_type (attr_of r) = MED_TYPE_END then [addr (r_class r)] else [])"

definition pop_data :: "register_s \<Rightarrow> vm \<Rightarrow> (register_s \<times> vm) option" where
  "pop_data r s = do {
     (r, s) \<leftarrow> (if a_type (attr_of r) = MED_TYPE_END then map_option (\<lambda>(w, s). (r\<lparr>r_class := ptr w\<rparr>, s)) (pop s) else Some (r, s));
     (x, s) \<leftarrow> pop s;
     if x \<noteq> 0 then Some (r\<lparr>r_data := Some (unat x)\<rparr>, s)
     else do {
       let n = (rlen r + 3) div 4;
       (ws, s) \<leftarrow> pop_words pop n s;
       if 4 * n \<le> length (r_buf r) then Some (r\<lparr>r_data := None, r_buf := put_bytes 0 (bytes_of ws) (r_buf r)\<rparr>, s) else None } }"

lemma R_pop_default:
  assumes "pop s = Some (x, s1)" "x \<noteq> LTI" "x \<noteq> LTS" "x \<noteq> LTP" "x \<noteq> LTO"
  shows "R_pop env r s = Option.bind (pop_attr env x (init_reg OBJECT_FLAG_LOCAL r) s1) (\<lambda>(r, s). pop_data r s)"
  using assms by (simp add: R_pop_def pop_attr_def pop_data_def Let_def)

lemma attr_of_class [simp]: "attr_of (r\<lparr>r_class := c\<rparr>) = attr_of r" "attr_of (r\<lparr>r_data := d\<rparr>) = attr_of r" "attr_of (r\<lparr>r_object := ob\<rparr>) = attr_of r"
  "attr_of (r\<lparr>r_flags := fl\<rparr>) = attr_of r"
  by (simp_all add: attr_of_def split: attr_ref.split)

lemma pop_data_law:
  assumes eq: "attr_of q = attr_of r" and c: "a_type (attr_of r) = MED_TYPE_END \<longrightarrow> (\<forall>c. r_class r = Some c \<longrightarrow> address c)" and d: "\<forall>p. r_data r = Some p \<longrightarrow> address p"
    and len: "r_data r = None \<longrightarrow> 4 * ((rlen r + 3) div 4) \<le> length (r_buf r)" and ok: "reg_ok q" "reg_ok r"
    and v: "vrel s0 s n (xs @ data_words r @ class_words r)"
  shows "\<exists>q' s'. pop_data q s = Some (q', s') \<and> vrel s0 s' (n + length (data_words r @ class_words r)) xs
    \<and> attr_of q' = attr_of q \<and> r_attr q' = r_attr q \<and> r_tmp q' = r_tmp q \<and> r_object q' = r_object q \<and> r_flags q' = r_flags q \<and> reg_ok q'
    \<and> r_data q' = r_data r \<and> (a_type (attr_of r) = MED_TYPE_END \<longrightarrow> r_class q' = r_class r)
    \<and> (r_data r = None \<longrightarrow> take (4 * ((rlen r + 3) div 4)) (r_buf q') = take (4 * ((rlen r + 3) div 4)) (r_buf r))"
proof -
  let ?k = "(rlen r + 3) div 4" and ?q = "q\<lparr>r_class := (if a_type (attr_of r) = MED_TYPE_END then r_class r else r_class q)\<rparr>"
  have pc: "a_type (attr_of r) = MED_TYPE_END \<Longrightarrow> ptr (addr (r_class r)) = r_class r" using c by (cases "r_class r") (auto simp: addr_def ptr_def)
  have rl: "rlen ?q = rlen r" "attr_of ?q = attr_of r" using eq by (simp_all add: rlen_def)
  have "\<exists>s1. (if a_type (attr_of q) = MED_TYPE_END then map_option (\<lambda>(w, s). (q\<lparr>r_class := ptr w\<rparr>, s)) (pop s) else Some (q, s)) = Some (?q, s1)
      \<and> vrel s0 s1 (n + length (class_words r)) (xs @ data_words r)"
  proof (cases "a_type (attr_of r) = MED_TYPE_END")
    case True
    then have "vrel s0 s n ((xs @ data_words r) @ [addr (r_class r)])" using v by (simp add: class_words_def)
    then obtain s1 where "pop s = Some (addr (r_class r), s1)" "vrel s0 s1 (Suc n) (xs @ data_words r)" using pop_vrel by blast
    then show ?thesis using True pc eq by (simp add: class_words_def)
  next
    case False
    then show ?thesis using v eq by (simp add: class_words_def)
  qed
  then obtain s1 where s1: "(if a_type (attr_of q) = MED_TYPE_END then map_option (\<lambda>(w, s). (q\<lparr>r_class := ptr w\<rparr>, s)) (pop s) else Some (q, s)) = Some (?q, s1)"
      "vrel s0 s1 (n + length (class_words r)) (xs @ data_words r)" by blast
  show ?thesis
  proof (cases "r_data r")
    case (Some p)
    have "vrel s0 s1 (n + length (class_words r)) (xs @ [of_nat p])" using s1(2) Some by (simp add: data_words_def)
    then obtain s2 where s2: "pop s1 = Some (of_nat p, s2)" "vrel s0 s2 (Suc (n + length (class_words r))) xs" using pop_vrel by blast
    have "pop_data q s = Some (?q\<lparr>r_data := Some p\<rparr>, s2)"
      using s1(1) s2(1) d Some by (simp only: pop_data_def Option.bind.bind_lunit case_prod_conv) simp
    then show ?thesis using s2(2) Some ok eq by (simp add: data_words_def reg_ok_def)
  next
    case None
    let ?w = "words_of ?k (r_buf r)"
    have l: "4 * ?k \<le> length (r_buf r)" "length (r_buf q) = length (r_buf r)" using len None ok by (simp_all add: reg_ok_def)
    have "vrel s0 s1 (n + length (class_words r)) ((xs @ rev ?w) @ [0])" using s1(2) None by (simp add: data_words_def)
    then obtain s2 where s2: "pop s1 = Some (0, s2)" "vrel s0 s2 (Suc (n + length (class_words r))) (xs @ rev ?w)" using pop_vrel by blast
    obtain s3 where s3: "pop_words pop ?k s2 = Some (?w, s3)" "vrel s0 s3 (Suc (n + length (class_words r)) + ?k) xs"
      using pop_list [OF s2(2)] by auto
    have b: "bytes_of ?w = take (4 * ?k) (r_buf r)" using bytes_of_words l by simp
    let ?q' = "?q\<lparr>r_data := None, r_buf := put_bytes 0 (take (4 * ?k) (r_buf r)) (r_buf q)\<rparr>"
    have "pop_data q s = Some (?q', s3)"
      using s1(1) s2(1) s3(1) l rl b by (simp only: pop_data_def Option.bind.bind_lunit case_prod_conv) (simp add: Let_def)
    moreover have "take (4 * ?k) (r_buf ?q') = take (4 * ?k) (r_buf r)" using l by (simp add: put_bytes_def)
    moreover have "vrel s0 s3 (n + length (data_words r @ class_words r)) xs"
      using s3(2) None by (simp add: data_words_def algebra_simps)
    ultimately show ?thesis using None ok l eq by (simp add: reg_ok_def)
  qed
qed


lemma word_first: "reg_ok r \<Longrightarrow> \<exists>w :: 64 word. get_field 0 8 (r_buf r) = Some w \<and> word_bytes 8 w = take 8 (r_buf r)"
  by (simp add: get_field_def reg_ok_def MAX_REG_SIZE_def word_bytes_word)

lemma load_word_contents:
  "word_bytes 8 (w :: 64 word) = take 8 (r_buf r) \<Longrightarrow> reg_ok r \<Longrightarrow> reg_ok q
    \<Longrightarrow> take 8 (r_buf (load_word a w q)) = take 8 (r_buf r) \<and> reg_ok (load_word a w q)"
  by (simp add: load_word_def put_bytes_def reg_ok_def MAX_REG_SIZE_def)

lemma init_reg_simps [simp]: "reg_ok (init_reg fl q) = reg_ok q" "r_tmp (init_reg fl q) = r_tmp q" "r_flags (init_reg fl q) = fl"
  "r_object (init_reg fl q) = None" "r_class (init_reg fl q) = None" "r_buf (init_reg fl q) = r_buf q"
  by (simp_all add: init_reg_def reg_ok_def)

lemma load_word_simps [simp]: "r_tmp (load_word a w q) = r_tmp q" "r_flags (load_word a w q) = r_flags q" "r_object (load_word a w q) = r_object q"
  "r_class (load_word a w q) = r_class q" "r_attr (load_word a w q) = a" "r_data (load_word a w q) = None"
  by (simp_all add: load_word_def)

lemma static_types [simp]: "a_type execute_attr_int \<noteq> MED_TYPE_END" "a_type execute_attr_pointer \<noteq> MED_TYPE_END"
  by code_simp+

text \<open>The register \<open>q'\<close> that is popped for a register \<open>r\<close> that was pushed, into \<open>q\<close>.\<close>

definition popped :: "register_s \<Rightarrow> register_s \<Rightarrow> register_s \<Rightarrow> bool" where
  "popped q r q' \<longleftrightarrow> same_value q' r \<and> reg_ok q' \<and> r_tmp q' = (if r_attr r = Attr_tmp then r_tmp r else r_tmp q)
     \<and> r_flags q' = (if r_object r = None then OBJECT_FLAG_LOCAL else r_flags r)"

lemma pop_marked:
  assumes "vrel s0 s n (xs @ [w, t])"
  shows "\<exists>s1 s2. pop s = Some (t, s1) \<and> pop s1 = Some (w, s2) \<and> vrel s0 s2 (n + 2) xs \<and> x_m s2 = x_m s0"
  using pop_two [OF assms] vrel_fields(1) by blast

lemma R_pop_object:
  assumes o: "is_object (x_m s0) r" and v: "vrel s0 s n (xs @ [addr (r_object r), LTO])" and q: "reg_ok q"
  shows "\<exists>q' s'. R_pop env q s = Some (q', s') \<and> vrel s0 s' (n + 2) xs \<and> popped q r q'"
proof -
  obtain p x where p: "r_object r = Some p" "vm_var (x_m s0) p = Some x" "address p" "r_attr r = Attr_of (p + 8) (v_attr x)"
    "r_class r = v_class x" "r_data r = Some (v_data x)" "r_flags r = v_flags x" using o by (auto simp: is_object_def)
  from pop_marked [OF v] obtain s1 s2 where s: "pop s = Some (LTO, s1)" "pop s1 = Some (addr (r_object r), s2)"
    "vrel s0 s2 (n + 2) xs" "x_m s2 = x_m s0" by blast
  have "unat (addr (r_object r)) = p" using p(1,3) by (simp add: addr_def)
  then show ?thesis
    using s p q by (simp add: R_pop_def obj_to_reg_def popped_def same_value_def attr_of_def) (simp add: reg_ok_def init_reg_def)
qed

lemma R_pop_word:
  assumes v: "vrel s0 s n (xs @ [w, t])" and w: "word_bytes 8 w = take 8 (r_buf r)" and ok: "reg_ok r" "reg_ok q"
    and a: "t = LTI \<and> r_attr r = Attr_int \<or> t = LTP \<and> r_attr r = Attr_pointer" and o: "r_object r = None" "r_data r = None"
  shows "\<exists>q' s'. R_pop env q s = Some (q', s') \<and> vrel s0 s' (n + 2) xs \<and> popped q r q'"
proof -
  from pop_marked [OF v] obtain s1 s2 where s: "pop s = Some (t, s1)" "pop s1 = Some (w, s2)" "vrel s0 s2 (n + 2) xs" by blast
  let ?q = "init_reg OBJECT_FLAG_LOCAL q"
  have "reg_ok ?q" using ok(2) by simp
  note b = load_word_contents [OF w ok(1) this]
  have "R_pop env q s = Some (load_word (r_attr r) w ?q, s2)" using s a by (auto simp: R_pop_def)
  moreover have "popped q r (load_word (r_attr r) w ?q)"
    using a o b by (auto simp: popped_def same_value_def attr_of_def contents_def)
  ultimately show ?thesis using s(3) by blast
qed

lemma plain_words:
  assumes "storable env m r" "\<not> is_object m r" "r_attr r \<noteq> Attr_int" "r_attr r \<noteq> Attr_pointer" "reg_words env r m = Some ws"
  shows "ws = data_words r @ class_words r @ attr_words env r" "r_data r = None \<longrightarrow> 4 * ((rlen r + 3) div 4) \<le> length (r_buf r)"
  using assms
  by (auto simp: reg_words_def storable_def data_words_def class_words_def attr_words_def Let_def split: option.splits if_splits)

lemma R_pop_plain:
  assumes st: "storable env (x_m s0) r" "\<not> is_object (x_m s0) r" "r_attr r \<noteq> Attr_int" "r_attr r \<noteq> Attr_pointer"
    and w: "reg_words env r (x_m s0) = Some ws" and v: "vrel s0 s n (xs @ ws)" and q: "reg_ok q"
  shows "\<exists>q' s'. R_pop env q s = Some (q', s') \<and> vrel s0 s' (n + length ws) xs \<and> popped q r q'"
proof -
  note W = plain_words [OF st w]
  have o: "r_object r = None" "reg_ok r" and da: "\<forall>p. r_data r = Some p \<longrightarrow> address p"
    "a_type (attr_of r) = MED_TYPE_END \<longrightarrow> (\<forall>c. r_class r = Some c \<longrightarrow> address c)"
    using st(1,2) by (simp_all add: storable_def)
  let ?qi = "init_reg OBJECT_FLAG_LOCAL q"
  define u where "u = ?qi\<lparr>r_attr := r_attr r, r_tmp := (if r_attr r = Attr_tmp then r_tmp r else r_tmp ?qi)\<rparr>"
  have "vrel s0 s n ((xs @ data_words r @ class_words r) @ attr_words env r)" using v W(1) by simp
  from pop_attr_law [OF st this, of ?qi] obtain x s1 s2 where s: "pop s = Some (x, s1)" "x \<noteq> LTI" "x \<noteq> LTS" "x \<noteq> LTP" "x \<noteq> LTO"
    "pop_attr env x ?qi s1 = Some (u, s2)" "vrel s0 s2 (n + length (attr_words env r)) (xs @ data_words r @ class_words r)" unfolding u_def by blast
  have a: "attr_of u = attr_of r" by (simp add: u_def attr_of_def split: attr_ref.split)
  have ok: "reg_ok u" using q by (simp add: u_def reg_ok_def init_reg_def)
  have f: "r_attr u = r_attr r" "r_tmp u = (if r_attr r = Attr_tmp then r_tmp r else r_tmp q)" "r_object u = None" "r_flags u = OBJECT_FLAG_LOCAL"
    by (simp_all add: u_def)
  from pop_data_law [OF a da(2,1) W(2) ok o(2) s(7)] obtain q' s' where q': "pop_data u s2 = Some (q', s')"
    "vrel s0 s' (n + length (attr_words env r) + length (data_words r @ class_words r)) xs" "attr_of q' = attr_of u" "r_attr q' = r_attr u"
    "r_tmp q' = r_tmp u" "r_object q' = r_object u" "r_flags q' = r_flags u" "reg_ok q'" "r_data q' = r_data r"
    "a_type (attr_of r) = MED_TYPE_END \<longrightarrow> r_class q' = r_class r"
    "r_data r = None \<longrightarrow> take (4 * ((rlen r + 3) div 4)) (r_buf q') = take (4 * ((rlen r + 3) div 4)) (r_buf r)" by (elim exE conjE) (rule that, assumption+)
  have "R_pop env q s = Some (q', s')" unfolding R_pop_default [OF s(1-5)] s(6) using q'(1) by simp
  moreover have "vrel s0 s' (n + length ws) xs" using q'(2) W(1) by (simp add: algebra_simps)
  moreover have "same_value q' r"
    using q'(3,4,6,9,10,11) f a o(1) st(3,4) by (simp add: same_value_def contents_def rlen_def)
  ultimately show ?thesis using q'(5,7,8) f o(1) by (simp add: popped_def)
qed

lemma R_pop_law:
  assumes w: "reg_words env r (x_m s0) = Some ws" and st: "storable env (x_m s0) r" and v: "vrel s0 s n (xs @ ws)" and q: "reg_ok q"
  shows "\<exists>q' s'. R_pop env q s = Some (q', s') \<and> vrel s0 s' (n + length ws) xs \<and> popped q r q'"
proof (cases "is_object (x_m s0) r")
  case True
  then have "ws = [addr (r_object r), LTO]" using w by (auto simp: is_object_def reg_words_def)
  then show ?thesis using R_pop_object [OF True, of s n xs q] v q by simp
next
  case no: False
  show ?thesis
  proof (cases "r_attr r = Attr_int \<or> r_attr r = Attr_pointer")
    case True
    have o: "r_object r = None" "r_data r = None" "reg_ok r" using st no True by (auto simp: storable_def)
    obtain x :: "64 word" where x: "get_field 0 8 (r_buf r) = Some x" "word_bytes 8 x = take 8 (r_buf r)" using word_first [OF o(3)] by blast
    define t where "t = (if r_attr r = Attr_int then LTI else LTP)"
    have "ws = [x, t]" using w True x(1) o(2) by (auto simp: reg_words_def raw_def t_def)
    moreover have "t = LTI \<and> r_attr r = Attr_int \<or> t = LTP \<and> r_attr r = Attr_pointer" using True by (auto simp: t_def)
    ultimately show ?thesis using R_pop_word [OF _ x(2) o(3) q _ o(1,2)] v by simp
  next
    case False
    then show ?thesis using R_pop_plain [OF st no _ _ w v q] by blast
  qed
qed

end
