(* ===== verification/Exec_Props.thy ===== *)
theory Exec_Props
  imports Exec_Law Space_Inv
begin

text \<open>
  What the interpreter of handlers does: its properties, and a state in which they can be tried.
\<close>

definition demo_heap :: "64 word stack_heap" where
  "demo_heap = \<lparr>sh_cell = [0 \<mapsto> \<lparr>sk_prev = None, sk_next = None, sk_size = STACKLEN, sk_my_offset = 0, sk_stack = \<lambda>_. None\<rparr>],
      sh_brk = 1, sh_free = None, sh_mem = 1\<rparr>"

lemma demo_heap_rel: "stack_rel (fst demo_stack, demo_heap) 8192 []"
proof -
  let ?h0 = "\<lparr>sh_cell = Map.empty, sh_brk = 0, sh_free = None, sh_mem = 2\<rparr> :: 64 word stack_heap"
  have "execute_get_stack ?h0 = Some (Some 0, demo_heap)" by (simp add: execute_get_stack_def demo_heap_def)
  from new_stack_rel [of ?h0 "[]", OF _ _ _ this, of "fst demo_stack"] show ?thesis by (simp add: demo_stack_def)
qed

text \<open>C15. A register that is pushed is popped, into any register, with the same value: the same attribute, the same object or
  data, the same bytes of its buffer; the stack and all else is as before. Only the flags are not kept: a register that is not an object comes
  back as a local one, so that a read-only value can then be changed.\<close>

theorem pushed_register_is_popped:
  assumes "reg_words env r (x_m s) = Some ws" "storable env (x_m s) r" "stack_rel (x_e s, x_h s) n xs" "length ws \<le> n" "reg_ok q"
  shows "\<exists>s1 s2 q'. R_push env r s = Some s1 \<and> R_pop env q s1 = Some (q', s2)
    \<and> rest s2 = rest s \<and> stack_rel (x_e s2, x_h s2) n xs \<and> popped q r q'"
proof -
  have "vrel s s (length ws + (n - length ws)) xs" using assms(3,4) by (simp add: vrel_def)
  from vms.push_words_law [OF this] obtain s1 where
    s1: "push_words push ws s = Some s1" "vrel s s1 (n - length ws) (xs @ ws)" by blast
  from R_pop_law [OF assms(1,2) s1(2) assms(5)] obtain q' s2 where
    "R_pop env q s1 = Some (q', s2)" "vrel s s2 (n - length ws + length ws) xs" "popped q r q'" by blast
  then show ?thesis using s1(1) assms(1,4) by (simp add: R_push_def vrel_def)
qed

definition demo_env :: env where
  "demo_env = \<lparr>en_code = (\<lambda>_. None), en_handler = (\<lambda>_. 0), en_func = (\<lambda>_. None), en_builtin = (\<lambda>_. None), en_class = (\<lambda>_. None),
     en_attrs = (\<lambda>_. 0), en_attr = (\<lambda>_. None), en_int = 8, en_str = 40, en_ptr = 72, en_names = (\<lambda>_. 0), en_class_name = (\<lambda>_. 0),
     en_comm_name = (\<lambda>_. 0), en_comm_find = (\<lambda>_. None), en_comm = (\<lambda>_. None), en_vs_id = (\<lambda>_. 0),
     en_fetch = (\<lambda>_ _ _ _. None), en_update = (\<lambda>_ _ _ _. None)\<rparr>"

definition demo_vm :: vm where
  "demo_vm = \<lparr>x_e = fst demo_stack, x_h = demo_heap, x_m = no_mem, x_r0 = int_reg 4 0 MED_TYPE_UNSIGNED, x_r1 = int_reg 4 0 MED_TYPE_UNSIGNED,
     x_operation = 0, x_subject = 0, x_object = 0, x_local_vars = None, x_result = 0,
     x_cs = \<lparr>cs_names = [], cs_heap = (\<lambda>_. None), cs_next = 0\<rparr>,
     x_spaces = spaces_of [] (tree_init 9), x_to_wake = [], x_log = []\<rparr>"

lemma demo_vm_rel: "stack_rel (x_e demo_vm, x_h demo_vm) 8192 []"
  using demo_heap_rel by (simp add: demo_vm_def)

lemma int_reg_storable: "storable env m (int_reg n w t)"
  by (simp add: storable_def is_object_def int_reg_def reg_ok_def MAX_REG_SIZE_def attr_ok_def)

lemma int_reg_words: "t \<noteq> MED_TYPE_END \<Longrightarrow> \<exists>ws. reg_words env (int_reg 4 w t) m = Some ws \<and> length ws = 11"
  by (simp add: reg_words_def live_attr_def Let_def) (simp add: int_reg_def attr_of_def reg_ok_def MAX_REG_SIZE_def)

theorem pushed_register_is_popped_witness:
  "\<exists>s1 s2 q. R_push demo_env (int_reg 4 7 MED_TYPE_UNSIGNED) demo_vm = Some s1
     \<and> R_pop demo_env (x_r0 demo_vm) s1 = Some (q, s2) \<and> rest s2 = rest demo_vm
     \<and> r_tmp q = r_tmp (int_reg 4 7 MED_TYPE_UNSIGNED) \<and> r_flags q = OBJECT_FLAG_LOCAL \<and> take 4 (r_buf q) = word_bytes 4 (7 :: 64 word)"
proof -
  let ?r = "int_reg 4 7 MED_TYPE_UNSIGNED"
  have "MED_TYPE_UNSIGNED \<noteq> MED_TYPE_END" by code_simp
  from int_reg_words [OF this, of demo_env 7 no_mem] obtain ws where
    ws: "reg_words demo_env ?r (x_m demo_vm) = Some ws" "length ws = 11" by (auto simp: demo_vm_def)
  have "length ws \<le> 8192" "reg_ok (x_r0 demo_vm)" using ws(2) by (simp_all add: demo_vm_def)
  from pushed_register_is_popped [OF ws(1) int_reg_storable demo_vm_rel this] obtain s1 s2 q where
    q: "R_push demo_env ?r demo_vm = Some s1" "R_pop demo_env (x_r0 demo_vm) s1 = Some (q, s2)" "rest s2 = rest demo_vm"
      "popped (x_r0 demo_vm) ?r q" by blast
  have r: "r_attr ?r = Attr_tmp" "r_object ?r = None" "r_data ?r = None" "rlen ?r = 4" by simp_all (simp_all add: int_reg_def)
  then have "contents ?r = word_bytes 4 (7 :: 64 word)" by (simp add: contents_def)
  moreover have "contents q = take 4 (r_buf q)"
    using q(4) r by (simp add: popped_def same_value_def contents_def rlen_def)
  ultimately have "take 4 (r_buf q) = word_bytes 4 (7 :: 64 word)" using q(4) r by (simp add: popped_def same_value_def)
  then show ?thesis using q r by (intro exI [of _ s1] exI [of _ s2] exI [of _ q]) (simp add: popped_def)
qed

end
