(* ===== verification/Spec2Isabelle.thy ===== *)
theory Spec2Isabelle
  imports Virtual_Spaces Hash_Table Event_Mask Object_Endian Objects Classes Event_Types Tree_Inv Space_Inv Space_Members Events Generic Exec_Stack Buffer_Queues Comm_Buf Worker Mcp Variables Registers Alu Rbac_Props Exec_Props
begin

text \<open>
  Constable is the authorization server of the Medusa security system. A kernel asks it whether an
  operation of a subject (a process) on an object may happen; a configuration names virtual spaces
  (sets of nodes of a unified name space tree) and the handlers that decide. This development models
  the parts that make the decision, file by file; every definition has the name of the C function it
  translates, where HOL allows the name.

  \<^bold>\<open>Parts.\<close>
  \<^item> \<open>Prelude\<close>: C strings and their comparison, the two ways a function leaves (a value, or the exit of
    \<open>fatal()\<close>), lemmas on lists.
  \<^item> \<open>Virtual_Spaces\<close> (\<open>vs.c\<close>): sets of identifiers as arrays of 32-bit words. The locale \<open>vs_sets\<close> is
    the interface the other components use; its interpretation shows that the loops of the code are
    the set operations.
  \<^item> \<open>Hash_Table\<close> (\<open>hash.c\<close>), \<open>Event_Mask\<close> (\<open>event.c\<close>, bitmaps).
  \<^item> \<open>Medusa_Object\<close>, \<open>Object_Endian\<close>, \<open>Objects\<close> (\<open>medusa_object.h\<close>, \<open>object_endian.c\<close>, \<open>object.c\<close>): kernel
    objects as bytes, values of attributes in both byte orders, the sets and masks an object carries.
  \<^item> \<open>Classes\<close> (\<open>class.c\<close>), \<open>Event_Types\<close> (\<open>event.c\<close>, first half): what a connection registers.
  \<^item> \<open>Name_Tree\<close> and \<open>Tree_Inv\<close> (\<open>tree.c\<close>): the tree, creation and lookup of paths, alternatives by
    regular expressions; its invariant and what creation, lookup and expansion do.
  \<^item> \<open>Spaces\<close>, \<open>Space_Inv\<close>, \<open>Space_Members\<close> (\<open>space.c\<close>): spaces, their members, their identifiers and
    the events that name them.
  \<^item> \<open>Events\<close> (\<open>event.c\<close>, second half): the walk over the handlers of an event and the combination of
    their results.
  \<^item> \<open>Generic\<close> (\<open>generic.c\<close>): the class handlers by which an object carries its node of a tree.
  \<^item> \<open>Buffer_Queues\<close>, \<open>Comm_Buf\<close> (\<open>comm.h\<close>, \<open>comm_buf.c\<close>): queues of buffers over one list of free cells, the
    pool of buffers and who waits for which.
  \<^item> \<open>Worker\<close>, \<open>Mcp\<close> (\<open>comm.c\<close>, \<open>mcp/mcp.c\<close>): the rounds of a worker over a decision request and the protocol with the kernel: reading
    of messages, requests for objects, answers. \<open>Byte_Words\<close> has the lemmas on words as bytes.
  \<^item> \<open>Exec_Stack\<close>, \<open>Variables\<close>, \<open>Registers\<close>, \<open>Alu\<close> (\<open>language/execute.c\<close>, \<open>variables.c\<close>, \<open>alu2.c\<close>, \<open>alu.c\<close>): the stack of the interpreter of
    handlers, its variables, its registers and the operators on them.
  \<^item> \<open>Execute\<close> (\<open>language/execute.c\<close>, \<open>language/constant.c\<close>): the interpreter, instruction by instruction: registers on the stack, variables by name,
    calls and returns, the start and the resumption of a handler. \<open>Exec_Law\<close> shows that its stack is an instance of the locale \<open>lifo\<close> of
    \<open>Exec_Stack\<close> and what a pushed register is popped as; \<open>Exec_Props\<close> has its properties.
  \<^item> \<open>Rbac\<close> (\<open>rbac/users.c\<close>, \<open>rbac/roles.c\<close>): users, roles, assignments, the hierarchy and the permissions of roles. \<open>Rbac_Inv\<close> has the locale
    \<open>inheritance\<close> of the two recursive walks along the hierarchy, \<open>Rbac_Ok\<close> the invariant, \<open>Rbac_Ops\<close>, \<open>Rbac_Hier\<close> and \<open>Rbac_Del\<close> what each
    operation does to it, \<open>Rbac_Proc\<close> (\<open>rbac/proc.c\<close>, \<open>rbac/adm_perm.c\<close>) the handlers of processes and of the administration, and
    \<open>Rbac_Props\<close> the properties of all reachable states.

  \<^bold>\<open>State.\<close> malloc'ed structures are cells of stores and pointers are their numbers; lists linked
  through their cells are lists in the order of the links. A failing \<open>malloc\<close> is an argument of the
  operation (a flag or a number of free cells). \<open>None\<close> is undefined behaviour of the C program (an
  access outside an array, a null pointer) or a recursion that has not ended within its bound.

  \<^bold>\<open>Bounds.\<close> Recursion of the code that nothing bounds carries an argument: the walk along a path
  (bounded by the length of the path unless the tree has a leaf on it, in which case
  \<open>find_path_diverges_below_leaf\<close> shows that no bound is enough), the evaluation of spaces
  (\<open>space_for_every_path_finds_members\<close> gives a bound that is enough; \<open>mutual_exclusion_diverges\<close>
  a configuration for which none is).

  \<^bold>\<open>Parameters.\<close> The C library's regular expressions (\<open>regex_lib\<close>), the functions of event handlers
  the class handlers that the walk over an event calls, and for the interpreter (\<open>env\<close>) the compiled code, the built-in functions
  and the fetch and update operations of a connection.

  \<^bold>\<open>What is not modelled.\<close> Printing and error strings; big-endian branches; sockets, devices, threads and signals (an operation is one
  atomic step; only the lock of the roles is a part of the state, because it decides whether a call returns). A class handler's \<open>get_vs\<close> reads
  the object only: that \<open>generic_get_vs\<close> may run the \<open>set_handler\<close> functions again is modelled in \<open>Generic\<close>, and is not seen
  through \<open>Objects\<close>. The compiler of the configuration language and the two configuration files (\<open>language/conf_lang.c\<close>, \<open>mcp/conf_lang.c\<close>) are
  tables for the compiler generator in \<open>libmcompiler\<close>, which is a library of its own. Forced code (\<open>force\<close>, \<open>Mlibc\<close>) relocates machine code for
  another process.
\<close>

end
